(* ===== verification/Prelude.thy ===== *)
theory Prelude
  imports Main "HOL-Library.Word"
begin

text \<open>
  Shared vocabulary of the development: names for the machine types of the kernel, the
  operations of the C++ header \<^verbatim>\<open><bit>\<close> on \<^typ>\<open>'a word\<close>, and the facts on words, lists
  and function updates that several components use.

  A pointer to an object that the kernel allocates is an \<open>addr\<close>; a pointer that may be
  null is a \<open>ptr\<close>, with \<^const>\<open>None\<close> for \<^verbatim>\<open>nullptr\<close>.  Every collection below is a set of rewrite
  rules that proofs in other theories pass to the simplifier by name.
\<close>

unbundle bit_operations_syntax

named_theorems bit_facts \<open>facts on the operations of the bit header\<close>
named_theorems store_simps \<open>reads after writes on the explicit stores\<close>

subsection \<open>Machine types\<close>

type_synonym u8 = "8 word"
type_synonym u16 = "16 word"
type_synonym u32 = "32 word"
type_synonym u64 = "64 word"
type_synonym u128 = "128 word"

type_synonym addr = "64 word"
type_synonym ptr = "64 word option"

subsection \<open>The bit header\<close>

text \<open>
  \<open>countr_zero\<close> and \<open>countl_zero\<close> count the zero bits below the lowest and above the
  highest set bit, the whole width for zero, as the C++ functions do.
\<close>

definition countr_zero :: "'a::len word \<Rightarrow> nat" where
  "countr_zero w = length (takeWhile (\<lambda>i. \<not> bit w i) [0..<LENGTH('a)])"

definition countl_zero :: "'a::len word \<Rightarrow> nat" where
  "countl_zero w = length (takeWhile (\<lambda>i. \<not> bit w i) (rev [0..<LENGTH('a)]))"

definition bit_width :: "'a::len word \<Rightarrow> nat" where
  "bit_width w = LENGTH('a) - countl_zero w"

definition has_single_bit :: "'a::len word \<Rightarrow> bool" where
  "has_single_bit w \<longleftrightarrow> length (filter (bit w) [0..<LENGTH('a)]) = 1"

definition bit_floor :: "'a::len word \<Rightarrow> 'a word" where
  "bit_floor w = (if w = 0 then 0 else push_bit (bit_width w - 1) 1)"

definition bit_ceil :: "'a::len word \<Rightarrow> 'a word" where
  "bit_ceil w = (if w \<le> 1 then 1 else push_bit (bit_width (w - 1)) 1)"

subsection \<open>Lists\<close>

lemma upt_split: "n < m \<Longrightarrow> [0..<m] = [0..<n] @ n # [Suc n..<m]"
  using upt_add_eq_append [of 0 n "m - n"] by (simp add: upt_conv_Cons)

lemma takeWhile_upt_length:
  assumes "n < m" "P n" "\<And>i. i < n \<Longrightarrow> \<not> P i"
  shows "length (takeWhile (\<lambda>i. \<not> P i) [0..<m]) = n"
proof -
  have "[0..<m] = [0..<n] @ n # [Suc n..<m]"
    by (rule upt_split [OF assms(1)])
  then show ?thesis
    using assms by (simp add: takeWhile_append)
qed

lemma takeWhile_rev_upt_length:
  assumes "n < m" "P n" "\<And>i. n < i \<Longrightarrow> i < m \<Longrightarrow> \<not> P i"
  shows "length (takeWhile (\<lambda>i. \<not> P i) (rev [0..<m])) = m - Suc n"
proof -
  have "rev [0..<m] = rev [Suc n..<m] @ n # rev [0..<n]"
    by (subst upt_split [OF assms(1)]) simp
  moreover have "\<forall>i\<in>set (rev [Suc n..<m]). \<not> P i"
    using assms(3) by simp
  ultimately show ?thesis
    using assms(2) by (simp add: takeWhile_append)
qed

lemma nth_in_range_update [simp]:
  "i < length xs \<Longrightarrow> xs[i := v] ! j = (if i = j then v else xs ! j)"
  by (simp add: nth_list_update)

subsection \<open>Words\<close>

lemma word_neq_0_bit: "w \<noteq> 0 \<Longrightarrow> \<exists>i < LENGTH('a). bit (w :: 'a::len word) i"
  by (metis bit_imp_le_length bit_word_eqI bit_0_eq bot_apply bot_bool_def)

lemma countr_zero_char [bit_facts]:
  fixes w :: "'a::len word"
  assumes "w \<noteq> 0"
  shows "countr_zero w < LENGTH('a)" "bit w (countr_zero w)"
    "i < countr_zero w \<Longrightarrow> \<not> bit w i"
proof -
  let ?n = "LEAST i. bit w i"
  have ex: "\<exists>i. bit w i" using word_neq_0_bit [OF assms] by blast
  then have b: "bit w ?n" by (rule LeastI_ex)
  then have lt: "?n < LENGTH('a)" by (rule bit_imp_le_length)
  have eq: "countr_zero w = ?n"
    unfolding countr_zero_def using lt b not_less_Least
    by (intro takeWhile_upt_length) blast+
  show "countr_zero w < LENGTH('a)" "bit w (countr_zero w)"
    using eq b lt by simp_all
  show "i < countr_zero w \<Longrightarrow> \<not> bit w i"
    using eq not_less_Least by auto
qed

lemma countr_zero_eqI:
  fixes w :: "'a::len word"
  assumes "bit w n" "\<And>i. i < n \<Longrightarrow> \<not> bit w i"
  shows "countr_zero w = n"
  unfolding countr_zero_def
  using assms bit_imp_le_length by (intro takeWhile_upt_length) blast+

lemma countr_zero_0 [simp]: "countr_zero (0 :: 'a::len word) = LENGTH('a)"
  by (simp add: countr_zero_def takeWhile_eq_all_conv [THEN iffD2])

lemma bit_width_char [bit_facts]:
  fixes w :: "'a::len word"
  assumes "w \<noteq> 0"
  shows "0 < bit_width w" "bit_width w \<le> LENGTH('a)" "bit w (bit_width w - 1)"
    "bit_width w \<le> i \<Longrightarrow> \<not> bit w i"
proof -
  define n where "n = Max {i. bit w i}"
  have fin: "finite {i. bit w i}"
    by (rule finite_subset [of _ "{..<LENGTH('a)}"]) (auto dest: bit_imp_le_length)
  have ne: "{i. bit w i} \<noteq> {}" using word_neq_0_bit [OF assms] by blast
  have b: "bit w n" using Max_in [OF fin ne] by (simp add: n_def)
  have lt: "n < LENGTH('a)" using b by (rule bit_imp_le_length)
  have above: "n < i \<Longrightarrow> \<not> bit w i" for i
    using Max_ge [OF fin, of i] unfolding n_def [symmetric] by auto
  have "countl_zero w = LENGTH('a) - Suc n"
    unfolding countl_zero_def by (rule takeWhile_rev_upt_length [where P = "bit w", OF lt b above])
  then have eq: "bit_width w = Suc n"
    using lt by (simp add: bit_width_def)
  show "0 < bit_width w" "bit_width w \<le> LENGTH('a)" "bit w (bit_width w - 1)"
    using eq b lt by simp_all
  show "bit_width w \<le> i \<Longrightarrow> \<not> bit w i"
    using above by (simp add: eq Suc_le_eq)
qed

lemma bit_width_0 [simp]: "bit_width (0 :: 'a::len word) = 0"
  by (simp add: bit_width_def countl_zero_def takeWhile_eq_all_conv [THEN iffD2])

lemma unat_ge_bit: "bit (w :: 'a::len word) i \<Longrightarrow> 2 ^ i \<le> unat w"
proof -
  assume "bit w i"
  then have "odd (unat w div 2 ^ i)"
    by (simp add: bit_iff_odd [symmetric] bit_unsigned_iff bit_imp_le_length)
  then have "unat w div 2 ^ i \<noteq> 0" by (intro notI) simp
  then show ?thesis by (simp add: div_eq_0_iff not_less)
qed

lemma unat_less_bit_width: "unat (w :: 'a::len word) < 2 ^ bit_width w"
proof (cases "w = 0")
  case False
  have "take_bit (bit_width w) w = w"
    using bit_width_char(4) [OF False]
    by (intro bit_word_eqI) (auto simp: bit_take_bit_iff not_le [symmetric])
  then have "take_bit (bit_width w) (unat w) = unat w"
    by (metis unsigned_take_bit_eq)
  then show ?thesis
    by (metis take_bit_nat_less_exp)
qed simp

lemma bit_width_bounds:
  "w \<noteq> 0 \<Longrightarrow> 2 ^ (bit_width w - 1) \<le> unat (w :: 'a::len word) \<and> unat w < 2 ^ bit_width w"
  using bit_width_char(3) unat_ge_bit unat_less_bit_width by blast

lemma pow2_dvd_unat_countr_zero:
  "w \<noteq> 0 \<Longrightarrow> 2 ^ n dvd unat (w :: 'a::len word) \<longleftrightarrow> n \<le> countr_zero w"
proof -
  assume nz: "w \<noteq> 0"
  have "2 ^ n dvd unat w \<longleftrightarrow> take_bit n (unat w) = 0"
    by (rule take_bit_eq_0_iff [symmetric])
  also have "\<dots> \<longleftrightarrow> take_bit n w = 0"
    by (metis unsigned_take_bit_eq unat_eq_zero)
  also have "\<dots> \<longleftrightarrow> n \<le> countr_zero w"
  proof
    assume "take_bit n w = 0"
    then have "\<not> bit w (countr_zero w) \<or> n \<le> countr_zero w"
      by (metis bit_0_eq bit_take_bit_iff bot_apply bot_bool_def linorder_not_less)
    then show "n \<le> countr_zero w" using countr_zero_char(2) [OF nz] by blast
  next
    assume "n \<le> countr_zero w"
    then show "take_bit n w = 0"
      by (intro bit_word_eqI) (auto simp: bit_take_bit_iff countr_zero_char(3) [OF nz])
  qed
  finally show ?thesis .
qed

lemma has_single_bit_iff:
  "has_single_bit (w :: 'a::len word) \<longleftrightarrow> (\<exists>n < LENGTH('a). w = push_bit n 1)"
proof
  assume "has_single_bit w"
  then obtain n where f: "filter (bit w) [0..<LENGTH('a)] = [n]"
    by (auto simp: has_single_bit_def length_Suc_conv)
  have "i \<in> set (filter (bit w) [0..<LENGTH('a)]) \<longleftrightarrow> bit w i" for i
    by (auto dest: bit_imp_le_length)
  then have b: "bit w i \<longleftrightarrow> i = n" for i
    by (simp add: f)
  then have "n < LENGTH('a)" by (blast dest: bit_imp_le_length)
  moreover have "w = push_bit n 1"
    by (rule bit_word_eqI) (auto simp: b bit_exp_iff possible_bit_def)
  ultimately show "\<exists>n < LENGTH('a). w = push_bit n 1" by blast
next
  assume "\<exists>n < LENGTH('a). w = push_bit n 1"
  then obtain n where n: "n < LENGTH('a)" "w = push_bit n 1" by blast
  have "bit w = (\<lambda>i. i = n)"
    using n by (auto simp: bit_exp_iff)
  then have "filter (bit w) [0..<LENGTH('a)] = [n]"
    by (subst upt_split [OF n(1)]) (auto simp: filter_empty_conv)
  then show "has_single_bit w"
    by (simp add: has_single_bit_def)
qed

lemma clear_lowest:
  fixes w :: "'a::len word"
  assumes "w \<noteq> 0"
  shows "bit (w AND (w - 1)) i \<longleftrightarrow> bit w i \<and> i \<noteq> countr_zero w"
proof -
  let ?k = "countr_zero w"
  note k = countr_zero_char [OF assms]
  define v where "v = unset_bit ?k w"
  have v: "bit v i \<longleftrightarrow> bit w i \<and> i \<noteq> ?k" for i
    by (auto simp: v_def bit_unset_bit_iff)
  have "w = v OR 2 ^ ?k"
    by (rule bit_word_eqI) (use k in \<open>auto simp: v bit_or_iff bit_exp_iff\<close>)
  also have "\<dots> = v + 2 ^ ?k"
    by (rule disjunctive_add [symmetric]) (auto simp: v bit_exp_iff)
  finally have "w - 1 = v + mask ?k"
    by (simp add: mask_eq_exp_minus_1)
  also have "\<dots> = v OR mask ?k"
    by (rule disjunctive_add) (use k in \<open>auto simp: v bit_mask_iff\<close>)
  finally have "bit (w - 1) i \<longleftrightarrow> bit v i \<or> i < ?k \<and> i < LENGTH('a)" for i
    by (auto simp: bit_or_iff bit_mask_iff)
  then show ?thesis
    using k(3) by (auto simp: bit_and_iff v)
qed

lemma unat_bound: "unat (w :: 'a :: len word) < 2 ^ LENGTH('a)"
  by (rule unsigned_less)

lemma unat_ucast: "unat (ucast (w :: 'a :: len word) :: 'b :: len word) = unat w mod 2 ^ LENGTH('b)"
  by (simp add: unsigned_ucast_eq take_bit_eq_mod)

lemma unat_ucast_up:
  "LENGTH('a) \<le> LENGTH('b) \<Longrightarrow> unat (ucast (w :: 'a :: len word) :: 'b :: len word) = unat w"
proof -
  assume "LENGTH('a) \<le> LENGTH('b)"
  then have "unat w < 2 ^ LENGTH('b)"
    by (intro less_le_trans [OF unat_bound] power_increasing) simp_all
  then show ?thesis by (simp add: unat_ucast)
qed

lemma unat_ucast_less:
  "unat (w :: 'a :: len word) < 2 ^ LENGTH('b) \<Longrightarrow> unat (ucast w :: 'b :: len word) = unat w"
  by (simp add: unat_ucast)

subsection \<open>Signed 64-bit values\<close>

lemma uint_bound: "0 \<le> uint (x :: 'a :: len word)" "uint (x :: 'a :: len word) < 2 ^ LENGTH('a)"
  by simp_all

lemma int_less_pow: "int a < 2 ^ k \<longleftrightarrow> a < 2 ^ k"
  by (metis of_nat_less_iff of_nat_numeral of_nat_power)

lemma sint_u64: "sint (x :: u64) = (if uint x < 2 ^ 63 then uint x else uint x - 2 ^ 64)"
proof -
  have eq: "sint x = (uint x + 2 ^ 63) mod 2 ^ 64 - 2 ^ 63"
    by (simp add: sint_uint signed_take_bit_eq_take_bit_shift take_bit_eq_mod)
  have x: "0 \<le> uint x" "uint x < 2 ^ 64" using uint_bound [of x] by simp_all
  show ?thesis
  proof (cases "uint x < 2 ^ 63")
    case False
    then have "(uint x + 2 ^ 63) mod 2 ^ 64 = uint x + 2 ^ 63 - 2 ^ 64"
      using x by (intro int_mod_pos_eq [of _ _ 1]) auto
    then show ?thesis using False eq by simp
  qed (use eq x in simp)
qed

lemma sless_0_u64: "(x :: u64) <s 0 \<longleftrightarrow> 2 ^ 63 \<le> uint x"
  using uint_bound [of x] by (auto simp: word_sless_alt sint_u64 split: if_splits)

lemma uint_uminus_u64: "0 < uint x \<Longrightarrow> uint (- x :: u64) = 2 ^ 64 - uint x"
  using uint_bound [of x] by (simp add: uint_word_ariths(4) zmod_zminus1_eq_if)

end
