(* ===== verification/Maths.thy ===== *)
theory Maths
  imports Prelude
begin

text \<open>
  The integer helpers of \<^verbatim>\<open>kernel/include/utils/maths.hpp\<close>.  Every template takes a value of
  type \<open>T\<close> and an alignment or divisor of type \<open>U\<close>, both unsigned; here they are words of two
  widths, and \<^verbatim>\<open>static_cast<T>\<close> is \<^term>\<open>ucast\<close>.  The preconditions that the source states with
  \<^verbatim>\<open>[[assume]]\<close> are hypotheses of the lemmas, not checks of the definitions.
\<close>

definition align_down :: "'t::len word \<Rightarrow> 'u::len word \<Rightarrow> 't word" where
  "align_down n a = n AND NOT (ucast (a - 1))"

definition align_up :: "'t::len word \<Rightarrow> 'u::len word \<Rightarrow> 't word" where
  "align_up n a = (n + ucast (a - 1)) AND NOT (ucast (a - 1))"

definition div_round_up :: "'t::len word \<Rightarrow> 'u::len word \<Rightarrow> 't word" where
  "div_round_up n a = (let d = ucast a :: 't word in
     if has_single_bit d
     then drop_bit (countr_zero d) n + (if n AND (d - 1) \<noteq> 0 then 1 else 0)
     else n div d + (if n mod d \<noteq> 0 then 1 else 0))"

definition div_round_down :: "'t::len word \<Rightarrow> 'u::len word \<Rightarrow> 't word" where
  "div_round_down n a = (let d = ucast a :: 't word in
     if has_single_bit d then drop_bit (countr_zero d) n else n div d)"

definition is_aligned :: "'t::len word \<Rightarrow> 'u::len word \<Rightarrow> bool" where
  "is_aligned n a \<longleftrightarrow> n AND ucast (a - 1) = 0"

definition bit_mask :: "nat \<Rightarrow> 't::len word" where
  "bit_mask bits = (if bits \<ge> LENGTH('t) then NOT 0 else push_bit bits 1 - 1)"

definition has_bits :: "'t::len word \<Rightarrow> nat list \<Rightarrow> bool" where
  "has_bits val bit_indices = (let m = foldl (\<lambda>acc i. acc OR push_bit i 1) 0 bit_indices in
     val AND m = m)"

definition has_any_bits :: "'t::len word \<Rightarrow> nat list \<Rightarrow> bool" where
  "has_any_bits val bit_indices \<longleftrightarrow>
     val AND foldl (\<lambda>acc i. acc OR push_bit i 1) 0 bit_indices \<noteq> 0"

definition log2 :: "'t::len word \<Rightarrow> 't word" where
  "log2 val = of_nat (bit_width val - 1)"

definition pow2 :: "nat \<Rightarrow> 't::len word" where
  "pow2 exponent = push_bit exponent 1"

definition is_pow2 :: "'t::len word \<Rightarrow> bool" where
  "is_pow2 num = has_single_bit num"

definition next_pow2 :: "'t::len word \<Rightarrow> 't word" where
  "next_pow2 num = bit_ceil num"

definition prev_pow2 :: "'t::len word \<Rightarrow> 't word" where
  "prev_pow2 num = bit_floor num"

subsection \<open>Alignment\<close>

lemma unat_pow2 [simp]: "k < LENGTH('a) \<Longrightarrow> unat (2 ^ k :: 'a::len word) = 2 ^ k"
  by transfer (simp add: take_bit_of_exp nat_power_eq)

lemma pow2_minus_1: "(2 :: 'a::len word) ^ k - 1 = mask k"
  by (simp add: mask_eq_decr_exp)

lemma ucast_mask_of_pow2:
  "k < LENGTH('b) \<Longrightarrow> k < LENGTH('a) \<Longrightarrow>
   (ucast (2 ^ k - 1 :: 'b::len word) :: 'a::len word) = mask k"
  by (rule bit_word_eqI) (auto simp: pow2_minus_1 bit_unsigned_iff bit_mask_iff)

lemma and_not_mask_unat:
  "unat (n AND NOT (mask k) :: 'a::len word) = 2 ^ k * (unat n div 2 ^ k)"
proof -
  have "n AND NOT (mask k) = push_bit k (drop_bit k n)"
    by (rule bit_word_eqI) (auto simp: bit_and_iff bit_not_iff bit_mask_iff bit_push_bit_iff bit_drop_bit_eq)
  moreover have "unat (push_bit k (drop_bit k n)) = push_bit k (drop_bit k (unat n))"
  proof -
    have "push_bit k (drop_bit k (unat n)) < 2 ^ LENGTH('a)"
      by (metis (no_types) bits_ident le_add2 le_less_trans unsigned_less add.commute)
    then show ?thesis
      by (simp add: unsigned_push_bit_eq unsigned_drop_bit_eq take_bit_nat_eq_self)
  qed
  ultimately show ?thesis
    by (simp add: push_bit_eq_mult drop_bit_eq_div mult.commute)
qed

lemma unat_align_down:
  assumes "k < LENGTH('t)" "k < LENGTH('u)"
  shows "unat (align_down (n :: 't::len word) (2 ^ k :: 'u::len word)) = 2 ^ k * (unat n div 2 ^ k)"
  using assms by (simp add: align_down_def ucast_mask_of_pow2 and_not_mask_unat)

lemma unat_align_up:
  assumes "k < LENGTH('t)" "k < LENGTH('u)" "unat (n :: 't::len word) + (2 ^ k - 1) < 2 ^ LENGTH('t)"
  shows "unat (align_up n (2 ^ k :: 'u::len word)) = 2 ^ k * ((unat n + (2 ^ k - 1)) div 2 ^ k)"
proof -
  have "unat (mask k :: 't word) = 2 ^ k - 1"
    using assms(1) unat_minus_one [of "2 ^ k :: 't word"]
    by (simp add: pow2_minus_1 [symmetric])
  then have "unat (n + mask k) = unat n + (2 ^ k - 1)"
    using assms(3) by (simp add: unat_word_ariths)
  then show ?thesis
    using assms(1,2) by (simp add: align_up_def ucast_mask_of_pow2 and_not_mask_unat)
qed

lemma is_aligned_iff_dvd:
  assumes "k < LENGTH('t)" "k < LENGTH('u)"
  shows "is_aligned (n :: 't::len word) (2 ^ k :: 'u::len word) \<longleftrightarrow> 2 ^ k dvd unat n"
proof -
  have "is_aligned n (2 ^ k :: 'u word) \<longleftrightarrow> take_bit k n = 0"
    using assms by (simp add: is_aligned_def ucast_mask_of_pow2 take_bit_eq_mask)
  also have "\<dots> \<longleftrightarrow> take_bit k (unat n) = 0"
    by (metis unsigned_take_bit_eq unat_eq_zero)
  finally show ?thesis
    by (simp add: take_bit_eq_0_iff)
qed

lemma ceil_multiple:
  fixes n a :: nat
  assumes "0 < a"
  shows "a dvd a * ((n + (a - 1)) div a)" "n \<le> a * ((n + (a - 1)) div a)"
    "a * ((n + (a - 1)) div a) < n + a"
proof -
  let ?q = "(n + (a - 1)) div a"
  have "a * ?q + (n + (a - 1)) mod a = n + (a - 1)" by simp
  moreover have "(n + (a - 1)) mod a < a" using assms by simp
  ultimately show "n \<le> a * ?q" "a * ?q < n + a" using assms by linarith+
qed simp

subsection \<open>Rounding division\<close>

lemma ceil_div_nat:
  fixes n d :: nat
  assumes "0 < d"
  shows "n div d + (if n mod d \<noteq> 0 then 1 else 0) = (n + (d - 1)) div d"
proof (cases "n mod d = 0")
  case True
  then obtain q where "n = d * q" by (auto simp: mod_eq_0_iff_dvd)
  moreover have "(d * q + (d - 1)) div d = q"
    using assms by (intro div_nat_eqI) (simp_all add: algebra_simps)
  ultimately show ?thesis using assms by simp
next
  case False
  have "n + (d - 1) = (n mod d - 1) + d * (n div d + 1)"
    using False assms mult_div_mod_eq [of d n] by (simp only: distrib_left)
  moreover have "(n mod d - 1) div d = 0"
    using assms by (simp add: less_imp_diff_less)
  ultimately have "(n + (d - 1)) div d = n div d + 1"
    using assms by (simp only: div_mult_self2)
  with False show ?thesis by simp
qed

lemma single_bit_div:
  assumes "has_single_bit (d :: 'a::len word)"
  shows "drop_bit (countr_zero d) n = n div d" "n AND (d - 1) = n mod d"
proof -
  obtain k where k: "k < LENGTH('a)" "d = 2 ^ k"
    using assms by (auto simp: has_single_bit_iff push_bit_of_1)
  then have "countr_zero d = k"
    by (intro countr_zero_eqI) (auto simp: bit_exp_iff)
  then show "drop_bit (countr_zero d) n = n div d"
    by (simp add: k drop_bit_eq_div)
  show "n AND (d - 1) = n mod d"
    by (simp add: k pow2_minus_1 take_bit_eq_mask [symmetric] take_bit_eq_mod)
qed

lemma div_round_up_generic:
  "div_round_up n a = n div ucast a + (if n mod ucast a \<noteq> 0 then 1 else 0)"
  by (simp add: div_round_up_def Let_def single_bit_div)

lemma unat_div_round_up:
  assumes "unat (ucast a :: 't::len word) = unat (a :: 'u::len word)" "a \<noteq> 0"
  shows "unat (div_round_up (n :: 't word) a) = (unat n + (unat a - 1)) div unat a"
proof -
  let ?d = "ucast a :: 't word"
  have pos: "0 < unat a" using assms(2) by (simp add: unat_gt_0)
  have "unat n div unat a + (if unat n mod unat a \<noteq> 0 then 1 else 0) \<le> unat n"
  proof (cases "unat a = 1")
    case False
    then have "unat n mod unat a \<noteq> 0 \<Longrightarrow> unat n div unat a < unat n"
      using pos by (intro div_less_dividend) (auto intro: Nat.gr0I)
    then show ?thesis by auto
  qed simp
  then have "unat n div unat a + (if unat n mod unat a \<noteq> 0 then 1 else 0) < 2 ^ LENGTH('t)"
    using unsigned_less [of n] by (rule le_less_trans)
  moreover have "n mod ?d = 0 \<longleftrightarrow> unat n mod unat a = 0"
    using unat_0_iff [of "n mod ?d"] by (simp only: unat_mod assms(1))
  ultimately have "unat (div_round_up n a) = unat n div unat a + (if unat n mod unat a \<noteq> 0 then 1 else 0)"
    by (auto simp: div_round_up_generic unat_word_ariths(1) unat_div assms(1))
  then show ?thesis
    by (simp only: ceil_div_nat [OF pos])
qed

subsection \<open>Properties\<close>

text \<open>C6: for a power-of-two alignment and no wrap-around, \<open>align_up\<close> gives the smallest multiple of
  the alignment that is not below its argument, and \<open>align_down\<close> the largest that is not above.\<close>

theorem align_tight:
  fixes n :: "'t::len word" and a :: "'u::len word"
  assumes "a = 2 ^ k" "k < LENGTH('t)" "k < LENGTH('u)"
    and "unat n + (2 ^ k - 1) < 2 ^ LENGTH('t)"
  shows "2 ^ k dvd unat (align_up n a) \<and> unat n \<le> unat (align_up n a)
           \<and> unat (align_up n a) < unat n + 2 ^ k
       \<and> 2 ^ k dvd unat (align_down n a) \<and> unat (align_down n a) \<le> unat n
           \<and> unat n < unat (align_down n a) + 2 ^ k"
proof -
  have "unat n < 2 ^ k * (unat n div 2 ^ k) + 2 ^ k"
    using mult_div_mod_eq [of "2 ^ k" "unat n"] mod_less_divisor [of "2 ^ k" "unat n"]
    by (metis nat_add_left_cancel_less zero_less_numeral zero_less_power)
  then show ?thesis
    using assms ceil_multiple [of "2 ^ k" "unat n"]
    by (simp add: unat_align_up unat_align_down)
qed

theorem align_tight_witness:
  "unat (align_up (0x1234 :: 64 word) (0x1000 :: 32 word)) < unat (0x1234 :: 64 word) + 2 ^ 12
   \<and> align_up (0x1234 :: 64 word) (0x1000 :: 32 word) = 0x2000"
  using align_tight [of "0x1000 :: 32 word" 12 "0x1234 :: 64 word"]
  by (simp add: align_up_def)

end
