(* ===== verification/LinkedList.thy ===== *)
theory LinkedList
  imports Prelude "HOL-Library.Monad_Syntax"
begin

text \<open>
  The intrusive singly linked list of \<^verbatim>\<open>kernel/include/utils/linked_list.hpp\<close>.

  A link is null (the item is on no list), the sentinel shared by all lists of a type, or an
  item.  The links of all items are a store \<open>addr \<Rightarrow> slink\<close>; a list object is the link in its
  head node.  An iterator is a position: the head node of the list, an item, or the sentinel.
  \<^const>\<open>None\<close> is a failed \<^verbatim>\<open>KASSERT\<close>, a null link that is followed, or a loop that does not end.
\<close>

subsection \<open>Nodes and positions\<close>

datatype slink = SNull | SEnd | SNode addr

type_synonym slinks = "addr \<Rightarrow> slink"

datatype spos = AtHead | AtItem addr | AtEnd

definition is_linked :: "slinks \<Rightarrow> addr \<Rightarrow> bool" where
  "is_linked nx n \<longleftrightarrow> nx n \<noteq> SNull"

definition slist_empty :: "slink \<Rightarrow> bool" where
  "slist_empty head \<longleftrightarrow> head = SEnd"

definition read_next :: "slink \<Rightarrow> slinks \<Rightarrow> spos \<Rightarrow> slink" where
  "read_next head nx p = (case p of AtHead \<Rightarrow> head | AtItem n \<Rightarrow> nx n | AtEnd \<Rightarrow> SNull)"

definition write_next :: "spos \<Rightarrow> slink \<Rightarrow> slink \<Rightarrow> slinks \<Rightarrow> slink \<times> slinks" where
  "write_next p v head nx = (case p of AtHead \<Rightarrow> (v, nx) | AtItem n \<Rightarrow> (head, nx(n := v)) | AtEnd \<Rightarrow> (head, nx))"

subsection \<open>Operations\<close>

definition slist_front :: "slink \<Rightarrow> addr option" where
  "slist_front head = (case head of SNode n \<Rightarrow> Some n | _ \<Rightarrow> None)"

definition push_front :: "addr \<Rightarrow> slink \<Rightarrow> slinks \<Rightarrow> (slink \<times> slinks) option" where
  "push_front n head nx = (if is_linked nx n then None else Some (SNode n, nx(n := head)))"

definition pop_front :: "slink \<Rightarrow> slinks \<Rightarrow> (addr \<times> slink \<times> slinks) option" where
  "pop_front head nx = (case head of
     SNode n \<Rightarrow> Some (n, nx n, nx(n := SNull))
   | _ \<Rightarrow> None)"

definition insert_after :: "spos \<Rightarrow> addr \<Rightarrow> slink \<Rightarrow> slinks \<Rightarrow> (spos \<times> slink \<times> slinks) option" where
  "insert_after pos n head nx =
     (if is_linked nx n \<or> pos = AtEnd then None
      else let nx = nx(n := read_next head nx pos); (head, nx) = write_next pos (SNode n) head nx
           in Some (AtItem n, head, nx))"

definition erase_after :: "spos \<Rightarrow> slink \<Rightarrow> slinks \<Rightarrow> (addr \<times> slink \<times> slinks) option" where
  "erase_after pos head nx =
     (case read_next head nx pos of
        SNode target \<Rightarrow>
          let (head, nx) = write_next pos (nx target) head nx in Some (target, head, nx(target := SNull))
      | _ \<Rightarrow> None)"

partial_function (option) remove_from :: "spos \<Rightarrow> addr \<Rightarrow> slink \<Rightarrow> slinks \<Rightarrow> (bool \<times> slink \<times> slinks) option" where
  "remove_from cur target head nx =
     (case read_next head nx cur of
        SNull \<Rightarrow> None
      | SEnd \<Rightarrow> Some (False, head, nx)
      | SNode m \<Rightarrow>
          if m = target
          then let (head, nx) = write_next cur (nx target) head nx in Some (True, head, nx(target := SNull))
          else remove_from (AtItem m) target head nx)"

definition slist_remove :: "addr \<Rightarrow> slink \<Rightarrow> slinks \<Rightarrow> (bool \<times> slink \<times> slinks) option" where
  "slist_remove target head nx =
     (if \<not> is_linked nx target then Some (False, head, nx) else remove_from AtHead target head nx)"

partial_function (option) reverse_loop :: "slink \<Rightarrow> slink \<Rightarrow> slinks \<Rightarrow> (slink \<times> slinks) option" where
  "reverse_loop prev cur nx =
     (case cur of
        SNull \<Rightarrow> None
      | SEnd \<Rightarrow> Some (prev, nx)
      | SNode n \<Rightarrow> reverse_loop (SNode n) (nx n) (nx(n := prev)))"

definition slist_reverse :: "slink \<Rightarrow> slinks \<Rightarrow> (slink \<times> slinks) option" where
  "slist_reverse head nx = reverse_loop SEnd head nx"

partial_function (option) clear_loop :: "slink \<Rightarrow> slinks \<Rightarrow> slinks option" where
  "clear_loop cur nx =
     (case cur of
        SNull \<Rightarrow> None
      | SEnd \<Rightarrow> Some nx
      | SNode n \<Rightarrow> clear_loop (nx n) (nx(n := SNull)))"

definition slist_clear :: "slink \<Rightarrow> slinks \<Rightarrow> (slink \<times> slinks) option" where
  "slist_clear head nx = do { nx \<leftarrow> clear_loop head nx; Some (SEnd, nx) }"

text \<open>Move assignment from another list: the items of this one are unlinked first.\<close>

definition slist_move_assign :: "slink \<Rightarrow> slink \<Rightarrow> slinks \<Rightarrow> (slink \<times> slink \<times> slinks) option" where
  "slist_move_assign head other nx = do { (head, nx) \<leftarrow> slist_clear head nx; Some (other, SEnd, nx) }"

subsection \<open>Chains\<close>

text \<open>The items that follow from a link to the sentinel.\<close>

fun chain :: "slinks \<Rightarrow> slink \<Rightarrow> addr list \<Rightarrow> bool" where
  "chain nx s [] \<longleftrightarrow> s = SEnd"
| "chain nx s (x # xs) \<longleftrightarrow> s = SNode x \<and> chain nx (nx x) xs"

definition slist_holds :: "slink \<Rightarrow> slinks \<Rightarrow> addr list \<Rightarrow> bool" where
  "slist_holds head nx xs \<longleftrightarrow> chain nx head xs \<and> distinct xs"

fun start_of :: "addr list \<Rightarrow> slink" where
  "start_of [] = SEnd"
| "start_of (x # xs) = SNode x"

lemma chain_start: "chain nx s xs \<Longrightarrow> s = start_of xs"
  by (cases xs) auto

lemma chain_same: "\<forall>x\<in>set xs. nx' x = nx x \<Longrightarrow> chain nx' s xs \<longleftrightarrow> chain nx s xs"
  by (induction xs arbitrary: s) auto

lemma chain_upd [simp]: "n \<notin> set xs \<Longrightarrow> chain (nx(n := v)) s xs \<longleftrightarrow> chain nx s xs"
  by (rule chain_same) auto

lemma chain_upd_if [simp]: "n \<notin> set xs \<Longrightarrow> chain (\<lambda>a. if a = n then v else nx a) s xs \<longleftrightarrow> chain nx s xs"
  by (rule chain_same) auto

lemma chain_linked: "chain nx s xs \<Longrightarrow> x \<in> set xs \<Longrightarrow> is_linked nx x"
proof (induction xs arbitrary: s)
  case (Cons y ys)
  then show ?case by (cases ys) (auto simp: is_linked_def)
qed simp

lemma slist_holds_empty [simp]: "slist_holds SEnd nx xs \<longleftrightarrow> xs = []"
  by (cases xs) (auto simp: slist_holds_def)

lemma slist_holds_linked: "slist_holds head nx xs \<Longrightarrow> x \<in> set xs \<Longrightarrow> is_linked nx x"
  by (auto simp: slist_holds_def dest: chain_linked)

lemma slist_empty_iff: "slist_holds head nx xs \<Longrightarrow> slist_empty head \<longleftrightarrow> xs = []"
  by (cases xs) (auto simp: slist_holds_def slist_empty_def)

lemma slist_holds_same: "\<forall>x\<in>set xs. nx' x = nx x \<Longrightarrow> slist_holds head nx' xs \<longleftrightarrow> slist_holds head nx xs"
  using chain_same [of xs nx' nx] by (simp add: slist_holds_def)

subsection \<open>What the operations do\<close>

lemma push_front_ok:
  assumes "slist_holds head nx xs" "\<not> is_linked nx n"
  shows "push_front n head nx = Some (SNode n, nx(n := head))" "slist_holds (SNode n) (nx(n := head)) (n # xs)"
proof -
  have "n \<notin> set xs" using assms slist_holds_linked by blast
  then show "push_front n head nx = Some (SNode n, nx(n := head))" "slist_holds (SNode n) (nx(n := head)) (n # xs)"
    using assms by (auto simp: push_front_def slist_holds_def)
qed

lemma pop_front_ok:
  assumes "slist_holds head nx (x # xs)"
  shows "pop_front head nx = Some (x, nx x, nx(x := SNull))" "slist_holds (nx x) (nx(x := SNull)) xs"
  using assms by (auto simp: pop_front_def slist_holds_def)

lemma pop_front_empty: "slist_holds head nx [] \<Longrightarrow> pop_front head nx = None"
  by (simp add: pop_front_def slist_holds_def)

text \<open>The position behind a prefix of the list.\<close>

definition pos_after :: "addr list \<Rightarrow> spos" where
  "pos_after ys = (if ys = [] then AtHead else AtItem (last ys))"

lemma read_pos_after:
  "chain nx head (ys @ zs) \<Longrightarrow> read_next head nx (pos_after ys) = start_of zs"
proof (induction ys arbitrary: head)
  case Nil
  then show ?case using chain_start by (auto simp: read_next_def pos_after_def)
next
  case (Cons y ys)
  then have "read_next (nx y) nx (pos_after ys) = start_of zs" by auto
  then show ?case using Cons.prems by (cases ys) (auto simp: read_next_def pos_after_def)
qed

lemma write_pos_after:
  assumes "chain nx head (ys @ zs)" "distinct ys" "chain nx s zs'" "set ys \<inter> set zs' = {}"
    and "write_next (pos_after ys) s head nx = (head', nx')"
  shows "chain nx' head' (ys @ zs')"
  using assms
proof (induction ys arbitrary: head head')
  case Nil
  then show ?case by (simp add: write_next_def pos_after_def)
next
  case (Cons y ys)
  show ?case
  proof (cases "ys = []")
    case True
    then show ?thesis using Cons.prems by (auto simp: write_next_def pos_after_def)
  next
    case False
    then have p: "pos_after (y # ys) = AtItem (last ys)" "pos_after ys = AtItem (last ys)" "last ys \<noteq> y"
      using Cons.prems(2) last_in_set by (auto simp: pos_after_def)
    have nx': "nx' = nx(last ys := s)" "head' = head" using Cons.prems(5) p by (auto simp: write_next_def)
    have "chain nx' (nx y) (ys @ zs')"
      using Cons.prems p by (intro Cons.IH [of "nx y"]) (auto simp: write_next_def nx')
    moreover have "nx' y = nx y" using p(3) by (simp add: nx')
    ultimately show ?thesis using Cons.prems(1) nx'(2) by simp
  qed
qed

lemma insert_after_ok:
  assumes "slist_holds head nx (ys @ zs)" "\<not> is_linked nx n"
  obtains head' nx' where "insert_after (pos_after ys) n head nx = Some (AtItem n, head', nx')"
    "slist_holds head' nx' (ys @ n # zs)" "\<forall>x. x \<notin> set (ys @ n # zs) \<longrightarrow> nx' x = nx x"
proof -
  have c: "chain nx head (ys @ zs)" "distinct (ys @ zs)" using assms(1) by (auto simp: slist_holds_def)
  have n: "n \<notin> set (ys @ zs)" using assms slist_holds_linked by blast
  define nx1 where "nx1 = nx(n := start_of zs)"
  obtain head' nx' where w: "write_next (pos_after ys) (SNode n) head nx1 = (head', nx')" by fastforce
  have "chain nx1 head (ys @ zs)" using c n by (simp add: nx1_def)
  moreover have "chain nx1 (SNode n) (n # zs)"
  proof -
    have "chain nx (start_of zs) zs" using c(1)
      by (induction ys arbitrary: head) (auto dest: chain_start)
    then show ?thesis using n by (simp add: nx1_def)
  qed
  ultimately have "chain nx' head' (ys @ n # zs)"
    using c(2) n by (intro write_pos_after [OF _ _ _ _ w]) auto
  moreover have "insert_after (pos_after ys) n head nx = Some (AtItem n, head', nx')"
    using assms(2) w read_pos_after [OF c(1)]
    by (auto simp: insert_after_def nx1_def Let_def pos_after_def split: if_splits)
  moreover have "\<forall>x. x \<notin> set (ys @ n # zs) \<longrightarrow> nx' x = nx x"
    using w by (auto simp: write_next_def pos_after_def nx1_def split: if_splits)
  ultimately show thesis using that c(2) n by (auto simp: slist_holds_def)
qed

lemma chain_tail: "chain nx head (ys @ zs) \<Longrightarrow> chain nx (start_of zs) zs"
  by (induction ys arbitrary: head) (auto dest: chain_start)

lemma erase_after_ok:
  assumes "slist_holds head nx (ys @ x # zs)"
  obtains head' nx' where "erase_after (pos_after ys) head nx = Some (x, head', nx')"
    "slist_holds head' nx' (ys @ zs)" "\<not> is_linked nx' x" "\<forall>y. y \<notin> set (ys @ [x]) \<longrightarrow> nx' y = nx y"
proof -
  have c: "chain nx head (ys @ x # zs)" "distinct (ys @ x # zs)" using assms by (auto simp: slist_holds_def)
  obtain head' nx1 where w: "write_next (pos_after ys) (nx x) head nx = (head', nx1)" by fastforce
  have "chain nx (nx x) zs" using chain_tail [OF c(1)] by simp
  then have "chain nx1 head' (ys @ zs)"
    using c by (intro write_pos_after [OF c(1) _ _ _ w]) auto
  then have "slist_holds head' (nx1(x := SNull)) (ys @ zs)"
    using c(2) by (simp add: slist_holds_def)
  moreover have "erase_after (pos_after ys) head nx = Some (x, head', nx1(x := SNull))"
    using read_pos_after [OF c(1)] w by (simp add: erase_after_def)
  moreover have "\<forall>y. y \<notin> set (ys @ [x]) \<longrightarrow> (nx1(x := SNull)) y = nx y"
    using w by (auto simp: write_next_def pos_after_def split: if_splits)
  ultimately show thesis using that by (simp add: is_linked_def)
qed

lemma remove_from_step:
  "read_next head nx cur = SNode m \<Longrightarrow> m \<noteq> target \<Longrightarrow>
    remove_from cur target head nx = remove_from (AtItem m) target head nx"
  "read_next head nx cur = SEnd \<Longrightarrow> remove_from cur target head nx = Some (False, head, nx)"
  "read_next head nx cur = SNode target \<Longrightarrow> remove_from cur target head nx =
    (let (head, nx) = write_next cur (nx target) head nx in Some (True, head, nx(target := SNull)))"
  by (subst remove_from.simps; simp)+

lemma remove_from_skip:
  assumes "chain nx head (ys @ zs)" "target \<notin> set ws" "zs = ws @ us"
  shows "remove_from (pos_after ys) target head nx = remove_from (pos_after (ys @ ws)) target head nx"
  using assms
proof (induction ws arbitrary: ys zs)
  case (Cons w ws)
  have "read_next head nx (pos_after ys) = SNode w"
    using read_pos_after [OF Cons.prems(1)] Cons.prems(3) by simp
  then have "remove_from (pos_after ys) target head nx = remove_from (AtItem w) target head nx"
    using Cons.prems(2) by (intro remove_from_step) auto
  moreover have "AtItem w = pos_after (ys @ [w])" by (simp add: pos_after_def)
  moreover have "remove_from (pos_after (ys @ [w])) target head nx = remove_from (pos_after ((ys @ [w]) @ ws)) target head nx"
    using Cons.prems by (intro Cons.IH [of _ "ws @ us"]) auto
  ultimately show ?case by simp
qed simp

lemma remove_from_write: "remove_from cur target head nx =
   (case erase_after cur head nx of Some (t, head', nx') \<Rightarrow> Some (True, head', nx') | None \<Rightarrow> None)"
  if "read_next head nx cur = SNode target"
  using that remove_from_step(3) [OF that] by (simp add: erase_after_def split: prod.splits)

lemma slist_remove_ok:
  assumes "slist_holds head nx xs"
  shows "\<exists>head' nx'. slist_remove x head nx = Some (x \<in> set xs, head', nx') \<and> slist_holds head' nx' (remove1 x xs)
     \<and> (x \<in> set xs \<longrightarrow> \<not> is_linked nx' x) \<and> (\<forall>y. y \<notin> set xs \<longrightarrow> nx' y = nx y)"
proof -
  have c: "chain nx head xs" "distinct xs" using assms by (auto simp: slist_holds_def)
  show ?thesis
  proof (cases "x \<in> set xs")
    case True
    then obtain ys zs where xs: "xs = ys @ x # zs" "x \<notin> set ys" by (metis split_list_first)
    have start: "slist_remove x head nx = remove_from (pos_after ys) x head nx"
      using slist_holds_linked [OF assms True] remove_from_skip [of nx head "[]" xs x ys "x # zs"] c(1) xs
      by (simp add: slist_remove_def pos_after_def)
    obtain head' nx' where e: "erase_after (pos_after ys) head nx = Some (x, head', nx')"
      "slist_holds head' nx' (ys @ zs)" "\<not> is_linked nx' x" "\<forall>y. y \<notin> set (ys @ [x]) \<longrightarrow> nx' y = nx y"
      by (rule erase_after_ok [OF assms [unfolded xs(1)]])
    have "read_next head nx (pos_after ys) = SNode x" using read_pos_after c(1) xs(1) by fastforce
    from remove_from_write [OF this] start e True xs show ?thesis by (auto simp: remove1_append)
  next
    case False
    have "slist_remove x head nx = Some (False, head, nx)"
    proof (cases "is_linked nx x")
      case True
      have "read_next head nx (pos_after xs) = SEnd" using read_pos_after [of nx head xs "[]"] c(1) by simp
      then show ?thesis
        using True remove_from_skip [of nx head "[]" xs x xs "[]"] c(1) False remove_from_step(2)
        by (simp add: slist_remove_def pos_after_def)
    qed (simp add: slist_remove_def)
    then show ?thesis using False assms by (simp add: remove1_idem)
  qed
qed

lemma reverse_loop_ok:
  assumes "chain nx cur xs" "chain nx prev ys" "distinct (xs @ ys)"
  shows "\<exists>head' nx'. reverse_loop prev cur nx = Some (head', nx') \<and> chain nx' head' (rev xs @ ys)
     \<and> (\<forall>y. y \<notin> set xs \<longrightarrow> nx' y = nx y)"
  using assms
proof (induction xs arbitrary: prev cur nx ys)
  case Nil
  then show ?case by (subst reverse_loop.simps) simp
next
  case (Cons x xs)
  have step: "reverse_loop prev cur nx = reverse_loop (SNode x) (nx x) (nx(x := prev))"
    using Cons.prems(1) by (subst reverse_loop.simps) simp
  have "\<exists>head' nx'. reverse_loop (SNode x) (nx x) (nx(x := prev)) = Some (head', nx') \<and> chain nx' head' (rev xs @ x # ys)
     \<and> (\<forall>y. y \<notin> set xs \<longrightarrow> nx' y = (nx(x := prev)) y)"
    by (rule Cons.IH) (use Cons.prems in auto)
  then show ?case using step by fastforce
qed

lemma slist_reverse_ok:
  assumes "slist_holds head nx xs"
  shows "\<exists>head' nx'. slist_reverse head nx = Some (head', nx') \<and> slist_holds head' nx' (rev xs)"
  using reverse_loop_ok [of nx head xs SEnd "[]"] assms by (auto simp: slist_reverse_def slist_holds_def)

lemma clear_loop_ok:
  assumes "chain nx cur xs" "distinct xs"
  shows "clear_loop cur nx = Some (\<lambda>y. if y \<in> set xs then SNull else nx y)"
  using assms
proof (induction xs arbitrary: cur nx)
  case Nil
  then show ?case by (subst clear_loop.simps) simp
next
  case (Cons x xs)
  have "clear_loop cur nx = clear_loop (nx x) (nx(x := SNull))"
    using Cons.prems(1) by (subst clear_loop.simps) simp
  also have "\<dots> = Some (\<lambda>y. if y \<in> set xs then SNull else (nx(x := SNull)) y)"
    using Cons.prems by (intro Cons.IH) auto
  finally show ?case by (simp add: fun_eq_iff)
qed

lemma slist_clear_ok:
  "slist_holds head nx xs \<Longrightarrow> slist_clear head nx = Some (SEnd, \<lambda>y. if y \<in> set xs then SNull else nx y)"
  using clear_loop_ok [of nx head xs] by (simp add: slist_clear_def slist_holds_def)

subsection \<open>Properties\<close>

text \<open>C9: Taking an item off a singly linked list.  On a well-formed list, \<^verbatim>\<open>remove\<close> terminates and
  returns true exactly if the item is on this very list, even if it is linked into another one;
  then it is on no list afterwards, the others keep their order, and no link of an item that is
  not on this list changes.  \<^verbatim>\<open>reverse\<close> and \<^verbatim>\<open>clear\<close> terminate with the reversed and the empty
  list, and after \<^verbatim>\<open>clear\<close> exactly the former items have become unlinked.\<close>

theorem slist_remove_reverse_clear:
  assumes "slist_holds head nx xs"
  shows "(\<exists>head' nx'. slist_remove x head nx = Some (x \<in> set xs, head', nx')
      \<and> slist_holds head' nx' (remove1 x xs) \<and> (x \<in> set xs \<longrightarrow> \<not> is_linked nx' x)
      \<and> (\<forall>y. y \<notin> set xs \<longrightarrow> nx' y = nx y))
    \<and> (\<exists>head' nx'. slist_reverse head nx = Some (head', nx') \<and> slist_holds head' nx' (rev xs))
    \<and> (\<exists>nx'. slist_clear head nx = Some (SEnd, nx') \<and>
        (\<forall>y. is_linked nx' y \<longleftrightarrow> is_linked nx y \<and> y \<notin> set xs))"
  using slist_remove_ok [OF assms, of x] slist_reverse_ok [OF assms] slist_clear_ok [OF assms]
  by (auto simp: is_linked_def)

theorem slist_remove_reverse_clear_witness:
  "\<exists>head' nx'. slist_remove 5 (SNode 4) ((\<lambda>_. SNull)(4 := SNode 5, 5 := SEnd)) = Some (True, head', nx')
     \<and> slist_holds head' nx' [4] \<and> \<not> is_linked nx' 5"
proof -
  have "slist_holds (SNode 4) ((\<lambda>_. SNull)(4 := SNode 5, 5 := SEnd)) [4, 5]"
    by (simp add: slist_holds_def)
  from slist_remove_reverse_clear [OF this, of 5] show ?thesis by auto
qed

end
