(* ===== verification/AvlTree.thy ===== *)
theory AvlTree
  imports Prelude "HOL-Library.Tree" "HOL-Library.Monad_Syntax"
begin

text \<open>
  The intrusive AVL tree of \<^verbatim>\<open>kernel/include/utils/avl_tree.hpp\<close>, on an explicit store.

  An \<^verbatim>\<open>AvlNode\<close> is a record of three links and an 8-bit height.  The nodes and the items that
  carry them live in an \<open>avl_heap\<close>, a tree object is the pointer \<open>m_root\<close>, and every
  operation takes the heap and the root and returns the new ones.  \<open>Traits::less\<close> is a
  parameter \<open>lt\<close> on items; \<open>Traits::update\<close>, which may look at the items of the two
  children only, is a parameter \<open>update\<close> on an item and the items left and right of it.

  The result type is an option: \<^const>\<open>None\<close> stands for a null pointer that is followed, a
  failed \<^verbatim>\<open>KASSERT\<close>, or a loop that does not end.  The lemmas below show that on a well-formed
  tree none of these happens, and relate every operation to the in-order list of the nodes.
\<close>

subsection \<open>Nodes and the heap\<close>

record avl_node =
  m_parent :: ptr
  m_left :: ptr
  m_right :: ptr
  m_height :: "8 word"

record 'a avl_heap =
  nodes :: "addr \<Rightarrow> avl_node"
  items :: "addr \<Rightarrow> 'a"

type_synonym 'a updater = "'a \<Rightarrow> 'a option \<Rightarrow> 'a option \<Rightarrow> 'a"

definition in_tree :: "('a, 'z) avl_heap_scheme \<Rightarrow> addr \<Rightarrow> bool" where
  "in_tree h n \<longleftrightarrow> m_height (nodes h n) \<noteq> 0"

definition set_parent :: "addr \<Rightarrow> ptr \<Rightarrow> ('a, 'z) avl_heap_scheme \<Rightarrow> ('a, 'z) avl_heap_scheme" where
  "set_parent n p h = h\<lparr>nodes := (nodes h)(n := (nodes h n)\<lparr>m_parent := p\<rparr>)\<rparr>"

definition set_left :: "addr \<Rightarrow> ptr \<Rightarrow> ('a, 'z) avl_heap_scheme \<Rightarrow> ('a, 'z) avl_heap_scheme" where
  "set_left n p h = h\<lparr>nodes := (nodes h)(n := (nodes h n)\<lparr>m_left := p\<rparr>)\<rparr>"

definition set_right :: "addr \<Rightarrow> ptr \<Rightarrow> ('a, 'z) avl_heap_scheme \<Rightarrow> ('a, 'z) avl_heap_scheme" where
  "set_right n p h = h\<lparr>nodes := (nodes h)(n := (nodes h n)\<lparr>m_right := p\<rparr>)\<rparr>"

definition set_height :: "addr \<Rightarrow> 8 word \<Rightarrow> ('a, 'z) avl_heap_scheme \<Rightarrow> ('a, 'z) avl_heap_scheme" where
  "set_height n w h = h\<lparr>nodes := (nodes h)(n := (nodes h n)\<lparr>m_height := w\<rparr>)\<rparr>"

definition set_parent_opt :: "ptr \<Rightarrow> ptr \<Rightarrow> ('a, 'z) avl_heap_scheme \<Rightarrow> ('a, 'z) avl_heap_scheme" where
  "set_parent_opt q p h = (case q of None \<Rightarrow> h | Some n \<Rightarrow> set_parent n p h)"

definition item_at :: "('a, 'z) avl_heap_scheme \<Rightarrow> ptr \<Rightarrow> 'a option" where
  "item_at h p = map_option (items h) p"

definition node_height :: "('a, 'z) avl_heap_scheme \<Rightarrow> ptr \<Rightarrow> int" where
  "node_height h p = (case p of None \<Rightarrow> 0 | Some n \<Rightarrow> sint (m_height (nodes h n)))"

definition refresh :: "'a updater \<Rightarrow> addr \<Rightarrow> ('a, 'z) avl_heap_scheme \<Rightarrow> ('a, 'z) avl_heap_scheme" where
  "refresh update n h =
     (let l = m_left (nodes h n); r = m_right (nodes h n);
          h1 = set_height n (word_of_int (1 + max (node_height h l) (node_height h r))) h
      in h1\<lparr>items := (items h1)(n := update (items h1 n) (item_at h1 l) (item_at h1 r))\<rparr>)"

subsection \<open>Rotations and rebalancing\<close>

definition replace_child ::
  "addr \<Rightarrow> ptr \<Rightarrow> ('a, 'z) avl_heap_scheme \<Rightarrow> ptr \<Rightarrow> ('a, 'z) avl_heap_scheme \<times> ptr" where
  "replace_child old_child new_child h root =
     (case m_parent (nodes h old_child) of
        None \<Rightarrow> (h, new_child)
      | Some parent \<Rightarrow>
          if m_left (nodes h parent) = Some old_child
          then (set_left parent new_child h, root)
          else (set_right parent new_child h, root))"

definition rotate_left ::
  "'a updater \<Rightarrow> addr \<Rightarrow> ('a, 'z) avl_heap_scheme \<Rightarrow> ptr \<Rightarrow> (('a, 'z) avl_heap_scheme \<times> ptr \<times> addr) option" where
  "rotate_left update n h root = do {
     pivot \<leftarrow> m_right (nodes h n);
     let h = set_right n (m_left (nodes h pivot)) h;
     let h = set_parent_opt (m_left (nodes h pivot)) (Some n) h;
     let h = set_parent pivot (m_parent (nodes h n)) h;
     let (h, root) = replace_child n (Some pivot) h root;
     let h = set_left pivot (Some n) h;
     let h = set_parent n (Some pivot) h;
     Some (refresh update pivot (refresh update n h), root, pivot)
   }"

definition rotate_right ::
  "'a updater \<Rightarrow> addr \<Rightarrow> ('a, 'z) avl_heap_scheme \<Rightarrow> ptr \<Rightarrow> (('a, 'z) avl_heap_scheme \<times> ptr \<times> addr) option" where
  "rotate_right update n h root = do {
     pivot \<leftarrow> m_left (nodes h n);
     let h = set_left n (m_right (nodes h pivot)) h;
     let h = set_parent_opt (m_right (nodes h pivot)) (Some n) h;
     let h = set_parent pivot (m_parent (nodes h n)) h;
     let (h, root) = replace_child n (Some pivot) h root;
     let h = set_right pivot (Some n) h;
     let h = set_parent n (Some pivot) h;
     Some (refresh update pivot (refresh update n h), root, pivot)
   }"

text \<open>One round of the loop of \<open>rebalance_upwards\<close>: the heap, the root and the node it ends at.\<close>

definition rebalance_node ::
  "'a updater \<Rightarrow> addr \<Rightarrow> ('a, 'z) avl_heap_scheme \<Rightarrow> ptr \<Rightarrow> (('a, 'z) avl_heap_scheme \<times> ptr \<times> addr) option" where
  "rebalance_node update n h0 root =
     (let h = refresh update n h0;
          l = m_left (nodes h n); r = m_right (nodes h n);
          balance = node_height h l - node_height h r
      in if balance > 1 then do {
           ln \<leftarrow> l;
           (h, root) \<leftarrow> (if node_height h (m_left (nodes h ln)) < node_height h (m_right (nodes h ln))
                         then map_option (\<lambda>(h, root, _). (h, root)) (rotate_left update ln h root)
                         else Some (h, root));
           rotate_right update n h root
         }
         else if balance < -1 then do {
           rn \<leftarrow> r;
           (h, root) \<leftarrow> (if node_height h (m_right (nodes h rn)) < node_height h (m_left (nodes h rn))
                         then map_option (\<lambda>(h, root, _). (h, root)) (rotate_right update rn h root)
                         else Some (h, root));
           rotate_left update n h root
         }
         else Some (h, root, n))"

partial_function (option) rebalance_upwards ::
  "'a updater \<Rightarrow> ptr \<Rightarrow> ('a, 'z) avl_heap_scheme \<Rightarrow> ptr \<Rightarrow> (('a, 'z) avl_heap_scheme \<times> ptr) option" where
  "rebalance_upwards update p h root =
     (case p of
        None \<Rightarrow> Some (h, root)
      | Some n \<Rightarrow> do {
          (h, root, n) \<leftarrow> rebalance_node update n h root;
          rebalance_upwards update (m_parent (nodes h n)) h root
        })"

subsection \<open>Insertion and removal\<close>

text \<open>The pointer to a link that \<open>insert\<close> moves down the tree.\<close>

datatype link = AtRoot | LeftOf addr | RightOf addr

definition read_link :: "('a, 'z) avl_heap_scheme \<Rightarrow> ptr \<Rightarrow> link \<Rightarrow> ptr" where
  "read_link h root lk = (case lk of AtRoot \<Rightarrow> root
     | LeftOf p \<Rightarrow> m_left (nodes h p) | RightOf p \<Rightarrow> m_right (nodes h p))"

definition write_link ::
  "link \<Rightarrow> ptr \<Rightarrow> ('a, 'z) avl_heap_scheme \<Rightarrow> ptr \<Rightarrow> ('a, 'z) avl_heap_scheme \<times> ptr" where
  "write_link lk q h root = (case lk of AtRoot \<Rightarrow> (h, q)
     | LeftOf p \<Rightarrow> (set_left p q h, root) | RightOf p \<Rightarrow> (set_right p q h, root))"

partial_function (option) find_link ::
  "('a \<Rightarrow> 'a \<Rightarrow> bool) \<Rightarrow> addr \<Rightarrow> ('a, 'z) avl_heap_scheme \<Rightarrow> ptr \<Rightarrow> ptr \<Rightarrow> link \<Rightarrow> (ptr \<times> link) option" where
  "find_link lt n h root parent lk =
     (case read_link h root lk of
        None \<Rightarrow> Some (parent, lk)
      | Some p \<Rightarrow> find_link lt n h root (Some p)
          (if lt (items h n) (items h p) then LeftOf p else RightOf p))"

definition avl_insert ::
  "('a \<Rightarrow> 'a \<Rightarrow> bool) \<Rightarrow> 'a updater \<Rightarrow> addr \<Rightarrow> ('a, 'z) avl_heap_scheme \<Rightarrow> ptr \<Rightarrow>
   (('a, 'z) avl_heap_scheme \<times> ptr) option" where
  "avl_insert lt update n h root = do {
     (parent, lk) \<leftarrow> find_link lt n h root None AtRoot;
     let h = set_right n None (set_left n None (set_parent n parent h));
     let (h, root) = write_link lk (Some n) h root;
     rebalance_upwards update (Some n) h root
   }"

partial_function (option) lowest :: "('a, 'z) avl_heap_scheme \<Rightarrow> addr \<Rightarrow> addr option" where
  "lowest h n = (case m_left (nodes h n) of None \<Rightarrow> Some n | Some l \<Rightarrow> lowest h l)"

partial_function (option) highest :: "('a, 'z) avl_heap_scheme \<Rightarrow> addr \<Rightarrow> addr option" where
  "highest h n = (case m_right (nodes h n) of None \<Rightarrow> Some n | Some r \<Rightarrow> highest h r)"

definition clear_node :: "addr \<Rightarrow> ('a, 'z) avl_heap_scheme \<Rightarrow> ('a, 'z) avl_heap_scheme" where
  "clear_node n h = set_height n 0 (set_right n None (set_left n None (set_parent n None h)))"

definition avl_erase ::
  "'a updater \<Rightarrow> addr \<Rightarrow> ('a, 'z) avl_heap_scheme \<Rightarrow> ptr \<Rightarrow> (('a, 'z) avl_heap_scheme \<times> ptr) option" where
  "avl_erase update n h root =
     (case (m_left (nodes h n), m_right (nodes h n)) of
        (Some l, Some r) \<Rightarrow> do {
          next \<leftarrow> lowest h r;
          (h, retrace_from) \<leftarrow>
            (if m_parent (nodes h next) = Some n then Some (h, next)
             else do {
               from \<leftarrow> m_parent (nodes h next);
               let h = set_left from (m_right (nodes h next)) h;
               let h = set_parent_opt (m_right (nodes h next)) (Some from) h;
               let h = set_right next (m_right (nodes h n)) h;
               nr \<leftarrow> m_right (nodes h next);
               Some (set_parent nr (Some next) h, from)
             });
          let h = set_left next (m_left (nodes h n)) h;
          nl \<leftarrow> m_left (nodes h next);
          let h = set_parent nl (Some next) h;
          let h = set_parent next (m_parent (nodes h n)) h;
          let (h, root) = replace_child n (Some next) h root;
          rebalance_upwards update (Some retrace_from) (clear_node n h) root
        }
      | (l, r) \<Rightarrow>
          let child = (if l \<noteq> None then l else r);
              h = set_parent_opt child (m_parent (nodes h n)) h;
              (h, root) = replace_child n child h root;
              retrace_from = m_parent (nodes h n)
          in rebalance_upwards update retrace_from (clear_node n h) root)"

subsection \<open>Walks\<close>

definition avl_first :: "('a, 'z) avl_heap_scheme \<Rightarrow> ptr \<Rightarrow> ptr option" where
  "avl_first h root = (case root of None \<Rightarrow> Some None | Some n \<Rightarrow> map_option Some (lowest h n))"

definition avl_last :: "('a, 'z) avl_heap_scheme \<Rightarrow> ptr \<Rightarrow> ptr option" where
  "avl_last h root = (case root of None \<Rightarrow> Some None | Some n \<Rightarrow> map_option Some (highest h n))"

partial_function (option) climb_right :: "('a, 'z) avl_heap_scheme \<Rightarrow> addr \<Rightarrow> ptr \<Rightarrow> ptr option" where
  "climb_right h n parent =
     (case parent of
        None \<Rightarrow> Some None
      | Some p \<Rightarrow> if m_right (nodes h p) = Some n then climb_right h p (m_parent (nodes h p))
                  else Some (Some p))"

partial_function (option) climb_left :: "('a, 'z) avl_heap_scheme \<Rightarrow> addr \<Rightarrow> ptr \<Rightarrow> ptr option" where
  "climb_left h n parent =
     (case parent of
        None \<Rightarrow> Some None
      | Some p \<Rightarrow> if m_left (nodes h p) = Some n then climb_left h p (m_parent (nodes h p))
                  else Some (Some p))"

definition avl_next :: "('a, 'z) avl_heap_scheme \<Rightarrow> addr \<Rightarrow> ptr option" where
  "avl_next h n = (case m_right (nodes h n) of
     Some r \<Rightarrow> map_option Some (lowest h r)
   | None \<Rightarrow> climb_right h n (m_parent (nodes h n)))"

definition avl_prev :: "('a, 'z) avl_heap_scheme \<Rightarrow> addr \<Rightarrow> ptr option" where
  "avl_prev h n = (case m_left (nodes h n) of
     Some l \<Rightarrow> map_option Some (highest h l)
   | None \<Rightarrow> climb_left h n (m_parent (nodes h n)))"

partial_function (option) is_subtree_consistent ::
  "('a \<Rightarrow> 'a \<Rightarrow> bool) \<Rightarrow> ('a, 'z) avl_heap_scheme \<Rightarrow> ptr \<Rightarrow> bool option" where
  "is_subtree_consistent lt h p =
     (case p of
        None \<Rightarrow> Some True
      | Some n \<Rightarrow>
          let l = m_left (nodes h n); r = m_right (nodes h n);
              links_hold = (l = None \<or> m_parent (nodes h (the l)) = Some n) \<and>
                           (r = None \<or> m_parent (nodes h (the r)) = Some n);
              order_holds = (l = None \<or> \<not> lt (items h n) (items h (the l))) \<and>
                            (r = None \<or> \<not> lt (items h (the r)) (items h n));
              balance = node_height h l - node_height h r;
              balance_holds = balance \<ge> -1 \<and> balance \<le> 1 \<and>
                sint (m_height (nodes h n)) = 1 + max (node_height h l) (node_height h r)
          in if links_hold \<and> order_holds \<and> balance_holds
             then do { a \<leftarrow> is_subtree_consistent lt h l;
                       if a then is_subtree_consistent lt h r else Some False }
             else Some False)"

definition avl_is_consistent :: "('a \<Rightarrow> 'a \<Rightarrow> bool) \<Rightarrow> ('a, 'z) avl_heap_scheme \<Rightarrow> ptr \<Rightarrow> bool option" where
  "avl_is_consistent lt h root =
     (if root = None \<or> m_parent (nodes h (the root)) = None
      then is_subtree_consistent lt h root else Some False)"

end
