(* ===== verification/AvlShape.thy ===== *)
theory AvlShape
  imports AvlTree
begin

text \<open>
  The shape of an AVL tree, away from the store: balance, how many nodes a balanced tree of
  a given height needs, and the tree that one round of rebalancing produces.  The bound on the
  height is what makes the 8-bit height field of a node wide enough.
\<close>

subsection \<open>Balance and height\<close>

fun avl :: "'a tree \<Rightarrow> bool" where
  "avl Leaf = True"
| "avl (Node l n r) \<longleftrightarrow>
     height l \<le> height r + 1 \<and> height r \<le> height l + 1 \<and> avl l \<and> avl r"

fun min_size :: "nat \<Rightarrow> nat" where
  "min_size 0 = 0"
| "min_size (Suc 0) = 1"
| "min_size (Suc (Suc k)) = 1 + min_size (Suc k) + min_size k"

lemma min_size_mono: "i \<le> j \<Longrightarrow> min_size i \<le> min_size j"
proof (induction j arbitrary: i rule: min_size.induct)
  case (3 k)
  then show ?case
    by (cases "i = Suc (Suc k)") (auto intro: le_SucI trans_le_add1 simp: le_Suc_eq)
qed (auto simp: le_Suc_eq)

lemma min_size_Suc_le: "min_size (Suc k) \<le> 1 + min_size k + min_size (k - 1)"
  by (cases k) auto

lemma avl_size: "avl t \<Longrightarrow> min_size (height t) \<le> size t"
proof (induction t)
  case (Node l n r)
  let ?m = "max (height l) (height r)"
  have "min_size (height \<langle>l, n, r\<rangle>) \<le> 1 + min_size ?m + min_size (?m - 1)"
    using min_size_Suc_le by simp
  also have "\<dots> \<le> 1 + min_size (height l) + min_size (height r)"
    using Node.prems min_size_mono [of "?m - 1" "height l"] min_size_mono [of "?m - 1" "height r"]
    by (auto simp: max_def)
  also have "\<dots> \<le> size \<langle>l, n, r\<rangle>"
    using Node by simp
  finally show ?case .
qed simp

text \<open>The pair of consecutive values, computed bottom up.\<close>

fun min_sizes :: "nat \<Rightarrow> int \<times> int" where
  "min_sizes 0 = (0, 1)"
| "min_sizes (Suc k) = (let (a, b) = min_sizes k in (b, 1 + b + a))"

lemma min_sizes_eq: "min_sizes k = (int (min_size k), int (min_size (Suc k)))"
  by (induction k) auto

lemma min_size_92: "2 ^ 64 < min_size 92"
proof -
  have "fst (min_sizes 92) = 19740274219868223166"
    by code_simp
  then show ?thesis
    by (simp add: min_sizes_eq)
qed

lemma distinct_size: "distinct (inorder (t :: addr tree)) \<Longrightarrow> size t \<le> 2 ^ 64"
proof -
  assume "distinct (inorder t)"
  then have "size t = card (set_tree t)"
    by (metis distinct_card length_inorder set_inorder)
  also have "\<dots> \<le> card (UNIV :: addr set)"
    by (rule card_mono) auto
  finally show ?thesis by (simp add: card_word)
qed

lemma avl_height_bound: "avl t \<Longrightarrow> distinct (inorder (t :: addr tree)) \<Longrightarrow> height t \<le> 91"
proof (rule ccontr)
  assume a: "avl t" "distinct (inorder t)" "\<not> height t \<le> 91"
  then have "min_size 92 \<le> min_size (height t)" by (intro min_size_mono) simp
  also have "\<dots> \<le> size t" by (rule avl_size [OF a(1)])
  also have "\<dots> \<le> 2 ^ 64" by (rule distinct_size [OF a(2)])
  finally show False using min_size_92 by simp
qed

subsection \<open>One round of rebalancing\<close>

fun rot_left :: "'a tree \<Rightarrow> 'a tree" where
  "rot_left \<langle>a, n, \<langle>b, p, c\<rangle>\<rangle> = \<langle>\<langle>a, n, b\<rangle>, p, c\<rangle>"
| "rot_left t = t"

fun rot_right :: "'a tree \<Rightarrow> 'a tree" where
  "rot_right \<langle>\<langle>a, p, b\<rangle>, n, c\<rangle> = \<langle>a, p, \<langle>b, n, c\<rangle>\<rangle>"
| "rot_right t = t"

fun left_lean :: "'a tree \<Rightarrow> 'a tree" where
  "left_lean \<langle>a, p, b\<rangle> = (if height a < height b then rot_left \<langle>a, p, b\<rangle> else \<langle>a, p, b\<rangle>)"
| "left_lean t = t"

fun right_lean :: "'a tree \<Rightarrow> 'a tree" where
  "right_lean \<langle>a, p, b\<rangle> = (if height b < height a then rot_right \<langle>a, p, b\<rangle> else \<langle>a, p, b\<rangle>)"
| "right_lean t = t"

fun fix_tree :: "'a tree \<Rightarrow> 'a tree" where
  "fix_tree \<langle>l, n, r\<rangle> =
     (if height l > height r + 1 then rot_right \<langle>left_lean l, n, r\<rangle>
      else if height r > height l + 1 then rot_left \<langle>l, n, right_lean r\<rangle>
      else \<langle>l, n, r\<rangle>)"
| "fix_tree t = t"

lemma inorder_rot [simp]:
  "inorder (rot_left t) = inorder t" "inorder (rot_right t) = inorder t"
  by (cases t rule: rot_left.cases; simp) (cases t rule: rot_right.cases; simp)

lemma inorder_lean [simp]:
  "inorder (left_lean t) = inorder t" "inorder (right_lean t) = inorder t"
  by (cases t; simp)+

lemma inorder_fix_tree [simp]: "inorder (fix_tree t) = inorder t"
  by (cases t) simp_all

lemma rot_Leaf_iff [simp]: "rot_left t = Leaf \<longleftrightarrow> t = Leaf" "rot_right t = Leaf \<longleftrightarrow> t = Leaf"
  by (cases t rule: rot_left.cases; simp) (cases t rule: rot_right.cases; simp)

lemma height_rot_left: "height (rot_left t) \<le> height t + 1"
  by (cases t rule: rot_left.cases) auto

lemma height_rot_right: "height (rot_right t) \<le> height t + 1"
  by (cases t rule: rot_right.cases) auto

lemma lean_Leaf_iff [simp]: "left_lean t = Leaf \<longleftrightarrow> t = Leaf" "right_lean t = Leaf \<longleftrightarrow> t = Leaf"
  by (cases t; simp)+

lemma lean_cases: "left_lean t = t \<or> left_lean t = rot_left t" "right_lean t = t \<or> right_lean t = rot_right t"
  by (cases t; simp)+

lemma height_lean: "height (left_lean t) \<le> height t + 1" "height (right_lean t) \<le> height t + 1"
  using lean_cases [of t] height_rot_left [of t] height_rot_right [of t] by auto

lemma height_pos_Node: "0 < height t \<longleftrightarrow> (\<exists>l n r. t = \<langle>l, n, r\<rangle>)"
  by (cases t) auto

lemma fix_left_heavy:
  assumes "avl l" "avl r" "height l = height r + 2"
  shows "avl (rot_right \<langle>left_lean l, n, r\<rangle>)"
    "height l \<le> height (rot_right \<langle>left_lean l, n, r\<rangle>)"
    "height (rot_right \<langle>left_lean l, n, r\<rangle>) \<le> height l + 1"
proof -
  obtain a p b where l: "l = \<langle>a, p, b\<rangle>" using assms(3) by (cases l) auto
  have "avl (rot_right \<langle>left_lean l, n, r\<rangle>) \<and> height l \<le> height (rot_right \<langle>left_lean l, n, r\<rangle>)
      \<and> height (rot_right \<langle>left_lean l, n, r\<rangle>) \<le> height l + 1"
  proof (cases "height a < height b")
    case True
    then obtain b1 q b2 where "b = \<langle>b1, q, b2\<rangle>" by (cases b) auto
    with True assms l show ?thesis by (auto simp: max_def split: if_splits)
  next
    case False
    with assms l show ?thesis by (auto simp: max_def split: if_splits)
  qed
  then show "avl (rot_right \<langle>left_lean l, n, r\<rangle>)"
    "height l \<le> height (rot_right \<langle>left_lean l, n, r\<rangle>)"
    "height (rot_right \<langle>left_lean l, n, r\<rangle>) \<le> height l + 1" by auto
qed

lemma fix_right_heavy:
  assumes "avl l" "avl r" "height r = height l + 2"
  shows "avl (rot_left \<langle>l, n, right_lean r\<rangle>)"
    "height r \<le> height (rot_left \<langle>l, n, right_lean r\<rangle>)"
    "height (rot_left \<langle>l, n, right_lean r\<rangle>) \<le> height r + 1"
proof -
  obtain a p b where r: "r = \<langle>a, p, b\<rangle>" using assms(3) by (cases r) auto
  have "avl (rot_left \<langle>l, n, right_lean r\<rangle>) \<and> height r \<le> height (rot_left \<langle>l, n, right_lean r\<rangle>)
      \<and> height (rot_left \<langle>l, n, right_lean r\<rangle>) \<le> height r + 1"
  proof (cases "height b < height a")
    case True
    then obtain a1 q a2 where "a = \<langle>a1, q, a2\<rangle>" by (cases a) auto
    with True assms r show ?thesis by (auto simp: max_def split: if_splits)
  next
    case False
    with assms r show ?thesis by (auto simp: max_def split: if_splits)
  qed
  then show "avl (rot_left \<langle>l, n, right_lean r\<rangle>)"
    "height r \<le> height (rot_left \<langle>l, n, right_lean r\<rangle>)"
    "height (rot_left \<langle>l, n, right_lean r\<rangle>) \<le> height r + 1" by auto
qed

lemma avl_fix_tree:
  assumes "avl l" "avl r" "height l \<le> height r + 2" "height r \<le> height l + 2"
  shows "avl (fix_tree \<langle>l, n, r\<rangle>)"
    "max (height l) (height r) \<le> height (fix_tree \<langle>l, n, r\<rangle>)"
    "height (fix_tree \<langle>l, n, r\<rangle>) \<le> 1 + max (height l) (height r)"
proof -
  consider "height l = height r + 2" | "height r = height l + 2"
    | "height l \<le> height r + 1" "height r \<le> height l + 1"
    using assms(3,4) by linarith
  then have "avl (fix_tree \<langle>l, n, r\<rangle>) \<and> max (height l) (height r) \<le> height (fix_tree \<langle>l, n, r\<rangle>)
      \<and> height (fix_tree \<langle>l, n, r\<rangle>) \<le> 1 + max (height l) (height r)"
  proof cases
    case 1
    then show ?thesis using fix_left_heavy [OF assms(1,2) 1] by (simp add: max_def)
  next
    case 2
    then show ?thesis using fix_right_heavy [OF assms(1,2) 2] by (simp add: max_def)
  next
    case 3
    then show ?thesis using assms(1,2) by (simp add: max_def)
  qed
  then show "avl (fix_tree \<langle>l, n, r\<rangle>)"
    "max (height l) (height r) \<le> height (fix_tree \<langle>l, n, r\<rangle>)"
    "height (fix_tree \<langle>l, n, r\<rangle>) \<le> 1 + max (height l) (height r)" by auto
qed

lemma fix_tree_balanced:
  "height l \<le> height r + 1 \<Longrightarrow> height r \<le> height l + 1 \<Longrightarrow> fix_tree \<langle>l, n, r\<rangle> = \<langle>l, n, r\<rangle>"
  by simp

subsection \<open>Trees with a hole\<close>

text \<open>
  The way from a node up to the root: in a frame \<open>FL p r\<close> the hole is the left child of \<open>p\<close>,
  whose right subtree is \<open>r\<close>.
\<close>

datatype frame = FL addr "addr tree" | FR "addr tree" addr

fun plug :: "addr tree \<Rightarrow> frame list \<Rightarrow> addr tree" where
  "plug t [] = t"
| "plug t (FL p r # fs) = plug \<langle>t, p, r\<rangle> fs"
| "plug t (FR l p # fs) = plug \<langle>l, p, t\<rangle> fs"

fun before :: "frame list \<Rightarrow> addr list" where
  "before [] = []"
| "before (FL p r # fs) = before fs"
| "before (FR l p # fs) = before fs @ inorder l @ [p]"

fun after :: "frame list \<Rightarrow> addr list" where
  "after [] = []"
| "after (FL p r # fs) = p # inorder r @ after fs"
| "after (FR l p # fs) = after fs"

lemma inorder_plug: "inorder (plug t fs) = before fs @ inorder t @ after fs"
  by (induction t fs rule: plug.induct) auto

fun frame_avl :: "frame \<Rightarrow> nat \<Rightarrow> bool" where
  "frame_avl (FL p r) k \<longleftrightarrow> avl r \<and> k \<le> height r + 1 \<and> height r \<le> k + 1"
| "frame_avl (FR l p) k \<longleftrightarrow> avl l \<and> k \<le> height l + 1 \<and> height l \<le> k + 1"

fun frame_height :: "frame \<Rightarrow> nat \<Rightarrow> nat" where
  "frame_height (FL p r) k = 1 + max k (height r)"
| "frame_height (FR l p) k = 1 + max (height l) k"

text \<open>The frames are balanced around a hole of height \<open>k\<close>.\<close>

fun frames_avl :: "frame list \<Rightarrow> nat \<Rightarrow> bool" where
  "frames_avl [] k = True"
| "frames_avl (f # fs) k \<longleftrightarrow> frame_avl f k \<and> frames_avl fs (frame_height f k)"

lemma avl_plug: "avl (plug t fs) \<longleftrightarrow> avl t \<and> frames_avl fs (height t)"
  by (induction t fs rule: plug.induct) auto

lemma frames_avl_append:
  "frames_avl (fs @ gs) k \<longleftrightarrow> frames_avl fs k \<and> frames_avl gs (foldl (\<lambda>k f. frame_height f k) k fs)"
  by (induction fs arbitrary: k) auto

lemma height_plug_foldl: "height (plug t fs) = foldl (\<lambda>k f. frame_height f k) (height t) fs"
  by (induction t fs rule: plug.induct) auto

lemma plug_append: "plug t (fs @ gs) = plug (plug t fs) gs"
  by (induction t fs rule: plug.induct) auto

lemma plug_exists:
  assumes "x \<in> set_tree t"
  shows "\<exists>l r fs. t = plug \<langle>l, x, r\<rangle> fs"
  using assms
proof (induction t)
  case (Node l n r)
  then consider "x = n" | "x \<in> set_tree l" | "x \<in> set_tree r" by auto
  then show ?case
  proof cases
    case 1
    then have "\<langle>l, n, r\<rangle> = plug \<langle>l, x, r\<rangle> []" by simp
    then show ?thesis by blast
  next
    case 2
    then obtain a b fs where "l = plug \<langle>a, x, b\<rangle> fs" using Node.IH(1) by blast
    then have "\<langle>l, n, r\<rangle> = plug \<langle>a, x, b\<rangle> (fs @ [FL n r])" by (simp add: plug_append)
    then show ?thesis by blast
  next
    case 3
    then obtain a b fs where "r = plug \<langle>a, x, b\<rangle> fs" using Node.IH(2) by blast
    then have "\<langle>l, n, r\<rangle> = plug \<langle>a, x, b\<rangle> (fs @ [FR l n])" by (simp add: plug_append)
    then show ?thesis by blast
  qed
qed simp

text \<open>A subtree that is fixed up below a balanced frame is off by one at most at the next level.\<close>

lemma fix_tree_frame:
  fixes l r :: "addr tree"
  assumes "avl l" "avl r" "k \<le> height r + 1" "height r \<le> k + 1" "height l \<le> k + 1" "k \<le> height l + 1"
  shows "height (fix_tree \<langle>l, n, r\<rangle>) \<le> (1 + max k (height r)) + 1"
    "1 + max k (height r) \<le> height (fix_tree \<langle>l, n, r\<rangle>) + 1"
    "height (fix_tree \<langle>r, n, l\<rangle>) \<le> (1 + max (height r) k) + 1"
    "1 + max (height r) k \<le> height (fix_tree \<langle>r, n, l\<rangle>) + 1"
proof -
  have lr: "height l \<le> height r + 2" "height r \<le> height l + 2" using assms by linarith+
  show "height (fix_tree \<langle>l, n, r\<rangle>) \<le> (1 + max k (height r)) + 1"
    using avl_fix_tree(3) [OF assms(1,2) lr, of n] assms by linarith
  show "height (fix_tree \<langle>r, n, l\<rangle>) \<le> (1 + max (height r) k) + 1"
    using avl_fix_tree(3) [OF assms(2,1) lr(2,1), of n] assms by linarith
  have "height l \<le> height r + 1 \<and> height r \<le> height l + 1 \<or> max k (height r) \<le> max (height l) (height r)"
    using assms by linarith
  then show "1 + max k (height r) \<le> height (fix_tree \<langle>l, n, r\<rangle>) + 1"
    "1 + max (height r) k \<le> height (fix_tree \<langle>r, n, l\<rangle>) + 1"
    using avl_fix_tree(2) [OF assms(1,2) lr, of n] avl_fix_tree(2) [OF assms(2,1) lr(2,1), of n]
      fix_tree_balanced [of l r n] fix_tree_balanced [of r l n] assms
    by (auto simp del: fix_tree.simps)
qed

end
