(* ===== verification/AvlRefine.thy ===== *)
theory AvlRefine
  imports AvlShape
begin

text \<open>
  The AVL tree on the heap against trees of addresses.  \<open>tree_ok\<close> says that the heap holds a
  given tree, with right links, heights and subtree data; \<open>ctx\<close> says the same of a tree with a
  hole.  The locale \<open>avl_traits\<close> is the concept \<^verbatim>\<open>AvlTraits\<close> of the source: an order that the
  items' \<open>core\<close> determines and that \<open>update\<close> leaves alone.  In it, every operation of
  \<open>AvlTree\<close> is proved to return, and to do to the in-order list what its name says.
\<close>

subsection \<open>Reading and writing the heap\<close>

lemma set_link_simps [simp, store_simps]:
  "nodes (set_parent n p h) = (nodes h)(n := (nodes h n)\<lparr>m_parent := p\<rparr>)"
  "nodes (set_left n p h) = (nodes h)(n := (nodes h n)\<lparr>m_left := p\<rparr>)"
  "nodes (set_right n p h) = (nodes h)(n := (nodes h n)\<lparr>m_right := p\<rparr>)"
  "nodes (set_height n w h) = (nodes h)(n := (nodes h n)\<lparr>m_height := w\<rparr>)"
  "items (set_parent n p h) = items h" "items (set_left n p h) = items h"
  "items (set_right n p h) = items h" "items (set_height n w h) = items h"
  "avl_heap.more (set_parent n p h) = avl_heap.more h"
  "avl_heap.more (set_left n p h) = avl_heap.more h"
  "avl_heap.more (set_right n p h) = avl_heap.more h"
  "avl_heap.more (set_height n w h) = avl_heap.more h"
  by (simp_all add: set_parent_def set_left_def set_right_def set_height_def)

lemma set_parent_opt_simps [simp]:
  "set_parent_opt None p h = h" "set_parent_opt (Some n) p h = set_parent n p h"
  by (simp_all add: set_parent_opt_def)

lemma item_at_simps [simp]:
  "item_at h None = None" "item_at h (Some n) = Some (items h n)"
  by (simp_all add: item_at_def)

lemma node_height_simps [simp]:
  "node_height h None = 0" "node_height h (Some n) = sint (m_height (nodes h n))"
  by (simp_all add: node_height_def)

lemma sint_of_nat_8: "k < 128 \<Longrightarrow> sint (of_nat k :: 8 word) = int k"
  by (simp add: sint_uint signed_take_bit_int_eq_self uint_nat unat_of_nat)

subsection \<open>Trees on the heap\<close>

fun root_ptr :: "addr tree \<Rightarrow> ptr" where
  "root_ptr Leaf = None"
| "root_ptr (Node l n r) = Some n"

definition node_rec :: "ptr \<Rightarrow> addr tree \<Rightarrow> addr tree \<Rightarrow> avl_node" where
  "node_rec par l r = \<lparr>m_parent = par, m_left = root_ptr l, m_right = root_ptr r,
     m_height = of_nat (Suc (max (height l) (height r)))\<rparr>"

definition links_at :: "('a, 'z) avl_heap_scheme \<Rightarrow> ptr \<Rightarrow> addr tree \<Rightarrow> addr \<Rightarrow> addr tree \<Rightarrow> bool" where
  "links_at h par l n r \<longleftrightarrow> m_parent (nodes h n) = par \<and> m_left (nodes h n) = root_ptr l
     \<and> m_right (nodes h n) = root_ptr r"

fun tree_ok :: "'a updater \<Rightarrow> ('a, 'z) avl_heap_scheme \<Rightarrow> ptr \<Rightarrow> addr tree \<Rightarrow> bool" where
  "tree_ok upd h par Leaf = True"
| "tree_ok upd h par (Node l n r) \<longleftrightarrow> nodes h n = node_rec par l r
     \<and> items h n = upd (items h n) (item_at h (root_ptr l)) (item_at h (root_ptr r))
     \<and> tree_ok upd h (Some n) l \<and> tree_ok upd h (Some n) r"

fun ctx :: "'a updater \<Rightarrow> ('a, 'z) avl_heap_scheme \<Rightarrow> ptr \<Rightarrow> frame list \<Rightarrow> ptr \<Rightarrow> ptr \<Rightarrow> bool" where
  "ctx upd h root [] q par \<longleftrightarrow> root = q \<and> par = None"
| "ctx upd h root (FL p r # fs) q par \<longleftrightarrow> par = Some p \<and> m_left (nodes h p) = q
     \<and> m_right (nodes h p) = root_ptr r \<and> tree_ok upd h (Some p) r
     \<and> ctx upd h root fs (Some p) (m_parent (nodes h p))"
| "ctx upd h root (FR l p # fs) q par \<longleftrightarrow> par = Some p \<and> m_left (nodes h p) = root_ptr l
     \<and> m_right (nodes h p) = q \<and> tree_ok upd h (Some p) l
     \<and> ctx upd h root fs (Some p) (m_parent (nodes h p))"

definition same_on :: "addr set \<Rightarrow> ('a, 'z) avl_heap_scheme \<Rightarrow> ('a, 'z) avl_heap_scheme \<Rightarrow> bool" where
  "same_on S h h' \<longleftrightarrow> (\<forall>m\<in>S. nodes h' m = nodes h m \<and> items h' m = items h m)"

lemma root_ptr_in: "root_ptr t = Some n \<Longrightarrow> n \<in> set_tree t"
  by (cases t) auto

lemma root_ptr_None [simp]: "root_ptr t = None \<longleftrightarrow> t = Leaf"
  by (cases t) auto

lemma same_on_subset: "same_on S h h' \<Longrightarrow> T \<subseteq> S \<Longrightarrow> same_on T h h'"
  by (auto simp: same_on_def)

lemma item_at_same: "same_on (set_tree t) h h' \<Longrightarrow> item_at h' (root_ptr t) = item_at h (root_ptr t)"
  by (cases t) (auto simp: same_on_def)

lemma tree_ok_same:
  "same_on (set_tree t) h h' \<Longrightarrow> tree_ok upd h' par t \<longleftrightarrow> tree_ok upd h par t"
proof (induction t arbitrary: par)
  case (Node l n r)
  have s: "same_on (set_tree l) h h'" "same_on (set_tree r) h h'"
    "nodes h' n = nodes h n" "items h' n = items h n"
    using Node.prems by (auto simp: same_on_def)
  then show ?case
    using Node.IH(1) [OF s(1)] Node.IH(2) [OF s(2)] item_at_same [OF s(1)] item_at_same [OF s(2)]
    by simp
qed simp

lemma ctx_same:
  "same_on (set (before fs @ after fs)) h h' \<Longrightarrow> ctx upd h' root fs q par \<longleftrightarrow> ctx upd h root fs q par"
proof (induction fs arbitrary: q par)
  case (Cons f fs)
  show ?case
  proof (cases f)
    case (FL p r)
    with Cons.prems have s: "same_on (set_tree r) h h'" "nodes h' p = nodes h p"
      "same_on (set (before fs @ after fs)) h h'" by (auto simp: same_on_def)
    then show ?thesis using FL Cons.IH [OF s(3)] tree_ok_same [OF s(1)] by simp
  next
    case (FR l p)
    with Cons.prems have s: "same_on (set_tree l) h h'" "nodes h' p = nodes h p"
      "same_on (set (before fs @ after fs)) h h'" by (auto simp: same_on_def)
    then show ?thesis using FR Cons.IH [OF s(3)] tree_ok_same [OF s(1)] by simp
  qed
qed simp

lemma tree_ok_height:
  "tree_ok upd h par t \<Longrightarrow> height t < 128 \<Longrightarrow> node_height h (root_ptr t) = int (height t)"
  by (cases t) (simp_all add: node_rec_def sint_of_nat_8 del: of_nat_Suc)

lemma tree_ok_reparent:
  assumes "tree_ok upd h par t" "distinct (inorder t)"
  shows "tree_ok upd (set_parent_opt (root_ptr t) par' h) par' t"
proof (cases t)
  case (Node l n r)
  let ?h = "set_parent n par' h"
  have "n \<notin> set_tree l" "n \<notin> set_tree r"
    using assms(2) Node by auto
  then have s: "same_on (set_tree l) h ?h" "same_on (set_tree r) h ?h"
    by (auto simp: same_on_def)
  show ?thesis
    using assms(1) Node tree_ok_same [OF s(1)] tree_ok_same [OF s(2)]
      item_at_same [OF s(1)] item_at_same [OF s(2)]
    by (simp add: node_rec_def)
qed simp

lemma tree_ok_plugD:
  "tree_ok upd h None (plug t fs) \<Longrightarrow>
   \<exists>par. tree_ok upd h par t \<and> ctx upd h (root_ptr (plug t fs)) fs (root_ptr t) par"
proof (induction t fs rule: plug.induct)
  case (2 t p r fs)
  then obtain par where par: "tree_ok upd h par \<langle>t, p, r\<rangle>"
    "ctx upd h (root_ptr (plug \<langle>t, p, r\<rangle> fs)) fs (Some p) par" by auto
  then show ?case by (intro exI [of _ "Some p"]) (simp add: node_rec_def)
next
  case (3 t l p fs)
  then obtain par where par: "tree_ok upd h par \<langle>l, p, t\<rangle>"
    "ctx upd h (root_ptr (plug \<langle>l, p, t\<rangle> fs)) fs (Some p) par" by auto
  then show ?case by (intro exI [of _ "Some p"]) (simp add: node_rec_def)
qed simp

lemma ctx_parent:
  "ctx upd h root fs q par \<Longrightarrow> par = None \<and> fs = [] \<or> (\<exists>p. par = Some p \<and> p \<in> set (before fs @ after fs))"
  by (cases "(upd, h, root, fs, q, par)" rule: ctx.cases) auto

lemma ctx_parent_unique:
  "ctx upd h root fs q par \<Longrightarrow> ctx upd h' root' fs q' par' \<Longrightarrow> par = par'"
  by (cases "(upd, h, root, fs, q, par)" rule: ctx.cases) auto

lemma replace_child_ok:
  assumes c: "ctx upd h root fs (Some old) (m_parent (nodes h old))"
    and d: "distinct (before fs @ old # after fs)"
    and r: "replace_child old new h root = (h', root')"
  shows "ctx upd h' root' fs new (m_parent (nodes h old))"
    "same_on (- set (before fs @ after fs)) h h'" "items h' = items h" "avl_heap.more h' = avl_heap.more h"
proof -
  have "ctx upd h' root' fs new (m_parent (nodes h old)) \<and>
    same_on (- set (before fs @ after fs)) h h' \<and> items h' = items h \<and> avl_heap.more h' = avl_heap.more h"
  proof (cases fs)
    case Nil
    with c r show ?thesis by (auto simp: replace_child_def same_on_def)
  next
    case (Cons f gs)
    show ?thesis
    proof (cases f)
      case (FL p s)
      have h': "h' = set_left p new h" "root' = root"
        using c r Cons FL by (auto simp: replace_child_def)
      have "same_on (set_tree s) h h'" "same_on (set (before gs @ after gs)) h h'"
        using d Cons FL by (auto simp: same_on_def h')
      then show ?thesis
        using c Cons FL by (simp add: tree_ok_same ctx_same) (auto simp: same_on_def h')
    next
      case (FR s p)
      have "root_ptr s \<noteq> Some old"
        using d Cons FR root_ptr_in by fastforce
      then have h': "h' = set_right p new h" "root' = root"
        using c r Cons FR by (auto simp: replace_child_def)
      have "same_on (set_tree s) h h'" "same_on (set (before gs @ after gs)) h h'"
        using d Cons FR by (auto simp: same_on_def h')
      then show ?thesis
        using c Cons FR by (simp add: tree_ok_same ctx_same) (auto simp: same_on_def h')
    qed
  qed
  then show "ctx upd h' root' fs new (m_parent (nodes h old))"
    "same_on (- set (before fs @ after fs)) h h'" "items h' = items h"
    "avl_heap.more h' = avl_heap.more h" by blast+
qed

text \<open>The link at the bottom of the frames.\<close>

fun link_of :: "frame list \<Rightarrow> link" where
  "link_of [] = AtRoot"
| "link_of (FL p r # fs) = LeftOf p"
| "link_of (FR l p # fs) = RightOf p"

lemma read_link_ok: "ctx upd h root fs q par \<Longrightarrow> read_link h root (link_of fs) = q"
  by (cases "(upd, h, root, fs, q, par)" rule: ctx.cases) (auto simp: read_link_def)

lemma write_link_ok:
  assumes c: "ctx upd h root fs q par" and d: "distinct (before fs @ after fs)"
    and w: "write_link (link_of fs) new h root = (h', root')"
  shows "ctx upd h' root' fs new par" "same_on (- set (before fs @ after fs)) h h'"
    "items h' = items h" "avl_heap.more h' = avl_heap.more h"
proof -
  have "ctx upd h' root' fs new par \<and> same_on (- set (before fs @ after fs)) h h' \<and> items h' = items h
    \<and> avl_heap.more h' = avl_heap.more h"
  proof (cases "(upd, h, root, fs, q, par)" rule: ctx.cases)
    case 1
    with c w show ?thesis by (auto simp: write_link_def same_on_def)
  next
    case (2 _ _ _ p s gs)
    have h': "h' = set_left p new h" "root' = root"
      using 2 w by (auto simp: write_link_def)
    have "same_on (set_tree s) h h'" "same_on (set (before gs @ after gs)) h h'"
      using d 2 by (auto simp: same_on_def h')
    then show ?thesis
      using c 2 by (simp add: tree_ok_same ctx_same) (auto simp: same_on_def h')
  next
    case (3 _ _ _ s p gs)
    have h': "h' = set_right p new h" "root' = root"
      using 3 w by (auto simp: write_link_def)
    have "same_on (set_tree s) h h'" "same_on (set (before gs @ after gs)) h h'"
      using d 3 by (auto simp: same_on_def h')
    then show ?thesis
      using c 3 by (simp add: tree_ok_same ctx_same) (auto simp: same_on_def h')
  qed
  then show "ctx upd h' root' fs new par" "same_on (- set (before fs @ after fs)) h h'"
    "items h' = items h" "avl_heap.more h' = avl_heap.more h" by blast+
qed

subsection \<open>The traits\<close>

locale avl_traits =
  fixes lt :: "'a \<Rightarrow> 'a \<Rightarrow> bool" and upd :: "'a updater" and core :: "'a \<Rightarrow> 'c"
  assumes upd_upd: "upd (upd x a b) a b = upd x a b"
    and core_upd: "core (upd x a b) = core x"
    and lt_core: "core x = core x' \<Longrightarrow> core y = core y' \<Longrightarrow> lt x y = lt x' y'"
    and lt_asym: "lt x y \<Longrightarrow> \<not> lt y x"
    and lt_cotrans: "\<not> lt x y \<Longrightarrow> \<not> lt y z \<Longrightarrow> \<not> lt x z"
begin

text \<open>What an operation on a tree with the nodes \<open>S\<close> may change.\<close>

definition touches :: "addr set \<Rightarrow> ('a, 'z) avl_heap_scheme \<Rightarrow> ('a, 'z) avl_heap_scheme \<Rightarrow> bool" where
  "touches S h h' \<longleftrightarrow> same_on (- S) h h' \<and> (\<forall>m. core (items h' m) = core (items h m))
     \<and> avl_heap.more h' = avl_heap.more h"

lemma touches_refl [simp]: "touches S h h"
  by (simp add: touches_def same_on_def)

lemma touches_trans: "touches S h1 h2 \<Longrightarrow> touches S h2 h3 \<Longrightarrow> touches S h1 h3"
  by (simp add: touches_def same_on_def)

lemma touches_mono: "touches S h h' \<Longrightarrow> S \<subseteq> T \<Longrightarrow> touches T h h'"
  by (auto simp: touches_def same_on_def)

lemma same_on_trans: "same_on S h h' \<Longrightarrow> same_on S h' h'' \<Longrightarrow> same_on S h h''"
  by (simp add: same_on_def)

lemma touches_same_on: "touches S h h' \<Longrightarrow> S \<inter> T = {} \<Longrightarrow> same_on T h h'"
  by (auto simp: touches_def same_on_def)

lemma touches_set [simp]:
  "n \<in> S \<Longrightarrow> touches S h (set_parent n p h)" "n \<in> S \<Longrightarrow> touches S h (set_left n p h)"
  "n \<in> S \<Longrightarrow> touches S h (set_right n p h)" "n \<in> S \<Longrightarrow> touches S h (set_height n w h)"
  by (auto simp: touches_def same_on_def)

lemma touches_set_parent_opt:
  "set_tree t \<subseteq> S \<Longrightarrow> touches S h (set_parent_opt (root_ptr t) p h)"
  by (cases t) auto

lemma refresh_ok:
  assumes "links_at h par l n r" "tree_ok upd h (Some n) l" "tree_ok upd h (Some n) r"
    and "n \<notin> set_tree l" "n \<notin> set_tree r" "height l < 127" "height r < 127"
  shows "tree_ok upd (refresh upd n h) par \<langle>l, n, r\<rangle>" "touches {n} h (refresh upd n h)"
proof -
  let ?h = "refresh upd n h"
  have hl: "node_height h (root_ptr l) = int (height l)" "node_height h (root_ptr r) = int (height r)"
    using tree_ok_height [OF assms(2)] tree_ok_height [OF assms(3)] assms(6,7) by simp_all
  have max: "1 + max (int (height l)) (int (height r)) = int (Suc (max (height l) (height r)))"
    by simp
  have lr: "m_left (nodes h n) = root_ptr l" "m_right (nodes h n) = root_ptr r" "m_parent (nodes h n) = par"
    using assms(1) by (simp_all add: links_at_def)
  have n: "nodes ?h n = node_rec par l r"
    unfolding refresh_def Let_def lr hl max
    by (simp add: node_rec_def lr del: of_nat_Suc)
  have it: "items ?h = (items h)(n := upd (items h n) (item_at h (root_ptr l)) (item_at h (root_ptr r)))"
    unfolding refresh_def Let_def lr by (simp add: item_at_def)
  show t: "touches {n} h ?h"
    unfolding touches_def same_on_def
    by (auto simp: it core_upd) (auto simp: refresh_def Let_def split: if_splits)
  have s: "same_on (set_tree l) h ?h" "same_on (set_tree r) h ?h"
    by (rule touches_same_on [OF t], use assms(4,5) in blast)+
  show "tree_ok upd ?h par \<langle>l, n, r\<rangle>"
    using assms n it upd_upd tree_ok_same [OF s(1)] tree_ok_same [OF s(2)]
      item_at_same [OF s(1)] item_at_same [OF s(2)] by simp
qed

subsection \<open>Rotations\<close>

lemma rotate_left_ok:
  assumes n: "links_at h par a n \<langle>b, p, c\<rangle>"
    and p: "m_left (nodes h p) = root_ptr b" "m_right (nodes h p) = root_ptr c"
    and abc: "tree_ok upd h (Some n) a" "tree_ok upd h (Some p) b" "tree_ok upd h (Some p) c"
    and c: "ctx upd h root fs (Some n) par"
    and d: "distinct (before fs @ inorder \<langle>a, n, \<langle>b, p, c\<rangle>\<rangle> @ after fs)"
    and ht: "height a < 125" "height b < 125" "height c < 125"
  obtains h' root' where "rotate_left upd n h root = Some (h', root', p)"
    "tree_ok upd h' par (rot_left \<langle>a, n, \<langle>b, p, c\<rangle>\<rangle>)" "ctx upd h' root' fs (Some p) par"
    "touches (set (before fs @ inorder \<langle>a, n, \<langle>b, p, c\<rangle>\<rangle> @ after fs)) h h'"
proof -
  let ?S = "set (before fs @ inorder \<langle>a, n, \<langle>b, p, c\<rangle>\<rangle> @ after fs)"
  have np: "n \<noteq> p" "n \<notin> set_tree a" "n \<notin> set_tree b" "n \<notin> set_tree c"
    "p \<notin> set_tree a" "p \<notin> set_tree b" "p \<notin> set_tree c"
    "set_tree a \<inter> set_tree b = {}" "set_tree b \<inter> set_tree c = {}"
    "set (before fs @ after fs) \<inter> ({n, p} \<union> set_tree a \<union> set_tree b \<union> set_tree c) = {}"
    "distinct (before fs @ n # after fs)" "distinct (inorder b)"
    using d by auto
  define h1 where "h1 = set_right n (root_ptr b) h"
  define h2 where "h2 = set_parent_opt (root_ptr b) (Some n) h1"
  define h3 where "h3 = set_parent p par h2"
  obtain h4 root' where h4: "replace_child n (Some p) h3 root = (h4, root')" by fastforce
  define h5 where "h5 = set_parent n (Some p) (set_left p (Some n) h4)"
  define h6 where "h6 = refresh upd n h5"
  define h7 where "h7 = refresh upd p h6"
  have rb: "root_ptr b \<noteq> Some n" "root_ptr b \<noteq> Some p"
    using np root_ptr_in by blast+
  have nn: "nodes h3 n = (nodes h n)\<lparr>m_right := root_ptr b\<rparr>"
    "nodes h3 p = (nodes h p)\<lparr>m_parent := par\<rparr>"
    using rb np(1) by (auto simp: h3_def h2_def h1_def set_parent_opt_def split: option.splits)
  have t3: "touches ({n, p} \<union> set_tree b) h h3"
  proof -
    have "touches ({n, p} \<union> set_tree b) h h1" "touches ({n, p} \<union> set_tree b) h2 h3"
      by (simp_all add: h1_def h3_def)
    moreover have "touches ({n, p} \<union> set_tree b) h1 h2"
      unfolding h2_def by (rule touches_set_parent_opt) auto
    ultimately show ?thesis by (blast intro: touches_trans)
  qed
  have s3: "same_on (set_tree a) h h3" "same_on (set_tree c) h h3" "same_on (set (before fs @ after fs)) h h3"
    by (rule touches_same_on [OF t3], use np in blast)+
  have par3: "m_parent (nodes h3 n) = par"
    using n nn by (simp add: links_at_def)
  have c3: "ctx upd h3 root fs (Some n) (m_parent (nodes h3 n))"
    using c ctx_same [OF s3(3)] par3 by simp
  note rc = replace_child_ok [OF c3 np(11) h4, unfolded par3]
  have "tree_ok upd h1 (Some p) b"
    using abc(2) np by (subst tree_ok_same) (auto simp: same_on_def h1_def)
  then have "tree_ok upd h2 (Some n) b"
    unfolding h2_def using tree_ok_reparent np(12) by blast
  then have b3: "tree_ok upd h3 (Some n) b"
    using np by (subst tree_ok_same) (auto simp: same_on_def h3_def)
  have s5: "same_on (set_tree a) h3 h5" "same_on (set_tree b) h3 h5" "same_on (set_tree c) h3 h5"
    "same_on (set (before fs @ after fs)) h4 h5"
    using rc(2) np by (auto simp: same_on_def h5_def)
  have "links_at h5 (Some p) a n b" "links_at h5 par \<langle>a, n, b\<rangle> p c"
    using rc(2) np n p nn by (auto simp: links_at_def h5_def same_on_def)
  moreover have "tree_ok upd h5 (Some n) a" "tree_ok upd h5 (Some n) b" and c5: "tree_ok upd h5 (Some p) c"
    using abc b3 s3 s5 by (simp_all add: tree_ok_same)
  ultimately have t6: "tree_ok upd h6 (Some p) \<langle>a, n, b\<rangle>" "touches {n} h5 h6" "links_at h6 par \<langle>a, n, b\<rangle> p c"
    using refresh_ok [of h5 "Some p" a n b] np ht
    by (auto simp: h6_def links_at_def touches_def same_on_def)
  have "tree_ok upd h6 (Some p) c"
    using c5 np(4) by (subst tree_ok_same [OF touches_same_on [OF t6(2)]]) auto
  then have t7: "tree_ok upd h7 par \<langle>\<langle>a, n, b\<rangle>, p, c\<rangle>" "touches {p} h6 h7"
    using refresh_ok [OF t6(3,1)] np ht by (auto simp: h7_def)
  have "same_on (set (before fs @ after fs)) h5 h6" "same_on (set (before fs @ after fs)) h6 h7"
    by (rule touches_same_on [OF t6(2)] touches_same_on [OF t7(2)], use np(10) in blast)+
  then have "same_on (set (before fs @ after fs)) h4 h7"
    using s5(4) same_on_trans by blast
  then have "ctx upd h7 root' fs (Some p) par"
    using rc(1) ctx_same by blast
  moreover have "touches ?S h h7"
  proof -
    have "touches ?S h3 h4"
      using rc(2-4) by (auto simp: touches_def same_on_def)
    moreover have "touches ?S h4 h5"
      unfolding h5_def by (rule touches_trans [OF touches_set(2) touches_set(1)]) auto
    moreover have "touches ?S h h3"
      by (rule touches_mono [OF t3]) auto
    moreover have "touches ?S h5 h6" "touches ?S h6 h7"
      by (rule touches_mono [OF t6(2)] touches_mono [OF t7(2)]; simp)+
    ultimately show ?thesis
      by (blast intro: touches_trans)
  qed
  moreover have "rotate_left upd n h root = Some (h7, root', p)"
  proof -
    have "m_left (nodes h1 p) = root_ptr b" "m_parent (nodes h2 n) = par"
      using n p np(1) rb nn by (auto simp: h1_def h2_def links_at_def set_parent_opt_def split: option.splits)
    then show ?thesis
      using n p h4 np(1) by (simp add: rotate_left_def links_at_def Let_def h1_def [symmetric] h2_def [symmetric]
          h3_def [symmetric] h5_def [symmetric] h6_def [symmetric] h7_def [symmetric])
  qed
  ultimately show thesis using t7(1) that by simp
qed

lemma rotate_right_ok:
  assumes n: "links_at h par \<langle>c, p, b\<rangle> n a"
    and p: "m_right (nodes h p) = root_ptr b" "m_left (nodes h p) = root_ptr c"
    and abc: "tree_ok upd h (Some n) a" "tree_ok upd h (Some p) b" "tree_ok upd h (Some p) c"
    and c: "ctx upd h root fs (Some n) par"
    and d: "distinct (before fs @ inorder \<langle>\<langle>c, p, b\<rangle>, n, a\<rangle> @ after fs)"
    and ht: "height a < 125" "height b < 125" "height c < 125"
  obtains h' root' where "rotate_right upd n h root = Some (h', root', p)"
    "tree_ok upd h' par (rot_right \<langle>\<langle>c, p, b\<rangle>, n, a\<rangle>)" "ctx upd h' root' fs (Some p) par"
    "touches (set (before fs @ inorder \<langle>\<langle>c, p, b\<rangle>, n, a\<rangle> @ after fs)) h h'"
proof -
  let ?S = "set (before fs @ inorder \<langle>\<langle>c, p, b\<rangle>, n, a\<rangle> @ after fs)"
  have np: "n \<noteq> p" "n \<notin> set_tree a" "n \<notin> set_tree b" "n \<notin> set_tree c"
    "p \<notin> set_tree a" "p \<notin> set_tree b" "p \<notin> set_tree c"
    "set_tree a \<inter> set_tree b = {}" "set_tree b \<inter> set_tree c = {}"
    "set (before fs @ after fs) \<inter> ({n, p} \<union> set_tree a \<union> set_tree b \<union> set_tree c) = {}"
    "distinct (before fs @ n # after fs)" "distinct (inorder b)"
    using d by auto
  define h1 where "h1 = set_left n (root_ptr b) h"
  define h2 where "h2 = set_parent_opt (root_ptr b) (Some n) h1"
  define h3 where "h3 = set_parent p par h2"
  obtain h4 root' where h4: "replace_child n (Some p) h3 root = (h4, root')" by fastforce
  define h5 where "h5 = set_parent n (Some p) (set_right p (Some n) h4)"
  define h6 where "h6 = refresh upd n h5"
  define h7 where "h7 = refresh upd p h6"
  have rb: "root_ptr b \<noteq> Some n" "root_ptr b \<noteq> Some p"
    using np root_ptr_in by blast+
  have nn: "nodes h3 n = (nodes h n)\<lparr>m_left := root_ptr b\<rparr>"
    "nodes h3 p = (nodes h p)\<lparr>m_parent := par\<rparr>"
    using rb np(1) by (auto simp: h3_def h2_def h1_def set_parent_opt_def split: option.splits)
  have t3: "touches ({n, p} \<union> set_tree b) h h3"
  proof -
    have "touches ({n, p} \<union> set_tree b) h h1" "touches ({n, p} \<union> set_tree b) h2 h3"
      by (simp_all add: h1_def h3_def)
    moreover have "touches ({n, p} \<union> set_tree b) h1 h2"
      unfolding h2_def by (rule touches_set_parent_opt) auto
    ultimately show ?thesis by (blast intro: touches_trans)
  qed
  have s3: "same_on (set_tree a) h h3" "same_on (set_tree c) h h3" "same_on (set (before fs @ after fs)) h h3"
    by (rule touches_same_on [OF t3], use np in blast)+
  have par3: "m_parent (nodes h3 n) = par"
    using n nn by (simp add: links_at_def)
  have c3: "ctx upd h3 root fs (Some n) (m_parent (nodes h3 n))"
    using c ctx_same [OF s3(3)] par3 by simp
  note rc = replace_child_ok [OF c3 np(11) h4, unfolded par3]
  have "tree_ok upd h1 (Some p) b"
    using abc(2) np by (subst tree_ok_same) (auto simp: same_on_def h1_def)
  then have "tree_ok upd h2 (Some n) b"
    unfolding h2_def using tree_ok_reparent np(12) by blast
  then have b3: "tree_ok upd h3 (Some n) b"
    using np by (subst tree_ok_same) (auto simp: same_on_def h3_def)
  have s5: "same_on (set_tree a) h3 h5" "same_on (set_tree b) h3 h5" "same_on (set_tree c) h3 h5"
    "same_on (set (before fs @ after fs)) h4 h5"
    using rc(2) np by (auto simp: same_on_def h5_def)
  have "links_at h5 (Some p) b n a" "links_at h5 par c p \<langle>b, n, a\<rangle>"
    using rc(2) np n p nn by (auto simp: links_at_def h5_def same_on_def)
  moreover have "tree_ok upd h5 (Some n) a" "tree_ok upd h5 (Some n) b" and c5: "tree_ok upd h5 (Some p) c"
    using abc b3 s3 s5 by (simp_all add: tree_ok_same)
  ultimately have t6: "tree_ok upd h6 (Some p) \<langle>b, n, a\<rangle>" "touches {n} h5 h6" "links_at h6 par c p \<langle>b, n, a\<rangle>"
    using refresh_ok [of h5 "Some p" b n a] np ht
    by (auto simp: h6_def links_at_def touches_def same_on_def)
  have "tree_ok upd h6 (Some p) c"
    using c5 np(4) by (subst tree_ok_same [OF touches_same_on [OF t6(2)]]) auto
  then have t7: "tree_ok upd h7 par \<langle>c, p, \<langle>b, n, a\<rangle>\<rangle>" "touches {p} h6 h7"
    using refresh_ok [OF t6(3) _ t6(1)] np ht by (auto simp: h7_def)
  have "same_on (set (before fs @ after fs)) h5 h6" "same_on (set (before fs @ after fs)) h6 h7"
    by (rule touches_same_on [OF t6(2)] touches_same_on [OF t7(2)], use np(10) in blast)+
  then have "same_on (set (before fs @ after fs)) h4 h7"
    using s5(4) same_on_trans by blast
  then have "ctx upd h7 root' fs (Some p) par"
    using rc(1) ctx_same by blast
  moreover have "touches ?S h h7"
  proof -
    have "touches ?S h3 h4"
      using rc(2-4) by (auto simp: touches_def same_on_def)
    moreover have "touches ?S h4 h5"
      unfolding h5_def by (rule touches_trans [OF touches_set(3) touches_set(1)]) auto
    moreover have "touches ?S h h3"
      by (rule touches_mono [OF t3]) auto
    moreover have "touches ?S h5 h6" "touches ?S h6 h7"
      by (rule touches_mono [OF t6(2)] touches_mono [OF t7(2)]; simp)+
    ultimately show ?thesis
      by (blast intro: touches_trans)
  qed
  moreover have "rotate_right upd n h root = Some (h7, root', p)"
  proof -
    have "m_right (nodes h1 p) = root_ptr b" "m_parent (nodes h2 n) = par"
      using n p np(1) rb nn by (auto simp: h1_def h2_def links_at_def set_parent_opt_def split: option.splits)
    then show ?thesis
      using n p h4 np(1) by (simp add: rotate_right_def links_at_def Let_def h1_def [symmetric] h2_def [symmetric]
          h3_def [symmetric] h5_def [symmetric] h6_def [symmetric] h7_def [symmetric])
  qed
  ultimately show thesis using t7(1) that by simp
qed

subsection \<open>One round of rebalancing\<close>

text \<open>
  Node \<open>n\<close> hangs below the frames \<open>fs\<close>, between two good subtrees; its own height and data may
  be stale.
\<close>

definition spot :: "('a, 'z) avl_heap_scheme \<Rightarrow> ptr \<Rightarrow> frame list \<Rightarrow> ptr \<Rightarrow> addr tree \<Rightarrow> addr \<Rightarrow> addr tree \<Rightarrow> bool" where
  "spot h root fs par l n r \<longleftrightarrow> links_at h par l n r \<and> tree_ok upd h (Some n) l
     \<and> tree_ok upd h (Some n) r \<and> ctx upd h root fs (Some n) par
     \<and> distinct (before fs @ inorder \<langle>l, n, r\<rangle> @ after fs)"

abbreviation spot_set :: "frame list \<Rightarrow> addr tree \<Rightarrow> addr set" where
  "spot_set fs t \<equiv> set (before fs @ inorder t @ after fs)"

lemma spot_rotate_left:
  assumes "spot h root fs par a n \<langle>b, p, c\<rangle>" "height a < 125" "height b < 125" "height c < 125"
  obtains h' root' where "rotate_left upd n h root = Some (h', root', p)"
    "tree_ok upd h' par \<langle>\<langle>a, n, b\<rangle>, p, c\<rangle>" "ctx upd h' root' fs (Some p) par"
    "touches (spot_set fs \<langle>a, n, \<langle>b, p, c\<rangle>\<rangle>) h h'"
proof -
  have "links_at h par a n \<langle>b, p, c\<rangle>" "m_left (nodes h p) = root_ptr b" "m_right (nodes h p) = root_ptr c"
    "tree_ok upd h (Some n) a" "tree_ok upd h (Some p) b" "tree_ok upd h (Some p) c"
    "ctx upd h root fs (Some n) par" "distinct (before fs @ inorder \<langle>a, n, \<langle>b, p, c\<rangle>\<rangle> @ after fs)"
    using assms(1) by (simp_all add: spot_def node_rec_def)
  from rotate_left_ok [OF this assms(2-4)] that show thesis by (metis rot_left.simps(1))
qed

lemma spot_rotate_right:
  assumes "spot h root fs par \<langle>c, p, b\<rangle> n a" "height a < 125" "height b < 125" "height c < 125"
  obtains h' root' where "rotate_right upd n h root = Some (h', root', p)"
    "tree_ok upd h' par \<langle>c, p, \<langle>b, n, a\<rangle>\<rangle>" "ctx upd h' root' fs (Some p) par"
    "touches (spot_set fs \<langle>\<langle>c, p, b\<rangle>, n, a\<rangle>) h h'"
proof -
  have "links_at h par \<langle>c, p, b\<rangle> n a" "m_right (nodes h p) = root_ptr b" "m_left (nodes h p) = root_ptr c"
    "tree_ok upd h (Some n) a" "tree_ok upd h (Some p) b" "tree_ok upd h (Some p) c"
    "ctx upd h root fs (Some n) par" "distinct (before fs @ inorder \<langle>\<langle>c, p, b\<rangle>, n, a\<rangle> @ after fs)"
    using assms(1) by (simp_all add: spot_def node_rec_def)
  from rotate_right_ok [OF this assms(2-4)] that show thesis by (metis rot_right.simps(1))
qed

lemma spot_lean_left:
  assumes "spot h root fs par l n r" "l = \<langle>a, q, b\<rangle>" "height l < 125" "height a < height b"
  obtains h' root' where "rotate_left upd q h root = Some (h', root', the (root_ptr (left_lean l)))"
    "spot h' root' fs par (left_lean l) n r" "touches (spot_set fs \<langle>l, n, r\<rangle>) h h'"
proof -
  obtain b1 p b2 where b: "b = \<langle>b1, p, b2\<rangle>" using assms(4) by (cases b) auto
  have "spot h root (FL n r # fs) (Some n) a q b"
    using assms(1,2) by (auto simp: spot_def links_at_def node_rec_def)
  from spot_rotate_left [OF this [unfolded b]] assms(2,3) b obtain h' root' where
    h': "rotate_left upd q h root = Some (h', root', p)"
    "tree_ok upd h' (Some n) \<langle>\<langle>a, q, b1\<rangle>, p, b2\<rangle>" "ctx upd h' root' (FL n r # fs) (Some p) (Some n)"
    "touches (spot_set (FL n r # fs) \<langle>a, q, b\<rangle>) h h'" by auto
  have "m_parent (nodes h' n) = par"
    using h'(3) assms(1) ctx_parent_unique unfolding spot_def by fastforce
  then have "spot h' root' fs par (left_lean l) n r"
    using h'(2,3) assms(1,2,4) b by (auto simp: spot_def links_at_def)
  moreover have "spot_set (FL n r # fs) \<langle>a, q, b\<rangle> = spot_set fs \<langle>l, n, r\<rangle>"
    using assms(2) by auto
  ultimately show thesis
    using that h' assms(2,4) b by simp
qed

lemma spot_lean_right:
  assumes "spot h root fs par l n r" "r = \<langle>a, q, b\<rangle>" "height r < 125" "height b < height a"
  obtains h' root' where "rotate_right upd q h root = Some (h', root', the (root_ptr (right_lean r)))"
    "spot h' root' fs par l n (right_lean r)" "touches (spot_set fs \<langle>l, n, r\<rangle>) h h'"
proof -
  obtain a1 p a2 where a: "a = \<langle>a1, p, a2\<rangle>" using assms(4) by (cases a) auto
  have "spot h root (FR l n # fs) (Some n) a q b"
    using assms(1,2) by (auto simp: spot_def links_at_def node_rec_def)
  from spot_rotate_right [OF this [unfolded a]] assms(2,3) a obtain h' root' where
    h': "rotate_right upd q h root = Some (h', root', p)"
    "tree_ok upd h' (Some n) \<langle>a1, p, \<langle>a2, q, b\<rangle>\<rangle>" "ctx upd h' root' (FR l n # fs) (Some p) (Some n)"
    "touches (spot_set (FR l n # fs) \<langle>a, q, b\<rangle>) h h'" by auto
  have "m_parent (nodes h' n) = par"
    using h'(3) assms(1) ctx_parent_unique unfolding spot_def by fastforce
  then have "spot h' root' fs par l n (right_lean r)"
    using h'(2,3) assms(1,2,4) a by (auto simp: spot_def links_at_def)
  moreover have "spot_set (FR l n # fs) \<langle>a, q, b\<rangle> = spot_set fs \<langle>l, n, r\<rangle>"
    using assms(2) by auto
  ultimately show thesis
    using that h' assms(2,4) a by simp
qed

lemma spot_refresh:
  assumes "spot h root fs par l n r" "height l < 127" "height r < 127"
  shows "spot (refresh upd n h) root fs par l n r" "tree_ok upd (refresh upd n h) par \<langle>l, n, r\<rangle>"
    "touches (spot_set fs \<langle>l, n, r\<rangle>) h (refresh upd n h)"
proof -
  have ok: "tree_ok upd (refresh upd n h) par \<langle>l, n, r\<rangle>" "touches {n} h (refresh upd n h)"
    using refresh_ok [of h par l n r] assms by (auto simp: spot_def)
  have "same_on (set (before fs @ after fs)) h (refresh upd n h)"
    by (rule touches_same_on [OF ok(2)]) (use assms(1) in \<open>auto simp: spot_def\<close>)
  then have "ctx upd (refresh upd n h) root fs (Some n) par"
    using assms(1) ctx_same unfolding spot_def by blast
  then show "spot (refresh upd n h) root fs par l n r"
    using ok(1) assms(1) by (auto simp: spot_def links_at_def node_rec_def)
  show "tree_ok upd (refresh upd n h) par \<langle>l, n, r\<rangle>" by (rule ok(1))
  show "touches (spot_set fs \<langle>l, n, r\<rangle>) h (refresh upd n h)"
    by (rule touches_mono [OF ok(2)]) simp
qed

lemma spot_heights:
  assumes "spot h root fs par l n r" "height l < 125" "height r < 125"
  shows "m_left (nodes h n) = root_ptr l" "m_right (nodes h n) = root_ptr r"
    "node_height h (root_ptr l) = int (height l)" "node_height h (root_ptr r) = int (height r)"
    "l = \<langle>a, q, b\<rangle> \<Longrightarrow> node_height h (m_left (nodes h q)) = int (height a)"
    "l = \<langle>a, q, b\<rangle> \<Longrightarrow> node_height h (m_right (nodes h q)) = int (height b)"
    "r = \<langle>a, q, b\<rangle> \<Longrightarrow> node_height h (m_left (nodes h q)) = int (height a)"
    "r = \<langle>a, q, b\<rangle> \<Longrightarrow> node_height h (m_right (nodes h q)) = int (height b)"
proof -
  have ok: "tree_ok upd h (Some n) l" "tree_ok upd h (Some n) r"
    and links: "m_left (nodes h n) = root_ptr l" "m_right (nodes h n) = root_ptr r"
    using assms(1) by (simp_all add: spot_def links_at_def)
  have sub: "node_height h (m_left (nodes h q)) = int (height a)"
      "node_height h (m_right (nodes h q)) = int (height b)"
    if "tree_ok upd h (Some n) \<langle>a, q, b\<rangle>" "height \<langle>a, q, b\<rangle> < 125"
    using that tree_ok_height [of upd h "Some q" a] tree_ok_height [of upd h "Some q" b]
    by (simp_all add: node_rec_def)
  show "m_left (nodes h n) = root_ptr l" "m_right (nodes h n) = root_ptr r" by (fact links)+
  show "node_height h (root_ptr l) = int (height l)" "node_height h (root_ptr r) = int (height r)"
    using tree_ok_height [OF ok(1)] tree_ok_height [OF ok(2)] assms(2,3) by simp_all
  show "l = \<langle>a, q, b\<rangle> \<Longrightarrow> node_height h (m_left (nodes h q)) = int (height a)"
    "l = \<langle>a, q, b\<rangle> \<Longrightarrow> node_height h (m_right (nodes h q)) = int (height b)"
    "r = \<langle>a, q, b\<rangle> \<Longrightarrow> node_height h (m_left (nodes h q)) = int (height a)"
    "r = \<langle>a, q, b\<rangle> \<Longrightarrow> node_height h (m_right (nodes h q)) = int (height b)"
    using sub ok assms(2,3) by simp_all
qed

lemma rebalance_node_ok:
  assumes "spot h root fs par l n r" "height l < 124" "height r < 124"
  obtains h' root' m where "rebalance_node upd n h root = Some (h', root', m)"
    "root_ptr (fix_tree \<langle>l, n, r\<rangle>) = Some m"
    "tree_ok upd h' par (fix_tree \<langle>l, n, r\<rangle>)" "ctx upd h' root' fs (Some m) par"
    "touches (spot_set fs \<langle>l, n, r\<rangle>) h h'"
proof -
  let ?h = "refresh upd n h"
  have lt: "height l < 125" "height r < 125" using assms(2,3) by simp_all
  have spot: "spot ?h root fs par l n r" and ok: "tree_ok upd ?h par \<langle>l, n, r\<rangle>"
    and t: "touches (spot_set fs \<langle>l, n, r\<rangle>) h ?h"
    by (rule spot_refresh [OF assms(1)]; use assms(2,3) in simp)+
  note hs = spot_heights [OF spot lt]
  consider "height l > height r + 1" | "height r > height l + 1"
    | "height l \<le> height r + 1" "height r \<le> height l + 1" by linarith
  then show thesis
  proof cases
    case 1
    then obtain a q b where l: "l = \<langle>a, q, b\<rangle>" by (cases l) auto
    obtain h1 root1 where h1: "(if height a < height b
        then map_option (\<lambda>(h, root, _). (h, root)) (rotate_left upd q ?h root) else Some (?h, root)) = Some (h1, root1)"
      "spot h1 root1 fs par (left_lean l) n r" "touches (spot_set fs \<langle>l, n, r\<rangle>) ?h h1"
    proof (cases "height a < height b")
      case True
      from spot_lean_left [OF spot l lt(1) True] True that show thesis by fastforce
    next
      case False
      with that [of ?h root] spot l show thesis by simp
    qed
    obtain c p d where lean: "left_lean l = \<langle>c, p, d\<rangle>" "height c < 125" "height d < 125"
      using l assms(2) height_lean(1) [of l] that by (cases "left_lean l") (simp_all del: left_lean.simps, linarith)
    obtain h2 root2 where h2: "rotate_right upd n h1 root1 = Some (h2, root2, p)"
      "tree_ok upd h2 par \<langle>c, p, \<langle>d, n, r\<rangle>\<rangle>" "ctx upd h2 root2 fs (Some p) par"
      "touches (spot_set fs \<langle>\<langle>c, p, d\<rangle>, n, r\<rangle>) h1 h2"
      by (rule spot_rotate_right [OF h1(2) [unfolded lean(1)] lt(2) lean(3,2)])
    have "inorder \<langle>\<langle>c, p, d\<rangle>, n, r\<rangle> = inorder \<langle>l, n, r\<rangle>"
      using arg_cong [OF lean(1), of inorder] by simp
    then have "touches (spot_set fs \<langle>l, n, r\<rangle>) h h2"
      using touches_trans [OF touches_trans [OF t h1(3)]] h2(4) by metis
    moreover have "rebalance_node upd n h root = Some (h2, root2, p)"
      using 1 h1(1) h2(1) l hs by (simp add: rebalance_node_def Let_def)
    moreover have "fix_tree \<langle>l, n, r\<rangle> = \<langle>c, p, \<langle>d, n, r\<rangle>\<rangle>"
      using 1 lean by simp
    ultimately show thesis using that h2 by simp
  next
    case 2
    then obtain a q b where r: "r = \<langle>a, q, b\<rangle>" by (cases r) auto
    obtain h1 root1 where h1: "(if height b < height a
        then map_option (\<lambda>(h, root, _). (h, root)) (rotate_right upd q ?h root) else Some (?h, root)) = Some (h1, root1)"
      "spot h1 root1 fs par l n (right_lean r)" "touches (spot_set fs \<langle>l, n, r\<rangle>) ?h h1"
    proof (cases "height b < height a")
      case True
      from spot_lean_right [OF spot r lt(2) True] True that show thesis by fastforce
    next
      case False
      with that [of ?h root] spot r show thesis by simp
    qed
    obtain c p d where lean: "right_lean r = \<langle>c, p, d\<rangle>" "height c < 125" "height d < 125"
      using r assms(3) height_lean(2) [of r] that by (cases "right_lean r") (simp_all del: right_lean.simps, linarith)
    obtain h2 root2 where h2: "rotate_left upd n h1 root1 = Some (h2, root2, p)"
      "tree_ok upd h2 par \<langle>\<langle>l, n, c\<rangle>, p, d\<rangle>" "ctx upd h2 root2 fs (Some p) par"
      "touches (spot_set fs \<langle>l, n, \<langle>c, p, d\<rangle>\<rangle>) h1 h2"
      by (rule spot_rotate_left [OF h1(2) [unfolded lean(1)] lt(1) lean(2,3)])
    have "inorder \<langle>l, n, \<langle>c, p, d\<rangle>\<rangle> = inorder \<langle>l, n, r\<rangle>"
      using arg_cong [OF lean(1), of inorder] by simp
    then have "touches (spot_set fs \<langle>l, n, r\<rangle>) h h2"
      using touches_trans [OF touches_trans [OF t h1(3)]] h2(4) by metis
    moreover have "rebalance_node upd n h root = Some (h2, root2, p)"
      using 2 h1(1) h2(1) r hs by (simp add: rebalance_node_def Let_def)
    moreover have "fix_tree \<langle>l, n, r\<rangle> = \<langle>\<langle>l, n, c\<rangle>, p, d\<rangle>"
      using 2 lean by simp
    ultimately show thesis using that h2 by simp
  next
    case 3
    then have "rebalance_node upd n h root = Some (?h, root, n)"
      using hs by (simp add: rebalance_node_def Let_def)
    then show thesis
      using that 3 ok t spot by (simp add: spot_def)
  qed
qed

subsection \<open>Climbing to the root\<close>

text \<open>
  The outcome of an operation: the heap holds a balanced tree with the given in-order list, and
  nothing outside the given nodes has changed.
\<close>

definition outcome ::
  "addr set \<Rightarrow> addr list \<Rightarrow> ('a, 'z) avl_heap_scheme \<Rightarrow> (('a, 'z) avl_heap_scheme \<times> ptr) option \<Rightarrow> bool" where
  "outcome S xs h res \<longleftrightarrow> (\<exists>h' t. res = Some (h', root_ptr t) \<and> tree_ok upd h' None t \<and> avl t
     \<and> inorder t = xs \<and> touches S h h')"

lemma outcome_trans:
  "touches S h h1 \<Longrightarrow> outcome S xs h1 res \<Longrightarrow> outcome S xs h res"
  by (auto simp: outcome_def intro: touches_trans)

lemma rebalance_upwards_None [simp]: "rebalance_upwards upd None h root = Some (h, root)"
  by (subst rebalance_upwards.simps) simp

lemma rebalance_upwards_step:
  "rebalance_node upd n h root = Some (h', root', m) \<Longrightarrow>
   rebalance_upwards upd (Some n) h root = rebalance_upwards upd (m_parent (nodes h' m)) h' root'"
  by (subst rebalance_upwards.simps) simp

lemma rebalance_upwards_ok:
  assumes "spot h root fs par l n r" "avl l" "avl r" "height l \<le> height r + 2" "height r \<le> height l + 2"
    and "frames_avl fs k" "height (fix_tree \<langle>l, n, r\<rangle>) \<le> k + 1" "k \<le> height (fix_tree \<langle>l, n, r\<rangle>) + 1"
  shows "outcome (spot_set fs \<langle>l, n, r\<rangle>) (before fs @ inorder \<langle>l, n, r\<rangle> @ after fs) h
    (rebalance_upwards upd (Some n) h root)"
  using assms
proof (induction fs arbitrary: h root par l n r k)
  case Nil
  have "height l < 124" "height r < 124"
    using avl_height_bound [OF Nil.prems(2)] avl_height_bound [OF Nil.prems(3)] Nil.prems(1)
    by (fastforce simp: spot_def)+
  then obtain h1 root1 m where h1: "rebalance_node upd n h root = Some (h1, root1, m)"
    "root_ptr (fix_tree \<langle>l, n, r\<rangle>) = Some m" "tree_ok upd h1 par (fix_tree \<langle>l, n, r\<rangle>)"
    "ctx upd h1 root1 [] (Some m) par" "touches (spot_set [] \<langle>l, n, r\<rangle>) h h1"
    using rebalance_node_ok [OF Nil.prems(1)] by metis
  have m: "m_parent (nodes h1 m) = par"
    using h1(2,3) by (cases "fix_tree \<langle>l, n, r\<rangle>") (simp_all add: node_rec_def del: fix_tree.simps)
  have "rebalance_upwards upd (Some n) h root = Some (h1, root_ptr (fix_tree \<langle>l, n, r\<rangle>))"
    using h1(4) unfolding rebalance_upwards_step [OF h1(1)] m h1(2)
    by simp
  moreover have "avl (fix_tree \<langle>l, n, r\<rangle>)"
    by (rule avl_fix_tree(1) [OF Nil.prems(2-5)])
  moreover have "tree_ok upd h1 None (fix_tree \<langle>l, n, r\<rangle>)"
    using h1(3,4) by (simp del: fix_tree.simps)
  ultimately show ?case
    unfolding outcome_def using h1(5) inorder_fix_tree
    by (intro exI [of _ h1] exI [of _ "fix_tree \<langle>l, n, r\<rangle>"]) (simp del: fix_tree.simps)
next
  case (Cons f fs)
  let ?T = "fix_tree \<langle>l, n, r\<rangle>"
  have "height l < 124" "height r < 124"
    using avl_height_bound [OF Cons.prems(2)] avl_height_bound [OF Cons.prems(3)] Cons.prems(1)
    by (fastforce simp: spot_def)+
  then obtain h1 root1 m where h1: "rebalance_node upd n h root = Some (h1, root1, m)"
    "root_ptr ?T = Some m" "tree_ok upd h1 par ?T" "ctx upd h1 root1 (f # fs) (Some m) par"
    "touches (spot_set (f # fs) \<langle>l, n, r\<rangle>) h h1"
    using rebalance_node_ok [OF Cons.prems(1)] by metis
  have m: "m_parent (nodes h1 m) = par"
    using h1(2,3) by (cases ?T) (simp_all add: node_rec_def del: fix_tree.simps)
  have T: "avl ?T" "inorder ?T = inorder \<langle>l, n, r\<rangle>" "set_tree ?T = set_tree \<langle>l, n, r\<rangle>"
    by (rule avl_fix_tree(1) [OF Cons.prems(2-5)], simp del: fix_tree.simps, metis inorder_fix_tree set_inorder)
  show ?case
  proof (cases f)
    case (FL p s)
    have fr: "avl s" "k \<le> height s + 1" "height s \<le> k + 1" "frames_avl fs (1 + max k (height s))"
      using Cons.prems(6) FL by simp_all
    have "spot h1 root1 fs (m_parent (nodes h1 p)) ?T p s"
      using h1(2,3,4) FL Cons.prems(1) T(2,3)
      by (auto simp: spot_def links_at_def simp del: fix_tree.simps)
    from Cons.IH [OF this T(1) fr(1) _ _ fr(4) fix_tree_frame(1,2) [OF T(1) fr(1-3) Cons.prems(7,8)]]
    have "outcome (spot_set fs \<langle>?T, p, s\<rangle>) (before fs @ inorder \<langle>?T, p, s\<rangle> @ after fs) h1
       (rebalance_upwards upd (Some p) h1 root1)"
      using fr Cons.prems(7,8) by linarith
    moreover have "spot_set fs \<langle>?T, p, s\<rangle> = spot_set (f # fs) \<langle>l, n, r\<rangle>"
      "before fs @ inorder \<langle>?T, p, s\<rangle> @ after fs = before (f # fs) @ inorder \<langle>l, n, r\<rangle> @ after (f # fs)"
      using FL T(2,3) by (auto simp del: fix_tree.simps)
    moreover have "par = Some p" using h1(4) FL by simp
    ultimately show ?thesis
      using outcome_trans [OF h1(5)] rebalance_upwards_step [OF h1(1)] m by metis
  next
    case (FR s p)
    have fr: "avl s" "k \<le> height s + 1" "height s \<le> k + 1" "frames_avl fs (1 + max (height s) k)"
      using Cons.prems(6) FR by simp_all
    have "spot h1 root1 fs (m_parent (nodes h1 p)) s p ?T"
      using h1(2,3,4) FR Cons.prems(1) T(2,3)
      by (auto simp: spot_def links_at_def simp del: fix_tree.simps)
    from Cons.IH [OF this fr(1) T(1) _ _ fr(4) fix_tree_frame(3,4) [OF T(1) fr(1-3) Cons.prems(7,8)]]
    have "outcome (spot_set fs \<langle>s, p, ?T\<rangle>) (before fs @ inorder \<langle>s, p, ?T\<rangle> @ after fs) h1
       (rebalance_upwards upd (Some p) h1 root1)"
      using fr Cons.prems(7,8) by linarith
    moreover have "spot_set fs \<langle>s, p, ?T\<rangle> = spot_set (f # fs) \<langle>l, n, r\<rangle>"
      "before fs @ inorder \<langle>s, p, ?T\<rangle> @ after fs = before (f # fs) @ inorder \<langle>l, n, r\<rangle> @ after (f # fs)"
      using FR T(2,3) by (auto simp del: fix_tree.simps)
    moreover have "par = Some p" using h1(4) FR by simp
    ultimately show ?thesis
      using outcome_trans [OF h1(5)] rebalance_upwards_step [OF h1(1)] m by metis
  qed
qed

subsection \<open>Insertion\<close>

definition in_order :: "('a, 'z) avl_heap_scheme \<Rightarrow> addr list \<Rightarrow> bool" where
  "in_order h xs \<longleftrightarrow> sorted_wrt (\<lambda>a b. \<not> lt (items h b) (items h a)) xs"

lemma find_link_step:
  "read_link h root lk = Some p \<Longrightarrow> find_link lt n h root par lk =
    find_link lt n h root (Some p) (if lt (items h n) (items h p) then LeftOf p else RightOf p)"
  by (subst find_link.simps) simp

lemma find_link_stop:
  "read_link h root lk = None \<Longrightarrow> find_link lt n h root par lk = Some (par, lk)"
  by (subst find_link.simps) simp

lemma find_link_ok:
  assumes "tree_ok upd h par t" "ctx upd h root fs (root_ptr t) par" "in_order h (inorder t)"
  shows "\<exists>gs par'. find_link lt n h root par (link_of fs) = Some (par', link_of gs)
     \<and> ctx upd h root gs None par' \<and> plug Leaf gs = plug t fs
     \<and> before gs = before fs @ takeWhile (\<lambda>y. \<not> lt (items h n) (items h y)) (inorder t)
     \<and> after gs = dropWhile (\<lambda>y. \<not> lt (items h n) (items h y)) (inorder t) @ after fs"
  using assms
proof (induction t arbitrary: par fs)
  case Leaf
  then show ?case
    using find_link_stop [OF read_link_ok [OF Leaf.prems(2), simplified]]
    by (intro exI [of _ fs] exI [of _ par]) (use Leaf.prems(2) in simp)
next
  case (Node l p r)
  let ?P = "\<lambda>y. \<not> lt (items h n) (items h y)"
  have lr: "tree_ok upd h (Some p) l" "tree_ok upd h (Some p) r" "in_order h (inorder l)" "in_order h (inorder r)"
    and np: "nodes h p = node_rec par l r" and l: "\<forall>y\<in>set_tree l. \<not> lt (items h p) (items h y)"
    using Node.prems by (auto simp: in_order_def sorted_wrt_append)
  note step = find_link_step [OF read_link_ok [OF Node.prems(2), simplified]]
  show ?case
  proof (cases "lt (items h n) (items h p)")
    case True
    have "ctx upd h root (FL p r # fs) (root_ptr l) (Some p)"
      using Node.prems(2) lr np by (simp add: node_rec_def)
    from Node.IH(1) [OF lr(1) this lr(3)] show ?thesis
      using True by (fastforce simp: step takeWhile_tail dropWhile_append3)
  next
    case False
    have "ctx upd h root (FR l p # fs) (root_ptr r) (Some p)"
      using Node.prems(2) lr np by (simp add: node_rec_def)
    moreover have "\<forall>y\<in>set (inorder l). ?P y"
      using False l lt_cotrans by auto
    then have "takeWhile ?P (inorder \<langle>l, p, r\<rangle>) = inorder l @ p # takeWhile ?P (inorder r)"
      "dropWhile ?P (inorder \<langle>l, p, r\<rangle>) = dropWhile ?P (inorder r)"
      using False by (simp_all add: takeWhile_append dropWhile_append)
    ultimately show ?thesis
      using Node.IH(2) [OF lr(2) _ lr(4), of "FR l p # fs"] False by (simp add: step)
  qed
qed

definition ins :: "('a, 'z) avl_heap_scheme \<Rightarrow> addr \<Rightarrow> addr list \<Rightarrow> addr list" where
  "ins h n xs = takeWhile (\<lambda>y. \<not> lt (items h n) (items h y)) xs
     @ n # dropWhile (\<lambda>y. \<not> lt (items h n) (items h y)) xs"

lemma set_ins [simp]: "set (ins h n xs) = insert n (set xs)"
proof -
  have "set (takeWhile P xs) \<union> set (dropWhile P xs) = set xs" for P
    by (metis set_append takeWhile_dropWhile_id)
  then show ?thesis by (auto simp: ins_def)
qed

lemma length_ins [simp]: "length (ins h n xs) = Suc (length xs)"
proof -
  have "length (takeWhile P xs) + length (dropWhile P xs) = length xs" for P
    by (metis length_append takeWhile_dropWhile_id)
  then show ?thesis by (simp add: ins_def)
qed

lemma distinct_ins: "distinct xs \<Longrightarrow> n \<notin> set xs \<Longrightarrow> distinct (ins h n xs)"
proof -
  have "distinct (a @ n # b) \<longleftrightarrow> distinct (a @ b) \<and> n \<notin> set (a @ b)" for a b by auto
  then show "distinct xs \<Longrightarrow> n \<notin> set xs \<Longrightarrow> distinct (ins h n xs)"
    unfolding ins_def by (simp only: takeWhile_dropWhile_id not_False_eq_True simp_thms)
qed

lemma avl_insert_ok:
  assumes t: "tree_ok upd h None t" "avl t" "distinct (inorder t)" "in_order h (inorder t)"
    and n: "n \<notin> set_tree t"
  shows "outcome (insert n (set_tree t)) (ins h n (inorder t)) h (avl_insert lt upd n h (root_ptr t))"
proof -
  from find_link_ok [of h None t "root_ptr t" "[]" n] t obtain gs par where
    gs: "find_link lt n h (root_ptr t) None AtRoot = Some (par, link_of gs)"
    "ctx upd h (root_ptr t) gs None par" "plug Leaf gs = t" "before gs @ n # after gs = ins h n (inorder t)"
    by (auto simp: ins_def)
  have in_gs: "before gs @ after gs = inorder t"
    using inorder_plug [of Leaf gs] gs(3) by simp
  define h1 where "h1 = set_right n None (set_left n None (set_parent n par h))"
  obtain h2 root2 where h2: "write_link (link_of gs) (Some n) h1 (root_ptr t) = (h2, root2)"
    by fastforce
  have "same_on (set (before gs @ after gs)) h h1"
    unfolding in_gs using n by (auto simp: h1_def same_on_def)
  then have "ctx upd h1 (root_ptr t) gs None par"
    using gs(2) ctx_same by blast
  from write_link_ok [OF this _ h2] have w: "ctx upd h2 root2 gs (Some n) par"
    "same_on (- set_tree t) h1 h2" "items h2 = items h1" "avl_heap.more h2 = avl_heap.more h1"
    using t(3) in_gs by (metis set_inorder)+
  have "links_at h2 par Leaf n Leaf"
    using w(2) n by (simp add: links_at_def same_on_def h1_def)
  then have spot: "spot h2 root2 gs par Leaf n Leaf"
    using w(1) distinct_ins [OF t(3), of n h] n gs(4) by (simp add: spot_def)
  have "frames_avl gs 0"
    using t(2) avl_plug [of Leaf gs] gs(3) by simp
  from rebalance_upwards_ok [OF spot _ _ _ _ this]
  have "outcome (spot_set gs \<langle>Leaf, n, Leaf\<rangle>) (ins h n (inorder t)) h2 (rebalance_upwards upd (Some n) h2 root2)"
    using gs(4) by simp
  moreover have "spot_set gs \<langle>Leaf, n, Leaf\<rangle> = insert n (set_tree t)"
    using arg_cong [OF in_gs, of set] by auto
  moreover have "touches (insert n (set_tree t)) h h2"
    using w(2-4) by (auto simp: touches_def same_on_def h1_def)
  moreover have "avl_insert lt upd n h (root_ptr t) = rebalance_upwards upd (Some n) h2 root2"
    using gs(1) h2 by (simp add: avl_insert_def h1_def)
  ultimately show ?thesis using outcome_trans by metis
qed

end

end
