(* ===== verification/AvlErase.thy ===== *)
theory AvlErase
  imports AvlRefine
begin

text \<open>
  Removal from the AVL tree, the walks, and the consistency check of the source, against trees
  of addresses.  Removing a node with two children moves its successor into its place: \<open>seg\<close>
  describes the left spine between the two while the links of both are being rewritten.
\<close>

subsection \<open>Segments of a path\<close>

fun seg :: "'a updater \<Rightarrow> ('a, 'z) avl_heap_scheme \<Rightarrow> frame list \<Rightarrow> ptr \<Rightarrow> ptr \<Rightarrow> ptr \<Rightarrow> ptr \<Rightarrow> bool" where
  "seg upd h [] q par q' par' \<longleftrightarrow> q = q' \<and> par = par'"
| "seg upd h (FL p r # fs) q par q' par' \<longleftrightarrow> par = Some p \<and> m_left (nodes h p) = q
     \<and> m_right (nodes h p) = root_ptr r \<and> tree_ok upd h (Some p) r
     \<and> seg upd h fs (Some p) (m_parent (nodes h p)) q' par'"
| "seg upd h (FR l p # fs) q par q' par' \<longleftrightarrow> par = Some p \<and> m_left (nodes h p) = root_ptr l
     \<and> m_right (nodes h p) = q \<and> tree_ok upd h (Some p) l
     \<and> seg upd h fs (Some p) (m_parent (nodes h p)) q' par'"

lemma before_append [simp]: "before (fs @ gs) = before gs @ before fs"
  by (induction fs rule: before.induct) auto

lemma after_append [simp]: "after (fs @ gs) = after fs @ after gs"
  by (induction fs rule: after.induct) auto

lemma ctx_append:
  "ctx upd h root (fs @ gs) q par \<longleftrightarrow> (\<exists>q' par'. seg upd h fs q par q' par' \<and> ctx upd h root gs q' par')"
  by (induction upd h root fs q par rule: ctx.induct) auto

lemma seg_same:
  "same_on (set (before fs @ after fs)) h h' \<Longrightarrow> seg upd h' fs q par q' par' \<longleftrightarrow> seg upd h fs q par q' par'"
proof (induction fs arbitrary: q par)
  case (Cons f fs)
  show ?case
  proof (cases f)
    case (FL p r)
    with Cons.prems have s: "same_on (set_tree r) h h'" "nodes h' p = nodes h p"
      "same_on (set (before fs @ after fs)) h h'" by (auto simp: same_on_def)
    then show ?thesis using FL Cons.IH [OF s(3)] tree_ok_same [OF s(1)] by simp
  next
    case (FR l p)
    with Cons.prems have s: "same_on (set_tree l) h h'" "nodes h' p = nodes h p"
      "same_on (set (before fs @ after fs)) h h'" by (auto simp: same_on_def)
    then show ?thesis using FR Cons.IH [OF s(3)] tree_ok_same [OF s(1)] by simp
  qed
qed simp

lemma seg_top_in:
  "seg upd h fs q par q' par' \<Longrightarrow> fs \<noteq> [] \<Longrightarrow> \<exists>p. q' = Some p \<and> p \<in> set (before fs @ after fs)"
proof (induction upd h fs q par q' par' rule: seg.induct)
  case (2 upd h p r fs q par q' par')
  then show ?case by (cases "fs = []") auto
next
  case (3 upd h l p fs q par q' par')
  then show ?case by (cases "fs = []") auto
qed simp

lemma tree_ok_plug_seg:
  "tree_ok upd h P (plug t fs) \<Longrightarrow>
   \<exists>par. tree_ok upd h par t \<and> seg upd h fs (root_ptr t) par (root_ptr (plug t fs)) P"
proof (induction t fs rule: plug.induct)
  case (2 t p r fs)
  then obtain par where "tree_ok upd h par \<langle>t, p, r\<rangle>"
    "seg upd h fs (Some p) par (root_ptr (plug \<langle>t, p, r\<rangle> fs)) P" by auto
  then show ?case by (intro exI [of _ "Some p"]) (simp add: node_rec_def)
next
  case (3 t l p fs)
  then obtain par where "tree_ok upd h par \<langle>l, p, t\<rangle>"
    "seg upd h fs (Some p) par (root_ptr (plug \<langle>l, p, t\<rangle> fs)) P" by auto
  then show ?case by (intro exI [of _ "Some p"]) (simp add: node_rec_def)
qed simp

lemma seg_reparent:
  assumes "seg upd h fs q par (Some m) P" "fs \<noteq> []" "distinct (before fs @ after fs)"
  shows "seg upd (set_parent m P' h) fs q par (Some m) P'"
  using assms
proof (induction fs arbitrary: q par)
  case (Cons f fs)
  show ?case
  proof (cases f)
    case (FL p r)
    have r: "tree_ok upd (set_parent m P' h) (Some p) r = tree_ok upd h (Some p) r" if "m \<notin> set_tree r"
      using that by (intro tree_ok_same) (auto simp: same_on_def)
    show ?thesis
    proof (cases "fs = []")
      case True
      then show ?thesis using Cons.prems FL r by auto
    next
      case False
      then have "m \<in> set (before fs @ after fs)"
        using seg_top_in Cons.prems(1) FL by fastforce
      then have "m \<noteq> p" "m \<notin> set_tree r" using Cons.prems(3) FL by auto
      then show ?thesis using Cons.IH [OF _ False] Cons.prems FL r by auto
    qed
  next
    case (FR r p)
    have r: "tree_ok upd (set_parent m P' h) (Some p) r = tree_ok upd h (Some p) r" if "m \<notin> set_tree r"
      using that by (intro tree_ok_same) (auto simp: same_on_def)
    show ?thesis
    proof (cases "fs = []")
      case True
      then show ?thesis using Cons.prems FR r by auto
    next
      case False
      then have "m \<in> set (before fs @ after fs)"
        using seg_top_in Cons.prems(1) FR by fastforce
      then have "m \<noteq> p" "m \<notin> set_tree r" using Cons.prems(3) FR by auto
      then show ?thesis using Cons.IH [OF _ False] Cons.prems FR r by auto
    qed
  qed
qed simp

subsection \<open>The lowest and the highest node of a subtree\<close>

lemma lowest_step:
  "m_left (nodes h n) = Some l \<Longrightarrow> lowest h n = lowest h l"
  "m_left (nodes h n) = None \<Longrightarrow> lowest h n = Some n"
  by (subst lowest.simps; simp)+

lemma highest_step:
  "m_right (nodes h n) = Some r \<Longrightarrow> highest h n = highest h r"
  "m_right (nodes h n) = None \<Longrightarrow> highest h n = Some n"
  by (subst highest.simps; simp)+

lemma lowest_ok:
  "tree_ok upd h P t \<Longrightarrow> root_ptr t = Some n \<Longrightarrow>
   \<exists>x r gs. t = plug \<langle>Leaf, x, r\<rangle> gs \<and> before gs = [] \<and> lowest h n = Some x"
proof (induction t arbitrary: P n)
  case (Node l m r)
  show ?case
  proof (cases l)
    case Leaf
    then show ?thesis
      using Node.prems lowest_step(2) [of h n]
      by (intro exI [of _ n] exI [of _ r] exI [of _ "[]"]) (simp add: node_rec_def)
  next
    case (Node l1 k l2)
    with Node.IH(1) [of "Some m" k] Node.prems obtain x r' gs where
      "l = plug \<langle>Leaf, x, r'\<rangle> gs" "before gs = []" "lowest h k = Some x" by auto
    moreover have "lowest h n = lowest h k"
      using Node Node.prems by (intro lowest_step) (simp add: node_rec_def)
    ultimately show ?thesis
      by (intro exI [of _ x] exI [of _ r'] exI [of _ "gs @ [FL m r]"]) (simp add: plug_append)
  qed
qed simp

lemma lowest_hd: "tree_ok upd h P t \<Longrightarrow> root_ptr t = Some n \<Longrightarrow> lowest h n = Some (hd (inorder t))"
  using lowest_ok [of upd h P t n] by (auto simp: inorder_plug)

lemma highest_last: "tree_ok upd h P t \<Longrightarrow> root_ptr t = Some n \<Longrightarrow> highest h n = Some (last (inorder t))"
proof (induction t arbitrary: P n)
  case (Node l m r)
  show ?case
  proof (cases r)
    case Leaf
    then show ?thesis using Node.prems highest_step(2) [of h n] by (simp add: node_rec_def)
  next
    case (Node r1 k r2)
    with Node.IH(2) [of "Some m" k] Node.prems highest_step(1) [of h n k] show ?thesis
      by (simp add: node_rec_def)
  qed
qed simp

subsection \<open>Removal\<close>

abbreviation detached :: avl_node where
  "detached \<equiv> \<lparr>m_parent = None, m_left = None, m_right = None, m_height = 0\<rparr>"

lemma clear_node_simps [simp]:
  "nodes (clear_node n h) = (nodes h)(n := detached)" "items (clear_node n h) = items h"
  "avl_heap.more (clear_node n h) = avl_heap.more h"
  by (auto simp: clear_node_def)

context avl_traits
begin

lemma retrace_ok:
  assumes c: "ctx upd h root fs (root_ptr t) par" and t: "tree_ok upd h par t" "avl t"
    and f: "frames_avl fs k" "height t \<le> k + 1" "k \<le> height t + 1"
    and d: "distinct (before fs @ inorder t @ after fs)"
  shows "outcome (spot_set fs t) (before fs @ inorder t @ after fs) h (rebalance_upwards upd par h root)"
proof (cases fs)
  case Nil
  then have "rebalance_upwards upd par h root = Some (h, root_ptr t)" using c by simp
  then show ?thesis using Nil c t unfolding outcome_def by fastforce
next
  case (Cons g gs)
  show ?thesis
  proof (cases g)
    case (FL p s)
    have spot: "spot h root gs (m_parent (nodes h p)) t p s"
      using Cons FL c t d by (auto simp: spot_def links_at_def)
    have fr: "avl s" "k \<le> height s + 1" "height s \<le> k + 1" "frames_avl gs (1 + max k (height s))"
      using f(1) Cons FL by simp_all
    have "height t \<le> height s + 2" "height s \<le> height t + 2" using fr(2,3) f(2,3) by linarith+
    from rebalance_upwards_ok [OF spot t(2) fr(1) this fr(4) fix_tree_frame(1,2) [OF t(2) fr(1-3) f(2,3)]]
    show ?thesis using Cons FL c by (simp add: Un_ac insert_commute)
  next
    case (FR s p)
    have spot: "spot h root gs (m_parent (nodes h p)) s p t"
      using Cons FR c t d by (auto simp: spot_def links_at_def)
    have fr: "avl s" "k \<le> height s + 1" "height s \<le> k + 1" "frames_avl gs (1 + max (height s) k)"
      using f(1) Cons FR by simp_all
    have "height s \<le> height t + 2" "height t \<le> height s + 2" using fr(2,3) f(2,3) by linarith+
    from rebalance_upwards_ok [OF spot fr(1) t(2) this fr(4) fix_tree_frame(3,4) [OF t(2) fr(1-3) f(2,3)]]
    show ?thesis using Cons FR c by (simp add: Un_ac insert_commute)
  qed
qed

lemma splice_ok:
  assumes sg: "seg upd h gs (root_ptr c) (Some from) (m_right (nodes h x)) (Some x)"
    and l: "tree_ok upd h (Some n) l" "root_ptr l = Some nl" and c: "tree_ok upd h (Some from) c"
    and cx: "ctx upd h root fs (Some n) par" "m_parent (nodes h n) = par"
    and d: "distinct (before fs @ inorder l @ n # x # inorder c @ after gs @ after fs)" "before gs = []"
    and h7: "h7 = set_parent x par (set_parent nl (Some x) (set_left x (Some nl) h))"
    and r: "replace_child n (Some x) h7 root = (h8, root')"
    and h9: "h9 = clear_node n h8"
  shows "ctx upd h9 root' (gs @ FR l x # fs) (root_ptr c) (Some from)" "tree_ok upd h9 (Some from) c"
    "nodes h9 n = detached"
    "touches (set (before fs @ inorder l @ n # x # inorder c @ after gs @ after fs)) h h9"
proof -
  have nl: "nl \<in> set_tree l" using l(2) root_ptr_in by blast
  have ne: "x \<noteq> n" "nl \<noteq> n" "nl \<noteq> x" "x \<notin> set_tree l" "n \<notin> set_tree l" "distinct (inorder l)"
    "set_tree l \<inter> set (before fs @ after fs) = {}" "x \<notin> set (before fs @ after fs)" "n \<notin> set (before fs @ after fs)"
    "distinct (before fs @ n # after fs)" "({n, x} \<union> set_tree l) \<inter> (set_tree c \<union> set (after gs)) = {}"
    "set (before fs @ after fs) \<inter> (set_tree c \<union> set (after gs)) = {}"
    using d(1) nl by auto
  have p7: "m_parent (nodes h7 n) = par" using cx(2) ne by (simp add: h7)
  have "same_on (set (before fs @ after fs)) h h7"
    using ne nl by (auto simp: same_on_def h7)
  from ctx_same [OF this] have c7: "ctx upd h7 root fs (Some n) (m_parent (nodes h7 n))"
    using cx(1) p7 by simp
  note rc = replace_child_ok [OF c7 ne(10) r, unfolded p7]
  have "same_on (set (before fs @ after fs)) h8 h9"
    using ne by (auto simp: same_on_def h9)
  then have cfs: "ctx upd h9 root' fs (Some x) par"
    using rc(1) ctx_same by blast
  have x9: "nodes h9 x = (nodes h x)\<lparr>m_left := Some nl, m_parent := par\<rparr>"
    using rc(2) ne by (simp add: h9 same_on_def h7)
  have "tree_ok upd (set_left x (Some nl) h) (Some n) l"
    using l(1) ne(4) by (subst tree_ok_same) (auto simp: same_on_def)
  from tree_ok_reparent [OF this ne(6), of "Some x"] l(2)
  have "tree_ok upd (set_parent nl (Some x) (set_left x (Some nl) h)) (Some x) l" by simp
  moreover have "same_on (set_tree l) (set_parent nl (Some x) (set_left x (Some nl) h)) h7"
    using ne(4) by (auto simp: same_on_def h7)
  ultimately have l7: "tree_ok upd h7 (Some x) l" using tree_ok_same by metis
  have h79: "same_on T h7 h9" if "T \<inter> set (before fs @ after fs) = {}" "n \<notin> T" for T
    using that same_on_subset [OF rc(2), of T] by (auto simp: same_on_def h9)
  have l9: "tree_ok upd h9 (Some x) l"
    using l7 tree_ok_same [OF h79 [OF ne(7,5)]] by simp
  have "same_on (set_tree c \<union> set (after gs)) h h7"
    using ne(11) nl by (auto simp: same_on_def h7)
  moreover have "same_on (set_tree c \<union> set (after gs)) h7 h9"
    by (rule h79) (use ne(11,12) in auto)
  ultimately have s9: "same_on (set_tree c \<union> set (after gs)) h h9" by (rule same_on_trans)
  have "seg upd h9 gs (root_ptr c) (Some from) (m_right (nodes h x)) (Some x)"
    using sg seg_same [of gs h h9] same_on_subset [OF s9] d(2) by simp
  then show "ctx upd h9 root' (gs @ FR l x # fs) (root_ptr c) (Some from)"
    using l9 cfs x9 l(2) by (subst ctx_append) auto
  show "tree_ok upd h9 (Some from) c"
    using c tree_ok_same [OF same_on_subset [OF s9]] by blast
  show "nodes h9 n = detached" by (simp add: h9)
  show "touches (set (before fs @ inorder l @ n # x # inorder c @ after gs @ after fs)) h h9"
    using rc(2-4) nl by (auto simp: touches_def same_on_def h9 h7)
qed

definition erased ::
  "addr set \<Rightarrow> addr \<Rightarrow> addr list \<Rightarrow> ('a, 'z) avl_heap_scheme \<Rightarrow> (('a, 'z) avl_heap_scheme \<times> ptr) option \<Rightarrow> bool" where
  "erased S n xs h res \<longleftrightarrow> (\<exists>h' t. res = Some (h', root_ptr t) \<and> tree_ok upd h' None t \<and> avl t
     \<and> inorder t = xs \<and> touches S h h' \<and> nodes h' n = detached)"

lemma erased_finish:
  assumes "outcome S xs h1 res" "n \<notin> S" "nodes h1 n = detached" "touches S' h h1" "S \<subseteq> S'"
  shows "erased S' n xs h res"
proof -
  from assms(1) obtain h' t where h': "res = Some (h', root_ptr t)" "tree_ok upd h' None t" "avl t"
    "inorder t = xs" "touches S h1 h'" by (auto simp: outcome_def)
  moreover have "touches S' h h'"
    by (rule touches_trans [OF assms(4) touches_mono [OF h'(5) assms(5)]])
  moreover have "nodes h' n = detached"
    using h'(5) assms(2,3) by (simp add: touches_def same_on_def)
  ultimately show ?thesis by (auto simp: erased_def)
qed

lemma avl_erase_one:
  assumes "m_left (nodes h n) = None \<or> m_right (nodes h n) = None"
    and "c = (if m_left (nodes h n) \<noteq> None then m_left (nodes h n) else m_right (nodes h n))"
    and "replace_child n c (set_parent_opt c (m_parent (nodes h n)) h) root = (h', root')"
  shows "avl_erase upd n h root = rebalance_upwards upd (m_parent (nodes h' n)) (clear_node n h') root'"
  using assms by (auto simp: avl_erase_def Let_def split: option.splits)

lemma erase_one_ok:
  assumes t: "tree_ok upd h par \<langle>l, n, r\<rangle>" "avl \<langle>l, n, r\<rangle>" and cx: "ctx upd h root fs (Some n) par"
    and one: "l = Leaf \<or> r = Leaf" and f: "frames_avl fs (height \<langle>l, n, r\<rangle>)"
    and d: "distinct (before fs @ inorder \<langle>l, n, r\<rangle> @ after fs)"
  shows "erased (spot_set fs \<langle>l, n, r\<rangle>) n (before fs @ inorder l @ inorder r @ after fs) h (avl_erase upd n h root)"
proof -
  define c where "c = (if l \<noteq> Leaf then l else r)"
  define h1 where "h1 = set_parent_opt (root_ptr c) par h"
  obtain h2 root2 where h2: "replace_child n (root_ptr c) h1 root = (h2, root2)" by fastforce
  define h3 where "h3 = clear_node n h2"
  have n: "nodes h n = node_rec par l r" and c: "tree_ok upd h (Some n) c" "avl c"
    "inorder l @ inorder r = inorder c" "height \<langle>l, n, r\<rangle> = height c + 1"
    and nc: "n \<notin> set_tree c" "set (before fs @ after fs) \<inter> set_tree c = {}" "n \<notin> set (before fs @ after fs)"
    "distinct (inorder c)" "distinct (before fs @ n # after fs)" "distinct (before fs @ inorder c @ after fs)"
    using t one d by (auto simp: c_def)
  have t1: "touches (set_tree c) h h1"
    unfolding h1_def by (rule touches_set_parent_opt) simp
  have c1: "tree_ok upd h1 par c"
    unfolding h1_def by (rule tree_ok_reparent [OF c(1) nc(4)])
  have n1: "nodes h1 n = nodes h n" using t1 nc(1) by (simp add: touches_def same_on_def)
  then have p1: "m_parent (nodes h1 n) = par" using n by (simp add: node_rec_def)
  have "same_on (set (before fs @ after fs)) h h1" using touches_same_on [OF t1] nc(2) by blast
  from ctx_same [OF this] have "ctx upd h1 root fs (Some n) (m_parent (nodes h1 n))"
    using cx p1 by simp
  note rc = replace_child_ok [OF this nc(5) h2, unfolded p1]
  have s3: "same_on (set (before fs @ after fs)) h2 h3" "same_on (set_tree c) h1 h3"
    using nc(1-3) rc(2,3) by (auto simp: h3_def same_on_def disjoint_iff)
  then have c3: "ctx upd h3 root2 fs (root_ptr c) par" "tree_ok upd h3 par c"
    using rc(1) c1 ctx_same [OF s3(1)] tree_ok_same [OF s3(2)] by simp_all
  have "touches (spot_set fs \<langle>l, n, r\<rangle>) h h1"
    by (rule touches_mono [OF t1]) (auto simp: c_def)
  moreover have "touches (spot_set fs \<langle>l, n, r\<rangle>) h1 h3"
    using rc(2-4) by (auto simp: touches_def same_on_def h3_def)
  ultimately have t3: "touches (spot_set fs \<langle>l, n, r\<rangle>) h h3" by (rule touches_trans)
  have "outcome (spot_set fs c) (before fs @ inorder c @ after fs) h3 (rebalance_upwards upd par h3 root2)"
    by (rule retrace_ok [OF c3 c(2) f _ _ nc(6)]) (use c(4) in simp_all)
  then have "erased (spot_set fs \<langle>l, n, r\<rangle>) n (before fs @ inorder c @ after fs) h (rebalance_upwards upd par h3 root2)"
    by (rule erased_finish [OF _ _ _ t3]) (use nc(1,3) in \<open>auto simp: h3_def c_def\<close>)
  moreover have "avl_erase upd n h root = rebalance_upwards upd par h3 root2"
  proof -
    have "m_parent (nodes h2 n) = par"
      using rc(2) nc(3) p1 by (simp add: same_on_def)
    moreover have "m_left (nodes h n) = root_ptr l" "m_right (nodes h n) = root_ptr r" "m_parent (nodes h n) = par"
      using n by (simp_all add: node_rec_def)
    ultimately show ?thesis
      using avl_erase_one [of h n "root_ptr c" root h2 root2] one h2 unfolding h1_def h3_def
      by (cases "l = Leaf") (simp_all add: c_def)
  qed
  ultimately show ?thesis
    using c(3) by (metis append.assoc)
qed

text \<open>The successor \<open>x\<close> of a node with two children comes out of its own place.\<close>

lemma unhook_ok:
  assumes sg: "seg upd h (FL p s # gs) (Some x) (Some p) (Some m) (Some n)"
    and c: "tree_ok upd h (Some x) c"
    and d: "distinct (x # inorder c @ after (FL p s # gs))" "before gs = []"
    and h4: "h4 = set_parent m (Some x) (set_right x (Some m) (set_parent_opt (root_ptr c) (Some p) (set_left p (root_ptr c) h)))"
  shows "seg upd h4 (FL p s # gs) (root_ptr c) (Some p) (m_right (nodes h4 x)) (Some x)"
    "tree_ok upd h4 (Some p) c"
    "touches (set (x # inorder c @ after (FL p s # gs))) h h4"
proof -
  define h2 where "h2 = set_parent_opt (root_ptr c) (Some p) (set_left p (root_ptr c) h)"
  define h3 where "h3 = set_right x (Some m) h2"
  have m: "m \<in> set (after (FL p s # gs))"
    using seg_top_in [OF sg] d(2) by auto
  have ne: "m \<noteq> x" "m \<notin> set_tree c" "p \<noteq> x" "p \<notin> set_tree c" "x \<notin> set_tree c" "p \<notin> set_tree s" "x \<notin> set_tree s"
    "set_tree c \<inter> set_tree s = {}" "set_tree c \<inter> set (after gs) = {}" "p \<notin> set (after gs)" "x \<notin> set (after gs)"
    "distinct (inorder c)"
    using d m by auto
  have t2: "touches ({p} \<union> set_tree c) h h2"
    unfolding h2_def
    by (rule touches_trans [OF touches_set(2) [of p] touches_set_parent_opt]) auto
  have t3: "touches ({p, x} \<union> set_tree c) h h3"
    by (rule touches_trans [OF touches_mono [OF t2]]) (auto simp: h3_def)
  have "root_ptr c \<noteq> Some p" using ne(4) root_ptr_in by blast
  then have p3: "nodes h3 p = (nodes h p)\<lparr>m_left := root_ptr c\<rparr>"
    using ne(3) by (auto simp: h3_def h2_def set_parent_opt_def split: option.splits)
  have s3: "same_on (set_tree s) h h3" "same_on (set (before gs @ after gs)) h h3"
    by (rule touches_same_on [OF t3]; use ne d(2) in auto)+
  have "seg upd h3 (FL p s # gs) (root_ptr c) (Some p) (Some m) (Some n)"
    using sg p3 tree_ok_same [OF s3(1)] seg_same [OF s3(2)] by simp
  then have "seg upd h4 (FL p s # gs) (root_ptr c) (Some p) (Some m) (Some x)"
    unfolding h4 h2_def [symmetric] h3_def [symmetric] by (rule seg_reparent) (use d in auto)
  moreover have "m_right (nodes h4 x) = Some m"
    using ne(1) by (simp add: h4)
  ultimately show "seg upd h4 (FL p s # gs) (root_ptr c) (Some p) (m_right (nodes h4 x)) (Some x)" by simp
  have "tree_ok upd (set_left p (root_ptr c) h) (Some x) c"
    using c ne(4) by (subst tree_ok_same) (auto simp: same_on_def)
  from tree_ok_reparent [OF this ne(12), of "Some p"] have "tree_ok upd h2 (Some p) c"
    by (simp add: h2_def)
  then show "tree_ok upd h4 (Some p) c"
    unfolding h4 h2_def [symmetric] using ne(2,5) by (subst tree_ok_same) (auto simp: same_on_def)
  have "touches (set (x # inorder c @ after (FL p s # gs))) h h3"
    by (rule touches_mono [OF t3]) auto
  then show "touches (set (x # inorder c @ after (FL p s # gs))) h h4"
    unfolding h4 h2_def [symmetric] h3_def [symmetric]
    by (rule touches_trans) (rule touches_set(1), use m in auto)
qed

lemma set_parent_opt_links:
  "m_left (nodes (set_parent_opt q p h) y) = m_left (nodes h y)"
  "m_right (nodes (set_parent_opt q p h) y) = m_right (nodes h y)"
  by (cases q; simp)+

lemma avl_erase_two:
  assumes "m_left (nodes h n) = Some l" "m_right (nodes h n) = Some m" "lowest h m = Some x"
    and "if m_parent (nodes h x) = Some n then h4 = h \<and> from = x
         else m_parent (nodes h x) = Some from \<and> x \<noteq> from \<and>
           h4 = set_parent m (Some x) (set_right x (Some m)
             (set_parent_opt (m_right (nodes h x)) (Some from) (set_left from (m_right (nodes h x)) h)))"
    and "nodes h4 n = nodes h n" "n \<noteq> x" "n \<noteq> from" "n \<noteq> l"
    and "m_right (nodes h x) \<noteq> Some n"
    and "h7 = set_parent x (m_parent (nodes h n)) (set_parent l (Some x) (set_left x (Some l) h4))"
    and "replace_child n (Some x) h7 root = (h8, root')"
  shows "avl_erase upd n h root = rebalance_upwards upd (Some from) (clear_node n h8) root'"
proof (cases "m_parent (nodes h x) = Some n")
  case True
  with assms show ?thesis by (simp add: avl_erase_def)
next
  case False
  with assms(4) have h4: "m_parent (nodes h x) = Some from" "x \<noteq> from"
    "h4 = set_parent m (Some x) (set_right x (Some m)
             (set_parent_opt (m_right (nodes h x)) (Some from) (set_left from (m_right (nodes h x)) h)))"
    by simp_all
  let ?h2 = "set_parent_opt (m_right (nodes h x)) (Some from) (set_left from (m_right (nodes h x)) h)"
  have l: "m_right (nodes ?h2 n) = Some m" "m_left (nodes h4 n) = Some l" "m_parent (nodes h4 n) = m_parent (nodes h n)"
    using assms(1,2,5,7) by (simp_all add: set_parent_opt_links)
  have "avl_erase upd n h root = do {
      let h = set_left x (Some l) h4;
      let h = set_parent l (Some x) h;
      let h = set_parent x (m_parent (nodes h n)) h;
      let (h, root) = replace_child n (Some x) h root;
      rebalance_upwards upd (Some from) (clear_node n h) root }"
    using False h4(1,2) assms(1-3) l by (simp add: avl_erase_def h4(3) [symmetric])
  then show ?thesis
    using assms(6,8,10,11) l by simp
qed

lemma erase_two_ok:
  assumes t: "tree_ok upd h par \<langle>l, n, r\<rangle>" "avl \<langle>l, n, r\<rangle>" and cx: "ctx upd h root fs (Some n) par"
    and two: "root_ptr l = Some nl" "root_ptr r = Some m" and f: "frames_avl fs (height \<langle>l, n, r\<rangle>)"
    and d: "distinct (before fs @ inorder \<langle>l, n, r\<rangle> @ after fs)"
  shows "erased (spot_set fs \<langle>l, n, r\<rangle>) n (before fs @ inorder l @ inorder r @ after fs) h (avl_erase upd n h root)"
proof -
  have n: "nodes h n = node_rec par l r" "tree_ok upd h (Some n) l" "tree_ok upd h (Some n) r"
    using t by simp_all
  from lowest_ok [OF n(3) two(2)] obtain x c gs where
    r: "r = plug \<langle>Leaf, x, c\<rangle> gs" "before gs = []" "lowest h m = Some x" by blast
  have inr: "inorder r = x # inorder c @ after gs"
    using r(1,2) by (simp add: inorder_plug)
  from n(3) tree_ok_plug_seg obtain px where
    px: "tree_ok upd h px \<langle>Leaf, x, c\<rangle>" "seg upd h gs (Some x) px (Some m) (Some n)"
    using r(1) two(2) by fastforce
  have ds: "distinct (before fs @ inorder l @ n # x # inorder c @ after gs @ after fs)"
    using d inr by simp
  have x: "m_right (nodes h x) = root_ptr c" "m_parent (nodes h x) = px" "tree_ok upd h (Some x) c"
    using px(1) by (simp_all add: node_rec_def)
  obtain h4 src where h4: "if px = Some n then h4 = h \<and> src = x
         else px = Some src \<and> x \<noteq> src \<and>
           h4 = set_parent m (Some x) (set_right x (Some m)
             (set_parent_opt (root_ptr c) (Some src) (set_left src (root_ptr c) h)))"
    and sg: "seg upd h4 gs (root_ptr c) (Some src) (m_right (nodes h4 x)) (Some x)"
      "tree_ok upd h4 (Some src) c" "touches (set (x # inorder c @ after gs)) h h4" "n \<noteq> src"
  proof (cases gs)
    case Nil
    then have "px = Some n" using px(2) by simp
    with that [of h x] Nil x ds show thesis by simp
  next
    case (Cons g gs')
    then obtain p s where g: "gs = FL p s # gs'" "before gs' = []" using r(2) by (cases g) auto
    have pp: "px = Some p" "p \<noteq> n" "x \<noteq> p" using px(2) g ds by auto
    define h4 where "h4 = set_parent m (Some x) (set_right x (Some m)
      (set_parent_opt (root_ptr c) (Some p) (set_left p (root_ptr c) h)))"
    have "distinct (x # inorder c @ after (FL p s # gs'))" using ds g by auto
    from unhook_ok [OF px(2) [unfolded g(1) pp(1)] x(3) this g(2) h4_def]
    show thesis using that [of h4 p] pp g h4_def by simp
  qed
  have h4_out: "same_on T h h4" if "T \<inter> set_tree r = {}" for T
    by (rule touches_same_on [OF sg(3)]) (use that inr in \<open>auto simp flip: set_inorder\<close>)
  have nx: "n \<noteq> x" "nl \<noteq> n" "root_ptr c \<noteq> Some n" "nodes h4 n = nodes h n"
    using ds root_ptr_in [OF two(1)] root_ptr_in [of c n] h4_out [of "{n}"] d
    by (auto simp: same_on_def)
  define h7 where "h7 = set_parent x par (set_parent nl (Some x) (set_left x (Some nl) h4))"
  obtain h8 root' where h8: "replace_child n (Some x) h7 root = (h8, root')" by fastforce
  have er: "avl_erase upd n h root = rebalance_upwards upd (Some src) (clear_node n h8) root'"
    by (rule avl_erase_two [of h n nl m x h4 src h7])
      (use n(1) two r(3) x(1,2) h4 nx sg(4) h7_def h8 in \<open>auto simp: node_rec_def\<close>)
  have l4: "tree_ok upd h4 (Some n) l" "ctx upd h4 root fs (Some n) par"
    using n(2) cx d by (subst tree_ok_same [OF h4_out] ctx_same [OF h4_out]; auto)+
  have "m_parent (nodes h4 n) = par" using nx(4) n(1) by (simp add: node_rec_def)
  note sp = splice_ok [OF sg(1) l4(1) two(1) sg(2) l4(2) this ds r(2) h7_def h8 refl]
  have fa: "frames_avl (gs @ FR l x # fs) (height \<langle>Leaf, x, c\<rangle>)" "avl c"
    using t(2) f r(1) avl_plug [of "\<langle>Leaf, x, c\<rangle>" gs] height_plug_foldl [of "\<langle>Leaf, x, c\<rangle>" gs]
    by (simp_all add: frames_avl_append)
  have "outcome (spot_set (gs @ FR l x # fs) c) (before (gs @ FR l x # fs) @ inorder c @ after (gs @ FR l x # fs))
    (clear_node n h8) (rebalance_upwards upd (Some src) (clear_node n h8) root')"
    by (rule retrace_ok [OF sp(1,2) fa(2,1)]) (use ds r(2) in auto)
  moreover have eq: "before (gs @ FR l x # fs) @ inorder c @ after (gs @ FR l x # fs) = before fs @ inorder l @ inorder r @ after fs"
    using inr r(2) by simp
  ultimately have oc: "outcome (set (before fs @ inorder l @ inorder r @ after fs)) (before fs @ inorder l @ inorder r @ after fs)
    (clear_node n h8) (rebalance_upwards upd (Some src) (clear_node n h8) root')"
    by (simp only: eq)
  have "touches (spot_set fs \<langle>l, n, r\<rangle>) h (clear_node n h8)"
    by (rule touches_trans [OF touches_mono [OF sg(3)] touches_mono [OF sp(4)]])
      (use inr in \<open>auto simp flip: set_inorder\<close>)
  from erased_finish [OF oc _ sp(3) this] show ?thesis
    unfolding er using d by auto
qed

lemma avl_erase_ok:
  assumes t: "tree_ok upd h None t" "avl t" "distinct (inorder t)" and n: "n \<in> set_tree t"
  shows "erased (set_tree t) n (remove1 n (inorder t)) h (avl_erase upd n h (root_ptr t))"
proof -
  from plug_exists [OF n] obtain l r fs where p: "t = plug \<langle>l, n, r\<rangle> fs" by blast
  with tree_ok_plugD t(1) obtain par where
    ok: "tree_ok upd h par \<langle>l, n, r\<rangle>" "ctx upd h (root_ptr t) fs (Some n) par" by fastforce
  have av: "avl \<langle>l, n, r\<rangle>" "frames_avl fs (height \<langle>l, n, r\<rangle>)" and inn: "inorder t = before fs @ inorder \<langle>l, n, r\<rangle> @ after fs"
    using t(2) avl_plug p inorder_plug by metis+
  have st: "spot_set fs \<langle>l, n, r\<rangle> = set_tree t"
    using arg_cong [OF inn, of set] by simp
  have rm: "remove1 n (inorder t) = before fs @ inorder l @ inorder r @ after fs"
    using t(3) inn by (simp add: remove1_append)
  have d: "distinct (before fs @ inorder \<langle>l, n, r\<rangle> @ after fs)" using t(3) inn by simp
  show ?thesis
  proof (cases "l = Leaf \<or> r = Leaf")
    case True
    from erase_one_ok [OF ok(1) av(1) ok(2) True av(2) d] show ?thesis by (simp only: st rm)
  next
    case False
    then obtain nl m where "root_ptr l = Some nl" "root_ptr r = Some m"
      by (metis not_None_eq root_ptr_None)
    from erase_two_ok [OF ok(1) av(1) ok(2) this av(2) d] show ?thesis by (simp only: st rm)
  qed
qed

end

end
