(* ===== verification/AvlSpec.thy ===== *)
theory AvlSpec
  imports AvlErase
begin

text \<open>
  What a client of the AVL tree may rely on.  \<open>avl_holds\<close> is the representation relation between
  a tree object and the list of its nodes in order; the lemmas of the locale say what every
  public operation of \<^verbatim>\<open>AvlTree\<close> does to that list, and that it returns.
\<close>

definition avl_holds :: "'a updater \<Rightarrow> ('a, 'z) avl_heap_scheme \<Rightarrow> ptr \<Rightarrow> addr list \<Rightarrow> bool" where
  "avl_holds upd h root xs \<longleftrightarrow>
     (\<exists>t. root = root_ptr t \<and> tree_ok upd h None t \<and> avl t \<and> inorder t = xs \<and> distinct xs)"

lemma avl_holds_empty [simp]: "avl_holds upd h None xs \<longleftrightarrow> xs = []"
  by (auto simp: avl_holds_def root_ptr_None [THEN eq_iff_swap])

lemma avl_holds_same:
  "same_on (set xs) h h' \<Longrightarrow> avl_holds upd h root xs \<Longrightarrow> avl_holds upd h' root xs"
  unfolding avl_holds_def using tree_ok_same set_inorder by metis

lemma avl_holds_distinct: "avl_holds upd h root xs \<Longrightarrow> distinct xs"
  by (auto simp: avl_holds_def)

lemma avl_holds_root_None: "avl_holds upd h root xs \<Longrightarrow> root = None \<longleftrightarrow> xs = []"
  by (auto simp: avl_holds_def)

lemma tree_ok_in_tree:
  "tree_ok upd h par t \<Longrightarrow> avl t \<Longrightarrow> distinct (inorder t) \<Longrightarrow> x \<in> set_tree t \<Longrightarrow> in_tree h x"
proof (induction t arbitrary: par)
  case (Node l n r)
  then have "height \<langle>l, n, r\<rangle> \<le> 91" using avl_height_bound by blast
  then have "sint (m_height (nodes h n)) = int (height \<langle>l, n, r\<rangle>)"
    using tree_ok_height [OF Node.prems(1)] by simp
  then have "m_height (nodes h n) \<noteq> 0" by auto
  then show ?case using Node by (auto simp: in_tree_def)
qed simp

lemma avl_holds_in_tree: "avl_holds upd h root xs \<Longrightarrow> x \<in> set xs \<Longrightarrow> in_tree h x"
  unfolding avl_holds_def using tree_ok_in_tree by (metis set_inorder)

subsection \<open>Walks\<close>

lemma avl_first_ok:
  "avl_holds upd h root xs \<Longrightarrow> avl_first h root = Some (if xs = [] then None else Some (hd xs))"
  by (auto simp: avl_holds_def avl_first_def lowest_hd split: option.splits)

lemma avl_last_ok:
  "avl_holds upd h root xs \<Longrightarrow> avl_last h root = Some (if xs = [] then None else Some (last xs))"
  by (auto simp: avl_holds_def avl_last_def highest_last split: option.splits)

lemma climb_right_ok:
  assumes "ctx upd h root fs (Some n) par" "distinct (before fs @ n # after fs)"
  shows "climb_right h n par = Some (if after fs = [] then None else Some (hd (after fs)))"
  using assms
proof (induction fs arbitrary: n par)
  case Nil
  then show ?case by (subst climb_right.simps) simp
next
  case (Cons f fs)
  show ?case
  proof (cases f)
    case (FL p r)
    then have "root_ptr r \<noteq> Some n" using Cons.prems(2) root_ptr_in by fastforce
    then show ?thesis using Cons.prems FL by (subst climb_right.simps) auto
  next
    case (FR l p)
    then have "climb_right h p (m_parent (nodes h p)) = Some (if after fs = [] then None else Some (hd (after fs)))"
      using Cons.prems by (intro Cons.IH) auto
    then show ?thesis using Cons.prems FR by (subst climb_right.simps) simp
  qed
qed

lemma climb_left_ok:
  assumes "ctx upd h root fs (Some n) par" "distinct (before fs @ n # after fs)"
  shows "climb_left h n par = Some (if before fs = [] then None else Some (last (before fs)))"
  using assms
proof (induction fs arbitrary: n par)
  case Nil
  then show ?case by (subst climb_left.simps) simp
next
  case (Cons f fs)
  show ?case
  proof (cases f)
    case (FL p r)
    then have "climb_left h p (m_parent (nodes h p)) = Some (if before fs = [] then None else Some (last (before fs)))"
      using Cons.prems by (intro Cons.IH) auto
    then show ?thesis using Cons.prems FL by (subst climb_left.simps) simp
  next
    case (FR l p)
    then have "root_ptr l \<noteq> Some n" using Cons.prems(2) root_ptr_in by fastforce
    then show ?thesis using Cons.prems FR by (subst climb_left.simps) auto
  qed
qed

lemma avl_holds_at:
  assumes "avl_holds upd h root (ys @ n # zs)"
  obtains l r fs par where "tree_ok upd h par \<langle>l, n, r\<rangle>" "ctx upd h root fs (Some n) par"
    "ys = before fs @ inorder l" "zs = inorder r @ after fs"
proof -
  from assms obtain t where t: "root = root_ptr t" "tree_ok upd h None t" "inorder t = ys @ n # zs"
    "distinct (ys @ n # zs)" by (auto simp: avl_holds_def)
  then have "n \<in> set_tree t" by (metis in_set_conv_decomp set_inorder)
  from plug_exists [OF this] obtain l r fs where p: "t = plug \<langle>l, n, r\<rangle> fs" by blast
  with tree_ok_plugD t(1,2) obtain par where
    "tree_ok upd h par \<langle>l, n, r\<rangle>" "ctx upd h root fs (Some n) par" by fastforce
  moreover have "(before fs @ inorder l) @ n # inorder r @ after fs = ys @ n # zs"
    using t(3) p by (simp add: inorder_plug)
  then have "ys = before fs @ inorder l \<and> zs = inorder r @ after fs"
    using t(4) by (metis append_Cons_eq_iff distinct_append distinct.simps(2) not_distinct_conv_prefix)
  ultimately show thesis using that by blast
qed

lemma avl_next_ok:
  assumes "avl_holds upd h root (ys @ n # zs)"
  shows "avl_next h n = Some (if zs = [] then None else Some (hd zs))"
proof -
  obtain l r fs par where a: "tree_ok upd h par \<langle>l, n, r\<rangle>" "ctx upd h root fs (Some n) par"
    "ys = before fs @ inorder l" "zs = inorder r @ after fs" using avl_holds_at [OF assms] .
  have d: "distinct (before fs @ n # after fs)"
    using avl_holds_distinct [OF assms] a(3,4) by auto
  show ?thesis
  proof (cases r)
    case Leaf
    then show ?thesis using a climb_right_ok [OF a(2) d] by (simp add: avl_next_def node_rec_def)
  next
    case (Node r1 m r2)
    then show ?thesis using a lowest_hd [of upd h "Some n" r m] by (simp add: avl_next_def node_rec_def hd_append)
  qed
qed

lemma avl_prev_ok:
  assumes "avl_holds upd h root (ys @ n # zs)"
  shows "avl_prev h n = Some (if ys = [] then None else Some (last ys))"
proof -
  obtain l r fs par where a: "tree_ok upd h par \<langle>l, n, r\<rangle>" "ctx upd h root fs (Some n) par"
    "ys = before fs @ inorder l" "zs = inorder r @ after fs" using avl_holds_at [OF assms] .
  have d: "distinct (before fs @ n # after fs)"
    using avl_holds_distinct [OF assms] a(3,4) by auto
  show ?thesis
  proof (cases l)
    case Leaf
    then show ?thesis using a climb_left_ok [OF a(2) d] by (simp add: avl_prev_def node_rec_def)
  next
    case (Node l1 m l2)
    then show ?thesis using a highest_last [of upd h "Some n" l m] by (simp add: avl_prev_def node_rec_def last_append)
  qed
qed

lemma tree_ok_root_parent:
  "tree_ok upd h par t \<Longrightarrow> root_ptr t = None \<or> m_parent (nodes h (the (root_ptr t))) = par"
  by (cases t) (simp_all add: node_rec_def)

context avl_traits
begin

subsection \<open>Insertion and removal\<close>

lemma in_order_touches: "touches S h h' \<Longrightarrow> in_order h' xs \<longleftrightarrow> in_order h xs"
proof -
  assume "touches S h h'"
  then have "lt (items h' x) (items h' y) = lt (items h x) (items h y)" for x y
    by (intro lt_core) (auto simp: touches_def)
  then show ?thesis by (simp add: in_order_def)
qed

lemma in_order_ins:
  assumes "in_order h xs"
  shows "in_order h (ins h n xs)"
proof -
  let ?P = "\<lambda>y. \<not> lt (items h n) (items h y)"
  define as where "as = takeWhile ?P xs"
  define bs where "bs = dropWhile ?P xs"
  have ab: "takeWhile ?P xs = as" "dropWhile ?P xs = bs" "xs = as @ bs" by (simp_all add: as_def bs_def)
  have s: "sorted_wrt (\<lambda>a b. \<not> lt (items h b) (items h a)) (as @ bs)"
    using assms ab(3) by (simp add: in_order_def)
  have "\<forall>y\<in>set as. ?P y" using ab(1) set_takeWhileD by fastforce
  moreover have "\<not> lt (items h y) (items h n)" if y: "y \<in> set bs" for y
  proof -
    obtain z zs where z: "bs = z # zs" using y by (cases bs) auto
    then have nz: "lt (items h n) (items h z)" using ab(2) by (simp add: dropWhile_eq_Cons_conv)
    have "\<not> lt (items h y) (items h z) \<or> y = z" using s z y by (auto simp: sorted_wrt_append)
    then show ?thesis
      using nz lt_asym lt_cotrans [of "items h y" "items h z" "items h n"] by metis
  qed
  ultimately show ?thesis
    using s ab by (simp add: in_order_def ins_def sorted_wrt_append)
qed

lemma insert_holds:
  assumes "avl_holds upd h root xs" "in_order h xs" "n \<notin> set xs"
  obtains h' root' where "avl_insert lt upd n h root = Some (h', root')"
    "avl_holds upd h' root' (ins h n xs)" "in_order h' (ins h n xs)" "touches (insert n (set xs)) h h'"
proof -
  from assms(1) obtain t where t: "root = root_ptr t" "tree_ok upd h None t" "avl t" "inorder t = xs" "distinct xs"
    by (auto simp: avl_holds_def)
  then have "outcome (insert n (set_tree t)) (ins h n xs) h (avl_insert lt upd n h root)"
    using avl_insert_ok [of h t n] assms(2,3) by auto
  then obtain h' t' where "avl_insert lt upd n h root = Some (h', root_ptr t')" "tree_ok upd h' None t'" "avl t'"
    "inorder t' = ins h n xs" "touches (insert n (set xs)) h h'"
    using t(4) by (auto simp: outcome_def)
  moreover from calculation have "avl_holds upd h' (root_ptr t') (ins h n xs)"
    using distinct_ins [OF t(5) assms(3)] by (auto simp: avl_holds_def)
  ultimately show thesis
    using that [of h' "root_ptr t'"] in_order_ins [OF assms(2)] in_order_touches by blast
qed

lemma erase_holds:
  assumes "avl_holds upd h root xs" "n \<in> set xs"
  obtains h' root' where "avl_erase upd n h root = Some (h', root')"
    "avl_holds upd h' root' (remove1 n xs)" "in_order h xs \<Longrightarrow> in_order h' (remove1 n xs)"
    "touches (set xs) h h'" "\<not> in_tree h' n"
proof -
  from assms(1) obtain t where t: "root = root_ptr t" "tree_ok upd h None t" "avl t" "inorder t = xs" "distinct xs"
    by (auto simp: avl_holds_def)
  then have "erased (set_tree t) n (remove1 n xs) h (avl_erase upd n h root)"
    using avl_erase_ok [of h t n] assms(2) by auto
  then obtain h' t' where "avl_erase upd n h root = Some (h', root_ptr t')" "tree_ok upd h' None t'" "avl t'"
    "inorder t' = remove1 n xs" "touches (set xs) h h'" "nodes h' n = detached"
    using t(4) by (auto simp: erased_def)
  moreover have "in_order h xs \<Longrightarrow> in_order h (remove1 n xs)"
    unfolding in_order_def by (induction xs) auto
  moreover from calculation have "avl_holds upd h' (root_ptr t') (remove1 n xs)"
    using distinct_remove1 [OF t(5)] by (auto simp: avl_holds_def)
  ultimately show thesis
    using that [of h' "root_ptr t'"] in_order_touches [of "set xs" h h'] by (simp add: in_tree_def)
qed

subsection \<open>The consistency check\<close>

lemma is_subtree_consistent_ok:
  assumes "tree_ok upd h par t" "avl t" "distinct (inorder t)" "in_order h (inorder t)"
  shows "is_subtree_consistent lt h (root_ptr t) = Some True"
  using assms
proof (induction t arbitrary: par)
  case Leaf
  then show ?case by (subst is_subtree_consistent.simps) simp
next
  case (Node l n r)
  have lr: "tree_ok upd h (Some n) l" "tree_ok upd h (Some n) r" "avl l" "avl r"
    "in_order h (inorder l)" "in_order h (inorder r)" "nodes h n = node_rec par l r"
    using Node.prems by (auto simp: in_order_def sorted_wrt_append)
  have IH: "is_subtree_consistent lt h (root_ptr l) = Some True" "is_subtree_consistent lt h (root_ptr r) = Some True"
    using Node.IH(1) [OF lr(1,3) _ lr(5)] Node.IH(2) [OF lr(2,4) _ lr(6)] Node.prems(3) by auto
  have "height \<langle>l, n, r\<rangle> \<le> 91" using avl_height_bound Node.prems by blast
  then have ht: "node_height h (root_ptr l) = int (height l)" "node_height h (root_ptr r) = int (height r)"
    "sint (m_height (nodes h n)) = 1 + max (int (height l)) (int (height r))"
    using tree_ok_height [OF lr(1)] tree_ok_height [OF lr(2)] tree_ok_height [OF Node.prems(1)] by simp_all
  have par: "root_ptr l = None \<or> m_parent (nodes h (the (root_ptr l))) = Some n"
    "root_ptr r = None \<or> m_parent (nodes h (the (root_ptr r))) = Some n"
    using tree_ok_root_parent [OF lr(1)] tree_ok_root_parent [OF lr(2)] .
  have ord: "root_ptr l = None \<or> \<not> lt (items h n) (items h (the (root_ptr l)))"
    "root_ptr r = None \<or> \<not> lt (items h (the (root_ptr r))) (items h n)"
    using Node.prems(4) root_ptr_in [of l] root_ptr_in [of r] by (auto simp: in_order_def sorted_wrt_append)
  show ?case
    using IH ht par ord lr(7) Node.prems(2)
    by (subst is_subtree_consistent.simps) (simp add: Let_def node_rec_def)
qed

lemma is_consistent_ok:
  "avl_holds upd h root xs \<Longrightarrow> in_order h xs \<Longrightarrow> avl_is_consistent lt h root = Some True"
proof -
  assume a: "avl_holds upd h root xs" "in_order h xs"
  then obtain t where t: "root = root_ptr t" "tree_ok upd h None t" "avl t" "inorder t = xs" "distinct xs"
    by (auto simp: avl_holds_def)
  then have "root = None \<or> m_parent (nodes h (the root)) = None"
    by (cases t) (auto simp: node_rec_def)
  then show ?thesis
    using is_subtree_consistent_ok [OF t(2,3)] t a(2) by (auto simp: avl_is_consistent_def)
qed

end

end
