(* ===== verification/Eevdf.thy ===== *)
theory Eevdf
  imports AvlSpec
begin

text \<open>
  Earliest Eligible Virtual Deadline First, \<^verbatim>\<open>kernel/include/sched/eevdf.hpp\<close> and
  \<^verbatim>\<open>kernel/src/sched/eevdf.cpp\<close>.

  An \<open>entity\<close> is the item of the AVL tree; a queue is a record next to the heap of entities.
  The widths are those of the source: virtual times are 64-bit words, the weighted sum of virtual
  runtimes is a 128-bit word.  The record of an entity can be extended, as \<^verbatim>\<open>Thread\<close> extends
  \<^verbatim>\<open>Entity\<close>.  \<^const>\<open>None\<close> is a failed \<^verbatim>\<open>KASSERT\<close> (or a walk that does not end).
\<close>

subsection \<open>Entities\<close>

record entity =
  m_subtree_min_vruntime :: u64
  m_weight :: u32
  m_rate :: u64
  m_slice_ns :: u64
  m_vruntime :: u64
  m_vdeadline :: u64
  m_vlag :: u64

definition NICE_0_WEIGHT :: u32 where "NICE_0_WEIGHT = 1024"
definition DEFAULT_SLICE_NS :: u64 where "DEFAULT_SLICE_NS = 2000000"
definition MIN_SLICE_NS :: u64 where "MIN_SLICE_NS = 250000"
definition MAX_LAG_SLICES :: u64 where "MAX_LAG_SLICES = 2"
definition RATE_SHIFT :: nat where "RATE_SHIFT = 32"

definition new_entity :: entity where
  "new_entity = \<lparr>m_subtree_min_vruntime = 0, m_weight = NICE_0_WEIGHT, m_rate = push_bit RATE_SHIFT 1,
     m_slice_ns = DEFAULT_SLICE_NS, m_vruntime = 0, m_vdeadline = 0, m_vlag = 0\<rparr>"

definition to_virtual :: "('e entity_scheme) \<Rightarrow> u64 \<Rightarrow> u64" where
  "to_virtual e ns = ucast (drop_bit RATE_SHIFT ((ucast ns :: u128) * ucast (m_rate e)))"

definition to_real :: "('e entity_scheme) \<Rightarrow> u64 \<Rightarrow> u64" where
  "to_real e virtual_ns = ucast (((ucast virtual_ns :: u128) * ucast (m_weight e)) div ucast NICE_0_WEIGHT)"

definition set_weight :: "u32 \<Rightarrow> ('e entity_scheme) \<Rightarrow> ('e entity_scheme)" where
  "set_weight weight e =
     (let w = (if weight \<noteq> 0 then weight else 1)
      in e\<lparr>m_weight := w, m_rate := push_bit RATE_SHIFT (ucast NICE_0_WEIGHT) div ucast w\<rparr>)"

definition set_slice_ns :: "u64 \<Rightarrow> ('e entity_scheme) \<Rightarrow> ('e entity_scheme)" where
  "set_slice_ns slice_ns e = e\<lparr>m_slice_ns := (if slice_ns \<ge> MIN_SLICE_NS then slice_ns else MIN_SLICE_NS)\<rparr>"

definition eevdf_less :: "('e entity_scheme) \<Rightarrow> ('e entity_scheme) \<Rightarrow> bool" where
  "eevdf_less a b \<longleftrightarrow> m_vdeadline a < m_vdeadline b"

definition eevdf_update :: "('e entity_scheme) updater" where
  "eevdf_update e l r =
     (let lowest = m_vruntime e;
          lowest = (case l of None \<Rightarrow> lowest | Some c \<Rightarrow> min lowest (m_subtree_min_vruntime c));
          lowest = (case r of None \<Rightarrow> lowest | Some c \<Rightarrow> min lowest (m_subtree_min_vruntime c))
      in e\<lparr>m_subtree_min_vruntime := lowest\<rparr>)"

definition entity_core :: "('e entity_scheme) \<Rightarrow> ('e entity_scheme)" where
  "entity_core e = e\<lparr>m_subtree_min_vruntime := 0\<rparr>"

definition upd_item :: "addr \<Rightarrow> ('a \<Rightarrow> 'a) \<Rightarrow> ('a, 'z) avl_heap_scheme \<Rightarrow> ('a, 'z) avl_heap_scheme" where
  "upd_item n f h = h\<lparr>items := (items h)(n := f (items h n))\<rparr>"

subsection \<open>The queue\<close>

record eevdf_queue =
  m_tree :: ptr
  m_current :: ptr
  m_weighted_vruntime :: u128
  m_total_weight :: u64
  m_queued :: u32
  m_last_virtual_time :: u64

definition new_queue :: eevdf_queue where
  "new_queue = \<lparr>m_tree = None, m_current = None, m_weighted_vruntime = 0, m_total_weight = 0,
     m_queued = 0, m_last_virtual_time = 0\<rparr>"

definition virtual_time :: "eevdf_queue \<Rightarrow> u64" where
  "virtual_time q = (if m_total_weight q = 0 then m_last_virtual_time q
     else ucast (m_weighted_vruntime q div ucast (m_total_weight q)))"

definition is_eligible_at :: "eevdf_queue \<Rightarrow> u64 \<Rightarrow> bool" where
  "is_eligible_at q vruntime \<longleftrightarrow> ucast (m_total_weight q) * ucast vruntime \<le> m_weighted_vruntime q"

definition is_eligible :: "eevdf_queue \<Rightarrow> ('e entity_scheme) \<Rightarrow> bool" where
  "is_eligible q e = is_eligible_at q (m_vruntime e)"

definition account_join :: "('e entity_scheme) \<Rightarrow> eevdf_queue \<Rightarrow> eevdf_queue" where
  "account_join e q = q\<lparr>
     m_weighted_vruntime := m_weighted_vruntime q + ucast (m_weight e) * ucast (m_vruntime e),
     m_total_weight := m_total_weight q + ucast (m_weight e)\<rparr>"

text \<open>\<^verbatim>\<open>std::clamp\<close> on signed 64-bit values.\<close>

definition sclamp :: "u64 \<Rightarrow> u64 \<Rightarrow> u64 \<Rightarrow> u64" where
  "sclamp v lo hi = (if v <s lo then lo else if hi <s v then hi else v)"

definition account_leave ::
  "addr \<Rightarrow> ('e entity_scheme, 'z) avl_heap_scheme \<Rightarrow> eevdf_queue \<Rightarrow>
   ('e entity_scheme, 'z) avl_heap_scheme \<times> eevdf_queue" where
  "account_leave n h q =
     (let e = items h n;
          now = virtual_time q;
          limit = to_virtual e (MAX_LAG_SLICES * m_slice_ns e);
          lag = now - m_vruntime e;
          h = upd_item n (\<lambda>e. e\<lparr>m_vlag := sclamp lag (- limit) limit\<rparr>) h
      in (h, q\<lparr>
        m_weighted_vruntime := m_weighted_vruntime q - ucast (m_weight e) * ucast (m_vruntime e),
        m_total_weight := m_total_weight q - ucast (m_weight e),
        m_last_virtual_time := now\<rparr>))"

definition scaled_lag :: "u64 \<Rightarrow> u64 \<Rightarrow> u32 \<Rightarrow> u64" where
  "scaled_lag magnitude total_weight weight =
     (if total_weight = 0 then magnitude
      else ucast ((ucast magnitude * ucast (total_weight + ucast weight) :: u128) div ucast total_weight))"

definition place :: "eevdf_queue \<Rightarrow> ('e entity_scheme) \<Rightarrow> ('e entity_scheme)" where
  "place q e =
     (let now = virtual_time q;
          magnitude = (if m_vlag e <s 0 then - m_vlag e else m_vlag e);
          lag = scaled_lag magnitude (m_total_weight q) (m_weight e);
          e = (if m_vlag e <s 0 then e\<lparr>m_vruntime := now + lag\<rparr>
               else e\<lparr>m_vruntime := now - min now lag\<rparr>)
      in e\<lparr>m_vdeadline := m_vruntime e + to_virtual e (m_slice_ns e)\<rparr>)"

definition enqueue ::
  "addr \<Rightarrow> ('e entity_scheme, 'z) avl_heap_scheme \<Rightarrow> eevdf_queue \<Rightarrow>
   (('e entity_scheme, 'z) avl_heap_scheme \<times> eevdf_queue) option" where
  "enqueue n h q =
     (if in_tree h n \<or> m_current q = Some n then None
      else do {
        let h = upd_item n (place q) h;
        let q = account_join (items h n) q;
        (h, root) \<leftarrow> avl_insert eevdf_less eevdf_update n h (m_tree q);
        Some (h, q\<lparr>m_tree := root, m_queued := m_queued q + 1\<rparr>)
      })"

definition dequeue ::
  "addr \<Rightarrow> ('e entity_scheme, 'z) avl_heap_scheme \<Rightarrow> eevdf_queue \<Rightarrow>
   (('e entity_scheme, 'z) avl_heap_scheme \<times> eevdf_queue) option" where
  "dequeue n h q =
     (if \<not> in_tree h n then None
      else do {
        (h, root) \<leftarrow> avl_erase eevdf_update n h (m_tree q);
        let q = q\<lparr>m_tree := root, m_queued := m_queued q - 1\<rparr>;
        Some (account_leave n h q)
      })"

definition set_current ::
  "addr \<Rightarrow> ('e entity_scheme, 'z) avl_heap_scheme \<Rightarrow> eevdf_queue \<Rightarrow>
   (('e entity_scheme, 'z) avl_heap_scheme \<times> eevdf_queue) option" where
  "set_current n h q =
     (if m_current q \<noteq> None \<or> \<not> in_tree h n then None
      else do {
        (h, root) \<leftarrow> avl_erase eevdf_update n h (m_tree q);
        Some (h, q\<lparr>m_tree := root, m_queued := m_queued q - 1, m_current := Some n\<rparr>)
      })"

definition requeue_current ::
  "('e entity_scheme, 'z) avl_heap_scheme \<Rightarrow> eevdf_queue \<Rightarrow>
   (('e entity_scheme, 'z) avl_heap_scheme \<times> eevdf_queue) option" where
  "requeue_current h q = do {
     n \<leftarrow> m_current q;
     (h, root) \<leftarrow> avl_insert eevdf_less eevdf_update n h (m_tree q);
     Some (h, q\<lparr>m_tree := root, m_queued := m_queued q + 1, m_current := None\<rparr>)
   }"

definition retire_current ::
  "('e entity_scheme, 'z) avl_heap_scheme \<Rightarrow> eevdf_queue \<Rightarrow>
   (('e entity_scheme, 'z) avl_heap_scheme \<times> eevdf_queue) option" where
  "retire_current h q = do {
     n \<leftarrow> m_current q;
     let (h, q) = account_leave n h q;
     Some (h, q\<lparr>m_current := None\<rparr>)
   }"

definition charge ::
  "u64 \<Rightarrow> ('e entity_scheme, 'z) avl_heap_scheme \<Rightarrow> eevdf_queue \<Rightarrow>
   bool \<times> ('e entity_scheme, 'z) avl_heap_scheme \<times> eevdf_queue" where
  "charge delta_ns h q =
     (case m_current q of
        None \<Rightarrow> (False, h, q)
      | Some n \<Rightarrow>
          let delta = to_virtual (items h n) delta_ns;
              h = upd_item n (\<lambda>e. e\<lparr>m_vruntime := m_vruntime e + delta\<rparr>) h;
              q = q\<lparr>m_weighted_vruntime := m_weighted_vruntime q + ucast (m_weight (items h n)) * ucast delta\<rparr>
          in if m_vruntime (items h n) < m_vdeadline (items h n) then (False, h, q)
             else (True, upd_item n (\<lambda>e. e\<lparr>m_vdeadline := m_vruntime e + to_virtual e (m_slice_ns e)\<rparr>) h, q))"

definition yield_current ::
  "('e entity_scheme, 'z) avl_heap_scheme \<Rightarrow> eevdf_queue \<Rightarrow> ('e entity_scheme, 'z) avl_heap_scheme" where
  "yield_current h q =
     (case m_current q of
        None \<Rightarrow> h
      | Some n \<Rightarrow> upd_item n (\<lambda>e. e\<lparr>m_vdeadline := m_vdeadline e + to_virtual e (m_slice_ns e)\<rparr>) h)"

partial_function (option) pick_walk ::
  "('e entity_scheme, 'z) avl_heap_scheme \<Rightarrow> eevdf_queue \<Rightarrow> ptr \<Rightarrow> ptr option" where
  "pick_walk h q p =
     (case p of
        None \<Rightarrow> Some None
      | Some n \<Rightarrow>
          let left = m_left (nodes h n)
          in if left \<noteq> None \<and> is_eligible_at q (m_subtree_min_vruntime (items h (the left)))
             then pick_walk h q left
             else if is_eligible q (items h n) then Some (Some n)
             else pick_walk h q (m_right (nodes h n)))"

definition pick :: "('e entity_scheme, 'z) avl_heap_scheme \<Rightarrow> eevdf_queue \<Rightarrow> ptr option" where
  "pick h q = do {
     best \<leftarrow> pick_walk h q (m_tree q);
     case m_current q of
       None \<Rightarrow> if best \<noteq> None \<or> m_tree q = None then Some best else None
     | Some c \<Rightarrow>
         if best = None \<or> is_eligible q (items h c) \<and>
            m_vdeadline (items h c) \<le> m_vdeadline (items h (the best))
         then Some (Some c) else Some best
   }"

definition preempts_current :: "('e entity_scheme, 'z) avl_heap_scheme \<Rightarrow> eevdf_queue \<Rightarrow> addr \<Rightarrow> bool" where
  "preempts_current h q n =
     (case m_current q of None \<Rightarrow> False
      | Some c \<Rightarrow> is_eligible q (items h n) \<and> m_vdeadline (items h n) < m_vdeadline (items h c))"

definition slice_left_ns :: "('e entity_scheme, 'z) avl_heap_scheme \<Rightarrow> eevdf_queue \<Rightarrow> u64" where
  "slice_left_ns h q =
     (case m_current q of
        None \<Rightarrow> 0
      | Some c \<Rightarrow>
          let e = items h c
          in if m_vruntime e \<ge> m_vdeadline e then 0
             else min (to_real e (m_vdeadline e - m_vruntime e)) (m_slice_ns e))"

definition latest :: "('e entity_scheme, 'z) avl_heap_scheme \<Rightarrow> eevdf_queue \<Rightarrow> ptr option" where
  "latest h q = avl_last h (m_tree q)"

fun find_latest_from ::
  "('e entity_scheme \<Rightarrow> bool) \<Rightarrow> ('e entity_scheme, 'z) avl_heap_scheme \<Rightarrow> ptr \<Rightarrow> nat \<Rightarrow> ptr option" where
  "find_latest_from pred h None budget = Some None"
| "find_latest_from pred h (Some n) 0 = Some None"
| "find_latest_from pred h (Some n) (Suc budget) =
     (if pred (items h n) then Some (Some n)
      else do { p \<leftarrow> avl_prev h n; find_latest_from pred h p budget })"

definition find_latest ::
  "('e entity_scheme \<Rightarrow> bool) \<Rightarrow> u32 \<Rightarrow> ('e entity_scheme, 'z) avl_heap_scheme \<Rightarrow> eevdf_queue \<Rightarrow> ptr option" where
  "find_latest pred budget h q = do { p \<leftarrow> latest h q; find_latest_from pred h p (unat budget) }"

partial_function (option) consistent_walk ::
  "('e entity_scheme, 'z) avl_heap_scheme \<Rightarrow> ptr \<Rightarrow> u32 \<times> u128 \<times> u64 \<Rightarrow> (u32 \<times> u128 \<times> u64) option option" where
  "consistent_walk h p acc =
     (case p of
        None \<Rightarrow> Some (Some acc)
      | Some n \<Rightarrow>
          let e = items h n; (count, weighted, weight) = acc;
              lowest = m_subtree_min_vruntime
                (eevdf_update e (item_at h (m_left (nodes h n))) (item_at h (m_right (nodes h n))))
          in if m_subtree_min_vruntime e \<noteq> lowest then Some None
             else do {
               p \<leftarrow> avl_next h n;
               consistent_walk h p (count + 1, weighted + ucast (m_weight e) * ucast (m_vruntime e),
                 weight + ucast (m_weight e))
             })"

definition eevdf_is_consistent :: "('e entity_scheme, 'z) avl_heap_scheme \<Rightarrow> eevdf_queue \<Rightarrow> bool option" where
  "eevdf_is_consistent h q = do {
     ok \<leftarrow> avl_is_consistent eevdf_less h (m_tree q);
     if \<not> ok then Some False
     else do {
       p \<leftarrow> avl_first h (m_tree q);
       res \<leftarrow> consistent_walk h p (0, 0, 0);
       case res of
         None \<Rightarrow> Some False
       | Some (count, weighted, weight) \<Rightarrow>
           let (weighted, weight) = (case m_current q of
                 None \<Rightarrow> (weighted, weight)
               | Some c \<Rightarrow> (weighted + ucast (m_weight (items h c)) * ucast (m_vruntime (items h c)),
                            weight + ucast (m_weight (items h c))))
           in Some (count = m_queued q \<and> weighted = m_weighted_vruntime q \<and> weight = m_total_weight q)
     }
   }"

subsection \<open>The traits\<close>

lemma entity_core_eqD:
  assumes "entity_core x = entity_core y"
  shows "m_weight x = m_weight y" "m_rate x = m_rate y" "m_slice_ns x = m_slice_ns y"
    "m_vruntime x = m_vruntime y" "m_vdeadline x = m_vdeadline y" "m_vlag x = m_vlag y"
    "entity.more x = entity.more y"
  using arg_cong [OF assms, of m_weight] arg_cong [OF assms, of m_rate] arg_cong [OF assms, of m_slice_ns]
    arg_cong [OF assms, of m_vruntime] arg_cong [OF assms, of m_vdeadline] arg_cong [OF assms, of m_vlag]
    arg_cong [OF assms, of entity.more]
  by (simp_all add: entity_core_def)

interpretation eevdf: avl_traits eevdf_less eevdf_update entity_core
proof unfold_locales
  fix x x' y y' :: "'e entity_scheme"
  assume "entity_core x = entity_core x'" "entity_core y = entity_core y'"
  then show "eevdf_less x y = eevdf_less x' y'"
    using entity_core_eqD(5) unfolding eevdf_less_def by metis
qed (auto simp: eevdf_less_def eevdf_update_def entity_core_def Let_def split: option.splits)

end
