(* ===== verification/EevdfSpec.thy ===== *)
theory EevdfSpec
  imports Eevdf
begin

text \<open>
  What the EEVDF queue promises.  \<open>eevdf_inv h q xs\<close> says that the queue \<open>q\<close> holds the waiting
  entities \<open>xs\<close> in the order of their deadlines, and that its running totals are the sums over
  them and the current entity.  Every operation keeps it, none of them fails, and
  \<^const>\<open>pick\<close> returns an eligible entity with the earliest deadline.
\<close>

subsection \<open>The invariant\<close>

definition by_deadline :: "('e entity_scheme, 'z) avl_heap_scheme \<Rightarrow> addr list \<Rightarrow> bool" where
  "by_deadline h xs \<longleftrightarrow> sorted_wrt (\<lambda>a b. m_vdeadline (items h a) \<le> m_vdeadline (items h b)) xs"

lemma in_order_by_deadline: "eevdf.in_order h xs \<longleftrightarrow> by_deadline h xs"
  by (simp add: eevdf.in_order_def by_deadline_def eevdf_less_def not_less)

definition members :: "eevdf_queue \<Rightarrow> addr list \<Rightarrow> addr list" where
  "members q xs = (case m_current q of None \<Rightarrow> xs | Some c \<Rightarrow> c # xs)"

definition wsum :: "('e entity_scheme, 'z) avl_heap_scheme \<Rightarrow> addr list \<Rightarrow> nat" where
  "wsum h xs = (\<Sum>x\<leftarrow>xs. unat (m_weight (items h x)))"

definition vsum :: "('e entity_scheme, 'z) avl_heap_scheme \<Rightarrow> addr list \<Rightarrow> nat" where
  "vsum h xs = (\<Sum>x\<leftarrow>xs. unat (m_weight (items h x)) * unat (m_vruntime (items h x)))"

definition eevdf_inv :: "('e entity_scheme, 'z) avl_heap_scheme \<Rightarrow> eevdf_queue \<Rightarrow> addr list \<Rightarrow> bool" where
  "eevdf_inv h q xs \<longleftrightarrow> avl_holds eevdf_update h (m_tree q) xs \<and> by_deadline h xs
     \<and> (\<forall>c. m_current q = Some c \<longrightarrow> c \<notin> set xs \<and> \<not> in_tree h c)
     \<and> length xs < 2 ^ 32 \<and> m_queued q = of_nat (length xs)
     \<and> unat (m_total_weight q) = wsum h (members q xs)
     \<and> unat (m_weighted_vruntime q) = vsum h (members q xs)"

lemma wsum_simps [simp]:
  "wsum h [] = 0" "wsum h (x # xs) = unat (m_weight (items h x)) + wsum h xs"
  "wsum h (xs @ ys) = wsum h xs + wsum h ys"
  by (simp_all add: wsum_def)

lemma vsum_simps [simp]:
  "vsum h [] = 0"
  "vsum h (x # xs) = unat (m_weight (items h x)) * unat (m_vruntime (items h x)) + vsum h xs"
  "vsum h (xs @ ys) = vsum h xs + vsum h ys"
  by (simp_all add: vsum_def)

lemma unat_mult_u64: "unat (ucast (a :: u64) * ucast (b :: u64) :: u128) = unat a * unat b"
proof -
  have "unat a * unat b < 2 ^ 64 * 2 ^ 64"
    using unat_bound [of a] unat_bound [of b] by (intro mult_strict_mono) auto
  then show ?thesis by (simp add: unat_word_ariths unat_ucast_up)
qed

lemma unat_mult_u32: "unat (ucast (a :: u32) * ucast (b :: u64) :: u128) = unat a * unat b"
proof -
  have "unat a * unat b < 2 ^ 32 * 2 ^ 64"
    using unat_bound [of a] unat_bound [of b] by (intro mult_strict_mono) auto
  then show ?thesis by (simp add: unat_word_ariths unat_ucast_up)
qed

lemma wsum_bound: "wsum h xs \<le> length xs * (2 ^ 32 - 1)"
proof (induction xs)
  case (Cons x xs)
  have "unat (m_weight (items h x)) \<le> 2 ^ 32 - 1" using unat_bound [of "m_weight (items h x)"] by simp
  with Cons show ?case by simp
qed simp

lemma vsum_bound: "vsum h xs \<le> wsum h xs * (2 ^ 64 - 1)"
proof (induction xs)
  case (Cons x xs)
  have "unat (m_vruntime (items h x)) \<le> 2 ^ 64 - 1" using unat_bound [of "m_vruntime (items h x)"] by simp
  then have "unat (m_weight (items h x)) * unat (m_vruntime (items h x)) \<le> unat (m_weight (items h x)) * (2 ^ 64 - 1)"
    by (rule mult_le_mono2)
  with Cons show ?case unfolding vsum_simps wsum_simps add_mult_distrib by linarith
qed simp

lemma sums_fit:
  assumes "length xs \<le> 2 ^ 32"
  shows "wsum h xs < 2 ^ 64" "vsum h xs < 2 ^ 128"
proof -
  have "wsum h xs \<le> 2 ^ 32 * (2 ^ 32 - 1)"
    using wsum_bound [of h xs] mult_le_mono1 [OF assms, of "2 ^ 32 - 1"] by linarith
  also have "\<dots> < 2 ^ 64" by simp
  finally show w: "wsum h xs < 2 ^ 64" .
  have "vsum h xs \<le> (2 ^ 64 - 1) * (2 ^ 64 - 1)"
    using vsum_bound [of h xs] mult_le_mono1 [of "wsum h xs" "2 ^ 64 - 1" "2 ^ 64 - 1"] w by linarith
  also have "\<dots> < 2 ^ 128" by simp
  finally show "vsum h xs < 2 ^ 128" .
qed

lemma sums_remove1:
  "x \<in> set xs \<Longrightarrow> wsum h xs = unat (m_weight (items h x)) + wsum h (remove1 x xs)"
  "x \<in> set xs \<Longrightarrow> vsum h xs = unat (m_weight (items h x)) * unat (m_vruntime (items h x)) + vsum h (remove1 x xs)"
  by (induction xs) auto

lemma sums_ins:
  "wsum h (eevdf.ins h' x xs) = unat (m_weight (items h x)) + wsum h xs"
  "vsum h (eevdf.ins h' x xs) = unat (m_weight (items h x)) * unat (m_vruntime (items h x)) + vsum h xs"
proof -
  let ?P = "\<lambda>y. \<not> eevdf_less (items h' x) (items h' y)"
  have "wsum h xs = wsum h (takeWhile ?P xs) + wsum h (dropWhile ?P xs)"
    "vsum h xs = vsum h (takeWhile ?P xs) + vsum h (dropWhile ?P xs)"
    by (metis takeWhile_dropWhile_id wsum_simps(3)) (metis takeWhile_dropWhile_id vsum_simps(3))
  then show "wsum h (eevdf.ins h' x xs) = unat (m_weight (items h x)) + wsum h xs"
    "vsum h (eevdf.ins h' x xs) = unat (m_weight (items h x)) * unat (m_vruntime (items h x)) + vsum h xs"
    by (simp_all add: eevdf.ins_def)
qed

lemma sums_core:
  assumes "\<forall>x\<in>set xs. entity_core (items h' x) = entity_core (items h x)"
  shows "wsum h' xs = wsum h xs" "vsum h' xs = vsum h xs"
proof -
  have "\<forall>x\<in>set xs. m_weight (items h' x) = m_weight (items h x) \<and> m_vruntime (items h' x) = m_vruntime (items h x)"
    using assms entity_core_eqD(1,4) by blast
  then show "wsum h' xs = wsum h xs" "vsum h' xs = vsum h xs"
    by (simp_all add: wsum_def vsum_def cong: map_cong)
qed

subsection \<open>Eligibility\<close>

lemma is_eligible_at_iff:
  "is_eligible_at q v \<longleftrightarrow> unat (m_total_weight q) * unat v \<le> unat (m_weighted_vruntime q)"
  by (simp add: is_eligible_at_def word_le_nat_alt unat_mult_u64)

lemma is_eligible_at_mono: "is_eligible_at q v \<Longrightarrow> w \<le> v \<Longrightarrow> is_eligible_at q w"
  unfolding is_eligible_at_iff word_le_nat_alt using mult_le_mono2 le_trans by blast

lemma vsum_ge: "\<forall>x\<in>set xs. v \<le> unat (m_vruntime (items h x)) \<Longrightarrow> wsum h xs * v \<le> vsum h xs"
  by (induction xs) (auto simp: add_mult_distrib intro: add_mono)

lemma lowest_eligible:
  assumes "unat (m_total_weight q) = wsum h xs" "unat (m_weighted_vruntime q) = vsum h xs" "xs \<noteq> []"
  shows "\<exists>x\<in>set xs. is_eligible q (items h x)"
proof -
  define v where "v = Min ((\<lambda>x. unat (m_vruntime (items h x))) ` set xs)"
  have "v \<in> (\<lambda>x. unat (m_vruntime (items h x))) ` set xs"
    unfolding v_def by (rule Min_in) (use assms(3) in auto)
  then obtain x where x: "x \<in> set xs" "v = unat (m_vruntime (items h x))" by blast
  have "\<forall>y\<in>set xs. v \<le> unat (m_vruntime (items h y))" by (simp add: v_def)
  from vsum_ge [OF this] have "is_eligible q (items h x)"
    using assms(1,2) x(2) by (simp add: is_eligible_def is_eligible_at_iff)
  with x(1) show ?thesis by blast
qed

subsection \<open>The walk of \<open>pick\<close>\<close>

lemma subtree_min:
  "tree_ok eevdf_update h par t \<Longrightarrow> root_ptr t = Some n \<Longrightarrow>
   m_subtree_min_vruntime (items h n) = Min ((\<lambda>x. m_vruntime (items h x)) ` set_tree t)"
proof (induction t arbitrary: par n)
  case (Node l m r)
  have m: "items h m = eevdf_update (items h m) (item_at h (root_ptr l)) (item_at h (root_ptr r))"
    and ok: "tree_ok eevdf_update h (Some m) l" "tree_ok eevdf_update h (Some m) r" "n = m"
    using Node.prems by auto
  let ?V = "\<lambda>t. (\<lambda>x. m_vruntime (items h x)) ` set_tree t"
  have sub: "item_at h (root_ptr s) = None \<and> ?V s = {} \<or>
      (\<exists>c. item_at h (root_ptr s) = Some c \<and> m_subtree_min_vruntime c = Min (?V s) \<and> ?V s \<noteq> {})"
    if "s = l \<or> s = r" for s
    using that Node.IH(1) [OF ok(1)] Node.IH(2) [OF ok(2)] by (cases s) auto
  have "m_subtree_min_vruntime (items h m) = m_subtree_min_vruntime (eevdf_update (items h m)
     (item_at h (root_ptr l)) (item_at h (root_ptr r)))"
    by (subst m) simp
  also have "\<dots> = Min (insert (m_vruntime (items h m)) (?V l \<union> ?V r))"
    using sub [of l] sub [of r] by (auto simp: eevdf_update_def Min_Un min.assoc)
  finally show ?case using ok(3) by (simp add: image_Un)
qed simp

lemma find_append: "List.find P (xs @ ys) = (case List.find P xs of None \<Rightarrow> List.find P ys | Some x \<Rightarrow> Some x)"
  by (induction xs) auto

lemma pick_walk_ok:
  "tree_ok eevdf_update h par t \<Longrightarrow>
   pick_walk h q (root_ptr t) = Some (List.find (\<lambda>x. is_eligible q (items h x)) (inorder t))"
proof (induction t arbitrary: par)
  case Leaf
  show ?case by (subst pick_walk.simps) simp
next
  case (Node l n r)
  let ?P = "\<lambda>x. is_eligible q (items h x)"
  have ok: "tree_ok eevdf_update h (Some n) l" "tree_ok eevdf_update h (Some n) r"
    and n: "m_left (nodes h n) = root_ptr l" "m_right (nodes h n) = root_ptr r"
    using Node.prems by (auto simp: node_rec_def)
  have some: "root_ptr l \<noteq> None \<and> is_eligible_at q (m_subtree_min_vruntime (items h (the (root_ptr l))))
     \<longleftrightarrow> (\<exists>x\<in>set (inorder l). ?P x)" (is "?L \<longleftrightarrow> ?R")
  proof (cases l)
    case (Node a k b)
    let ?V = "(\<lambda>x. m_vruntime (items h x)) ` set_tree l"
    have k: "m_subtree_min_vruntime (items h k) = Min ?V"
      using subtree_min [OF ok(1)] Node by simp
    have "Min ?V \<in> ?V" by (rule Min_in) (use Node in auto)
    moreover have "\<forall>v\<in>?V. Min ?V \<le> v" by simp
    ultimately have "is_eligible_at q (Min ?V) \<longleftrightarrow> (\<exists>v\<in>?V. is_eligible_at q v)"
      using is_eligible_at_mono by blast
    then show ?thesis using Node k by (simp add: is_eligible_def)
  qed simp
  show ?case
  proof (cases ?L)
    case True
    then have "List.find ?P (inorder l) \<noteq> None" using some by (auto simp: find_None_iff)
    then show ?thesis
      using True Node.IH(1) [OF ok(1)] n
      by (subst pick_walk.simps) (auto simp: find_append Let_def)
  next
    case False
    then have "List.find ?P (inorder l) = None" using some by (auto simp: find_None_iff)
    then show ?thesis
      using False Node.IH(2) [OF ok(2)] n
      by (subst pick_walk.simps) (auto simp: find_append Let_def)
  qed
qed

lemma eevdf_invD:
  assumes "eevdf_inv h q xs"
  shows "avl_holds eevdf_update h (m_tree q) xs" "by_deadline h xs" "distinct xs" "length xs < 2 ^ 32"
    "m_queued q = of_nat (length xs)" "unat (m_total_weight q) = wsum h (members q xs)"
    "unat (m_weighted_vruntime q) = vsum h (members q xs)"
    "m_current q = Some c \<Longrightarrow> c \<notin> set xs" "m_current q = Some c \<Longrightarrow> \<not> in_tree h c"
    "x \<in> set xs \<Longrightarrow> in_tree h x" "length (members q xs) \<le> 2 ^ 32"
  using assms avl_holds_distinct avl_holds_in_tree
  by (auto simp: eevdf_inv_def members_def split: option.splits)

text \<open>The first eligible entity in deadline order has the earliest deadline of the eligible ones.\<close>

lemma find_by_deadline:
  assumes "by_deadline h xs" "List.find P xs = Some x" "y \<in> set xs" "P y"
  shows "m_vdeadline (items h x) \<le> m_vdeadline (items h y)"
  using assms by (induction xs) (auto simp: by_deadline_def split: if_splits)

lemma pick_ok:
  assumes inv: "eevdf_inv h q xs" and ne: "members q xs \<noteq> []"
  obtains p where "pick h q = Some (Some p)" "p \<in> set (members q xs)" "is_eligible q (items h p)"
    "\<forall>y\<in>set (members q xs). is_eligible q (items h y) \<longrightarrow> m_vdeadline (items h p) \<le> m_vdeadline (items h y)"
    "\<forall>c. m_current q = Some c \<and> is_eligible q (items h c) \<and>
       m_vdeadline (items h c) = m_vdeadline (items h p) \<longrightarrow> p = c"
proof -
  let ?P = "\<lambda>x. is_eligible q (items h x)"
  from eevdf_invD(1) [OF inv] obtain t where t: "m_tree q = root_ptr t" "tree_ok eevdf_update h None t" "inorder t = xs"
    by (auto simp: avl_holds_def)
  have walk: "pick_walk h q (m_tree q) = Some (List.find ?P xs)"
    using pick_walk_ok [OF t(2)] t(1,3) by simp
  have ex: "\<exists>x\<in>set (members q xs). ?P x"
    by (rule lowest_eligible [OF eevdf_invD(6,7) [OF inv] ne])
  note early = find_by_deadline [OF eevdf_invD(2) [OF inv]]
  show thesis
  proof (cases "List.find ?P xs")
    case None
    then have no: "\<forall>x\<in>set xs. \<not> ?P x" by (simp add: find_None_iff)
    with ex obtain c where "m_current q = Some c" "?P c" by (auto simp: members_def split: option.splits)
    then show thesis
      using that [of c] no walk None by (auto simp: pick_def members_def)
  next
    case (Some b)
    then have b: "b \<in> set xs" "?P b" by (auto simp: find_Some_iff)
    show thesis
    proof (cases "m_current q")
      case None
      then show thesis
        using that [of b] b walk Some early [OF Some] by (auto simp: pick_def members_def)
    next
      case (Some c)
      note cur = Some
      show thesis
      proof (cases "?P c \<and> m_vdeadline (items h c) \<le> m_vdeadline (items h b)")
        case True
        then show thesis
          using that [of c] walk \<open>List.find ?P xs = Some b\<close> cur early [OF \<open>List.find ?P xs = Some b\<close>]
          by (auto simp: pick_def members_def intro: order_trans)
      next
        case False
        then have "pick h q = Some (Some b)"
          using walk \<open>List.find ?P xs = Some b\<close> cur by (auto simp: pick_def)
        moreover have "?P c \<Longrightarrow> m_vdeadline (items h b) < m_vdeadline (items h c)"
          using False by (simp add: not_le)
        ultimately show thesis
          by (intro that [of b])
            (use b cur early [OF \<open>List.find ?P xs = Some b\<close>] in \<open>auto simp: members_def less_imp_le\<close>)
      qed
    qed
  qed
qed

lemma pick_empty:
  assumes "eevdf_inv h q xs" "members q xs = []"
  shows "pick h q = Some None"
proof -
  have "xs = []" "m_current q = None" using assms(2) by (auto simp: members_def split: option.splits)
  moreover have "pick_walk h q None = Some None" by (subst pick_walk.simps) simp
  moreover have "m_tree q = None"
    using eevdf_invD(1) [OF assms(1)] calculation(1) avl_holds_root_None by blast
  ultimately show ?thesis by (simp add: pick_def)
qed

subsection \<open>Joining and leaving\<close>

lemma upd_item_simps [simp]:
  "nodes (upd_item n f h) = nodes h" "items (upd_item n f h) = (items h)(n := f (items h n))"
  "avl_heap.more (upd_item n f h) = avl_heap.more h" "in_tree (upd_item n f h) x = in_tree h x"
  by (simp_all add: upd_item_def in_tree_def)

lemma same_on_upd_item: "n \<notin> S \<Longrightarrow> same_on S h (upd_item n f h)"
  by (auto simp: same_on_def)

lemma by_deadline_same: "same_on (set xs) h h' \<Longrightarrow> by_deadline h' xs \<longleftrightarrow> by_deadline h xs"
  by (auto simp: by_deadline_def same_on_def intro: sorted_wrt_mono_rel [rotated])

lemma sums_same: "same_on (set xs) h h' \<Longrightarrow> wsum h' xs = wsum h xs \<and> vsum h' xs = vsum h xs"
  using sums_core [of xs h' h] by (simp add: same_on_def)

lemma sums_touches: "eevdf.touches S h h' \<Longrightarrow> wsum h' xs = wsum h xs \<and> vsum h' xs = vsum h xs"
  using sums_core [of xs h' h] by (simp add: eevdf.touches_def)

lemma touches_in_tree: "eevdf.touches S h h' \<Longrightarrow> x \<notin> S \<Longrightarrow> in_tree h' x = in_tree h x"
  by (simp add: eevdf.touches_def same_on_def in_tree_def)

lemma account_join_sums:
  assumes "unat (m_total_weight q) = W" "unat (m_weighted_vruntime q) = S"
    and "W + unat (m_weight e) < 2 ^ 64" "S + unat (m_weight e) * unat (m_vruntime e) < 2 ^ 128"
  shows "unat (m_total_weight (account_join e q)) = unat (m_weight e) + W"
    "unat (m_weighted_vruntime (account_join e q)) = unat (m_weight e) * unat (m_vruntime e) + S"
  using assms by (simp_all add: account_join_def unat_word_ariths(1) unat_ucast_up unat_mult_u32)

lemma account_leave_sums:
  assumes "unat (m_total_weight q) = unat (m_weight (items h n)) + W"
    and "unat (m_weighted_vruntime q) = unat (m_weight (items h n)) * unat (m_vruntime (items h n)) + S"
    and "account_leave n h q = (h', q')"
  shows "unat (m_total_weight q') = W" "unat (m_weighted_vruntime q') = S"
    "m_tree q' = m_tree q" "m_current q' = m_current q" "m_queued q' = m_queued q"
    "m_last_virtual_time q' = virtual_time q"
    "h' = upd_item n (\<lambda>e. e\<lparr>m_vlag := sclamp (virtual_time q - m_vruntime e)
        (- to_virtual e (MAX_LAG_SLICES * m_slice_ns e)) (to_virtual e (MAX_LAG_SLICES * m_slice_ns e))\<rparr>) h"
proof -
  have le: "ucast (m_weight (items h n)) \<le> m_total_weight q"
    "ucast (m_weight (items h n)) * ucast (m_vruntime (items h n)) \<le> m_weighted_vruntime q"
    using assms(1,2) by (simp_all add: word_le_nat_alt unat_ucast_up unat_mult_u32)
  show "unat (m_total_weight q') = W" "unat (m_weighted_vruntime q') = S"
    using assms unat_sub [OF le(1)] unat_sub [OF le(2)]
    by (auto simp: account_leave_def Let_def unat_ucast_up unat_mult_u32)
qed (use assms(3) in \<open>auto simp: account_leave_def Let_def upd_item_def\<close>)

lemma place_simps [simp]: "m_weight (place q e) = m_weight e" "m_slice_ns (place q e) = m_slice_ns e"
  "m_rate (place q e) = m_rate e" "m_vlag (place q e) = m_vlag e" "entity.more (place q e) = entity.more e"
  by (simp_all add: place_def Let_def)

lemma members_upd [simp]:
  "members (q\<lparr>m_tree := t, m_queued := k\<rparr>) xs = members q xs"
  "members (account_join e q) xs = members q xs"
  by (simp_all add: members_def account_join_def)

lemma enqueue_ok:
  assumes inv: "eevdf_inv h q xs" and n: "\<not> in_tree h n" "m_current q \<noteq> Some n"
    and room: "length xs + 1 < 2 ^ 32"
  obtains h' q' where "enqueue n h q = Some (h', q')" "eevdf_inv h' q' (eevdf.ins (upd_item n (place q) h) n xs)"
    "eevdf.touches (insert n (set xs)) (upd_item n (place q) h) h'" "in_tree h' n" "m_current q' = m_current q"
    "m_total_weight q' = m_total_weight q + ucast (m_weight (items h n))"
    "m_weighted_vruntime q' = m_weighted_vruntime q + ucast (m_weight (items h n)) * ucast (m_vruntime (place q (items h n)))"
proof -
  define h1 where "h1 = upd_item n (place q) h"
  define q1 where "q1 = account_join (items h1 n) q"
  have nx: "n \<notin> set xs" using eevdf_invD(10) [OF inv] n(1) by blast
  have s1: "same_on (set xs) h h1" unfolding h1_def by (rule same_on_upd_item [OF nx])
  have s1m: "same_on (set (members q xs)) h h1"
    unfolding h1_def by (rule same_on_upd_item) (use nx n(2) in \<open>auto simp: members_def split: option.splits\<close>)
  have "avl_holds eevdf_update h1 (m_tree q) xs" "eevdf.in_order h1 xs"
    using avl_holds_same [OF s1 eevdf_invD(1) [OF inv]] eevdf_invD(2) [OF inv] by_deadline_same [OF s1] in_order_by_deadline
    by auto
  from eevdf.insert_holds [OF this nx] obtain h' root' where
    ins: "avl_insert eevdf_less eevdf_update n h1 (m_tree q) = Some (h', root')"
    "avl_holds eevdf_update h' root' (eevdf.ins h1 n xs)" "eevdf.in_order h' (eevdf.ins h1 n xs)"
    "eevdf.touches (insert n (set xs)) h1 h'" by blast
  define q' where "q' = q1\<lparr>m_tree := root', m_queued := m_queued q1 + 1\<rparr>"
  have en: "enqueue n h q = Some (h', q')"
    using n ins(1) by (simp add: enqueue_def h1_def [symmetric] q1_def [symmetric] q'_def)
      (simp add: q1_def account_join_def)
  have mem: "members q' (eevdf.ins h1 n xs) = (case m_current q of None \<Rightarrow> [] | Some c \<Rightarrow> [c]) @ eevdf.ins h1 n xs"
    by (simp add: q'_def q1_def account_join_def members_def split: option.splits)
  have sums: "wsum h' (members q' (eevdf.ins h1 n xs)) = unat (m_weight (items h1 n)) + wsum h (members q xs)"
    "vsum h' (members q' (eevdf.ins h1 n xs)) = unat (m_weight (items h1 n)) * unat (m_vruntime (items h1 n)) + vsum h (members q xs)"
  proof -
    have a: "wsum h' ys = wsum h1 ys" "vsum h' ys = vsum h1 ys" for ys
      using sums_touches [OF ins(4)] by auto
    show "wsum h' (members q' (eevdf.ins h1 n xs)) = unat (m_weight (items h1 n)) + wsum h (members q xs)"
      "vsum h' (members q' (eevdf.ins h1 n xs)) = unat (m_weight (items h1 n)) * unat (m_vruntime (items h1 n)) + vsum h (members q xs)"
      unfolding mem a using sums_same [OF s1m] by (auto simp: sums_ins members_def split: option.splits)
  qed
  have len: "length (eevdf.ins h1 n xs) = length xs + 1"
    by simp
  then have "length (members q' (eevdf.ins h1 n xs)) \<le> 2 ^ 32"
    using room unfolding mem by (simp split: option.splits)
  note fit = sums_fit [OF this, of h', unfolded sums]
  note aj = account_join_sums [OF eevdf_invD(6,7) [OF inv], of "items h1 n"]
  have tot: "unat (m_total_weight q1) = unat (m_weight (items h1 n)) + wsum h (members q xs)"
    "unat (m_weighted_vruntime q1) = unat (m_weight (items h1 n)) * unat (m_vruntime (items h1 n)) + vsum h (members q xs)"
    using aj fit unfolding q1_def by linarith+
  have "\<forall>c. m_current q' = Some c \<longrightarrow> c \<notin> set (eevdf.ins h1 n xs) \<and> \<not> in_tree h' c"
    using eevdf_invD(8,9) [OF inv] n(2) touches_in_tree [OF ins(4)]
    by (auto simp: q'_def q1_def account_join_def h1_def)
  moreover have "m_queued q' = of_nat (length (eevdf.ins h1 n xs))"
    using eevdf_invD(5) [OF inv] len by (simp add: q'_def q1_def account_join_def)
  ultimately have "eevdf_inv h' q' (eevdf.ins h1 n xs)"
    using ins(2,3) len room tot sums by (simp add: eevdf_inv_def in_order_by_deadline q'_def)
  then show thesis
    using that [of h' q'] en ins(4) eevdf_invD(10) [of h' q' "eevdf.ins h1 n xs" n]
    by (simp add: h1_def q'_def q1_def account_join_def)
qed

lemma erase_sums:
  assumes "eevdf.touches S h h'" "n \<in> set xs"
  shows "wsum h xs = unat (m_weight (items h' n)) + wsum h' (remove1 n xs)"
    "vsum h xs = unat (m_weight (items h' n)) * unat (m_vruntime (items h' n)) + vsum h' (remove1 n xs)"
  using sums_touches [OF assms(1), of xs] sums_remove1 [OF assms(2), of h'] by auto

lemma queued_minus:
  "x \<in> set xs \<Longrightarrow> (of_nat (length xs) :: u32) - 1 = of_nat (length (remove1 x xs))"
  by (cases "length xs") (auto simp: length_remove1)

lemma dequeue_ok:
  assumes inv: "eevdf_inv h q xs" and n: "n \<in> set xs"
  obtains h' q' where "dequeue n h q = Some (h', q')" "eevdf_inv h' q' (remove1 n xs)" "\<not> in_tree h' n"
    "m_current q' = m_current q" "m_last_virtual_time q' = virtual_time q"
    "same_on (- set xs) h h'" "avl_heap.more h' = avl_heap.more h"
    "m_vlag (items h' n) = sclamp (virtual_time q - m_vruntime (items h n))
        (- to_virtual (items h n) (MAX_LAG_SLICES * m_slice_ns (items h n)))
        (to_virtual (items h n) (MAX_LAG_SLICES * m_slice_ns (items h n)))"
proof -
  from eevdf.erase_holds [OF eevdf_invD(1) [OF inv] n] obtain h1 root1 where
    er: "avl_erase eevdf_update n h (m_tree q) = Some (h1, root1)"
    "avl_holds eevdf_update h1 root1 (remove1 n xs)" "eevdf.in_order h xs \<Longrightarrow> eevdf.in_order h1 (remove1 n xs)"
    "eevdf.touches (set xs) h h1" "\<not> in_tree h1 n" by blast
  define q1 where "q1 = q\<lparr>m_tree := root1, m_queued := m_queued q - 1\<rparr>"
  obtain h2 q2 where al: "account_leave n h1 q1 = (h2, q2)" by fastforce
  have dq: "dequeue n h q = Some (h2, q2)"
    using eevdf_invD(10) [OF inv n] er(1) al by (simp add: dequeue_def q1_def)
  have vt: "virtual_time q1 = virtual_time q" by (simp add: q1_def virtual_time_def)
  have cur: "\<forall>c. m_current q = Some c \<longrightarrow> c \<noteq> n" using eevdf_invD(8) [OF inv] n by auto
  have mem: "n \<in> set (members q xs)" "remove1 n (members q xs) = members q (remove1 n xs)"
    using n cur by (auto simp: members_def split: option.splits)
  have tot: "unat (m_total_weight q1) = unat (m_weight (items h1 n)) + wsum h1 (members q (remove1 n xs))"
    "unat (m_weighted_vruntime q1) =
       unat (m_weight (items h1 n)) * unat (m_vruntime (items h1 n)) + vsum h1 (members q (remove1 n xs))"
    using erase_sums [OF er(4) mem(1)] eevdf_invD(6,7) [OF inv] by (simp_all add: q1_def mem(2))
  note al' = account_leave_sums [OF tot al]
  have nr: "n \<notin> set (remove1 n xs)" using eevdf_invD(3) [OF inv] by simp
  have s: "same_on (set (members q (remove1 n xs))) h1 h2" "same_on (set (remove1 n xs)) h1 h2"
    unfolding al'(7) using nr cur
    by (auto intro!: same_on_upd_item simp: members_def split: option.splits)
  have "avl_holds eevdf_update h2 root1 (remove1 n xs)" "by_deadline h2 (remove1 n xs)"
    using avl_holds_same [OF s(2) er(2)] er(3) eevdf_invD(2) [OF inv] by_deadline_same [OF s(2)]
    by (simp_all add: in_order_by_deadline)
  moreover have "\<forall>c. m_current q = Some c \<longrightarrow> c \<notin> set xs \<and> \<not> in_tree h2 c"
    using eevdf_invD(8,9) [OF inv] touches_in_tree [OF er(4)] by (auto simp: al'(7))
  then have "\<forall>c. m_current q2 = Some c \<longrightarrow> c \<notin> set (remove1 n xs) \<and> \<not> in_tree h2 c"
    using al'(4) notin_set_remove1 by (auto simp: q1_def)
  moreover have "m_queued q2 = of_nat (length (remove1 n xs))"
    using eevdf_invD(5) [OF inv] queued_minus [OF n] by (simp add: al'(5) q1_def)
  moreover have "length (remove1 n xs) < 2 ^ 32"
    using eevdf_invD(4) [OF inv] by (simp add: length_remove1 n)
  moreover have "members q2 (remove1 n xs) = members q (remove1 n xs)"
    by (simp add: members_def al'(4) q1_def)
  ultimately have "eevdf_inv h2 q2 (remove1 n xs)"
    using al'(1,2,3) sums_same [OF s(1)] by (simp add: eevdf_inv_def q1_def)
  moreover have "entity_core (items h1 n) = entity_core (items h n)"
    using er(4) by (simp add: eevdf.touches_def)
  note e = entity_core_eqD [OF this]
  have "to_virtual (items h1 n) = to_virtual (items h n)" by (simp add: fun_eq_iff to_virtual_def e)
  moreover have "same_on (- set xs) h h2" "avl_heap.more h2 = avl_heap.more h"
    using er(4) n by (auto simp: al'(7) eevdf.touches_def same_on_def)
  ultimately show thesis
    using that [of h2 q2] dq er(5) al'(4,6) vt e by (simp add: al'(7)) (simp add: q1_def)
qed

lemma set_current_ok:
  assumes inv: "eevdf_inv h q xs" and n: "n \<in> set xs" "m_current q = None"
  obtains h' q' where "set_current n h q = Some (h', q')" "eevdf_inv h' q' (remove1 n xs)"
    "m_current q' = Some n" "eevdf.touches (set xs) h h'"
    "m_total_weight q' = m_total_weight q" "m_weighted_vruntime q' = m_weighted_vruntime q"
proof -
  from eevdf.erase_holds [OF eevdf_invD(1) [OF inv] n(1)] obtain h' root' where
    er: "avl_erase eevdf_update n h (m_tree q) = Some (h', root')"
    "avl_holds eevdf_update h' root' (remove1 n xs)" "eevdf.in_order h xs \<Longrightarrow> eevdf.in_order h' (remove1 n xs)"
    "eevdf.touches (set xs) h h'" "\<not> in_tree h' n" by blast
  define q' where "q' = q\<lparr>m_tree := root', m_queued := m_queued q - 1, m_current := Some n\<rparr>"
  have "set_current n h q = Some (h', q')"
    using n(2) eevdf_invD(10) [OF inv n(1)] er(1) by (simp add: set_current_def q'_def)
  moreover have "eevdf_inv h' q' (remove1 n xs)"
    using er eevdf_invD [OF inv] n erase_sums [OF er(4) n(1)] queued_minus [OF n(1)]
    by (auto simp: eevdf_inv_def q'_def members_def in_order_by_deadline length_remove1)
  ultimately show thesis
    using that [of h' q'] er(4) by (simp add: q'_def)
qed

lemma requeue_current_ok:
  assumes inv: "eevdf_inv h q xs" and c: "m_current q = Some n" and room: "length xs + 1 < 2 ^ 32"
  obtains h' q' where "requeue_current h q = Some (h', q')" "eevdf_inv h' q' (eevdf.ins h n xs)"
    "m_current q' = None" "eevdf.touches (insert n (set xs)) h h'"
    "m_total_weight q' = m_total_weight q" "m_weighted_vruntime q' = m_weighted_vruntime q"
proof -
  have nx: "n \<notin> set xs" using eevdf_invD(8) [OF inv c] .
  have "eevdf.in_order h xs" using eevdf_invD(2) [OF inv] by (simp add: in_order_by_deadline)
  from eevdf.insert_holds [OF eevdf_invD(1) [OF inv] this nx] obtain h' root' where
    ins: "avl_insert eevdf_less eevdf_update n h (m_tree q) = Some (h', root')"
    "avl_holds eevdf_update h' root' (eevdf.ins h n xs)" "eevdf.in_order h' (eevdf.ins h n xs)"
    "eevdf.touches (insert n (set xs)) h h'" by blast
  define q' where "q' = q\<lparr>m_tree := root', m_queued := m_queued q + 1, m_current := None\<rparr>"
  have "requeue_current h q = Some (h', q')"
    using c ins(1) by (simp add: requeue_current_def q'_def)
  moreover have "wsum h' (eevdf.ins h n xs) = wsum h (members q xs)" "vsum h' (eevdf.ins h n xs) = vsum h (members q xs)"
    using sums_touches [OF ins(4), of "eevdf.ins h n xs"] sums_ins [of h h n xs] c by (simp_all add: members_def)
  then have "eevdf_inv h' q' (eevdf.ins h n xs)"
    using ins eevdf_invD [OF inv] room by (simp add: eevdf_inv_def q'_def members_def in_order_by_deadline)
  ultimately show thesis
    using that [of h' q'] ins(4) by (simp add: q'_def)
qed

lemma retire_current_ok:
  assumes inv: "eevdf_inv h q xs" and c: "m_current q = Some n"
  obtains h' q' where "retire_current h q = Some (h', q')" "eevdf_inv h' q' xs"
    "m_current q' = None" "m_last_virtual_time q' = virtual_time q"
    "h' = upd_item n (\<lambda>e. e\<lparr>m_vlag := sclamp (virtual_time q - m_vruntime e)
        (- to_virtual e (MAX_LAG_SLICES * m_slice_ns e)) (to_virtual e (MAX_LAG_SLICES * m_slice_ns e))\<rparr>) h"
proof -
  obtain h' q' where al: "account_leave n h q = (h', q')" by fastforce
  have tot: "unat (m_total_weight q) = unat (m_weight (items h n)) + wsum h xs"
    "unat (m_weighted_vruntime q) = unat (m_weight (items h n)) * unat (m_vruntime (items h n)) + vsum h xs"
    using eevdf_invD(6,7) [OF inv] c by (simp_all add: members_def)
  note al' = account_leave_sums [OF tot al]
  have nx: "n \<notin> set xs" using eevdf_invD(8) [OF inv c] .
  have s: "same_on (set xs) h h'" unfolding al'(7) by (rule same_on_upd_item [OF nx])
  have "eevdf_inv h' (q'\<lparr>m_current := None\<rparr>) xs"
    using al'(1-5) eevdf_invD(1-5) [OF inv] avl_holds_same [OF s] by_deadline_same [OF s] sums_same [OF s]
    by (simp add: eevdf_inv_def members_def)
  then show thesis
    using that [of h' "q'\<lparr>m_current := None\<rparr>"] al al'(6,7) c by (simp add: retire_current_def)
qed

subsection \<open>Charging\<close>

lemma charge_ok:
  assumes inv: "eevdf_inv h q xs" and c: "m_current q = Some n"
    and fit: "unat (m_vruntime (items h n)) + unat (to_virtual (items h n) delta_ns) < 2 ^ 64"
    and ch: "charge delta_ns h q = (b, h', q')"
  shows "eevdf_inv h' q' xs" "m_current q' = Some n"
    "m_vruntime (items h' n) = m_vruntime (items h n) + to_virtual (items h n) delta_ns"
    "b \<longleftrightarrow> m_vdeadline (items h n) \<le> m_vruntime (items h' n)"
    "m_vdeadline (items h' n) = (if b then m_vruntime (items h' n) + to_virtual (items h n) (m_slice_ns (items h n))
       else m_vdeadline (items h n))"
    "same_on (- {n}) h h'"
proof -
  define d where "d = to_virtual (items h n) delta_ns"
  have h': "items h' n = (items h n)\<lparr>m_vruntime := m_vruntime (items h n) + d, m_vdeadline := m_vdeadline (items h' n)\<rparr>"
    "same_on (- {n}) h h'" "nodes h' = nodes h"
    and q': "q' = q\<lparr>m_weighted_vruntime := m_weighted_vruntime q + ucast (m_weight (items h n)) * ucast d\<rparr>"
    and b: "b \<longleftrightarrow> m_vdeadline (items h n) \<le> m_vruntime (items h' n)"
    and dl: "m_vdeadline (items h' n) = (if b then m_vruntime (items h' n) + to_virtual (items h n) (m_slice_ns (items h n))
       else m_vdeadline (items h n))"
    using c ch by (auto simp: charge_def Let_def d_def same_on_def to_virtual_def split: if_splits)
  have nx: "n \<notin> set xs" using eevdf_invD(8) [OF inv c] .
  have s: "same_on (set xs) h h'" using same_on_subset [OF h'(2)] nx by blast
  have v: "unat (m_vruntime (items h' n)) = unat (m_vruntime (items h n)) + unat d"
    using fit by (subst h'(1)) (simp add: unat_word_ariths(1) d_def)
  have w: "m_weight (items h' n) = m_weight (items h n)" by (subst h'(1)) simp
  have mem: "members q' xs = n # xs" "members q xs = n # xs" using c by (simp_all add: members_def q')
  have vs: "vsum h' (n # xs) = vsum h (n # xs) + unat (m_weight (items h n)) * unat d"
    using sums_same [OF s] by (simp add: v w algebra_simps)
  have "vsum h' (n # xs) < 2 ^ 128"
    using sums_fit(2) [of "n # xs" h'] eevdf_invD(4) [OF inv] by simp
  then have "unat (m_weighted_vruntime q') = vsum h' (n # xs)"
    using eevdf_invD(7) [OF inv] unfolding mem vs q'
    by (simp add: unat_word_ariths(1) unat_mult_u32)
  then show "eevdf_inv h' q' xs"
    using eevdf_invD [OF inv] avl_holds_same [OF s] by_deadline_same [OF s] sums_same [OF s] c nx w h'(3)
    by (simp add: eevdf_inv_def members_def q' in_tree_def)
  show "m_current q' = Some n" using c q' by simp
  show "m_vruntime (items h' n) = m_vruntime (items h n) + to_virtual (items h n) delta_ns"
    by (subst h'(1)) (simp add: d_def)
qed (use c ch in \<open>auto simp: charge_def Let_def same_on_def to_virtual_def split: if_splits\<close>)

lemma yield_current_ok:
  assumes inv: "eevdf_inv h q xs"
  shows "eevdf_inv (yield_current h q) q xs"
proof (cases "m_current q")
  case None
  then show ?thesis using inv by (simp add: yield_current_def)
next
  case (Some n)
  let ?f = "\<lambda>e. e\<lparr>m_vdeadline := m_vdeadline e + to_virtual e (m_slice_ns e)\<rparr>"
  have y: "yield_current h q = upd_item n ?f h" using Some by (simp add: yield_current_def)
  have "n \<notin> set xs" using eevdf_invD(8) [OF inv Some] .
  then have s: "same_on (set xs) h (upd_item n ?f h)" by (rule same_on_upd_item)
  then show ?thesis
    using eevdf_invD [OF inv] avl_holds_same [OF s] by_deadline_same [OF s] sums_same [OF s] Some
    unfolding y by (simp add: eevdf_inv_def members_def)
qed

subsection \<open>Virtual time and lag\<close>

lemma virtual_time_eq:
  assumes inv: "eevdf_inv h q xs" and w: "m_total_weight q \<noteq> 0"
  shows "unat (virtual_time q) = vsum h (members q xs) div wsum h (members q xs)" "0 < wsum h (members q xs)"
proof -
  let ?W = "wsum h (members q xs)" let ?S = "vsum h (members q xs)"
  show W: "0 < ?W" using w eevdf_invD(6) [OF inv] by (metis gr0I unat_eq_0)
  have "?S < ?W * 2 ^ 64"
    using vsum_bound [of h "members q xs"] W by (auto intro: le_less_trans)
  then have "?S div ?W < 2 ^ 64" by (simp add: div_less_iff_less_mult W mult.commute)
  then show "unat (virtual_time q) = ?S div ?W"
    using w eevdf_invD(6,7) [OF inv]
    by (simp add: virtual_time_def unat_ucast_less unat_div unat_ucast_up)
qed

lemma div_near:
  fixes x d :: int
  assumes "0 < d"
  shows "-d < x \<Longrightarrow> x < d \<Longrightarrow> x div d = -1 \<or> x div d = 0" "0 \<le> x \<Longrightarrow> x < 2 * d \<Longrightarrow> x div d = 0 \<or> x div d = 1"
proof -
  show "x div d = -1 \<or> x div d = 0" if "-d < x" "x < d"
  proof (cases "0 \<le> x")
    case False
    then have "x div d = -1" using that by (intro int_div_pos_eq [of _ _ _ "x + d"]) auto
    then show ?thesis ..
  qed (use that in simp)
  show "x div d = 0 \<or> x div d = 1" if "0 \<le> x" "x < 2 * d"
  proof (cases "x < d")
    case False
    then have "x div d = 1" using that by (intro int_div_pos_eq [of _ _ _ "x - d"]) auto
    then show ?thesis ..
  qed (use that in simp)
qed

text \<open>Joining a competition of weight \<open>W\<close> with the lag scaled up keeps the lag, up to one.\<close>

lemma lag_kept:
  fixes W w S V L k v :: int
  assumes W: "0 < W" "0 \<le> w" and V: "V = S div W" and k: "k = (L * (W + w)) div W"
  shows "v = V - k \<Longrightarrow> (S + w * v) div (W + w) - v = L \<or> (S + w * v) div (W + w) - v = L - 1"
    "v = V + k \<Longrightarrow> (S + w * v) div (W + w) - v = - L \<or> (S + w * v) div (W + w) - v = - L + 1"
proof -
  define r e where "r = S mod W" and "e = (L * (W + w)) mod W"
  have re: "0 \<le> r" "r < W" "0 \<le> e" "e < W" using W by (simp_all add: r_def e_def)
  have S: "S = W * V + r" and K: "W * k = L * (W + w) - e"
    by (simp_all add: V k r_def e_def mult.commute minus_mod_eq_mult_div [symmetric])
  have shift: "(S + w * v) div (W + w) - v = (S - W * v) div (W + w)"
  proof -
    have eq: "S + w * v = (S - W * v) + v * (W + w)" by (simp add: algebra_simps)
    have "(S + w * v) div (W + w) = v + (S - W * v) div (W + w)"
      unfolding eq by (rule div_mult_self1) (use W in simp)
    then show ?thesis by simp
  qed
  show "(S + w * v) div (W + w) - v = L \<or> (S + w * v) div (W + w) - v = L - 1" if "v = V - k"
  proof -
    have "S - W * v = r + W * k" using S that by (simp add: right_diff_distrib)
    then have "S - W * v = (r - e) + L * (W + w)" using K by simp
    then have "(S - W * v) div (W + w) = L + (r - e) div (W + w)" using W by simp
    moreover have "(r - e) div (W + w) = -1 \<or> (r - e) div (W + w) = 0"
      using re W by (intro div_near) auto
    ultimately show ?thesis using shift by auto
  qed
  show "(S + w * v) div (W + w) - v = - L \<or> (S + w * v) div (W + w) - v = - L + 1" if "v = V + k"
  proof -
    have "S - W * v = r - W * k" using S that by (simp add: distrib_left)
    then have "S - W * v = (r + e) + (- L) * (W + w)" using K by simp
    then have "(S - W * v) div (W + w) = - L + (r + e) div (W + w)" using W by (simp only: div_mult_self1)
    moreover have "(r + e) div (W + w) = 0 \<or> (r + e) div (W + w) = 1"
      using re W by (intro div_near) auto
    ultimately show ?thesis using shift by auto
  qed
qed

lemma uint_uminus_neg: "x <s 0 \<Longrightarrow> uint (- x :: u64) = - sint x"
  using uint_bound [of x] by (simp add: sless_0_u64 sint_u64 uint_uminus_u64)

lemma uint_nonneg: "\<not> x <s 0 \<Longrightarrow> uint (x :: u64) = sint x"
  by (simp add: sless_0_u64 sint_u64)

lemma scaled_lag_eq:
  assumes "unat total_weight = W" "0 < W" "W + unat weight < 2 ^ 64"
    and "(unat m * (W + unat weight)) div W < 2 ^ 64"
  shows "unat (scaled_lag m total_weight weight) = (unat m * (W + unat weight)) div W"
proof -
  have "total_weight \<noteq> 0" using assms(1,2) by auto
  moreover have "unat (total_weight + ucast weight) = W + unat weight"
    using assms(1,3) by (simp add: unat_word_ariths(1) unat_ucast_up)
  ultimately show ?thesis
    using assms(1,4) by (simp add: scaled_lag_def unat_ucast_less unat_div unat_mult_u64 unat_ucast_up)
qed

lemma place_vruntime:
  fixes e :: "'e entity_scheme"
  defines "L \<equiv> sint (m_vlag e)"
  assumes W: "0 < uint (m_total_weight q)" "uint (m_total_weight q) + uint (m_weight e) < 2 ^ 64"
    and k: "k = (\<bar>L\<bar> * (uint (m_total_weight q) + uint (m_weight e))) div uint (m_total_weight q)"
    and k64: "k < 2 ^ 64" and fit: "L < 0 \<Longrightarrow> uint (virtual_time q) + k < 2 ^ 64"
  shows "uint (m_vruntime (place q e)) = (if L < 0 then uint (virtual_time q) + k else uint (virtual_time q) - min (uint (virtual_time q)) k)"
proof -
  define mag where "mag = (if m_vlag e <s 0 then - m_vlag e else m_vlag e)"
  define sl where "sl = scaled_lag mag (m_total_weight q) (m_weight e)"
  have neg: "m_vlag e <s 0 \<longleftrightarrow> L < 0" by (simp add: L_def word_sless_alt)
  have mag: "uint mag = \<bar>L\<bar>"
    using uint_uminus_neg [of "m_vlag e"] uint_nonneg [of "m_vlag e"] neg by (auto simp: mag_def L_def)
  have k0: "0 \<le> k" unfolding k using W(1) by (simp add: pos_imp_zdiv_nonneg_iff)
  have "uint sl = k"
  proof -
    have nat: "int ((unat mag * (unat (m_total_weight q) + unat (m_weight e))) div unat (m_total_weight q)) = k"
      using mag k by (simp add: zdiv_int)
    moreover have "unat sl = (unat mag * (unat (m_total_weight q) + unat (m_weight e))) div unat (m_total_weight q)"
      unfolding sl_def
    proof (rule scaled_lag_eq [OF refl])
      have "0 < int (unat (m_total_weight q))" using W(1) by simp
      then show "0 < unat (m_total_weight q)" by linarith
      have "int (unat (m_total_weight q) + unat (m_weight e)) < 2 ^ 64" using W(2) by simp
      then show "unat (m_total_weight q) + unat (m_weight e) < 2 ^ 64" by (simp only: int_less_pow)
      show "unat mag * (unat (m_total_weight q) + unat (m_weight e)) div unat (m_total_weight q) < 2 ^ 64"
        using k64 unfolding nat [symmetric] by (simp only: int_less_pow)
    qed
    ultimately have "int (unat sl) = k" by simp
    then show ?thesis by simp
  qed
  moreover have "m_vruntime (place q e) = (if L < 0 then virtual_time q + sl else virtual_time q - min (virtual_time q) sl)"
    by (simp add: place_def Let_def neg [symmetric] mag_def [symmetric] sl_def [symmetric])
  moreover have "uint (min (virtual_time q) sl) = min (uint (virtual_time q)) k"
    using calculation(1) by (auto simp: min_def word_le_def)
  moreover have "uint (virtual_time q) < 2 ^ 64" using uint_bound(2) [of "virtual_time q"] by simp
  ultimately show ?thesis
    using fit k0 by (cases "L < 0") (simp_all add: uint_word_ariths(1,2))
qed

lemma sint_diff_u64:
  "uint (a :: u64) < 2 ^ 63 \<Longrightarrow> uint b < 2 ^ 63 \<Longrightarrow> sint (a - b) = uint a - uint b"
proof -
  assume a: "uint a < 2 ^ 63" "uint b < 2 ^ 63"
  have nn: "0 \<le> uint a" "0 \<le> uint b" by simp_all
  show ?thesis
  proof (cases "uint b \<le> uint a")
    case True
    have lt: "uint a - uint b < 2 ^ 63" using a nn by linarith
    then have "uint (a - b) = uint a - uint b"
      unfolding uint_word_ariths(2) using True by (intro int_mod_pos_eq [of _ _ 0]) simp_all
    then show ?thesis using lt by (simp add: sint_u64)
  next
    case False
    define d where "d = uint a - uint b"
    have d: "- (2 ^ 63) < d" "d < 0" unfolding d_def using a nn False by linarith+
    have "uint (a - b) = d + 2 ^ 64"
      unfolding uint_word_ariths(2) d_def [symmetric] by (rule int_mod_pos_eq [of _ _ "-1"]) (use d in auto)
    then show ?thesis using d by (simp add: sint_u64 flip: d_def)
  qed
qed

lemma sint_small: "uint (a :: u64) < 2 ^ 63 \<Longrightarrow> sint a = uint a \<and> sint (- a) = - uint a"
  using sint_diff_u64 [of a 0] sint_diff_u64 [of 0 a] by simp

lemma sint_sclamp:
  assumes "uint a < 2 ^ 63" "uint b < 2 ^ 63" "uint limit < 2 ^ 63"
  shows "sint (sclamp (a - b) (- limit) limit) = max (- uint limit) (min (uint limit) (uint a - uint b))"
proof -
  have "0 \<le> uint limit" by simp
  moreover have "sint (a - b) = uint a - uint b" "sint limit = uint limit" "sint (- limit) = - uint limit"
    using sint_diff_u64 [OF assms(1,2)] sint_small [OF assms(3)] by auto
  moreover have "0 \<le> l \<Longrightarrow> (if x < - l then - l else if l < x then l else x) = max (- l) (min l x)" for l x :: int
    by (simp add: max_def min_def)
  ultimately show ?thesis unfolding sclamp_def word_sless_alt by (simp only: if_distrib [of sint])
qed

end
