(* ===== verification/EevdfSteps.thy ===== *)
theory EevdfSteps
  imports EevdfSpec
begin

text \<open>
  The EEVDF queue as a state machine: the public operations as steps between a heap and a queue,
  from an empty queue on.  Every state that can be reached passes the source's own consistency
  check, and in every such state each operation whose precondition holds succeeds.
\<close>

subsection \<open>The consistency check\<close>

lemma consistent_walk_step:
  assumes "m_subtree_min_vruntime (items h n) = m_subtree_min_vruntime
      (eevdf_update (items h n) (item_at h (m_left (nodes h n))) (item_at h (m_right (nodes h n))))"
    and "avl_next h n = Some p"
  shows "consistent_walk h (Some n) (c, v, w) = consistent_walk h p
     (c + 1, v + ucast (m_weight (items h n)) * ucast (m_vruntime (items h n)), w + ucast (m_weight (items h n)))"
  using assms by (subst consistent_walk.simps) (simp add: Let_def)

lemma ucast_of_nat_unat: "LENGTH('a) \<le> LENGTH('b) \<Longrightarrow> (ucast (w :: 'a :: len word) :: 'b :: len word) = of_nat (unat w)"
  by simp

lemma consistent_walk_ok:
  assumes "avl_holds eevdf_update h root (ys @ zs)"
  shows "consistent_walk h (if zs = [] then None else Some (hd zs)) (c, v, w) =
     Some (Some (c + of_nat (length zs), v + of_nat (vsum h zs), w + of_nat (wsum h zs)))"
  using assms
proof (induction zs arbitrary: ys c v w)
  case Nil
  then show ?case by (subst consistent_walk.simps) simp
next
  case (Cons n zs)
  obtain l r fs par where "tree_ok eevdf_update h par \<langle>l, n, r\<rangle>" "ctx eevdf_update h root fs (Some n) par"
    "ys = before fs @ inorder l" "zs = inorder r @ after fs"
    by (rule avl_holds_at [OF Cons.prems])
  then have "items h n = eevdf_update (items h n) (item_at h (m_left (nodes h n))) (item_at h (m_right (nodes h n)))"
    by (simp add: node_rec_def)
  then have "m_subtree_min_vruntime (items h n) = m_subtree_min_vruntime
      (eevdf_update (items h n) (item_at h (m_left (nodes h n))) (item_at h (m_right (nodes h n))))"
    by (rule arg_cong)
  note step = consistent_walk_step [OF this avl_next_ok [OF Cons.prems], of c v w]
  have "avl_holds eevdf_update h root ((ys @ [n]) @ zs)" using Cons.prems by simp
  note IH = Cons.IH [OF this]
  have "consistent_walk h (if n # zs = [] then None else Some (hd (n # zs))) (c, v, w) = consistent_walk h (Some n) (c, v, w)"
    by simp
  also note step
  also note IH
  finally show ?case by (simp add: algebra_simps)
qed

lemma eevdf_is_consistent_ok:
  assumes inv: "eevdf_inv h q xs"
  shows "eevdf_is_consistent h q = Some True"
proof -
  note I = eevdf_invD [OF inv]
  define p where "p = (if xs = [] then None else Some (hd xs))"
  have first: "avl_first h (m_tree q) = Some p" using avl_first_ok [OF I(1)] by (simp add: p_def)
  have tree: "avl_is_consistent eevdf_less h (m_tree q) = Some True"
    using eevdf.is_consistent_ok I(1,2) in_order_by_deadline by blast
  have walk: "consistent_walk h p (0, 0, 0) = Some (Some (of_nat (length xs), of_nat (vsum h xs), of_nat (wsum h xs)))"
    using consistent_walk_ok [of h "m_tree q" "[]" xs 0 0 0] I(1) unfolding p_def by simp
  have "m_total_weight q = of_nat (wsum h (members q xs))" "m_weighted_vruntime q = of_nat (vsum h (members q xs))"
    by (simp_all flip: I(6,7))
  then show ?thesis
    using I(5) by (cases "m_current q") (simp_all add: eevdf_is_consistent_def first tree walk members_def)
qed

subsection \<open>Looking for a waiting entity\<close>

lemma find_latest_from_ok:
  assumes "avl_holds eevdf_update h root (ys @ zs)"
  shows "find_latest_from pred h (if ys = [] then None else Some (last ys)) k =
     Some (List.find (\<lambda>x. pred (items h x)) (take k (rev ys)))"
  using assms
proof (induction ys arbitrary: zs k rule: rev_induct)
  case (snoc n ys)
  show ?case
  proof (cases k)
    case (Suc j)
    have "avl_prev h n = Some (if ys = [] then None else Some (last ys))"
      using avl_prev_ok [of eevdf_update h root ys n zs] snoc.prems by simp
    then show ?thesis using Suc snoc.IH [of "n # zs" j] snoc.prems by simp
  qed simp
qed simp

lemma find_latest_ok:
  assumes "eevdf_inv h q xs"
  shows "find_latest pred budget h q = Some (List.find (\<lambda>x. pred (items h x)) (take (unat budget) (rev xs)))"
  using find_latest_from_ok [of h "m_tree q" xs "[]"] eevdf_invD(1) [OF assms] avl_last_ok [OF eevdf_invD(1) [OF assms]]
  by (simp add: find_latest_def latest_def)

subsection \<open>Steps\<close>

datatype eevdf_op = Enqueue addr | Dequeue addr | SetCurrent addr | RequeueCurrent | RetireCurrent
  | Charge u64 | YieldCurrent | SetWeight addr u32 | SetSlice addr u64

fun eevdf_exec ::
  "eevdf_op \<Rightarrow> ('e entity_scheme, 'z) avl_heap_scheme \<times> eevdf_queue \<Rightarrow>
   (('e entity_scheme, 'z) avl_heap_scheme \<times> eevdf_queue) option" where
  "eevdf_exec (Enqueue n) (h, q) = enqueue n h q"
| "eevdf_exec (Dequeue n) (h, q) = dequeue n h q"
| "eevdf_exec (SetCurrent n) (h, q) = set_current n h q"
| "eevdf_exec RequeueCurrent (h, q) = requeue_current h q"
| "eevdf_exec RetireCurrent (h, q) = retire_current h q"
| "eevdf_exec (Charge d) (h, q) = Some (snd (charge d h q))"
| "eevdf_exec YieldCurrent (h, q) = Some (yield_current h q, q)"
| "eevdf_exec (SetWeight n w) (h, q) = Some (upd_item n (set_weight w) h, q)"
| "eevdf_exec (SetSlice n s) (h, q) = Some (upd_item n (set_slice_ns s) h, q)"

text \<open>
  When a caller may perform an operation: the \<^verbatim>\<open>KASSERT\<close>s and \<^verbatim>\<open>@pre\<close>s of the source, room in
  the 32-bit counter, and virtual runtimes that stay within 64 bits.
\<close>

fun eevdf_pre :: "eevdf_op \<Rightarrow> ('e entity_scheme, 'z) avl_heap_scheme \<times> eevdf_queue \<Rightarrow> bool" where
  "eevdf_pre (Enqueue n) (h, q) \<longleftrightarrow> \<not> in_tree h n \<and> m_current q \<noteq> Some n \<and> m_queued q < 2 ^ 32 - 1"
| "eevdf_pre (Dequeue n) (h, q) \<longleftrightarrow> in_tree h n"
| "eevdf_pre (SetCurrent n) (h, q) \<longleftrightarrow> in_tree h n \<and> m_current q = None"
| "eevdf_pre RequeueCurrent (h, q) \<longleftrightarrow> m_current q \<noteq> None \<and> m_queued q < 2 ^ 32 - 1"
| "eevdf_pre RetireCurrent (h, q) \<longleftrightarrow> m_current q \<noteq> None"
| "eevdf_pre (Charge d) (h, q) \<longleftrightarrow> (\<forall>n. m_current q = Some n \<longrightarrow>
     unat (m_vruntime (items h n)) + unat (to_virtual (items h n) d) < 2 ^ 64)"
| "eevdf_pre YieldCurrent (h, q) \<longleftrightarrow> True"
| "eevdf_pre (SetWeight n w) (h, q) \<longleftrightarrow> \<not> in_tree h n \<and> m_current q \<noteq> Some n"
| "eevdf_pre (SetSlice n s) (h, q) \<longleftrightarrow> \<not> in_tree h n \<and> m_current q \<noteq> Some n"

text \<open>The invariant, and that the only nodes in a tree are those of this queue.\<close>

definition eevdf_state :: "('e entity_scheme, 'z) avl_heap_scheme \<Rightarrow> eevdf_queue \<Rightarrow> addr list \<Rightarrow> bool" where
  "eevdf_state h q xs \<longleftrightarrow> eevdf_inv h q xs \<and> (\<forall>x. in_tree h x \<longleftrightarrow> x \<in> set xs)"

lemma eevdf_state_upd_item:
  assumes "eevdf_state h q xs" "\<not> in_tree h n" "m_current q \<noteq> Some n"
  shows "eevdf_state (upd_item n f h) q xs"
proof -
  have nx: "n \<notin> set xs" using assms by (simp add: eevdf_state_def)
  have s: "same_on (set xs) h (upd_item n f h)" "same_on (set (members q xs)) h (upd_item n f h)"
    using nx assms(3) by (auto intro!: same_on_upd_item simp: members_def split: option.splits)
  show ?thesis
    using assms avl_holds_same [OF s(1)] by_deadline_same [OF s(1)] sums_same [OF s(2)]
    by (simp add: eevdf_state_def eevdf_inv_def)
qed

lemma room_iff: "eevdf_inv h q xs \<Longrightarrow> m_queued q < 2 ^ 32 - 1 \<longleftrightarrow> length xs + 1 < 2 ^ 32"
  using eevdf_invD(4,5) [of h q xs] by (auto simp: word_less_nat_alt unat_of_nat)

lemma eevdf_step_ok:
  assumes st: "eevdf_state h q xs" and pre: "eevdf_pre op (h, q)"
  shows "\<exists>h' q' xs'. eevdf_exec op (h, q) = Some (h', q') \<and> eevdf_state h' q' xs'"
proof -
  have inv: "eevdf_inv h q xs" and it: "\<And>x. in_tree h x \<longleftrightarrow> x \<in> set xs"
    using st by (auto simp: eevdf_state_def)
  show ?thesis
  proof (cases op)
    case (Enqueue n)
    with pre have p: "\<not> in_tree h n" "m_current q \<noteq> Some n" "length xs + 1 < 2 ^ 32"
      using room_iff [OF inv] by auto
    from enqueue_ok [OF inv p] obtain h' q' where e: "enqueue n h q = Some (h', q')"
      "eevdf_inv h' q' (eevdf.ins (upd_item n (place q) h) n xs)"
      "eevdf.touches (insert n (set xs)) (upd_item n (place q) h) h'" by metis
    have "in_tree h' x \<longleftrightarrow> x \<in> insert n (set xs)" for x
      using eevdf_invD(10) [OF e(2), of x] touches_in_tree [OF e(3), of x] it by auto
    then show ?thesis using e Enqueue by (auto simp: eevdf_state_def)
  next
    case (Dequeue n)
    with pre it have p: "n \<in> set xs" by auto
    from dequeue_ok [OF inv p] obtain h' q' where e: "dequeue n h q = Some (h', q')"
      "eevdf_inv h' q' (remove1 n xs)" "\<not> in_tree h' n" "same_on (- set xs) h h'" by metis
    have "x \<notin> set xs \<Longrightarrow> in_tree h' x = in_tree h x" for x
      using e(4) by (simp add: same_on_def in_tree_def)
    then have "in_tree h' x \<longleftrightarrow> x \<in> set (remove1 n xs)" for x
      using eevdf_invD(10) [OF e(2), of x] e(3) it [of x] eevdf_invD(3) [OF inv] by auto
    then show ?thesis using e Dequeue by (auto simp: eevdf_state_def)
  next
    case (SetCurrent n)
    with pre it have p: "n \<in> set xs" "m_current q = None" by auto
    from set_current_ok [OF inv p] obtain h' q' where e: "set_current n h q = Some (h', q')"
      "eevdf_inv h' q' (remove1 n xs)" "m_current q' = Some n" "eevdf.touches (set xs) h h'" by metis
    have "in_tree h' x \<longleftrightarrow> x \<in> set (remove1 n xs)" for x
      using eevdf_invD(9) [OF e(2,3)] eevdf_invD(10) [OF e(2), of x] touches_in_tree [OF e(4), of x] it
        eevdf_invD(3) [OF inv] by auto
    then show ?thesis using e SetCurrent by (auto simp: eevdf_state_def)
  next
    case RequeueCurrent
    with pre obtain n where p: "m_current q = Some n" "length xs + 1 < 2 ^ 32"
      using room_iff [OF inv] by auto
    from requeue_current_ok [OF inv p] obtain h' q' where e: "requeue_current h q = Some (h', q')"
      "eevdf_inv h' q' (eevdf.ins h n xs)" "eevdf.touches (insert n (set xs)) h h'" by metis
    have "in_tree h' x \<longleftrightarrow> x \<in> insert n (set xs)" for x
      using eevdf_invD(10) [OF e(2), of x] touches_in_tree [OF e(3), of x] it by auto
    then show ?thesis using e RequeueCurrent by (auto simp: eevdf_state_def)
  next
    case RetireCurrent
    with pre obtain n where p: "m_current q = Some n" by auto
    obtain h' q' where e: "retire_current h q = Some (h', q')" "eevdf_inv h' q' xs" "nodes h' = nodes h"
      by (rule retire_current_ok [OF inv p]) simp
    then show ?thesis using RetireCurrent it by (auto simp: eevdf_state_def in_tree_def)
  next
    case (Charge d)
    show ?thesis
    proof (cases "m_current q")
      case None
      then show ?thesis using Charge st by (auto simp: charge_def)
    next
      case (Some n)
      obtain b h' q' where c: "charge d h q = (b, h', q')" by (cases "charge d h q") auto
      have "unat (m_vruntime (items h n)) + unat (to_virtual (items h n) d) < 2 ^ 64"
        using pre Charge Some by simp
      note ok = charge_ok [OF inv Some this c]
      have "nodes h' = nodes h" using c Some by (auto simp: charge_def Let_def split: if_splits)
      then show ?thesis using Charge c ok(1) it by (auto simp: eevdf_state_def in_tree_def)
    qed
  next
    case YieldCurrent
    have "nodes (yield_current h q) = nodes h" by (simp add: yield_current_def split: option.splits)
    then show ?thesis
      using YieldCurrent yield_current_ok [OF inv] it by (auto simp: eevdf_state_def in_tree_def)
  next
    case (SetWeight n w)
    then show ?thesis using eevdf_state_upd_item [OF st] pre by auto
  next
    case (SetSlice n s)
    then show ?thesis using eevdf_state_upd_item [OF st] pre by auto
  qed
qed

inductive eevdf_reach ::
  "('e entity_scheme, 'z) avl_heap_scheme \<Rightarrow> ('e entity_scheme, 'z) avl_heap_scheme \<times> eevdf_queue \<Rightarrow> bool"
  for h0 where
  reach_start: "\<forall>x. \<not> in_tree h0 x \<Longrightarrow> eevdf_reach h0 (h0, new_queue)"
| reach_step: "eevdf_reach h0 s \<Longrightarrow> eevdf_pre op s \<Longrightarrow> eevdf_exec op s = Some s' \<Longrightarrow> eevdf_reach h0 s'"

lemma eevdf_reach_state: "eevdf_reach h0 s \<Longrightarrow> \<exists>xs. eevdf_state (fst s) (snd s) xs"
proof (induction rule: eevdf_reach.induct)
  case reach_start
  then show ?case
    by (intro exI [of _ "[]"]) (simp add: eevdf_state_def eevdf_inv_def new_queue_def members_def by_deadline_def)
next
  case (reach_step s op s')
  then obtain xs where "eevdf_state (fst s) (snd s) xs" by blast
  from eevdf_step_ok [OF this] reach_step.hyps show ?case by fastforce
qed

subsection \<open>Weights and rates\<close>

text \<open>
  \<open>m_rate\<close> caches the quotient of the nice-0 weight and the entity's weight, in 32.32 fixed point.  Every
  entity starts that way and no operation changes it.
\<close>

definition rated :: "('e entity_scheme) \<Rightarrow> bool" where
  "rated e \<longleftrightarrow> m_weight e \<noteq> 0 \<and> m_rate e = push_bit RATE_SHIFT (ucast NICE_0_WEIGHT) div ucast (m_weight e)"

lemma rated_new: "rated new_entity"
  by (simp add: rated_def new_entity_def NICE_0_WEIGHT_def RATE_SHIFT_def push_bit_eq_mult word_eq_iff_unsigned)

lemma rated_set_weight: "rated (set_weight w e)"
  by (simp add: rated_def set_weight_def Let_def)

lemma rated_core: "entity_core e' = entity_core e \<Longrightarrow> rated e' = rated e"
  using entity_core_eqD [of e' e] by (simp add: rated_def)

lemma rated_touches: "eevdf.touches S h h' \<Longrightarrow> rated (items h' x) = rated (items h x)"
  by (rule rated_core) (simp add: eevdf.touches_def)

lemma rated_upd_item: "(\<And>e. rated e \<Longrightarrow> rated (f e)) \<Longrightarrow> \<forall>x. rated (items h x) \<Longrightarrow> rated (items (upd_item n f h) x)"
  by (simp add: upd_item_def)

lemma rated_step:
  assumes st: "eevdf_state h q xs" and pre: "eevdf_pre op (h, q)" and ex: "eevdf_exec op (h, q) = Some (h', q')"
    and r: "\<forall>x. rated (items h x)"
  shows "rated (items h' x)"
proof -
  have inv: "eevdf_inv h q xs" and it: "\<And>x. in_tree h x \<longleftrightarrow> x \<in> set xs" using st by (auto simp: eevdf_state_def)
  have place: "rated e \<Longrightarrow> rated (place q e)" for e :: "'a entity_scheme" by (simp add: rated_def place_def Let_def)
  show ?thesis
  proof (cases op)
    case (Enqueue n)
    with pre have p: "\<not> in_tree h n" "m_current q \<noteq> Some n" "length xs + 1 < 2 ^ 32" using room_iff [OF inv] by auto
    obtain h2 q2 where e: "enqueue n h q = Some (h2, q2)" "eevdf.touches (insert n (set xs)) (upd_item n (place q) h) h2"
      by (rule enqueue_ok [OF inv p])
    then have "eevdf.touches (insert n (set xs)) (upd_item n (place q) h) h'" using ex Enqueue by simp
    then show ?thesis using rated_touches rated_upd_item [of "place q" h n x, OF place r] by blast
  next
    case (Dequeue n)
    with pre it have "n \<in> set xs" by auto
    from eevdf.erase_holds [OF eevdf_invD(1) [OF inv] this] obtain h1 root1 where
      er: "avl_erase eevdf_update n h (m_tree q) = Some (h1, root1)" "eevdf.touches (set xs) h h1" by blast
    have "\<exists>v. h' = upd_item n (\<lambda>e. e\<lparr>m_vlag := v\<rparr>) h1"
      using ex Dequeue er(1) by (auto simp: dequeue_def account_leave_def Let_def split: if_splits)
    then obtain v where "h' = upd_item n (\<lambda>e. e\<lparr>m_vlag := v\<rparr>) h1" by blast
    moreover have "\<forall>x. rated (items h1 x)" using rated_touches [OF er(2)] r by blast
    ultimately show ?thesis using rated_upd_item [of "\<lambda>e. e\<lparr>m_vlag := v\<rparr>" h1 n x] by (simp add: rated_def)
  next
    case (SetCurrent n)
    with pre it have p: "n \<in> set xs" "m_current q = None" by auto
    obtain h2 q2 where "set_current n h q = Some (h2, q2)" "eevdf.touches (set xs) h h2" by (rule set_current_ok [OF inv p])
    then have "eevdf.touches (set xs) h h'" using ex SetCurrent by simp
    then show ?thesis using rated_touches r by blast
  next
    case RequeueCurrent
    with pre obtain n where p: "m_current q = Some n" "length xs + 1 < 2 ^ 32" using room_iff [OF inv] by auto
    obtain h2 q2 where "requeue_current h q = Some (h2, q2)" "eevdf.touches (insert n (set xs)) h h2" by (rule requeue_current_ok [OF inv p])
    then have "eevdf.touches (insert n (set xs)) h h'" using ex RequeueCurrent by simp
    then show ?thesis using rated_touches r by blast
  next
    case RetireCurrent
    with ex have "\<exists>n v. h' = upd_item n (\<lambda>e. e\<lparr>m_vlag := v\<rparr>) h"
      by (auto simp: retire_current_def account_leave_def Let_def split: bind_splits)
    then obtain n v where "h' = upd_item n (\<lambda>e. e\<lparr>m_vlag := v\<rparr>) h" by blast
    then show ?thesis using rated_upd_item [of "\<lambda>e. e\<lparr>m_vlag := v\<rparr>" h n x] r by (simp add: rated_def)
  next
    case (Charge d)
    then show ?thesis using ex r by (auto simp: charge_def Let_def upd_item_def rated_def split: option.splits if_splits)
  next
    case YieldCurrent
    then show ?thesis using ex r by (auto simp: yield_current_def upd_item_def rated_def split: option.splits if_splits)
  next
    case (SetWeight n w)
    then show ?thesis using ex r rated_set_weight by (auto simp: upd_item_def)
  next
    case (SetSlice n s)
    then show ?thesis using ex r by (auto simp: upd_item_def rated_def set_slice_ns_def split: if_splits)
  qed
qed

lemma rated_reachable: "eevdf_reach h0 s \<Longrightarrow> \<forall>x. rated (items h0 x) \<Longrightarrow> \<forall>x. rated (items (fst s) x)"
proof (induction rule: eevdf_reach.induct)
  case (reach_step s op s')
  obtain xs where "eevdf_state (fst s) (snd s) xs" using eevdf_reach_state [OF reach_step.hyps(1)] by blast
  then show ?case using rated_step [of "fst s" "snd s" xs op "fst s'" "snd s'"] reach_step by auto
qed simp

text \<open>
  \<open>v\<close> is the time \<open>ns\<close> scaled by the nice-0 weight over \<open>w\<close>, rounded down; the rate adds an error of one part in
  \<open>2 ^ 32\<close> of the time.
\<close>

definition scaled_time :: "int \<Rightarrow> int \<Rightarrow> int \<Rightarrow> bool" where
  "scaled_time w ns v \<longleftrightarrow> w * v \<le> 1024 * ns \<and> 1024 * ns < w * (v + 2 + ns div 2 ^ 32)"

lemma scaled_by_rate:
  fixes w ns :: int
  assumes w: "0 < w" and ns: "0 \<le> ns"
  shows "scaled_time w ns (ns * (2 ^ 42 div w) div 2 ^ 32)"
proof -
  define r v m where "r = (2 :: int) ^ 42 div w" and "v = ns * r div 2 ^ 32" and "m = ns div 2 ^ 32"
  have "w * r \<le> 2 ^ 42" "2 ^ 42 < w * r + w"
    using mult_div_mod_eq [of w "2 ^ 42"] pos_mod_sign [OF w, of "2 ^ 42"] pos_mod_bound [OF w, of "2 ^ 42"] unfolding r_def by linarith+
  then have a: "ns * (w * r) \<le> ns * 2 ^ 42" "ns * 2 ^ 42 \<le> ns * (w * r + w)" using ns by (simp_all add: mult_left_mono)
  have v: "2 ^ 32 * v \<le> ns * r" "ns * r < 2 ^ 32 * v + 2 ^ 32" "ns < 2 ^ 32 * m + 2 ^ 32"
    using mult_div_mod_eq [of "2 ^ 32" "ns * r"] mult_div_mod_eq [of "2 ^ 32" ns] pos_mod_sign [of "2 ^ 32" "ns * r"]
      pos_mod_bound [of "2 ^ 32" "ns * r"] pos_mod_bound [of "2 ^ 32" ns] unfolding v_def m_def by simp_all
  have "w * (2 ^ 32 * v) \<le> w * (ns * r)" using v(1) w by (intro mult_left_mono) simp_all
  also have "\<dots> \<le> ns * 2 ^ 42" using a(1) by (simp add: mult.commute mult.left_commute)
  finally have lo: "w * v \<le> 1024 * ns" by (simp add: mult.commute mult.left_commute)
  have "ns * 2 ^ 42 \<le> w * (ns * r + ns)" using a(2) by (simp add: algebra_simps)
  also have "\<dots> < w * ((2 ^ 32 * v + 2 ^ 32) + (2 ^ 32 * m + 2 ^ 32))" using v(2,3) w by (intro mult_strict_left_mono) linarith+
  finally have "2 ^ 32 * (1024 * ns) < 2 ^ 32 * (w * (v + 2 + m))" by (simp add: algebra_simps)
  then have "1024 * ns < w * (v + 2 + m)" by simp
  then show ?thesis using lo unfolding scaled_time_def v_def r_def m_def by blast
qed

lemma to_virtual_scaled:
  assumes "rated e" "1024 * uint ns div uint (m_weight e) < 2 ^ 64"
  shows "scaled_time (uint (m_weight e)) (uint ns) (uint (to_virtual e ns))"
    "uint (to_virtual e ns) \<le> 1024 * uint ns div uint (m_weight e)"
proof -
  let ?w = "uint (m_weight e)"
  have "m_weight e \<noteq> 0" using assms(1) by (simp add: rated_def)
  then have w: "0 < ?w" by (simp add: word_neq_0_conv word_less_def)
  have "?w < 2 ^ 64" using uint_bound(2) [of "m_weight e"] by simp
  then have w64: "uint (ucast (m_weight e) :: u64) = ?w" by (simp add: unsigned_ucast_eq take_bit_int_eq_self)
  have "uint (push_bit RATE_SHIFT (ucast NICE_0_WEIGHT) :: u64) = 2 ^ 42"
    by (simp add: RATE_SHIFT_def NICE_0_WEIGHT_def push_bit_eq_mult)
  then have rate: "uint (m_rate e) = 2 ^ 42 div ?w" using assms(1) by (simp add: rated_def uint_div w64)
  have sc: "scaled_time ?w (uint ns) (uint ns * uint (m_rate e) div 2 ^ 32)" unfolding rate using w by (rule scaled_by_rate) simp
  then have "uint ns * uint (m_rate e) div 2 ^ 32 * ?w \<le> 1024 * uint ns" by (simp add: scaled_time_def mult.commute)
  then have le: "uint ns * uint (m_rate e) div 2 ^ 32 \<le> 1024 * uint ns div ?w" using zdiv_mono1 [OF _ w] w by fastforce
  have up: "uint (ucast x :: u128) = uint x" "uint x < 2 ^ 64" for x :: u64
    using uint_bound(2) [of x] by (simp_all add: unsigned_ucast_eq take_bit_int_eq_self)
  have "uint ns * uint (m_rate e) < 2 ^ 64 * 2 ^ 64" using up(2) [of ns] up(2) [of "m_rate e"] by (intro mult_strict_mono) simp_all
  then have "uint ((ucast ns :: u128) * ucast (m_rate e)) = uint ns * uint (m_rate e)"
    by (simp add: uint_word_ariths up(1))
  then have "uint (drop_bit 32 ((ucast ns :: u128) * ucast (m_rate e))) = uint ns * uint (m_rate e) div 2 ^ 32"
    by (simp add: drop_bit_eq_div uint_div)
  moreover have "uint ns * uint (m_rate e) div 2 ^ 32 < 2 ^ 64" "0 \<le> uint ns * uint (m_rate e) div 2 ^ 32"
    using le assms(2) by (linarith, simp add: pos_imp_zdiv_nonneg_iff)
  ultimately have "uint (to_virtual e ns) = uint ns * uint (m_rate e) div 2 ^ 32"
    by (simp add: to_virtual_def RATE_SHIFT_def unsigned_ucast_eq take_bit_int_eq_self)
  then show "scaled_time ?w (uint ns) (uint (to_virtual e ns))" "uint (to_virtual e ns) \<le> 1024 * uint ns div ?w" using sc le by simp_all
qed

lemma clipped_sum:
  fixes W S k :: int
  assumes "0 < W" "S div W < k div W"
  shows "S < k"
proof (rule ccontr)
  assume "\<not> S < k"
  then have "k div W \<le> S div W" using assms(1) by (intro zdiv_mono1) simp_all
  then show False using assms(2) by simp
qed

lemma div_less_int: "x div d < y" if "0 < d" "x < y * d" for x y d :: int
proof (rule ccontr)
  assume "\<not> x div d < y"
  then have "y * d \<le> x div d * d" using that(1) by (intro mult_right_mono) simp_all
  also have "\<dots> \<le> x" using div_mult_mod_eq [of x d] pos_mod_sign [OF that(1), of x] by linarith
  finally show False using that(2) by simp
qed

end
