(* ===== verification/EevdfProps.thy ===== *)
theory EevdfProps
  imports EevdfSteps
begin

text \<open>The properties of the AVL tree under the EEVDF order and of the EEVDF queue, with concrete instances.\<close>

subsection \<open>A queue with two waiting entities\<close>

definition demo_entity :: "u64 \<Rightarrow> u64 \<Rightarrow> u64 \<Rightarrow> entity" where
  "demo_entity v d m = \<lparr>m_subtree_min_vruntime = m, m_weight = 1024, m_rate = 2 ^ 32,
     m_slice_ns = 2000000, m_vruntime = v, m_vdeadline = d, m_vlag = 0\<rparr>"

definition demo_heap :: "entity avl_heap" where
  "demo_heap = \<lparr>
     nodes = (\<lambda>_. detached)(1 := \<lparr>m_parent = None, m_left = None, m_right = Some 2, m_height = 2\<rparr>,
                             2 := \<lparr>m_parent = Some 1, m_left = None, m_right = None, m_height = 1\<rparr>),
     items = (\<lambda>_. (demo_entity 0 0 0)\<lparr>m_vlag := 40\<rparr>)(1 := demo_entity 900 1000 100, 2 := demo_entity 100 2000 100)\<rparr>"

definition demo_queue :: eevdf_queue where
  "demo_queue = \<lparr>m_tree = Some 1, m_current = None, m_weighted_vruntime = 1024000, m_total_weight = 2048,
     m_queued = 2, m_last_virtual_time = 0\<rparr>"

lemma demo_holds: "avl_holds eevdf_update demo_heap (Some 1) [1, 2]"
  unfolding avl_holds_def
  by (rule exI [of _ "\<langle>Leaf, 1, \<langle>Leaf, 2, Leaf\<rangle>\<rangle>"])
    (simp add: demo_heap_def demo_entity_def node_rec_def eevdf_update_def)

lemma demo_inv: "eevdf_inv demo_heap demo_queue [1, 2]"
  using demo_holds
  by (simp add: eevdf_inv_def demo_queue_def members_def by_deadline_def)
    (simp add: demo_heap_def demo_entity_def)

subsection \<open>Properties\<close>

text \<open>C1: \<^const>\<open>pick\<close> implements Earliest Eligible Virtual Deadline First.  On a queue that is not
  empty it always returns a member of the competition (its assertion never fails), the member is
  eligible, and no eligible member, waiting or running, has an earlier deadline.  If the running
  entity is eligible and has that same deadline, it is the one returned.\<close>

theorem pick_earliest_eligible:
  assumes "eevdf_inv h q xs" "members q xs \<noteq> []"
  shows "\<exists>p. pick h q = Some (Some p) \<and> p \<in> set (members q xs) \<and> is_eligible q (items h p)
     \<and> (\<forall>y\<in>set (members q xs). is_eligible q (items h y) \<longrightarrow> m_vdeadline (items h p) \<le> m_vdeadline (items h y))
     \<and> (\<forall>c. m_current q = Some c \<and> is_eligible q (items h c) \<and>
            m_vdeadline (items h c) = m_vdeadline (items h p) \<longrightarrow> p = c)"
proof -
  obtain p where "pick h q = Some (Some p)" "p \<in> set (members q xs)" "is_eligible q (items h p)"
    "\<forall>y\<in>set (members q xs). is_eligible q (items h y) \<longrightarrow> m_vdeadline (items h p) \<le> m_vdeadline (items h y)"
    "\<forall>c. m_current q = Some c \<and> is_eligible q (items h c) \<and>
       m_vdeadline (items h c) = m_vdeadline (items h p) \<longrightarrow> p = c"
    by (rule pick_ok [OF assms])
  then show ?thesis by blast
qed

theorem pick_earliest_eligible_witness:
  "pick demo_heap demo_queue = Some (Some 2) \<and> \<not> is_eligible demo_queue (items demo_heap 1)"
proof -
  have "members demo_queue [1, 2] = [1, 2]" by (simp add: members_def demo_queue_def)
  moreover have no: "\<not> is_eligible demo_queue (items demo_heap 1)"
    by (simp add: is_eligible_def is_eligible_at_def demo_queue_def demo_heap_def demo_entity_def)
  ultimately show ?thesis using pick_earliest_eligible [OF demo_inv] by auto
qed

text \<open>C2: Whatever sequence of operations a caller performs on an initially empty queue, respecting
  their preconditions, the source's own consistency check (the AVL links, order, balance and
  heights, the subtree minima and the running totals) succeeds in the state that is reached;
  every further operation whose precondition holds succeeds, and \<^const>\<open>pick\<close> does not fail.\<close>

theorem eevdf_reachable_consistent:
  assumes "eevdf_reach h0 (h, q)"
  shows "eevdf_is_consistent h q = Some True \<and> pick h q \<noteq> None
     \<and> (\<forall>op. eevdf_pre op (h, q) \<longrightarrow> eevdf_exec op (h, q) \<noteq> None)"
proof -
  from eevdf_reach_state [OF assms] obtain xs where st: "eevdf_state h q xs" by auto
  then have inv: "eevdf_inv h q xs" by (simp add: eevdf_state_def)
  have "pick h q \<noteq> None"
    using pick_empty [OF inv] pick_ok [OF inv] by (cases "members q xs = []") (auto, metis option.distinct(1))
  moreover have "eevdf_pre op (h, q) \<Longrightarrow> eevdf_exec op (h, q) \<noteq> None" for op
    using eevdf_step_ok [OF st] by fastforce
  ultimately show ?thesis using eevdf_is_consistent_ok [OF inv] by blast
qed

definition idle_heap :: "entity avl_heap" where
  "idle_heap = \<lparr>nodes = (\<lambda>_. detached), items = (\<lambda>_. new_entity)\<rparr>"

theorem eevdf_reachable_consistent_witness:
  "eevdf_is_consistent idle_heap new_queue = Some True \<and> enqueue 7 idle_heap new_queue \<noteq> None"
proof -
  have "eevdf_reach idle_heap (idle_heap, new_queue)"
    by (rule reach_start) (simp add: idle_heap_def in_tree_def)
  moreover have "eevdf_pre (Enqueue 7) (idle_heap, new_queue)"
    by (simp add: idle_heap_def in_tree_def new_queue_def)
  ultimately show ?thesis
    using eevdf_reachable_consistent [of idle_heap idle_heap new_queue] by (metis eevdf_exec.simps(1))
qed

text \<open>C3: Where \<^const>\<open>enqueue\<close> places an entity, by its recorded lag \<open>L\<close>, the weight \<open>W\<close> and the virtual time
  \<open>V\<close> of the queue it joins, and \<open>k\<close>, the lag scaled by the weights.  On a queue with members the newcomer's
  distance to the new virtual time, which it is now part of, is its recorded lag up to one nanosecond, unless
  it would have to be placed before virtual time zero: then it is placed at zero and has less lag than it left
  with.  On an empty queue it is placed at its unscaled lag from the last virtual time and, being alone, it is
  the average: its lag is zero.  The scaled lag, and the virtual runtime of an entity with a debt, are taken to
  fit into 64 bits.\<close>

theorem enqueue_keeps_lag:
  assumes inv: "eevdf_inv h q xs" and en: "enqueue n h q = Some (h', q')"
    and room: "length xs + 1 < 2 ^ 32" and w: "m_weight (items h n) \<noteq> 0"
    and fit: "let L = sint (m_vlag (items h n)); W = uint (m_total_weight q); V = uint (virtual_time q);
                  k = \<bar>L\<bar> * (W + uint (m_weight (items h n))) div W
              in k < 2 ^ 64 \<and> (L < 0 \<longrightarrow> V + k < 2 ^ 64)"
  shows "let L = sint (m_vlag (items h n)); W = uint (m_total_weight q); V = uint (virtual_time q);
             k = \<bar>L\<bar> * (W + uint (m_weight (items h n))) div W;
             lag = uint (virtual_time q') - uint (m_vruntime (items h' n))
         in if W = 0 then lag = 0 \<and> m_vruntime (items h' n) =
              (if L < 0 then virtual_time q - m_vlag (items h n) else virtual_time q - min (virtual_time q) (m_vlag (items h n)))
            else if L < 0 \<or> k \<le> V then \<bar>lag - L\<bar> \<le> 1
            else m_vruntime (items h' n) = 0 \<and> 0 \<le> lag \<and> lag < L"
proof -
  have n: "\<not> in_tree h n" "m_current q \<noteq> Some n" using en by (auto simp: enqueue_def split: if_splits)
  define e where "e = items h n"
  define h1 where "h1 = upd_item n (place q) h"
  obtain h2 q2 where e2: "enqueue n h q = Some (h2, q2)" "eevdf_inv h2 q2 (eevdf.ins h1 n xs)"
    "eevdf.touches (insert n (set xs)) h1 h2" "m_total_weight q2 = m_total_weight q + ucast (m_weight e)"
    "m_current q2 = m_current q"
    unfolding h1_def e_def by (rule enqueue_ok [OF inv n room])
  have [simp]: "h2 = h'" "q2 = q'" using en e2(1) by simp_all
  let ?W = "wsum h (members q xs)" let ?S = "vsum h (members q xs)"
  let ?v = "m_vruntime (place q e)"
  have core: "entity_core (items h' n) = entity_core (items h1 n)"
    using e2(3) by (simp add: eevdf.touches_def)
  have vr: "m_vruntime (items h' n) = ?v" using entity_core_eqD(4) [OF core] by (simp add: h1_def e_def)
  have nm: "n \<notin> set (members q xs)"
    using eevdf_invD(10) [OF inv, of n] n by (auto simp: members_def split: option.splits)
  have s1: "same_on (set (members q xs)) h h1" unfolding h1_def by (rule same_on_upd_item [OF nm])
  have sums: "wsum h' (members q' (eevdf.ins h1 n xs)) = unat (m_weight e) + ?W"
    "vsum h' (members q' (eevdf.ins h1 n xs)) = unat (m_weight e) * unat ?v + ?S"
    using sums_touches [OF e2(3)] sums_same [OF s1] e2(5)
    by (auto simp: members_def sums_ins h1_def e_def split: option.splits)
  have "unat (m_total_weight q') = unat (m_weight e) + ?W" using eevdf_invD(6) [OF e2(2)] sums by simp
  then have W': "unat (m_weight e) + ?W < 2 ^ 64" using unat_bound [of "m_total_weight q'"] by simp
  have tW: "uint (m_total_weight q) = int ?W" using eevdf_invD(6) [OF inv] by (metis uint_nat)
  have wpos: "0 < unat (m_weight e)" using w by (simp add: e_def unat_gt_0)
  then have "m_total_weight q' \<noteq> 0" using \<open>unat (m_total_weight q') = unat (m_weight e) + ?W\<close> by auto
  then have vt': "unat (virtual_time q') = (unat (m_weight e) * unat ?v + ?S) div (unat (m_weight e) + ?W)"
    using virtual_time_eq(1) [of h' q' "eevdf.ins h1 n xs"] e2(2) sums by simp
  define L where "L = sint (m_vlag e)"
  define k where "k = \<bar>L\<bar> * (int ?W + uint (m_weight e)) div int ?W"
  define V where "V = uint (virtual_time q)"
  have neg: "m_vlag e <s 0 \<longleftrightarrow> L < 0" by (simp add: L_def word_sless_alt)
  show ?thesis
  proof (cases "?W = 0")
    case True
    then have "?S = 0" using vsum_bound [of h "members q xs"] by simp
    then have "unat (virtual_time q') = unat ?v" using vt' True wpos by simp
    then have "uint (virtual_time q') = uint ?v" by (metis uint_nat)
    moreover have "m_total_weight q = 0" using tW True by (simp add: word_uint_eq_iff)
    then have "?v = (if L < 0 then virtual_time q - m_vlag e else virtual_time q - min (virtual_time q) (m_vlag e))"
      by (simp add: place_def scaled_lag_def Let_def neg)
    ultimately show ?thesis using True by (simp add: Let_def vr tW flip: e_def L_def)
  next
    case False
    then have Wpos: "0 < ?W" and W0: "m_total_weight q \<noteq> 0" using tW by auto
    have vq: "V = int ?S div int ?W" using virtual_time_eq(1) [OF inv W0] unfolding V_def by (metis uint_nat zdiv_int)
    from arg_cong [OF vt', of int]
    have V': "uint (virtual_time q') = (int ?S + uint (m_weight e) * uint ?v) div (int ?W + uint (m_weight e))"
      by (simp add: zdiv_int add.commute)
    have "int (unat (m_weight e) + ?W) < 2 ^ 64" using W' by (simp only: int_less_pow)
    then have sum64: "uint (m_total_weight q) + uint (m_weight e) < 2 ^ 64" by (simp add: tW add.commute)
    have "0 < uint (m_total_weight q)" using Wpos by (simp add: tW)
    note pv = place_vruntime [of q e, folded L_def, OF this sum64, unfolded tW, OF k_def]
    have k64: "k < 2 ^ 64" "L < 0 \<Longrightarrow> V + k < 2 ^ 64" using fit by (simp_all add: Let_def tW k_def L_def e_def V_def)
    then have pv: "uint ?v = (if L < 0 then V + k else V - min V k)" using pv by (simp add: V_def)
    note lag = lag_kept [OF _ _ vq k_def, of "uint ?v"]
    show ?thesis
    proof (cases "L < 0 \<or> k \<le> V")
      case True
      then have "\<bar>uint (virtual_time q') - uint ?v - L\<bar> \<le> 1"
        using lag Wpos pv unfolding V' by (cases "L < 0") auto
      then show ?thesis using False True by (simp add: Let_def vr tW flip: e_def L_def k_def V_def)
    next
      case clip: False
      then have "uint ?v = 0" using pv by simp
      then have v0: "?v = 0" by (simp add: word_uint_eq_iff)
      have "k = L * (int ?W + uint (m_weight e)) div int ?W" using clip by (simp add: k_def)
      moreover have "V < k" using clip by simp
      ultimately have "int ?S < L * (int ?W + uint (m_weight e))"
        using clipped_sum [of "int ?W" "int ?S" "L * (int ?W + uint (m_weight e))"] Wpos unfolding vq by simp
      then have "uint (virtual_time q') < L" unfolding V' using v0 Wpos by (intro div_less_int) (simp_all add: add_pos_nonneg)
      then show ?thesis
        unfolding Let_def vr tW e_def [symmetric] L_def [symmetric] k_def [symmetric] V_def [symmetric] using False clip v0 by simp
    qed
  qed
qed

theorem enqueue_keeps_lag_witness:
  "\<exists>h' q'. enqueue 3 demo_heap demo_queue = Some (h', q') \<and>
     \<bar>uint (virtual_time q') - uint (m_vruntime (items h' 3)) - 40\<bar> \<le> 1"
proof -
  have n: "\<not> in_tree demo_heap 3" "m_current demo_queue \<noteq> Some 3" "length [1 :: addr, 2] + 1 < 2 ^ 32"
    "m_total_weight demo_queue \<noteq> 0"
    by (simp_all add: demo_heap_def demo_queue_def in_tree_def)
  obtain h' q' where en: "enqueue 3 demo_heap demo_queue = Some (h', q')"
    by (rule enqueue_ok [OF demo_inv n(1-3)])
  have lag: "sint (m_vlag (items demo_heap 3)) = 40"
    by (simp add: demo_heap_def sint_u64)
  have v: "uint (virtual_time demo_queue) = 500" "uint (m_total_weight demo_queue) = 2048" "uint (m_weight (items demo_heap 3)) = 1024"
    by (simp_all add: demo_queue_def demo_heap_def demo_entity_def virtual_time_def)
  have w: "m_weight (items demo_heap 3) \<noteq> 0" by (simp add: demo_heap_def demo_entity_def)
  have "let L = sint (m_vlag (items demo_heap 3)); W = uint (m_total_weight demo_queue);
      V = uint (virtual_time demo_queue); k = \<bar>L\<bar> * (W + uint (m_weight (items demo_heap 3))) div W
    in k < 2 ^ 64 \<and> (L < 0 \<longrightarrow> V + k < 2 ^ 64)"
    unfolding lag v by simp
  from enqueue_keeps_lag [OF demo_inv en n(3) w this] en show ?thesis unfolding lag v by (simp add: Let_def)
qed

text \<open>C7: Charging the running entity keeps every invariant of the queue and moves the virtual runtime by the charged
  time scaled by the nice-0 weight over the entity's weight: rounded down to a nanosecond, and short by at most
  one more nanosecond for every \<open>2 ^ 32\<close> charged.  It reports a used-up slice exactly when the old deadline has
  been reached; then, and only then, the deadline becomes the new virtual runtime plus the slice, scaled the
  same way.  Nobody else is changed.  The weight and the cached rate belong together, as
  \<^const>\<open>set_weight\<close> leaves them and every operation keeps them, and the scaled times fit into 64 bits.\<close>

theorem charge_accounts:
  assumes inv: "eevdf_inv h q xs" and cur: "m_current q = Some n" and rated: "rated (items h n)"
    and fit: "uint (m_vruntime (items h n)) + 1024 * uint delta_ns div uint (m_weight (items h n)) < 2 ^ 64"
    and slice: "1024 * uint (m_slice_ns (items h n)) div uint (m_weight (items h n)) < 2 ^ 64"
    and ch: "charge delta_ns h q = (b, h', q')"
  shows "eevdf_inv h' q' xs
    \<and> uint (m_vruntime (items h' n)) = uint (m_vruntime (items h n)) + uint (to_virtual (items h n) delta_ns)
    \<and> scaled_time (uint (m_weight (items h n))) (uint delta_ns) (uint (to_virtual (items h n) delta_ns))
    \<and> (b \<longleftrightarrow> m_vdeadline (items h n) \<le> m_vruntime (items h' n))
    \<and> m_vdeadline (items h' n) =
        (if b then m_vruntime (items h' n) + to_virtual (items h n) (m_slice_ns (items h n)) else m_vdeadline (items h n))
    \<and> scaled_time (uint (m_weight (items h n))) (uint (m_slice_ns (items h n))) (uint (to_virtual (items h n) (m_slice_ns (items h n))))
    \<and> same_on (- {n}) h h'"
proof -
  let ?v = "m_vruntime (items h n)" and ?d = "to_virtual (items h n) delta_ns"
  have "1024 * uint delta_ns div uint (m_weight (items h n)) < 2 ^ 64" using fit uint_bound(1) [of ?v] by linarith
  note d = to_virtual_scaled [OF rated this]
  have sum: "uint ?v + uint ?d < 2 ^ 64" using fit d(2) by linarith
  then have "int (unat ?v + unat ?d) < 2 ^ 64" by simp
  then have "unat ?v + unat ?d < 2 ^ 64" by (simp only: int_less_pow)
  note c = charge_ok [OF inv cur this ch]
  have "uint (m_vruntime (items h' n)) = uint ?v + uint ?d" unfolding c(3) using sum by (simp add: uint_word_ariths)
  then show ?thesis using c d(1) to_virtual_scaled(1) [OF rated slice] by blast
qed

definition run_queue1 :: eevdf_queue where
  "run_queue1 = \<lparr>m_tree = None, m_current = Some 2, m_weighted_vruntime = 102400, m_total_weight = 1024,
     m_queued = 0, m_last_virtual_time = 0\<rparr>"

definition run_heap1 :: "entity avl_heap" where
  "run_heap1 = \<lparr>nodes = (\<lambda>_. detached), items = (\<lambda>_. demo_entity 100 2000 100)\<rparr>"

lemma run_inv1: "eevdf_inv run_heap1 run_queue1 []"
  by (simp add: eevdf_inv_def run_queue1_def run_heap1_def members_def by_deadline_def demo_entity_def in_tree_def)

theorem charge_accounts_witness:
  "\<exists>h' q'. charge 1900 run_heap1 run_queue1 = (True, h', q') \<and> eevdf_inv h' q' []
     \<and> m_vruntime (items h' 2) = 2000 \<and> m_vdeadline (items h' 2) = 2002000"
proof -
  obtain b h' q' where c: "charge 1900 run_heap1 run_queue1 = (b, h', q')"
    by (cases "charge 1900 run_heap1 run_queue1") auto
  have tv: "to_virtual (demo_entity v d m) ns = ucast (drop_bit 32 ((ucast ns :: u128) * 2 ^ 32))" for v d m ns
    by (simp add: to_virtual_def demo_entity_def RATE_SHIFT_def)
  have e: "items run_heap1 2 = demo_entity 100 2000 100" by (simp add: run_heap1_def)
  have rated: "rated (items run_heap1 2)" unfolding e
    by (simp add: rated_def demo_entity_def RATE_SHIFT_def NICE_0_WEIGHT_def push_bit_eq_mult word_eq_iff_unsigned)
  have fit: "uint (m_vruntime (items run_heap1 2)) + 1024 * uint (1900 :: u64) div uint (m_weight (items run_heap1 2)) < 2 ^ 64"
    "1024 * uint (m_slice_ns (items run_heap1 2)) div uint (m_weight (items run_heap1 2)) < 2 ^ 64"
    unfolding e by (simp_all add: demo_entity_def)
  have t: "to_virtual (items run_heap1 2) 1900 = 1900" "to_virtual (items run_heap1 2) 2000000 = 2000000"
    unfolding e tv by (simp_all add: drop_bit_eq_div word_eq_iff_unsigned)
  have m: "m_vruntime (items run_heap1 2) = 100" "m_vdeadline (items run_heap1 2) = 2000"
    "m_slice_ns (items run_heap1 2) = 2000000" by (simp_all add: e demo_entity_def)
  have "m_current run_queue1 = Some 2" by (simp add: run_queue1_def)
  note r = charge_accounts [OF run_inv1 this rated fit c]
  then have "uint (m_vruntime (items h' 2)) = uint (2000 :: u64)" by (simp add: t m)
  then have v: "m_vruntime (items h' 2) = 2000" by (rule unsigned_word_eqI)
  then have "b" using r by (simp add: m)
  then show ?thesis using r c by (simp add: t m v)
qed

text \<open>C8: Leaving the queue records the lag, clamped to two slices in either direction: provided the
  limit and the virtual times are below half of the 64-bit range, the recorded lag is the exact
  distance to the virtual time when that is within the limit, and the limit with its sign
  otherwise.  The entity is in no tree afterwards and the others keep their invariant.\<close>

theorem dequeue_clamps_lag:
  assumes inv: "eevdf_inv h q xs" and n: "n \<in> set xs"
    and small: "uint (virtual_time q) < 2 ^ 63" "uint (m_vruntime (items h n)) < 2 ^ 63"
    and lim: "limit = to_virtual (items h n) (MAX_LAG_SLICES * m_slice_ns (items h n))" "uint limit < 2 ^ 63"
  shows "\<exists>h' q'. dequeue n h q = Some (h', q') \<and> eevdf_inv h' q' (remove1 n xs) \<and> \<not> in_tree h' n
    \<and> m_last_virtual_time q' = virtual_time q
    \<and> sint (m_vlag (items h' n)) =
        max (- uint limit) (min (uint limit) (uint (virtual_time q) - uint (m_vruntime (items h n))))"
proof -
  obtain h' q' where d: "dequeue n h q = Some (h', q')" "eevdf_inv h' q' (remove1 n xs)" "\<not> in_tree h' n"
    "m_last_virtual_time q' = virtual_time q"
    "m_vlag (items h' n) = sclamp (virtual_time q - m_vruntime (items h n)) (- limit) limit"
    unfolding lim(1) by (rule dequeue_ok [OF inv n])
  have "sint (sclamp (virtual_time q - m_vruntime (items h n)) (- limit) limit) =
     max (- uint limit) (min (uint limit) (uint (virtual_time q) - uint (m_vruntime (items h n))))"
    by (rule sint_sclamp [OF small lim(2)])
  then show ?thesis using d by auto
qed

theorem dequeue_clamps_lag_witness:
  "\<exists>h' q'. dequeue 2 demo_heap demo_queue = Some (h', q') \<and> eevdf_inv h' q' [1] \<and> sint (m_vlag (items h' 2)) = 400"
proof -
  have e: "items demo_heap 2 = demo_entity 100 2000 100" by (simp add: demo_heap_def)
  define limit where "limit = to_virtual (items demo_heap 2) (MAX_LAG_SLICES * m_slice_ns (items demo_heap 2))"
  have limit: "limit = 4000000"
    by (simp add: limit_def to_virtual_def e demo_entity_def RATE_SHIFT_def MAX_LAG_SLICES_def drop_bit_eq_div
        word_eq_iff_unsigned)
  have v: "virtual_time demo_queue = 500" by (simp add: virtual_time_def demo_queue_def word_eq_iff_unsigned)
  have "m_vruntime (items demo_heap 2) = 100" by (simp add: e demo_entity_def)
  then show ?thesis
    using dequeue_clamps_lag [OF demo_inv, of 2 limit] limit limit_def v by auto
qed

text \<open>C4: Insertion into the AVL tree, for the order and the subtree data of the EEVDF queue.  On a
  well-formed tree with the nodes \<open>xs\<close> in deadline order, inserting a node that is not in it
  returns a well-formed tree whose in-order list is \<open>xs\<close> with the node put behind every node due
  no later and before every node due later; the consistency check passes on the result, and
  nothing outside the tree and the node changes.\<close>

theorem avl_insert_behind_equals:
  assumes "avl_holds eevdf_update h root xs" "by_deadline h xs" "n \<notin> set xs"
  shows "\<exists>h' root' ys zs. avl_insert eevdf_less eevdf_update n h root = Some (h', root')
    \<and> xs = ys @ zs \<and> avl_holds eevdf_update h' root' (ys @ n # zs)
    \<and> (\<forall>y\<in>set ys. m_vdeadline (items h y) \<le> m_vdeadline (items h n))
    \<and> (\<forall>z\<in>set zs. m_vdeadline (items h n) < m_vdeadline (items h z))
    \<and> avl_is_consistent eevdf_less h' root' = Some True
    \<and> same_on (- insert n (set xs)) h h'"
proof -
  have ord: "eevdf.in_order h xs" using assms(2) by (simp add: in_order_by_deadline)
  obtain h' root' where r: "avl_insert eevdf_less eevdf_update n h root = Some (h', root')"
    "avl_holds eevdf_update h' root' (eevdf.ins h n xs)" "eevdf.in_order h' (eevdf.ins h n xs)"
    "eevdf.touches (insert n (set xs)) h h'"
    by (rule eevdf.insert_holds [OF assms(1) ord assms(3)])
  let ?P = "\<lambda>y. \<not> eevdf_less (items h n) (items h y)"
  define ys zs where "ys = takeWhile ?P xs" and "zs = dropWhile ?P xs"
  have xs: "xs = ys @ zs" by (simp add: ys_def zs_def)
  have "\<forall>y\<in>set ys. m_vdeadline (items h y) \<le> m_vdeadline (items h n)"
    unfolding ys_def using set_takeWhileD [of _ ?P xs] by (auto simp: eevdf_less_def not_less)
  moreover have "\<forall>z\<in>set zs. m_vdeadline (items h n) < m_vdeadline (items h z)"
  proof (cases zs)
    case (Cons z rest)
    then have z: "m_vdeadline (items h n) < m_vdeadline (items h z)"
      unfolding zs_def by (simp add: dropWhile_eq_Cons_conv eevdf_less_def)
    have "by_deadline h zs" using assms(2) xs by (simp add: by_deadline_def sorted_wrt_append)
    then show ?thesis using Cons z by (auto simp: by_deadline_def intro: less_le_trans)
  qed simp
  moreover have "eevdf.ins h n xs = ys @ n # zs" by (simp add: eevdf.ins_def ys_def zs_def)
  moreover have "avl_is_consistent eevdf_less h' root' = Some True"
    by (rule eevdf.is_consistent_ok [OF r(2,3)])
  moreover have "same_on (- insert n (set xs)) h h'" using r(4) by (simp add: eevdf.touches_def)
  ultimately show ?thesis using r(1,2) xs by metis
qed

theorem avl_insert_behind_equals_witness:
  "\<exists>h' root' ys zs. avl_insert eevdf_less eevdf_update 3 demo_heap (Some 1) = Some (h', root')
     \<and> [1, 2] = ys @ zs \<and> avl_holds eevdf_update h' root' (ys @ 3 # zs)"
proof -
  have "by_deadline demo_heap [1, 2]" using eevdf_invD(2) [OF demo_inv] .
  from avl_insert_behind_equals [OF demo_holds this, of 3] show ?thesis by fastforce
qed

text \<open>C5: Removal from the AVL tree.  Erasing a node of a well-formed tree returns a well-formed
  tree without it and with the others in the same order; the node is in no tree afterwards, and
  the walks from a neighbour step over the place where it was.\<close>

theorem avl_erase_removes:
  assumes "avl_holds eevdf_update h root (ys @ n # zs)"
  shows "\<exists>h' root'. avl_erase eevdf_update n h root = Some (h', root')
    \<and> avl_holds eevdf_update h' root' (ys @ zs) \<and> \<not> in_tree h' n
    \<and> (ys \<noteq> [] \<longrightarrow> avl_next h' (last ys) = Some (if zs = [] then None else Some (hd zs)))
    \<and> (zs \<noteq> [] \<longrightarrow> avl_prev h' (hd zs) = Some (if ys = [] then None else Some (last ys)))
    \<and> same_on (- set (ys @ n # zs)) h h'"
proof -
  have n: "n \<in> set (ys @ n # zs)" by simp
  have "n \<notin> set ys" using avl_holds_distinct [OF assms] by simp
  then have rm: "remove1 n (ys @ n # zs) = ys @ zs" by (simp add: remove1_append)
  obtain h' root' where r: "avl_erase eevdf_update n h root = Some (h', root')"
    "avl_holds eevdf_update h' root' (remove1 n (ys @ n # zs))"
    "eevdf.touches (set (ys @ n # zs)) h h'" "\<not> in_tree h' n"
    by (rule eevdf.erase_holds [OF assms n])
  have "ys \<noteq> [] \<Longrightarrow> avl_next h' (last ys) = Some (if zs = [] then None else Some (hd zs))"
    using r(2) avl_next_ok [of eevdf_update h' root' "butlast ys" "last ys" zs] append_butlast_last_id [of ys]
    unfolding rm by (metis append.assoc append_Cons append_Nil)
  moreover have "zs \<noteq> [] \<Longrightarrow> avl_prev h' (hd zs) = Some (if ys = [] then None else Some (last ys))"
    using r(2) avl_prev_ok [of eevdf_update h' root' ys "hd zs" "tl zs"] unfolding rm by simp
  moreover have "same_on (- set (ys @ n # zs)) h h'" using r(3) by (simp add: eevdf.touches_def)
  ultimately show ?thesis using r(1,2,4) unfolding rm by metis
qed

theorem avl_erase_removes_witness:
  "\<exists>h' root'. avl_erase eevdf_update 1 demo_heap (Some 1) = Some (h', root')
     \<and> avl_holds eevdf_update h' root' [2] \<and> \<not> in_tree h' 1 \<and> avl_prev h' 2 = Some None"
  using avl_erase_removes [of demo_heap "Some 1" "[]" 1 "[2]"] demo_holds by auto

text \<open>Looking for a waiting entity to move elsewhere: among the \<open>budget\<close> waiting entities with the
  latest deadlines, \<^const>\<open>find_latest\<close> returns the one due last for which the predicate holds,
  and null if there is none.\<close>

theorem find_latest_spec:
  assumes "eevdf_inv h q xs"
  shows "find_latest pred budget h q = Some (List.find (\<lambda>x. pred (items h x)) (take (unat budget) (rev xs)))"
  by (rule find_latest_ok [OF assms])

theorem find_latest_spec_witness: "find_latest (\<lambda>e. m_vruntime e = 900) 2 demo_heap demo_queue = Some (Some 1)"
proof -
  have "List.find (\<lambda>x. m_vruntime (items demo_heap x) = 900) (take (unat (2 :: u32)) (rev [1, 2])) = Some 1"
    by (simp add: demo_heap_def demo_entity_def)
  then show ?thesis using find_latest_spec [OF demo_inv, of "\<lambda>e. m_vruntime e = 900" 2] by simp
qed

end
