(* ===== verification/BmiWord.thy ===== *)
theory BmiWord
  imports Prelude
begin

text \<open>
  The lock-free slot allocator of \<^verbatim>\<open>klib/include/bmi_word.hpp\<close>.  The atomic mask is a \<^typ>\<open>u64\<close>
  whose set bits are the free slots, and every atomic access is one transition.  An operation
  that the source performs with one read-modify-write is one function on the mask; the two
  operations that retry a weak compare-exchange are a load followed by attempts, each of which
  either returns or fails and has seen the current mask.  The step relation at the end interleaves the
  operations of any number of threads, spurious failures of the compare-exchange included.
\<close>

subsection \<open>Operations\<close>

type_synonym bmi_word = u64

definition run_mask :: "nat \<Rightarrow> nat \<Rightarrow> u64" where
  "run_mask idx count = push_bit idx (if count \<ge> 64 then NOT 0 else push_bit count 1 - 1)"

definition new_bmi_word :: bmi_word where
  "new_bmi_word = NOT 0"

definition release_bit :: "nat \<Rightarrow> bmi_word \<Rightarrow> bmi_word" where
  "release_bit idx m = m OR push_bit idx 1"

definition release_contiguous :: "nat \<Rightarrow> nat \<Rightarrow> bmi_word \<Rightarrow> bmi_word" where
  "release_contiguous idx count m = m OR run_mask idx count"

definition acquire_specific :: "nat \<Rightarrow> bmi_word \<Rightarrow> bool \<times> bmi_word" where
  "acquire_specific idx m = (let target = push_bit idx 1 in (m AND target \<noteq> 0, m AND NOT target))"

text \<open>
  \<^verbatim>\<open>compare_exchange_weak\<close>: on success the new value is stored; on failure, which may be
  spurious, the caller gets the value that was there.
\<close>

definition compare_exchange_weak :: "bool \<Rightarrow> u64 \<Rightarrow> u64 \<Rightarrow> u64 \<Rightarrow> u64 option \<times> u64" where
  "compare_exchange_weak spurious expected desired m =
     (if m = expected \<and> \<not> spurious then (None, desired) else (Some m, m))"

text \<open>One pass of a retry loop: the index that the operation returns, or the value to retry with.\<close>

datatype attempt = Returns nat | Retries u64

definition first_free_attempt :: "bool \<Rightarrow> u64 \<Rightarrow> bmi_word \<Rightarrow> attempt \<times> bmi_word" where
  "first_free_attempt spurious cur m =
     (if cur \<noteq> 0 then
        (case compare_exchange_weak spurious cur (cur AND (cur - 1)) m of
           (None, m') \<Rightarrow> (Returns (countr_zero cur), m')
         | (Some seen, m') \<Rightarrow> (Retries seen, m'))
      else (Returns 64, m))"

text \<open>
  The doubling loop of \<^verbatim>\<open>acquire_contiguous\<close>.  \<open>covered\<close> starts at one and only grows, so the
  first condition always holds; it makes the recursion well founded.
\<close>

function starts_loop :: "nat \<Rightarrow> nat \<Rightarrow> u64 \<Rightarrow> u64" where
  "starts_loop covered count starts =
     (if 0 < covered \<and> covered < count \<and> starts \<noteq> 0
      then let step = min covered (count - covered)
           in starts_loop (covered + step) count (starts AND drop_bit step starts)
      else starts)"
  by pat_completeness auto
termination by (relation "measure (\<lambda>(covered, count, _). count - covered)") auto

declare starts_loop.simps [simp del]

definition contiguous_attempt :: "nat \<Rightarrow> bool \<Rightarrow> u64 \<Rightarrow> bmi_word \<Rightarrow> attempt \<times> bmi_word" where
  "contiguous_attempt count spurious cur m = (let starts = starts_loop 1 count cur in
     if starts = 0 then (Returns 64, m)
     else let idx = countr_zero starts in
       case compare_exchange_weak spurious cur (cur AND NOT (run_mask idx count)) m of
         (None, m') \<Rightarrow> (Returns idx, m')
       | (Some seen, m') \<Rightarrow> (Retries seen, m'))"

text \<open>
  The two operations when no other thread touches the word and the compare-exchange does not
  fail: the loaded value is still there, and the first attempt returns.
\<close>

definition acquire_first_free :: "bmi_word \<Rightarrow> nat \<times> bmi_word" where
  "acquire_first_free m = (case first_free_attempt False m m of
     (Returns idx, m') \<Rightarrow> (idx, m') | (Retries _, m') \<Rightarrow> (64, m'))"

definition acquire_contiguous :: "nat \<Rightarrow> bmi_word \<Rightarrow> nat \<times> bmi_word" where
  "acquire_contiguous count m = (case contiguous_attempt count False m m of
     (Returns idx, m') \<Rightarrow> (idx, m') | (Retries _, m') \<Rightarrow> (64, m'))"

definition popcount :: "'a::len word \<Rightarrow> nat" where
  "popcount w = length (filter (bit w) [0..<LENGTH('a)])"

definition free_count :: "bmi_word \<Rightarrow> nat" where
  "free_count m = popcount m"

definition is_full :: "bmi_word \<Rightarrow> bool" where
  "is_full m \<longleftrightarrow> m = 0"

definition is_empty :: "bmi_word \<Rightarrow> bool" where
  "is_empty m \<longleftrightarrow> m = NOT 0"

definition bmi_reset :: "u64 \<Rightarrow> bmi_word \<Rightarrow> u64 \<times> bmi_word" where
  "bmi_reset new_mask m = (m, new_mask)"

subsection \<open>What the operations do to the slots\<close>

lemma bit_run_mask [bit_facts]:
  "bit (run_mask idx count) i \<longleftrightarrow> idx \<le> i \<and> i < idx + count \<and> i < 64"
proof (cases "count \<ge> 64")
  case False
  then have "push_bit count 1 - 1 = (mask count :: u64)"
    by (simp add: mask_eq_exp_minus_1 push_bit_eq_mult)
  with False show ?thesis
    by (auto simp: run_mask_def bit_push_bit_iff bit_mask_iff)
next
  case True
  then have "run_mask idx count = NOT (mask idx)"
    by (simp add: run_mask_def)
  with True show ?thesis
    by (auto simp: bit_not_iff bit_mask_iff)
qed

lemma bit_single [bit_facts]: "bit (2 ^ idx :: 'a::len word) i \<longleftrightarrow> i = idx \<and> i < LENGTH('a)"
  by (auto simp: bit_exp_iff)

lemma bit_release_bit: "bit (release_bit idx m) i \<longleftrightarrow> bit m i \<or> (i = idx \<and> i < 64)"
  by (simp add: release_bit_def bit_or_iff bit_facts)

lemma bit_release_contiguous:
  "bit (release_contiguous idx count m) i \<longleftrightarrow> bit m i \<or> (idx \<le> i \<and> i < idx + count \<and> i < 64)"
  by (simp add: release_contiguous_def bit_or_iff bit_facts)

lemma and_single_eq_0: "(m :: u64) AND 2 ^ idx = 0 \<longleftrightarrow> \<not> bit m idx"
proof
  assume "m AND 2 ^ idx = 0"
  then have "\<not> bit (m AND 2 ^ idx) idx" by simp
  then show "\<not> bit m idx"
    by (auto simp: bit_and_iff bit_single dest: bit_imp_le_length)
next
  assume "\<not> bit m idx"
  then show "m AND 2 ^ idx = 0"
    by (intro bit_word_eqI) (auto simp: bit_and_iff bit_single)
qed

lemma acquire_specific_ok:
  "fst (acquire_specific idx m) \<longleftrightarrow> bit m idx"
  "bit (snd (acquire_specific idx m)) i \<longleftrightarrow> bit m i \<and> i \<noteq> idx"
  by (auto simp: acquire_specific_def Let_def and_single_eq_0 bit_and_iff bit_not_iff bit_single
      dest: bit_imp_le_length)

lemma starts_loop_bit:
  assumes "0 < covered" "covered \<le> count"
    "\<And>i. bit starts i \<longleftrightarrow> (\<forall>j < covered. bit cur (i + j))"
  shows "bit (starts_loop covered count starts) i \<longleftrightarrow> (\<forall>j < count. bit (cur :: u64) (i + j))"
  using assms
proof (induction covered count starts arbitrary: i rule: starts_loop.induct)
  case (1 covered count starts)
  show ?case
  proof (cases "covered < count \<and> starts \<noteq> 0")
    case True
    define step where "step = min covered (count - covered)"
    have "bit (starts AND drop_bit step starts) i \<longleftrightarrow> (\<forall>j < covered + step. bit cur (i + j))" for i
    proof -
      have "(\<forall>j < covered. bit cur (i + j)) \<and> (\<forall>j < covered. bit cur (i + step + j))
        \<longleftrightarrow> (\<forall>j < covered + step. bit cur (i + j))" (is "?A \<and> ?B \<longleftrightarrow> ?C")
      proof
        assume AB: "?A \<and> ?B"
        show ?C
        proof (intro allI impI)
          fix j assume j: "j < covered + step"
          show "bit cur (i + j)"
          proof (cases "j < covered")
            case False
            then have "step \<le> j" "j - step < covered" using j by (auto simp: step_def)
            then show ?thesis using conjunct2 [OF AB] by (metis add.assoc le_add_diff_inverse)
          qed (use AB in blast)
        qed
      next
        assume C: ?C
        then show "?A \<and> ?B" by (auto simp: add.assoc)
      qed
      then show ?thesis
        by (simp add: bit_and_iff bit_drop_bit_eq "1.prems"(3) add.commute add.left_commute)
    qed
    then have "bit (starts_loop (covered + step) count (starts AND drop_bit step starts)) i
      \<longleftrightarrow> (\<forall>j < count. bit cur (i + j))"
      using True "1.prems"(1) by (intro "1.IH" [OF _ step_def]) (auto simp: step_def)
    then show ?thesis
      using True "1.prems"(1) by (subst starts_loop.simps) (simp add: step_def Let_def)
  next
    case False
    then have eq: "starts_loop covered count starts = starts"
      by (subst starts_loop.simps) auto
    show ?thesis
    proof (cases "covered = count")
      case True then show ?thesis using eq "1.prems"(3) by simp
    next
      case neq: False
      then have "starts = 0" using False "1.prems"(2) by auto
      moreover have "\<not> (\<forall>j < covered. bit cur (i + j))"
        using "1.prems"(3) [of i] \<open>starts = 0\<close> by simp
      then have "\<not> (\<forall>j < count. bit cur (i + j))"
        using "1.prems"(2) by (meson less_le_trans)
      ultimately show ?thesis using eq by simp
    qed
  qed
qed

lemma starts_bit:
  "0 < count \<Longrightarrow> bit (starts_loop 1 count cur) i \<longleftrightarrow> (\<forall>j < count. bit cur (i + j))"
  by (rule starts_loop_bit) auto


lemma compare_exchange_weak_None:
  "compare_exchange_weak sp e d m = (None, m') \<longleftrightarrow> m = e \<and> \<not> sp \<and> m' = d"
  by (auto simp: compare_exchange_weak_def)

lemma compare_exchange_weak_Some:
  "compare_exchange_weak sp e d m = (Some v, m') \<longleftrightarrow> (m \<noteq> e \<or> sp) \<and> v = m \<and> m' = m"
  by (auto simp: compare_exchange_weak_def)

lemmas cas_simps = compare_exchange_weak_None compare_exchange_weak_Some

lemma first_free_returns:
  assumes "first_free_attempt sp cur m = (Returns idx, m')"
  shows "idx = 64 \<and> m' = m \<or>
    idx < 64 \<and> bit m idx \<and> (\<forall>i < idx. \<not> bit m i) \<and> (\<forall>i. bit m' i \<longleftrightarrow> bit m i \<and> i \<noteq> idx)"
proof (cases "cur = 0")
  case False
  with assms have "m = cur" "m' = cur AND (cur - 1)" "idx = countr_zero cur"
    by (auto simp: first_free_attempt_def cas_simps split: prod.splits option.splits)
  then show ?thesis
    using countr_zero_char [OF False] by (simp add: clear_lowest [OF False])
qed (use assms in \<open>simp add: first_free_attempt_def\<close>)

lemma first_free_retries:
  assumes "first_free_attempt sp cur m = (Retries c, m')"
  shows "m' = m \<and> c = m \<and> (m \<noteq> cur \<or> sp)"
  using assms
  by (auto simp: first_free_attempt_def cas_simps split: if_splits prod.splits option.splits)

lemma contiguous_returns:
  assumes "contiguous_attempt count sp cur m = (Returns idx, m')" "0 < count"
  shows "idx = 64 \<and> m' = m \<or>
    idx < 64 \<and> idx + count \<le> 64 \<and> (\<forall>j < count. bit m (idx + j)) \<and>
    (\<forall>i < idx. \<exists>j < count. \<not> bit m (i + j)) \<and>
    (\<forall>i. bit m' i \<longleftrightarrow> bit m i \<and> \<not> (idx \<le> i \<and> i < idx + count))"
proof (cases "starts_loop 1 count cur = 0")
  case False
  with assms have m: "m = cur" "m' = cur AND NOT (run_mask idx count)"
    and idx: "idx = countr_zero (starts_loop 1 count cur)"
    by (auto simp: contiguous_attempt_def cas_simps Let_def split: prod.splits option.splits)
  have run: "\<forall>j < count. bit m (idx + j)"
    using countr_zero_char(2) [OF False] unfolding starts_bit [OF assms(2)] idx m .
  moreover have "\<forall>i < idx. \<exists>j < count. \<not> bit m (i + j)"
    using countr_zero_char(3) [OF False] unfolding starts_bit [OF assms(2)] idx m by blast
  moreover have "idx + (count - 1) < 64"
    using run assms(2) by (auto dest!: spec [of _ "count - 1"] bit_imp_le_length)
  moreover have "bit m' i \<longleftrightarrow> bit m i \<and> \<not> (idx \<le> i \<and> i < idx + count)" for i
    by (auto simp: m bit_and_iff bit_not_iff bit_run_mask dest: bit_imp_le_length)
  ultimately show ?thesis by auto
qed (use assms in \<open>simp add: contiguous_attempt_def\<close>)

lemma contiguous_retries:
  assumes "contiguous_attempt count sp cur m = (Retries c, m')"
  shows "m' = m \<and> c = m \<and> (m \<noteq> cur \<or> sp)"
  using assms
  by (auto simp: contiguous_attempt_def cas_simps Let_def split: if_splits prod.splits option.splits)

lemma acquire_first_free_ok:
  "m = 0 \<Longrightarrow> acquire_first_free m = (64, m)"
  "m \<noteq> 0 \<Longrightarrow> acquire_first_free m = (countr_zero m, m AND (m - 1))"
  by (simp_all add: acquire_first_free_def first_free_attempt_def compare_exchange_weak_def)

lemma popcount_card: "popcount (w :: 'a::len word) = card {i. bit w i}"
proof -
  have "set (filter (bit w) [0..<LENGTH('a)]) = {i. bit w i}"
    by (auto dest: bit_imp_le_length)
  then show ?thesis
    by (metis popcount_def distinct_card distinct_filter distinct_upt)
qed

subsection \<open>Threads that share a word\<close>

text \<open>
  Each thread is outside the operations or in the retry loop of one, with the value it last
  saw.  \<open>bmi_held\<close> records which slots it has been given and has not yet released; the source
  leaves that to the caller.  A release is made by the thread that holds the slots.
\<close>

datatype bmi_pc = Outside | InFirstFree u64 | InContiguous nat u64

record bmi_system =
  bmi_mask :: bmi_word
  bmi_pc :: "nat \<Rightarrow> bmi_pc"
  bmi_held :: "nat \<Rightarrow> nat set"

definition bmi_start :: bmi_system where
  "bmi_start = \<lparr>bmi_mask = new_bmi_word, bmi_pc = \<lambda>_. Outside, bmi_held = \<lambda>_. {}\<rparr>"

definition bmi_update :: "bmi_word \<Rightarrow> nat \<Rightarrow> bmi_pc \<Rightarrow> nat set \<Rightarrow> bmi_system \<Rightarrow> bmi_system" where
  "bmi_update m t p h s = \<lparr>bmi_mask = m, bmi_pc = (bmi_pc s)(t := p), bmi_held = (bmi_held s)(t := h)\<rparr>"

definition slot_run :: "nat \<Rightarrow> nat \<Rightarrow> nat set" where
  "slot_run idx count = (if idx = 64 then {} else {idx..<idx + count})"

inductive bmi_step :: "bmi_system \<Rightarrow> bmi_system \<Rightarrow> bool" where
  load_first: "bmi_pc s t = Outside \<Longrightarrow>
    bmi_step s (bmi_update (bmi_mask s) t (InFirstFree (bmi_mask s)) (bmi_held s t) s)"
| load_run: "bmi_pc s t = Outside \<Longrightarrow> 0 < count \<Longrightarrow> count \<le> 64 \<Longrightarrow>
    bmi_step s (bmi_update (bmi_mask s) t (InContiguous count (bmi_mask s)) (bmi_held s t) s)"
| retry_first: "bmi_pc s t = InFirstFree cur \<Longrightarrow>
    first_free_attempt sp cur (bmi_mask s) = (Retries seen, m) \<Longrightarrow>
    bmi_step s (bmi_update m t (InFirstFree seen) (bmi_held s t) s)"
| return_first: "bmi_pc s t = InFirstFree cur \<Longrightarrow>
    first_free_attempt sp cur (bmi_mask s) = (Returns idx, m) \<Longrightarrow>
    bmi_step s (bmi_update m t Outside (bmi_held s t \<union> slot_run idx 1) s)"
| retry_run: "bmi_pc s t = InContiguous count cur \<Longrightarrow>
    contiguous_attempt count sp cur (bmi_mask s) = (Retries seen, m) \<Longrightarrow>
    bmi_step s (bmi_update m t (InContiguous count seen) (bmi_held s t) s)"
| return_run: "bmi_pc s t = InContiguous count cur \<Longrightarrow>
    contiguous_attempt count sp cur (bmi_mask s) = (Returns idx, m) \<Longrightarrow>
    bmi_step s (bmi_update m t Outside (bmi_held s t \<union> slot_run idx count) s)"
| specific: "bmi_pc s t = Outside \<Longrightarrow> idx < 64 \<Longrightarrow> acquire_specific idx (bmi_mask s) = (got, m) \<Longrightarrow>
    bmi_step s (bmi_update m t Outside (bmi_held s t \<union> (if got then {idx} else {})) s)"
| free_one: "bmi_pc s t = Outside \<Longrightarrow> idx \<in> bmi_held s t \<Longrightarrow>
    bmi_step s (bmi_update (release_bit idx (bmi_mask s)) t Outside (bmi_held s t - {idx}) s)"
| free_run: "bmi_pc s t = Outside \<Longrightarrow> idx + count \<le> 64 \<Longrightarrow> {idx..<idx + count} \<subseteq> bmi_held s t \<Longrightarrow>
    bmi_step s (bmi_update (release_contiguous idx count (bmi_mask s)) t Outside
      (bmi_held s t - {idx..<idx + count}) s)"

text \<open>A slot is free exactly when no thread holds it, no two threads hold the same one, and a
  retry loop only ever looks for runs of at least one slot.\<close>

definition bmi_inv :: "bmi_system \<Rightarrow> bool" where
  "bmi_inv s \<longleftrightarrow>
     (\<forall>i. bit (bmi_mask s) i \<longleftrightarrow> i < 64 \<and> (\<forall>t. i \<notin> bmi_held s t)) \<and>
     (\<forall>t. bmi_held s t \<subseteq> {..<64}) \<and>
     (\<forall>t u. t \<noteq> u \<longrightarrow> bmi_held s t \<inter> bmi_held s u = {}) \<and>
     (\<forall>t count cur. bmi_pc s t = InContiguous count cur \<longrightarrow> 0 < count)"

lemma bmi_inv_count: "bmi_inv s \<Longrightarrow> bmi_pc s t = InContiguous count cur \<Longrightarrow> 0 < count"
  unfolding bmi_inv_def by blast

lemma bmi_inv_take:
  assumes "bmi_inv s" "\<And>i. i \<in> A \<Longrightarrow> bit (bmi_mask s) i"
    "\<And>i. bit m i \<longleftrightarrow> bit (bmi_mask s) i \<and> i \<notin> A" "\<And>count cur. p = InContiguous count cur \<Longrightarrow> 0 < count"
  shows "bmi_inv (bmi_update m t p (bmi_held s t \<union> A) s)"
proof -
  have A: "i \<in> A \<Longrightarrow> i < 64 \<and> i \<notin> bmi_held s u" for i u
    using assms(1,2) unfolding bmi_inv_def by blast
  have free: "bit m i \<longleftrightarrow> i < 64 \<and> (\<forall>t. i \<notin> bmi_held s t) \<and> i \<notin> A" for i
    using assms(1,3) unfolding bmi_inv_def by blast
  have apart: "u \<noteq> v \<Longrightarrow> bmi_held s u \<inter> bmi_held s v = {}" for u v
    using assms(1) unfolding bmi_inv_def by blast
  have "u \<noteq> v \<Longrightarrow> ((bmi_held s)(t := bmi_held s t \<union> A)) u \<inter> ((bmi_held s)(t := bmi_held s t \<union> A)) v = {}" for u v
    using apart [of u v] A by auto
  moreover have "((bmi_held s)(t := bmi_held s t \<union> A)) u \<subseteq> {..<64}" for u
    using A assms(1) unfolding bmi_inv_def by auto
  moreover have "bit m i \<longleftrightarrow> i < 64 \<and> (\<forall>u. i \<notin> ((bmi_held s)(t := bmi_held s t \<union> A)) u)" for i
    unfolding free by auto
  ultimately show ?thesis
    using assms(4) bmi_inv_count [OF assms(1)] unfolding bmi_inv_def bmi_update_def
    by (auto split: if_splits)
qed

lemma bmi_inv_give:
  assumes "bmi_inv s" "A \<subseteq> bmi_held s t" "\<And>i. bit m i \<longleftrightarrow> bit (bmi_mask s) i \<or> i \<in> A"
  shows "bmi_inv (bmi_update m t Outside (bmi_held s t - A) s)"
  using assms unfolding bmi_inv_def bmi_update_def by auto blast+

lemma bmi_inv_stay:
  assumes "bmi_inv s" "\<And>count cur. p = InContiguous count cur \<Longrightarrow> 0 < count"
  shows "bmi_inv (bmi_update (bmi_mask s) t p (bmi_held s t) s)"
  using bmi_inv_take [of s "{}" "bmi_mask s" p t] assms by simp

lemma bmi_inv_step: "bmi_step s s' \<Longrightarrow> bmi_inv s \<Longrightarrow> bmi_inv s'"
proof (induction rule: bmi_step.induct)
  case (retry_first s t cur sp seen m)
  then show ?case using first_free_retries bmi_inv_stay by fastforce
next
  case (retry_run s t count cur sp seen m)
  then have "m = bmi_mask s" "0 < count"
    using contiguous_retries bmi_inv_count by blast+
  then show ?case using retry_run.prems by (auto intro: bmi_inv_stay)
next
  case (return_first s t cur sp idx m)
  show ?case
    by (rule bmi_inv_take [OF return_first.prems])
      (use first_free_returns [OF return_first(2)] in \<open>auto simp: slot_run_def\<close>)
next
  case (return_run s t count cur sp idx m)
  then have "0 < count" by (blast intro: bmi_inv_count)
  note r = contiguous_returns [OF return_run(2) this]
  show ?case
  proof (rule bmi_inv_take [OF return_run.prems])
    fix i assume i: "i \<in> slot_run idx count"
    then have "idx \<noteq> 64" "idx \<le> i" "i - idx < count" by (auto simp: slot_run_def split: if_splits)
    with r have "bit (bmi_mask s) (idx + (i - idx))" by blast
    with \<open>idx \<le> i\<close> show "bit (bmi_mask s) i" by simp
  next
    fix i show "bit m i = (bit (bmi_mask s) i \<and> i \<notin> slot_run idx count)"
      using r by (auto simp: slot_run_def)
  qed simp
next
  case (specific s t idx got m)
  show ?case
    by (rule bmi_inv_take [OF specific.prems])
      (use acquire_specific_ok [of idx "bmi_mask s"] specific(3) in \<open>auto split: if_splits\<close>)
next
  case (free_one s t idx)
  then have "idx < 64" by (auto simp: bmi_inv_def)
  then show ?case
    using free_one by (intro bmi_inv_give) (auto simp: bit_release_bit)
next
  case (free_run s t idx count)
  then show ?case
    by (intro bmi_inv_give) (auto simp: bit_release_contiguous)
qed (auto intro: bmi_inv_stay)

lemma bmi_inv_start: "bmi_inv bmi_start"
  by (simp add: bmi_inv_def bmi_start_def new_bmi_word_def bit_not_iff)

lemma bmi_inv_reachable: "bmi_step\<^sup>*\<^sup>* s s' \<Longrightarrow> bmi_inv s \<Longrightarrow> bmi_inv s'"
  by (induction rule: rtranclp_induct) (auto intro: bmi_inv_step)


subsection \<open>Properties\<close>

text \<open>C10: Whatever the threads that share a word do, in any interleaving and with any spurious
  failure of the compare-exchange, no slot is ever held by two threads, and a slot is free
  exactly when no thread holds it, so that none is lost either.\<close>

theorem bmi_slots_exclusive:
  assumes "bmi_step\<^sup>*\<^sup>* bmi_start s"
  shows "(\<forall>t u. t \<noteq> u \<longrightarrow> bmi_held s t \<inter> bmi_held s u = {}) \<and>
    (\<forall>i < 64. bit (bmi_mask s) i \<longleftrightarrow> (\<forall>t. i \<notin> bmi_held s t)) \<and>
    (\<forall>t. bmi_held s t \<subseteq> {..<64})"
  using bmi_inv_reachable [OF assms bmi_inv_start] by (simp add: bmi_inv_def)

lemma bmi_two_steps:
  "bmi_step\<^sup>*\<^sup>* bmi_start (bmi_update (new_bmi_word AND NOT 8) 1 Outside {3}
     (bmi_update new_bmi_word 0 (InFirstFree new_bmi_word) {} bmi_start))"
proof -
  let ?s = "bmi_update new_bmi_word 0 (InFirstFree new_bmi_word) {} bmi_start"
  have "bmi_step bmi_start ?s"
    using load_first [of bmi_start 0] by (simp add: bmi_start_def)
  moreover have "bmi_step ?s (bmi_update (new_bmi_word AND NOT 8) 1 Outside {3} ?s)"
    using specific [of ?s 1 3 True "new_bmi_word AND NOT 8"]
    by (simp add: bmi_update_def bmi_start_def acquire_specific_def new_bmi_word_def)
  ultimately show ?thesis by (meson converse_rtranclp_into_rtranclp rtranclp.rtrancl_refl)
qed

theorem bmi_slots_exclusive_witness:
  "\<exists>s. bmi_step\<^sup>*\<^sup>* bmi_start s \<and> bmi_held s 1 = {3} \<and> \<not> bit (bmi_mask s) 3 \<and>
     bmi_held s 0 \<inter> bmi_held s 1 = {}"
proof (intro exI conjI)
  let ?s = "bmi_update (new_bmi_word AND NOT 8) 1 Outside {3}
     (bmi_update new_bmi_word 0 (InFirstFree new_bmi_word) {} bmi_start)"
  show r: "bmi_step\<^sup>*\<^sup>* bmi_start ?s" by (rule bmi_two_steps)
  show held: "bmi_held ?s 1 = {3}" by (simp add: bmi_update_def)
  note ex = bmi_slots_exclusive [OF r]
  show "\<not> bit (bmi_mask ?s) 3"
    using conjunct1 [OF conjunct2 [OF ex], rule_format, of 3] held by auto
  show "bmi_held ?s 0 \<inter> bmi_held ?s 1 = {}"
    by (rule conjunct1 [OF ex, rule_format]) simp
qed

text \<open>C11: \<^verbatim>\<open>acquire_contiguous\<close> returns the lowest start of a run of free slots of the
  requested length and takes exactly that run; when there is no such run it returns 64 and
  takes nothing.  The doubling loop therefore computes what a scan over all starts would.\<close>

theorem acquire_contiguous_lowest:
  assumes "0 < count" "count \<le> 64"
  shows "case acquire_contiguous count m of (idx, m') \<Rightarrow>
    (case find (\<lambda>i. \<forall>j < count. bit m (i + j)) [0..<64] of
       None \<Rightarrow> idx = 64 \<and> m' = m
     | Some i \<Rightarrow> idx = i \<and> i + count \<le> 64 \<and>
         (\<forall>k. bit m' k \<longleftrightarrow> bit m k \<and> \<not> (i \<le> k \<and> k < i + count)))"
proof -
  obtain idx m' where a: "acquire_contiguous count m = (idx, m')" by fastforce
  then have r: "contiguous_attempt count False m m = (Returns idx, m')"
    using contiguous_retries [of count False m m]
    by (auto simp: acquire_contiguous_def split: prod.splits attempt.splits)
  show ?thesis
  proof (cases "idx = 64")
    case True
    have s0: "starts_loop 1 count m = 0"
    proof (rule ccontr)
      assume nz: "starts_loop 1 count m \<noteq> 0"
      with r have "idx = countr_zero (starts_loop 1 count m)"
        by (auto simp: contiguous_attempt_def Let_def cas_simps split: prod.splits option.splits)
      then show False using countr_zero_char(1) [OF nz] True by simp
    qed
    then have "\<not> (\<forall>j < count. bit m (i + j))" for i
      using starts_bit [OF assms(1), of m i] by simp
    then have "find (\<lambda>i. \<forall>j < count. bit m (i + j)) [0..<64] = None"
      by (simp add: find_None_iff)
    then show ?thesis using a True r s0 by (simp add: contiguous_attempt_def)
  next
    case False
    with contiguous_returns [OF r assms(1)] have c: "idx < 64" "idx + count \<le> 64"
      "\<forall>j < count. bit m (idx + j)" "\<forall>i < idx. \<exists>j < count. \<not> bit m (i + j)"
      "\<forall>i. bit m' i \<longleftrightarrow> bit m i \<and> \<not> (idx \<le> i \<and> i < idx + count)" by blast+
    then have "find (\<lambda>i. \<forall>j < count. bit m (i + j)) [0..<64] = Some idx"
      unfolding find_Some_iff by (intro exI [of _ idx]) auto
    then show ?thesis using a c by simp
  qed
qed

theorem acquire_contiguous_lowest_witness:
  "acquire_contiguous 3 0x1DB = (6, 0x1B) \<and> (0 :: nat) < 3 \<and> (3 :: nat) \<le> 64 \<and>
   (case acquire_contiguous 3 0x1DB of (idx, m') \<Rightarrow>
    (case find (\<lambda>i. \<forall>j < 3. bit (0x1DB :: u64) (i + j)) [0..<64] of
       None \<Rightarrow> idx = 64 \<and> m' = 0x1DB
     | Some i \<Rightarrow> idx = i \<and> i + 3 \<le> 64 \<and>
         (\<forall>k. bit m' k \<longleftrightarrow> bit (0x1DB :: u64) k \<and> \<not> (i \<le> k \<and> k < i + 3))))"
proof (intro conjI)
  show "acquire_contiguous 3 0x1DB = (6, 0x1B)" by code_simp
qed (rule acquire_contiguous_lowest | simp)+

end
