(* ===== verification/Errors.thy ===== *)
theory Errors
  imports Prelude
begin

text \<open>
  The error codes of \<^verbatim>\<open>kernel/include/core/errors.hpp\<close>.  A function of the kernel that returns
  \<^verbatim>\<open>std::expected<T, Error>\<close> returns \<open>error + 't\<close> in the models, \<^const>\<open>Inl\<close> for the error.
\<close>

datatype error =
    Success | HardwareError
  | NotImplemented | InvalidState | InvalidFlags | InvalidArgument | Timeout | NotFound
  | OutOfMemory | OutOfBounds | InvalidAlignment | AlreadyMapped | NotMapped | StackOverflow
  | PageFault | MemoryProtectionFault
  | CasFailed | DeadlockDetected | WouldBlock
  | SecurityViolation | AccessDenied | IBTViolation | PrivilegeEscalationDetected
  | InstructionBoundaryMismatch | TargetTooSmallForTrampoline | ZydisRelocationFailed
  | ZydisConversionFailed | InvalidOpcode | TrampolineAllocationFailed | SiteOutOfTextBounds
  | ZydisDecodeFailed | ZydisEncodeFailed | UnexpectedSiteMnemonic
  | UnmappedGSI | ControllerLimitReached | OverrideLimitReached

fun error_code :: "error \<Rightarrow> u32" where
  "error_code Success = 0x0"
| "error_code HardwareError = 0x1"
| "error_code NotImplemented = 0x1001"
| "error_code InvalidState = 0x1002"
| "error_code InvalidFlags = 0x1003"
| "error_code InvalidArgument = 0x1004"
| "error_code Timeout = 0x1005"
| "error_code NotFound = 0x1006"
| "error_code OutOfMemory = 0x2001"
| "error_code OutOfBounds = 0x2002"
| "error_code InvalidAlignment = 0x2003"
| "error_code AlreadyMapped = 0x2004"
| "error_code NotMapped = 0x2005"
| "error_code StackOverflow = 0x2006"
| "error_code PageFault = 0x2007"
| "error_code MemoryProtectionFault = 0x2008"
| "error_code CasFailed = 0x3001"
| "error_code DeadlockDetected = 0x3002"
| "error_code WouldBlock = 0x3003"
| "error_code SecurityViolation = 0x4001"
| "error_code AccessDenied = 0x4002"
| "error_code IBTViolation = 0x4003"
| "error_code PrivilegeEscalationDetected = 0x4004"
| "error_code InstructionBoundaryMismatch = 0x5001"
| "error_code TargetTooSmallForTrampoline = 0x5002"
| "error_code ZydisRelocationFailed = 0x5003"
| "error_code ZydisConversionFailed = 0x5004"
| "error_code InvalidOpcode = 0x5005"
| "error_code TrampolineAllocationFailed = 0x5006"
| "error_code SiteOutOfTextBounds = 0x5007"
| "error_code ZydisDecodeFailed = 0x5008"
| "error_code ZydisEncodeFailed = 0x5009"
| "error_code UnexpectedSiteMnemonic = 0x500A"
| "error_code UnmappedGSI = 0x6001"
| "error_code ControllerLimitReached = 0x6002"
| "error_code OverrideLimitReached = 0x6003"

definition IsSuccess :: "error \<Rightarrow> bool" where
  "IsSuccess e \<longleftrightarrow> e = Success"

definition IsError :: "error \<Rightarrow> bool" where
  "IsError e \<longleftrightarrow> e \<noteq> Success"

definition GetErrorSubsystem :: "error \<Rightarrow> u32" where
  "GetErrorSubsystem e = error_code e AND 0xF000"

text \<open>The codes fit the two fields: a subsystem in bits 12 to 15 and a number below it.\<close>

lemma error_code_split: "error_code e = GetErrorSubsystem e + (error_code e AND 0xFFF)"
  by (cases e) (simp_all add: GetErrorSubsystem_def)

lemma subsystem_zero_iff: "GetErrorSubsystem e = 0 \<longleftrightarrow> e \<in> {Success, HardwareError}"
  by (cases e) (simp_all add: GetErrorSubsystem_def)

end
