(* ===== verification/NumaDomain.thy ===== *)
theory NumaDomain
  imports BmiWord Maths Errors "HOL-Library.Monad_Syntax" "HOL-Library.Multiset"
begin

text \<open>
  The scheduler's view of one NUMA node, \<^verbatim>\<open>kernel/include/sched/numa_domain.hpp\<close> and
  \<^verbatim>\<open>kernel/src/sched/numa_domain.cpp\<close>.  The tables that the source lays out in one block of
  pages are lists of the domain; an access outside a table, which the source never makes, is
  \<^const>\<open>None\<close>.  Slot, core and word indices are natural numbers bounded by the tables, the count of busy
  siblings keeps its 32 bits.
\<close>

subsection \<open>State\<close>

record cpu_placement =
  pl_cpu :: u32
  pl_core :: u32

record numa_slot =
  slot_cpu :: u32
  slot_core :: nat

record numa_core =
  core_busy :: u32
  core_first_slot :: nat
  core_siblings :: nat

record numa_domain =
  m_node_id :: u32
  m_cpu_count :: nat
  m_core_count :: nat
  m_words :: nat
  m_slots :: "numa_slot list"
  m_cores :: "numa_core list"
  m_idle_cpus :: "bmi_word list"
  m_idle_cores :: "bmi_word list"
  m_overloaded :: "bmi_word list"
  m_neighbors :: "u32 list"
  m_storage :: ptr
  m_storage_order :: nat

definition BITS_PER_WORD :: nat where
  "BITS_PER_WORD = 64"

definition NO_CPU :: u32 where
  "NO_CPU = NOT 0"

definition word_of :: "nat \<Rightarrow> nat" where
  "word_of index = index div BITS_PER_WORD"

definition bit_of :: "nat \<Rightarrow> nat" where
  "bit_of index = index mod BITS_PER_WORD"

definition at :: "'a list \<Rightarrow> nat \<Rightarrow> 'a option" where
  "at xs i = (if i < length xs then Some (xs ! i) else None)"

subsection \<open>Building the tables\<close>

text \<open>\<open>reserve\<close> returns where the objects start and the new offset.\<close>

definition reserve :: "u64 \<Rightarrow> u64 \<Rightarrow> u64 \<Rightarrow> u64 \<Rightarrow> u64 \<times> u64" where
  "reserve size_of align_of offset n =
     (let start = align_up offset align_of in (start, start + size_of * n))"

text \<open>Where the four tables start, and where the last one ends.\<close>

definition numa_layout :: "nat \<Rightarrow> nat \<Rightarrow> nat \<Rightarrow> nat \<Rightarrow> u64 \<times> u64 \<times> u64 \<times> u64 \<times> u64" where
  "numa_layout cpu_count core_count words neighbors =
     (let (slots_at, offset) = reserve 8 4 0 (of_nat cpu_count);
          (cores_at, offset) = reserve 12 4 offset (of_nat core_count);
          (bitmaps_at, offset) = reserve 8 8 offset (of_nat (words * 3));
          (neighbors_at, offset) = reserve 4 4 offset (of_nat neighbors)
      in (slots_at, cores_at, bitmaps_at, neighbors_at, offset))"

definition storage_order :: "u64 \<Rightarrow> nat" where
  "storage_order offset = (let pages = div_round_up (max offset 1) (4096 :: u64)
     in bit_width (pages - 1))"

definition opens_core :: "cpu_placement list \<Rightarrow> nat \<Rightarrow> bool" where
  "opens_core cpus slot \<longleftrightarrow> slot = 0 \<or> pl_core (cpus ! slot) \<noteq> pl_core (cpus ! (slot - 1))"

definition place_slot ::
  "cpu_placement list \<Rightarrow> numa_slot list \<times> numa_core list \<Rightarrow> nat \<Rightarrow> numa_slot list \<times> numa_core list" where
  "place_slot cpus tables slot = (case tables of (slots, cores) \<Rightarrow>
     let cores1 = (if opens_core cpus slot
           then cores @ [\<lparr>core_busy = 0, core_first_slot = slot, core_siblings = 0\<rparr>] else cores);
         index = length cores1 - 1;
         core = cores1 ! index
     in (slots @ [\<lparr>slot_cpu = pl_cpu (cpus ! slot), slot_core = index\<rparr>],
         cores1[index := core\<lparr>core_busy := core_busy core + 1, core_siblings := core_siblings core + 1\<rparr>]))"

text \<open>\<open>alloc\<close> is the call of \<^verbatim>\<open>pmm::alloc_pages_on_node\<close>: the node and the order give a block or nothing.\<close>

definition numa_initialize ::
  "(u32 \<Rightarrow> nat \<Rightarrow> ptr) \<Rightarrow> u32 \<Rightarrow> cpu_placement list \<Rightarrow> u32 list \<Rightarrow> error + numa_domain" where
  "numa_initialize alloc node_id cpus neighbors =
     (let cpu_count = unat (of_nat (length cpus) :: u32);
          words = unat (div_round_up (of_nat (length cpus) :: u32) (64 :: u32));
          core_count = length (filter (opens_core cpus) [0..<cpu_count]);
          (slots_at, cores_at, bitmaps_at, neighbors_at, offset) =
            numa_layout cpu_count core_count words (length neighbors);
          order = storage_order offset
      in case alloc node_id order of
           None \<Rightarrow> Inl OutOfMemory
         | Some base \<Rightarrow>
             let (slots, cores) = foldl (place_slot cpus) ([], []) [0..<cpu_count]
             in Inr \<lparr>m_node_id = node_id, m_cpu_count = cpu_count, m_core_count = core_count,
                  m_words = words, m_slots = slots, m_cores = cores,
                  m_idle_cpus = replicate words 0, m_idle_cores = replicate words 0,
                  m_overloaded = replicate words 0, m_neighbors = neighbors,
                  m_storage = Some base, m_storage_order = order\<rparr>)"

text \<open>\<open>numa_release\<close> also returns the block and the order that it gives back to the allocator.\<close>

definition numa_release :: "numa_domain \<Rightarrow> (addr \<times> nat) option \<times> numa_domain" where
  "numa_release d = (case m_storage d of
     None \<Rightarrow> (None, d)
   | Some base \<Rightarrow> (Some (base, m_storage_order d),
       d\<lparr>m_storage := None, m_cpu_count := 0, m_core_count := 0, m_words := 0, m_neighbors := []\<rparr>))"

subsection \<open>Idle CPUs and cores\<close>

definition list_core :: "nat \<Rightarrow> numa_domain \<Rightarrow> numa_domain option" where
  "list_core core_index d = do {
     word \<leftarrow> at (m_idle_cores d) (word_of core_index);
     Some (d\<lparr>m_idle_cores := (m_idle_cores d)[word_of core_index := release_bit (bit_of core_index) word]\<rparr>)
   }"

definition unlist_core :: "nat \<Rightarrow> numa_domain \<Rightarrow> numa_domain option" where
  "unlist_core core_index d = do {
     word \<leftarrow> at (m_idle_cores d) (word_of core_index);
     Some (d\<lparr>m_idle_cores := (m_idle_cores d)[word_of core_index :=
                snd (acquire_specific (bit_of core_index) word)]\<rparr>)
   }"

text \<open>The atomic update of the count of busy siblings; it returns the core and the old count.\<close>

definition add_busy :: "u32 \<Rightarrow> nat \<Rightarrow> numa_domain \<Rightarrow> (nat \<times> u32 \<times> numa_domain) option" where
  "add_busy delta slot d = do {
     entry \<leftarrow> at (m_slots d) slot;
     core \<leftarrow> at (m_cores d) (slot_core entry);
     Some (slot_core entry, core_busy core,
       d\<lparr>m_cores := (m_cores d)[slot_core entry := core\<lparr>core_busy := core_busy core + delta\<rparr>]\<rparr>)
   }"

definition set_idle_bit :: "nat \<Rightarrow> numa_domain \<Rightarrow> (bool \<times> numa_domain) option" where
  "set_idle_bit slot d = do {
     word \<leftarrow> at (m_idle_cpus d) (word_of slot);
     if word AND push_bit (bit_of slot) 1 \<noteq> 0 then Some (False, d)
     else Some (True, d\<lparr>m_idle_cpus := (m_idle_cpus d)[word_of slot := release_bit (bit_of slot) word]\<rparr>)
   }"

definition mark_idle :: "nat \<Rightarrow> numa_domain \<Rightarrow> numa_domain option" where
  "mark_idle slot d = do {
     (changed, d) \<leftarrow> set_idle_bit slot d;
     if \<not> changed then Some d
     else do {
       (core_index, old, d) \<leftarrow> add_busy (- 1) slot d;
       if old = 1 then list_core core_index d else Some d
     }
   }"

definition note_busy :: "nat \<Rightarrow> numa_domain \<Rightarrow> numa_domain option" where
  "note_busy slot d = do {
     (core_index, old, d) \<leftarrow> add_busy 1 slot d;
     if old = 0 then unlist_core core_index d else Some d
   }"

definition clear_idle_bit :: "nat \<Rightarrow> numa_domain \<Rightarrow> (bool \<times> numa_domain) option" where
  "clear_idle_bit slot d = do {
     word \<leftarrow> at (m_idle_cpus d) (word_of slot);
     let (got, word') = acquire_specific (bit_of slot) word;
     Some (got, d\<lparr>m_idle_cpus := (m_idle_cpus d)[word_of slot := word']\<rparr>)
   }"

definition claim_cpu :: "nat \<Rightarrow> numa_domain \<Rightarrow> (bool \<times> numa_domain) option" where
  "claim_cpu slot d = do {
     (got, d) \<leftarrow> clear_idle_bit slot d;
     if \<not> got then Some (False, d)
     else do { d \<leftarrow> note_busy slot d; Some (True, d) }
   }"

definition mark_busy :: "nat \<Rightarrow> numa_domain \<Rightarrow> numa_domain option" where
  "mark_busy slot d = map_option snd (claim_cpu slot d)"

definition cpu_at :: "numa_domain \<Rightarrow> nat \<Rightarrow> u32 option" where
  "cpu_at d slot = map_option slot_cpu (at (m_slots d) slot)"

fun claim_siblings :: "nat list \<Rightarrow> numa_domain \<Rightarrow> (u32 option \<times> numa_domain) option" where
  "claim_siblings [] d = Some (None, d)"
| "claim_siblings (slot # slots) d = do {
     (got, d) \<leftarrow> claim_cpu slot d;
     if got then do { cpu \<leftarrow> cpu_at d slot; Some (Some cpu, d) } else claim_siblings slots d
   }"

text \<open>The inner loop of \<^verbatim>\<open>claim_idle_core\<close> on one word of the bitmap.\<close>

partial_function (option) claim_core_in :: "nat \<Rightarrow> numa_domain \<Rightarrow> (u32 option \<times> numa_domain) option" where
  "claim_core_in word d = do {
     bits \<leftarrow> at (m_idle_cores d) word;
     let (bit, bits') = acquire_first_free bits;
     if bit = BITS_PER_WORD then Some (None, d)
     else do {
       core \<leftarrow> at (m_cores d) (word * BITS_PER_WORD + bit);
       let first = core_first_slot core;
       (found, d) \<leftarrow> claim_siblings [first..<first + core_siblings core]
         (d\<lparr>m_idle_cores := (m_idle_cores d)[word := bits']\<rparr>);
       (case found of Some cpu \<Rightarrow> Some (Some cpu, d) | None \<Rightarrow> claim_core_in word d)
     }
   }"

fun claim_core_words :: "nat list \<Rightarrow> numa_domain \<Rightarrow> (u32 \<times> numa_domain) option" where
  "claim_core_words [] d = Some (NO_CPU, d)"
| "claim_core_words (word # words) d = do {
     (found, d) \<leftarrow> claim_core_in word d;
     (case found of Some cpu \<Rightarrow> Some (cpu, d) | None \<Rightarrow> claim_core_words words d)
   }"

definition claim_idle_core :: "numa_domain \<Rightarrow> (u32 \<times> numa_domain) option" where
  "claim_idle_core d = claim_core_words [0..<m_words d] d"

fun claim_cpu_words :: "nat list \<Rightarrow> numa_domain \<Rightarrow> (u32 \<times> numa_domain) option" where
  "claim_cpu_words [] d = Some (NO_CPU, d)"
| "claim_cpu_words (word # words) d = do {
     bits \<leftarrow> at (m_idle_cpus d) word;
     let (bit, bits') = acquire_first_free bits;
     let d = d\<lparr>m_idle_cpus := (m_idle_cpus d)[word := bits']\<rparr>;
     if bit \<noteq> BITS_PER_WORD then do {
       let slot = word * BITS_PER_WORD + bit;
       d \<leftarrow> note_busy slot d;
       cpu \<leftarrow> cpu_at d slot;
       Some (cpu, d)
     } else claim_cpu_words words d
   }"

definition claim_idle_cpu :: "numa_domain \<Rightarrow> (u32 \<times> numa_domain) option" where
  "claim_idle_cpu d = claim_cpu_words [0..<m_words d] d"

definition idle_cpu_count :: "numa_domain \<Rightarrow> nat" where
  "idle_cpu_count d = sum_list (map free_count (take (m_words d) (m_idle_cpus d)))"

subsection \<open>Overloaded CPUs\<close>

definition set_overloaded :: "nat \<Rightarrow> bool \<Rightarrow> numa_domain \<Rightarrow> numa_domain option" where
  "set_overloaded slot overloaded d = do {
     word \<leftarrow> at (m_overloaded d) (word_of slot);
     Some (d\<lparr>m_overloaded := (m_overloaded d)[word_of slot :=
       (if overloaded then release_bit (bit_of slot) word else snd (acquire_specific (bit_of slot) word))]\<rparr>)
   }"

text \<open>
  The callback takes a CPU and a state and returns whether to stop, and the new state.  The
  inner loop goes through the set bits of the snapshot of one word.
\<close>

lemma and_minus_one_less: "bits \<noteq> 0 \<Longrightarrow> unat (bits AND (bits - 1) :: 'a::len word) < unat bits"
proof -
  assume nz: "bits \<noteq> 0"
  have "unat (bits AND (bits - 1)) \<le> unat (bits - 1)"
    by (simp add: word_le_nat_alt [symmetric] word_and_le1)
  moreover have "unat (bits - 1) = unat bits - 1" "0 < unat bits"
    using nz by (simp_all add: unat_minus_one unat_gt_0)
  ultimately show ?thesis by simp
qed

function overloaded_bits ::
  "numa_domain \<Rightarrow> nat \<Rightarrow> (u32 \<Rightarrow> 's \<Rightarrow> bool \<times> 's) \<Rightarrow> u64 \<Rightarrow> 's \<Rightarrow> (bool \<times> 's) option" where
  "overloaded_bits d word fn bits s =
     (if bits = 0 then Some (False, s)
      else case cpu_at d (word * BITS_PER_WORD + countr_zero bits) of
        None \<Rightarrow> None
      | Some cpu \<Rightarrow> (case fn cpu s of (stop, s') \<Rightarrow>
          if stop then Some (True, s') else overloaded_bits d word fn (bits AND (bits - 1)) s'))"
  by pat_completeness auto
termination
  by (relation "measure (\<lambda>(_, _, _, bits, _). unat bits)") (simp_all add: and_minus_one_less)

declare overloaded_bits.simps [simp del]

fun overloaded_words ::
  "nat list \<Rightarrow> numa_domain \<Rightarrow> (u32 \<Rightarrow> 's \<Rightarrow> bool \<times> 's) \<Rightarrow> 's \<Rightarrow> 's option" where
  "overloaded_words [] d fn s = Some s"
| "overloaded_words (word # words) d fn s = do {
     bits \<leftarrow> at (m_overloaded d) word;
     (stop, s) \<leftarrow> overloaded_bits d word fn bits s;
     if stop then Some s else overloaded_words words d fn s
   }"

definition for_each_overloaded ::
  "nat \<Rightarrow> numa_domain \<Rightarrow> (u32 \<Rightarrow> 's \<Rightarrow> bool \<times> 's) \<Rightarrow> 's \<Rightarrow> 's option" where
  "for_each_overloaded start_slot d fn s =
     overloaded_words (map (\<lambda>step. (word_of start_slot + step) mod m_words d) [0..<m_words d]) d fn s"

end
