(* ===== verification/NumaSpec.thy ===== *)
theory NumaSpec
  imports NumaDomain
begin

text \<open>
  What the operations of a NUMA domain promise.  A bitmap stands for the set of its set bits;
  the invariant says that the count of a core is the number of its siblings that are not listed
  as idle, and that a core is listed exactly when all of its siblings are.  The lemmas on the
  atomic parts of the operations allow for a difference between count and bitmap, so that the same
  facts serve the sequential operations and the interleaved ones.
\<close>

subsection \<open>Bitmaps as sets\<close>

definition bmp :: "bmi_word list \<Rightarrow> nat set" where
  "bmp ws = {i. i div 64 < length ws \<and> bit (ws ! (i div 64)) (i mod 64)}"

lemma index_in_word: "k div 64 = i div 64 \<Longrightarrow> k mod 64 = i mod 64 \<longleftrightarrow> k = (i :: nat)"
  by (metis div_mult_mod_eq)

lemma bmp_update:
  "w < length ws \<Longrightarrow> k \<in> bmp (ws[w := v]) \<longleftrightarrow> (if k div 64 = w then bit v (k mod 64) else k \<in> bmp ws)"
  by (auto simp: bmp_def)

lemma bmp_release:
  assumes "i div 64 < length ws"
  shows "bmp (ws[i div 64 := release_bit (i mod 64) (ws ! (i div 64))]) = insert i (bmp ws)"
proof (rule set_eqI)
  fix k show "k \<in> bmp (ws[i div 64 := release_bit (i mod 64) (ws ! (i div 64))]) \<longleftrightarrow> k \<in> insert i (bmp ws)"
    using assms index_in_word [of k i]
    by (cases "k div 64 = i div 64") (auto simp: bmp_update bit_release_bit bmp_def)
qed

lemma bmp_acquire:
  assumes "i div 64 < length ws"
  shows "bmp (ws[i div 64 := snd (acquire_specific (i mod 64) (ws ! (i div 64)))]) = bmp ws - {i}"
proof (rule set_eqI)
  fix k show "k \<in> bmp (ws[i div 64 := snd (acquire_specific (i mod 64) (ws ! (i div 64)))]) \<longleftrightarrow> k \<in> bmp ws - {i}"
    using assms index_in_word [of k i]
    by (cases "k div 64 = i div 64") (auto simp: bmp_update acquire_specific_ok bmp_def)
qed

lemma acquire_absent: "\<not> bit m i \<Longrightarrow> acquire_specific i m = (False, m)"
  by (simp add: prod_eq_iff acquire_specific_ok, rule bit_word_eqI) (auto simp: acquire_specific_ok)

lemma bmp_first_free:
  fixes w :: nat
  assumes "w < length ws" "ws ! w \<noteq> 0"
  defines "i \<equiv> w * 64 + countr_zero (ws ! w)"
  shows "i \<in> bmp ws" "i div 64 = w" "j \<in> bmp ws \<Longrightarrow> j div 64 = w \<Longrightarrow> i \<le> j"
    "bmp (ws[w := ws ! w AND (ws ! w - 1)]) = bmp ws - {i}"
proof -
  note z = countr_zero_char [OF assms(2)]
  have i: "i div 64 = w" "i mod 64 = countr_zero (ws ! w)" using z(1) by (simp_all add: i_def)
  show "i div 64 = w" by (rule i(1))
  show "i \<in> bmp ws" using assms(1) z(2) by (simp add: bmp_def i)
  show "i \<le> j" if "j \<in> bmp ws" "j div 64 = w" for j
  proof -
    have "countr_zero (ws ! w) \<le> j mod 64"
      using that z(3) by (auto simp: bmp_def not_less [symmetric])
    then show ?thesis using that(2) unfolding i_def by (metis add_le_cancel_left div_mult_mod_eq)
  qed
  show "bmp (ws[w := ws ! w AND (ws ! w - 1)]) = bmp ws - {i}"
  proof (rule set_eqI)
    fix k show "k \<in> bmp (ws[w := ws ! w AND (ws ! w - 1)]) \<longleftrightarrow> k \<in> bmp ws - {i}"
      using assms(1) index_in_word [of k i]
      by (cases "k div 64 = w") (auto simp: bmp_update clear_lowest [OF assms(2)] i bmp_def)
  qed
qed

lemma bmp_word_0: "w < length ws \<Longrightarrow> ws ! w = 0 \<longleftrightarrow> (\<forall>i \<in> bmp ws. i div 64 \<noteq> w)"
proof
  assume "w < length ws" "\<forall>i \<in> bmp ws. i div 64 \<noteq> w"
  then show "ws ! w = 0" using bmp_first_free(1,2) by blast
qed (auto simp: bmp_def)

lemma bmp_replicate_0 [simp]: "bmp (replicate n 0) = {}"
  by (auto simp: bmp_def)

subsection \<open>The invariant\<close>

definition idle :: "numa_domain \<Rightarrow> nat set" where
  "idle d = bmp (m_idle_cpus d)"

definition sibs :: "numa_domain \<Rightarrow> nat \<Rightarrow> nat set" where
  "sibs d c = {s. s < m_cpu_count d \<and> slot_core (m_slots d ! s) = c}"

definition numa_wf :: "numa_domain \<Rightarrow> bool" where
  "numa_wf d \<longleftrightarrow>
     length (m_slots d) = m_cpu_count d \<and> length (m_cores d) = m_core_count d \<and>
     length (m_idle_cpus d) = m_words d \<and> length (m_idle_cores d) = m_words d \<and>
     length (m_overloaded d) = m_words d \<and>
     m_cpu_count d \<le> 64 * m_words d \<and> m_core_count d \<le> m_cpu_count d \<and> m_cpu_count d < 2 ^ 32 \<and>
     (\<forall>s < m_cpu_count d. slot_core (m_slots d ! s) < m_core_count d) \<and>
     (\<forall>c < m_core_count d. 0 < core_siblings (m_cores d ! c) \<and>
        sibs d c = {core_first_slot (m_cores d ! c)..<core_first_slot (m_cores d ! c) + core_siblings (m_cores d ! c)})"

text \<open>\<open>numa_counts p\<close>: the count of a core is ahead of the bitmap by \<open>p\<close>, modulo its width.\<close>

definition numa_counts :: "(nat \<Rightarrow> u32) \<Rightarrow> numa_domain \<Rightarrow> bool" where
  "numa_counts p d \<longleftrightarrow> idle d \<subseteq> {..<m_cpu_count d} \<and>
     (\<forall>c < m_core_count d. core_busy (m_cores d ! c) = of_nat (card (sibs d c - idle d)) + p c)"

text \<open>\<open>numa_listed X\<close>: the listed cores are those with all siblings idle, apart from \<open>X\<close>.\<close>

definition idle_cores :: "numa_domain \<Rightarrow> nat set" where
  "idle_cores d = {c. c < m_core_count d \<and> sibs d c \<subseteq> idle d}"

definition numa_listed :: "nat set \<Rightarrow> numa_domain \<Rightarrow> bool" where
  "numa_listed X d \<longleftrightarrow> bmp (m_idle_cores d) = idle_cores d - X"

definition numa_ok :: "numa_domain \<Rightarrow> bool" where
  "numa_ok d \<longleftrightarrow> numa_wf d \<and> numa_counts (\<lambda>_. 0) d \<and> numa_listed {} d"

text \<open>The parts of a domain that never change after it has been built.\<close>

definition same_tables :: "numa_domain \<Rightarrow> numa_domain \<Rightarrow> bool" where
  "same_tables d d' \<longleftrightarrow> m_slots d' = m_slots d \<and> m_cpu_count d' = m_cpu_count d \<and>
     m_core_count d' = m_core_count d \<and> m_words d' = m_words d"

definition core_of :: "numa_domain \<Rightarrow> nat \<Rightarrow> nat" where
  "core_of d s = slot_core (m_slots d ! s)"

lemma same_tables_refl [simp]: "same_tables d d"
  by (simp add: same_tables_def)

lemma same_tables_trans: "same_tables a b \<Longrightarrow> same_tables b c \<Longrightarrow> same_tables a c"
  by (simp add: same_tables_def)

lemma same_tables_sibs: "same_tables d d' \<Longrightarrow> sibs d' = sibs d"
  by (simp add: same_tables_def sibs_def fun_eq_iff)

lemma same_tables_core_of: "same_tables d d' \<Longrightarrow> core_of d' = core_of d"
  by (simp add: same_tables_def core_of_def fun_eq_iff)

lemma core_of_bound: "numa_wf d \<Longrightarrow> s < m_cpu_count d \<Longrightarrow> core_of d s < m_core_count d"
  by (simp add: numa_wf_def core_of_def)

lemma word_in_range:
  "numa_wf d \<Longrightarrow> s < m_cpu_count d \<Longrightarrow> s div 64 < m_words d"
  by (simp add: numa_wf_def less_mult_imp_div_less mult.commute)

lemma core_word_in_range:
  "numa_wf d \<Longrightarrow> c < m_core_count d \<Longrightarrow> c div 64 < m_words d"
  by (rule word_in_range) (simp_all add: numa_wf_def)

lemma sibs_finite [simp]: "finite (sibs d c)"
  by (rule finite_subset [of _ "{..<m_cpu_count d}"]) (auto simp: sibs_def)

lemma card_sibs: "numa_wf d \<Longrightarrow> card (sibs d c - A) < 2 ^ 32"
proof -
  assume "numa_wf d"
  have "card (sibs d c - A) \<le> card {..<m_cpu_count d}"
    by (rule card_mono) (auto simp: sibs_def)
  then show ?thesis using \<open>numa_wf d\<close> by (simp add: numa_wf_def)
qed

lemma in_sibs: "s \<in> sibs d c \<longleftrightarrow> s < m_cpu_count d \<and> core_of d s = c"
  by (simp add: sibs_def core_of_def)

subsection \<open>The atomic parts\<close>

text \<open>Listing one more idle sibling takes one off the others, and leaves other cores alone.\<close>

lemma busy_card_insert:
  assumes "s < m_cpu_count d" "s \<notin> A"
  shows "(of_nat (card (sibs d c - A)) :: u32) =
    of_nat (card (sibs d c - insert s A)) + (if core_of d s = c then 1 else 0)"
proof (cases "core_of d s = c")
  case True
  then have "s \<in> sibs d c - A" using assms by (simp add: in_sibs)
  then have "Suc (card (sibs d c - A - {s})) = card (sibs d c - A)"
    by (intro card_Suc_Diff1) simp_all
  moreover have "sibs d c - insert s A = sibs d c - A - {s}" by blast
  ultimately have "card (sibs d c - A) = card (sibs d c - insert s A) + 1" by simp
  then show ?thesis using True by simp
next
  case False
  then have "sibs d c - insert s A = sibs d c - A" by (auto simp: in_sibs)
  then show ?thesis using False by simp
qed

lemma at_word:
  assumes "numa_wf d" "s < m_cpu_count d"
  shows "s div 64 < length (m_idle_cpus d)" "at (m_idle_cpus d) (word_of s) = Some (m_idle_cpus d ! (s div 64))"
    "s div 64 < length (m_overloaded d)" "at (m_overloaded d) (word_of s) = Some (m_overloaded d ! (s div 64))"
  using word_in_range [OF assms] assms(1)
  by (simp_all add: numa_wf_def at_def word_of_def BITS_PER_WORD_def)

lemma at_core_word:
  assumes "numa_wf d" "c < m_core_count d"
  shows "c div 64 < length (m_idle_cores d)" "at (m_idle_cores d) (word_of c) = Some (m_idle_cores d ! (c div 64))"
  using core_word_in_range [OF assms] assms(1)
  by (simp_all add: numa_wf_def at_def word_of_def BITS_PER_WORD_def)

lemma set_idle_bit_ok:
  assumes "numa_wf d" "numa_counts p d" "s < m_cpu_count d"
  shows "if s \<in> idle d then set_idle_bit s d = Some (False, d)
    else \<exists>d'. set_idle_bit s d = Some (True, d') \<and> numa_wf d' \<and> same_tables d d' \<and>
      idle d' = insert s (idle d) \<and> m_idle_cores d' = m_idle_cores d \<and> m_cores d' = m_cores d \<and>
      numa_counts (p(core_of d s := p (core_of d s) + 1)) d'"
proof -
  note w = at_word(1,2) [OF assms(1,3)]
  have b: "m_idle_cpus d ! (s div 64) AND push_bit (bit_of s) 1 = 0 \<longleftrightarrow> s \<notin> idle d"
    using w(1) and_single_eq_0 by (simp add: idle_def bmp_def bit_of_def BITS_PER_WORD_def)
  show ?thesis
  proof (cases "s \<in> idle d")
    case False
    define d' where "d' = d\<lparr>m_idle_cpus := (m_idle_cpus d)[s div 64 := release_bit (s mod 64) (m_idle_cpus d ! (s div 64))]\<rparr>"
    have "set_idle_bit s d = Some (True, d')"
      using False b w(2) by (simp add: set_idle_bit_def d'_def word_of_def bit_of_def BITS_PER_WORD_def)
    moreover have i: "idle d' = insert s (idle d)"
      using bmp_release [OF w(1)] by (simp add: idle_def d'_def)
    moreover have "numa_wf d'" and same: "same_tables d d'"
      using assms(1) by (simp_all add: numa_wf_def same_tables_def d'_def sibs_def)
    moreover have "numa_counts (p(core_of d s := p (core_of d s) + 1)) d'"
      unfolding numa_counts_def i same_tables_sibs [OF same]
      using assms(2,3) busy_card_insert [OF assms(3) False]
      by (auto simp: numa_counts_def d'_def)
    ultimately show ?thesis using False by (auto simp: d'_def)
  qed (use w(2) b in \<open>simp add: set_idle_bit_def\<close>)
qed

lemma clear_idle_bit_ok:
  assumes "numa_wf d" "numa_counts p d" "s < m_cpu_count d"
  shows "if s \<notin> idle d then clear_idle_bit s d = Some (False, d)
    else \<exists>d'. clear_idle_bit s d = Some (True, d') \<and> numa_wf d' \<and> same_tables d d' \<and>
      idle d' = idle d - {s} \<and> m_idle_cores d' = m_idle_cores d \<and> m_cores d' = m_cores d \<and>
      numa_counts (p(core_of d s := p (core_of d s) - 1)) d'"
proof -
  note w = at_word(1,2) [OF assms(1,3)]
  define m where "m = m_idle_cpus d ! (s div 64)"
  have b: "bit m (s mod 64) \<longleftrightarrow> s \<in> idle d"
    using w(1) by (simp add: idle_def bmp_def m_def)
  define d' where "d' = d\<lparr>m_idle_cpus := (m_idle_cpus d)[s div 64 := snd (acquire_specific (s mod 64) m)]\<rparr>"
  have step: "clear_idle_bit s d = Some (s \<in> idle d, d')"
    using w(2) b acquire_specific_ok(1) [of "s mod 64" m]
    by (simp add: clear_idle_bit_def d'_def m_def word_of_def bit_of_def BITS_PER_WORD_def case_prod_beta)
  show ?thesis
  proof (cases "s \<in> idle d")
    case True
    have i: "idle d' = idle d - {s}"
      using bmp_acquire [OF w(1)] by (simp add: idle_def d'_def m_def)
    moreover have "numa_wf d'" and same: "same_tables d d'"
      using assms(1) by (simp_all add: numa_wf_def same_tables_def d'_def sibs_def)
    moreover have "numa_counts (p(core_of d s := p (core_of d s) - 1)) d'"
      unfolding numa_counts_def i same_tables_sibs [OF same]
      using assms(2) busy_card_insert [of s d "idle d - {s}"] True assms(3)
      by (auto simp: numa_counts_def d'_def insert_absorb)
    ultimately show ?thesis using True step by (auto simp: d'_def)
  next
    case False
    then have "snd (acquire_specific (s mod 64) m) = m" using b acquire_absent by simp
    then have "d' = d" by (simp add: d'_def m_def)
    then show ?thesis using False step by simp
  qed
qed

lemma add_busy_ok:
  assumes "numa_wf d" "numa_counts p d" "s < m_cpu_count d"
  defines "c \<equiv> core_of d s"
  shows "\<exists>d'. add_busy delta s d = Some (c, of_nat (card (sibs d c - idle d)) + p c, d') \<and>
    numa_wf d' \<and> same_tables d d' \<and> idle d' = idle d \<and> m_idle_cores d' = m_idle_cores d \<and>
    numa_counts (p(c := p c + delta)) d'"
proof -
  have c: "c < length (m_cores d)" "s < length (m_slots d)"
    using core_of_bound [OF assms(1,3)] assms(1,3) by (simp_all add: numa_wf_def c_def)
  define d' where "d' = d\<lparr>m_cores := (m_cores d)[c := (m_cores d ! c)\<lparr>core_busy := core_busy (m_cores d ! c) + delta\<rparr>]\<rparr>"
  have "core_busy (m_cores d ! c) = of_nat (card (sibs d c - idle d)) + p c"
    using assms(1,2) c(1) by (simp add: numa_counts_def numa_wf_def)
  then have "add_busy delta s d = Some (c, of_nat (card (sibs d c - idle d)) + p c, d')"
    using c by (simp add: add_busy_def at_def d'_def core_of_def c_def)
  moreover have "numa_wf d'" and same: "same_tables d d'"
    using assms(1) c(1) by (auto simp: numa_wf_def same_tables_def d'_def sibs_def)
  moreover have "numa_counts (p(c := p c + delta)) d'"
    using assms(1,2) c(1) unfolding numa_counts_def same_tables_sibs [OF same]
    by (auto simp: d'_def idle_def numa_wf_def)
  ultimately show ?thesis by (auto simp: d'_def idle_def)
qed

lemma list_core_ok:
  assumes "numa_wf d" "c < m_core_count d"
  shows "\<exists>d'. list_core c d = Some d' \<and> numa_wf d' \<and> same_tables d d' \<and> idle d' = idle d \<and>
    m_cores d' = m_cores d \<and> bmp (m_idle_cores d') = insert c (bmp (m_idle_cores d))"
  using at_core_word [OF assms] bmp_release [of c "m_idle_cores d"] assms(1)
  by (auto simp: list_core_def numa_wf_def same_tables_def idle_def sibs_def word_of_def bit_of_def BITS_PER_WORD_def)

lemma unlist_core_ok:
  assumes "numa_wf d" "c < m_core_count d"
  shows "\<exists>d'. unlist_core c d = Some d' \<and> numa_wf d' \<and> same_tables d d' \<and> idle d' = idle d \<and>
    m_cores d' = m_cores d \<and> bmp (m_idle_cores d') = bmp (m_idle_cores d) - {c}"
  using at_core_word [OF assms] bmp_acquire [of c "m_idle_cores d"] assms(1)
  by (auto simp: unlist_core_def numa_wf_def same_tables_def idle_def sibs_def word_of_def bit_of_def BITS_PER_WORD_def)

lemma numa_counts_cong:
  "same_tables d d' \<Longrightarrow> idle d' = idle d \<Longrightarrow> m_cores d' = m_cores d \<Longrightarrow> numa_counts p d' = numa_counts p d"
  by (simp add: numa_counts_def same_tables_def sibs_def)

subsection \<open>The operations\<close>

lemma of_nat_card_sibs_eq:
  "numa_wf d \<Longrightarrow> n < 2 ^ 32 \<Longrightarrow> (of_nat (card (sibs d c - A)) :: u32) = of_nat n \<longleftrightarrow> card (sibs d c - A) = n"
  using card_sibs [of d c A] by (simp add: word_of_nat_eq_iff take_bit_nat_eq_self)

lemma pending_cancel [simp]: "(\<lambda>_. 0 :: u32)(c := 0) = (\<lambda>_. 0)"
  by (rule fun_upd_triv)

lemma note_busy_ok:
  assumes "numa_wf d" "numa_counts ((\<lambda>_. 0)(core_of d s := - 1)) d" "s < m_cpu_count d" "s \<notin> idle d"
    "bmp (m_idle_cores d) = {c. c < m_core_count d \<and> sibs d c \<subseteq> insert s (idle d)} - X"
  shows "\<exists>d'. note_busy s d = Some d' \<and> numa_wf d' \<and> numa_counts (\<lambda>_. 0) d' \<and> numa_listed X d' \<and>
    same_tables d d' \<and> idle d' = idle d"
proof -
  let ?c = "core_of d s"
  have c: "?c < m_core_count d" by (rule core_of_bound [OF assms(1,3)])
  obtain d1 where d1: "add_busy 1 s d = Some (?c, of_nat (card (sibs d ?c - idle d)) - 1, d1)"
    "numa_wf d1" "same_tables d d1" "idle d1 = idle d" "m_idle_cores d1 = m_idle_cores d"
    "numa_counts (\<lambda>_. 0) d1"
    using add_busy_ok [OF assms(1-3), of 1] by auto
  have old: "of_nat (card (sibs d ?c - idle d)) - 1 = (0 :: u32) \<longleftrightarrow> sibs d ?c \<subseteq> insert s (idle d)"
    using busy_card_insert [OF assms(3,4), of ?c] of_nat_card_sibs_eq [OF assms(1), of 0 ?c "insert s (idle d)"]
    by auto
  have not_all: "\<not> sibs d ?c \<subseteq> idle d" using assms(3,4) by (auto simp: in_sibs)
  have others: "k \<noteq> ?c \<Longrightarrow> sibs d k \<subseteq> insert s (idle d) \<longleftrightarrow> sibs d k \<subseteq> idle d" for k
    by (auto simp: in_sibs)
  have goal: "bmp (m_idle_cores d) - {?c} = idle_cores d - X"
    unfolding assms(5) idle_cores_def using others not_all by blast
  have ic: "idle_cores d1 = idle_cores d"
    using d1(3,4) by (simp add: idle_cores_def same_tables_sibs [OF d1(3)] same_tables_def)
  show ?thesis
  proof (cases "sibs d ?c \<subseteq> insert s (idle d)")
    case True
    have "?c < m_core_count d1" using c d1(3) by (simp add: same_tables_def)
    then obtain d2 where d2: "unlist_core ?c d1 = Some d2" "numa_wf d2" "same_tables d1 d2"
      "idle d2 = idle d1" "m_cores d2 = m_cores d1" "bmp (m_idle_cores d2) = bmp (m_idle_cores d1) - {?c}"
      using unlist_core_ok [OF d1(2)] by blast
    have "note_busy s d = Some d2" using d1(1) d2(1) True old by (simp add: note_busy_def)
    moreover have "idle_cores d2 = idle_cores d1"
      using d2(3,4) by (simp add: idle_cores_def same_tables_sibs [OF d2(3)] same_tables_def)
    then have "numa_listed X d2" using d2(6) d1(5) goal ic by (simp add: numa_listed_def)
    ultimately show ?thesis
      using d1 d2 same_tables_trans [OF d1(3) d2(3)] numa_counts_cong [OF d2(3-5)] by simp
  next
    case False
    then have "note_busy s d = Some d1" using d1(1) old by (simp add: note_busy_def)
    moreover have "?c \<notin> bmp (m_idle_cores d)" using False assms(5) by simp
    then have "numa_listed X d1" using goal ic d1(5) by (simp add: numa_listed_def)
    ultimately show ?thesis using d1 by blast
  qed
qed

lemma claim_cpu_ok:
  assumes "numa_wf d" "numa_counts (\<lambda>_. 0) d" "numa_listed X d" "s < m_cpu_count d"
  shows "if s \<notin> idle d then claim_cpu s d = Some (False, d)
    else \<exists>d'. claim_cpu s d = Some (True, d') \<and> numa_wf d' \<and> numa_counts (\<lambda>_. 0) d' \<and> numa_listed X d' \<and>
      same_tables d d' \<and> idle d' = idle d - {s}"
proof (cases "s \<in> idle d")
  case True
  obtain d1 where d1: "clear_idle_bit s d = Some (True, d1)" "numa_wf d1" "same_tables d d1"
    "idle d1 = idle d - {s}" "m_idle_cores d1 = m_idle_cores d"
    "numa_counts ((\<lambda>_. 0)(core_of d s := - 1)) d1"
    using clear_idle_bit_ok [OF assms(1,2,4)] True by auto
  have "insert s (idle d1) = idle d" using True d1(4) by auto
  then have "bmp (m_idle_cores d1) = {c. c < m_core_count d1 \<and> sibs d1 c \<subseteq> insert s (idle d1)} - X"
    using assms(3) d1(3,5) same_tables_sibs [OF d1(3)]
    by (simp add: numa_listed_def idle_cores_def same_tables_def)
  then obtain d2 where "note_busy s d1 = Some d2" "numa_wf d2" "numa_counts (\<lambda>_. 0) d2" "numa_listed X d2"
    "same_tables d1 d2" "idle d2 = idle d1"
    using note_busy_ok [OF d1(2), of s X] d1 assms(4) same_tables_core_of [OF d1(3)]
    by (auto simp: same_tables_def)
  then show ?thesis
    using True d1 same_tables_trans by (auto simp: claim_cpu_def)
qed (use clear_idle_bit_ok [OF assms(1,2,4)] in \<open>simp add: claim_cpu_def\<close>)

lemma mark_idle_ok:
  assumes "numa_ok d" "s < m_cpu_count d"
  shows "\<exists>d'. mark_idle s d = Some d' \<and> numa_ok d' \<and> same_tables d d' \<and> idle d' = insert s (idle d)"
proof (cases "s \<in> idle d")
  case True
  then show ?thesis
    using set_idle_bit_ok [of d "\<lambda>_. 0" s] assms by (auto simp: mark_idle_def numa_ok_def insert_absorb)
next
  case False
  have ok: "numa_wf d" "numa_counts (\<lambda>_. 0) d" "numa_listed {} d" using assms(1) by (simp_all add: numa_ok_def)
  let ?c = "core_of d s"
  have c: "?c < m_core_count d" by (rule core_of_bound [OF ok(1) assms(2)])
  obtain d1 where d1: "set_idle_bit s d = Some (True, d1)" "numa_wf d1" "same_tables d d1"
    "idle d1 = insert s (idle d)" "m_idle_cores d1 = m_idle_cores d"
    "numa_counts ((\<lambda>_. 0)(?c := 1)) d1"
    using set_idle_bit_ok [OF ok(1,2) assms(2)] False by auto
  have s1: "s < m_cpu_count d1" "core_of d1 s = ?c"
    using assms(2) d1(3) same_tables_core_of [OF d1(3)] by (simp_all add: same_tables_def)
  obtain d2 where d2: "add_busy (- 1) s d1 = Some (?c, of_nat (card (sibs d ?c - idle d1)) + 1, d2)"
    "numa_wf d2" "same_tables d1 d2" "idle d2 = idle d1" "m_idle_cores d2 = m_idle_cores d1"
    "numa_counts (\<lambda>_. 0) d2"
    using add_busy_ok [OF d1(2,6) s1(1), of "- 1"] s1(2) same_tables_sibs [OF d1(3)] by auto
  have old: "(of_nat (card (sibs d ?c - idle d1)) :: u32) + 1 = 1 \<longleftrightarrow> sibs d ?c \<subseteq> idle d1"
    using of_nat_card_sibs_eq [OF ok(1), of 0 ?c "idle d1"] by auto
  have same: "same_tables d d2" by (rule same_tables_trans [OF d1(3) d2(3)])
  have others: "k \<noteq> ?c \<Longrightarrow> sibs d k \<subseteq> idle d1 \<longleftrightarrow> sibs d k \<subseteq> idle d" for k
    unfolding d1(4) by (auto simp: in_sibs)
  have not_all: "\<not> sibs d ?c \<subseteq> idle d" using False assms(2) by (auto simp: in_sibs)
  have ic: "idle_cores d2 = {k. k < m_core_count d \<and> sibs d k \<subseteq> idle d1}"
    using same d2(4) by (simp add: idle_cores_def same_tables_sibs [OF same] same_tables_def)
  have listed: "bmp (m_idle_cores d2) = {k. k < m_core_count d \<and> sibs d k \<subseteq> idle d}"
    using ok(3) d1(5) d2(5) by (simp add: numa_listed_def idle_cores_def)
  show ?thesis
  proof (cases "sibs d ?c \<subseteq> idle d1")
    case True
    have "?c < m_core_count d2" using c same by (simp add: same_tables_def)
    then obtain d3 where d3: "list_core ?c d2 = Some d3" "numa_wf d3" "same_tables d2 d3"
      "idle d3 = idle d2" "m_cores d3 = m_cores d2" "bmp (m_idle_cores d3) = insert ?c (bmp (m_idle_cores d2))"
      using list_core_ok [OF d2(2)] by blast
    have "insert ?c {k. k < m_core_count d \<and> sibs d k \<subseteq> idle d} = idle_cores d2"
    proof (rule set_eqI)
      fix k show "k \<in> insert ?c {k. k < m_core_count d \<and> sibs d k \<subseteq> idle d} \<longleftrightarrow> k \<in> idle_cores d2"
        unfolding ic using True c others [of k] by (cases "k = ?c") auto
    qed
    moreover have "idle_cores d3 = idle_cores d2"
      using d3(3,4) by (simp add: idle_cores_def same_tables_sibs [OF d3(3)] same_tables_def)
    ultimately have "numa_listed {} d3" using d3(6) listed by (simp add: numa_listed_def)
    moreover have "mark_idle s d = Some d3" using d1(1) d2(1) d3(1) True old by (simp add: mark_idle_def)
    ultimately show ?thesis
      using d1 d2 d3 same_tables_trans [OF same d3(3)] numa_counts_cong [OF d3(3-5)]
      by (simp add: numa_ok_def)
  next
    case no: False
    then have "mark_idle s d = Some d2" using d1(1) d2(1) old by (simp add: mark_idle_def)
    moreover have "{k. k < m_core_count d \<and> sibs d k \<subseteq> idle d} = idle_cores d2"
    proof (rule set_eqI)
      fix k show "k \<in> {k. k < m_core_count d \<and> sibs d k \<subseteq> idle d} \<longleftrightarrow> k \<in> idle_cores d2"
        unfolding ic using no not_all others [of k] by (cases "k = ?c") auto
    qed
    then have "numa_listed {} d2" using listed by (simp add: numa_listed_def)
    ultimately show ?thesis using d1 d2 same by (simp add: numa_ok_def)
  qed
qed

lemma numa_okD:
  "numa_ok d \<Longrightarrow> numa_wf d" "numa_ok d \<Longrightarrow> numa_counts (\<lambda>_. 0) d" "numa_ok d \<Longrightarrow> numa_listed {} d"
  by (simp_all add: numa_ok_def)

lemma idle_bound: "numa_ok d \<Longrightarrow> s \<in> idle d \<Longrightarrow> s < m_cpu_count d"
  by (auto simp: numa_ok_def numa_counts_def)

lemma cpu_at_Some: "numa_wf d \<Longrightarrow> s < m_cpu_count d \<Longrightarrow> cpu_at d s = Some (slot_cpu (m_slots d ! s))"
  by (simp add: cpu_at_def at_def numa_wf_def)

text \<open>On a listed core the first sibling can be claimed, so one pass of the loop is enough.\<close>

lemma claim_core_in_ok:
  assumes "numa_ok d" "w < m_words d"
  shows "if \<exists>c \<in> idle_cores d. c div 64 = w
    then \<exists>c d'. c \<in> idle_cores d \<and> c div 64 = w \<and> (\<forall>k \<in> idle_cores d. k div 64 = w \<longrightarrow> c \<le> k) \<and>
      claim_core_in w d = Some (Some (slot_cpu (m_slots d ! core_first_slot (m_cores d ! c))), d') \<and>
      numa_ok d' \<and> same_tables d d' \<and> idle d' = idle d - {core_first_slot (m_cores d ! c)}
    else claim_core_in w d = Some (None, d)"
proof -
  note wf = numa_okD(1) [OF assms(1)]
  have w: "w < length (m_idle_cores d)" using assms wf by (simp add: numa_wf_def)
  let ?m = "m_idle_cores d ! w"
  have listed: "bmp (m_idle_cores d) = idle_cores d" using assms(1) by (simp add: numa_ok_def numa_listed_def)
  note none = bmp_word_0 [OF w, unfolded listed]
  show ?thesis
  proof (cases "?m = 0")
    case True
    then show ?thesis using none w
      by (subst claim_core_in.simps) (auto simp: at_def acquire_first_free_ok BITS_PER_WORD_def)
  next
    case False
    define c where "c = w * 64 + countr_zero ?m"
    note f = bmp_first_free [OF w False, folded c_def, unfolded listed]
    note z = countr_zero_char(1) [OF False]
    define s where "s = core_first_slot (m_cores d ! c)"
    have c: "c < m_core_count d" "sibs d c \<subseteq> idle d" using f(1) by (simp_all add: idle_cores_def)
    obtain n where n: "core_siblings (m_cores d ! c) = Suc n" "sibs d c = {s..<s + Suc n}"
      using wf c(1) unfolding numa_wf_def s_def by (metis gr0_implies_Suc)
    then have "s \<in> sibs d c" by simp
    then have s: "s < m_cpu_count d" "s \<in> idle d" "core_of d s = c" using c(2) by (auto simp: in_sibs)
    define d1 where "d1 = d\<lparr>m_idle_cores := (m_idle_cores d)[w := ?m AND (?m - 1)]\<rparr>"
    have d1: "numa_wf d1" "numa_counts (\<lambda>_. 0) d1" "same_tables d d1" "idle d1 = idle d"
      using assms(1) by (simp_all add: numa_ok_def numa_wf_def numa_counts_def same_tables_def d1_def idle_def sibs_def)
    have l1: "numa_listed {c} d1"
      using f(4) by (simp add: numa_listed_def d1_def idle_cores_def idle_def sibs_def)
    obtain d2 where d2: "claim_cpu s d1 = Some (True, d2)" "numa_wf d2" "numa_counts (\<lambda>_. 0) d2"
      "numa_listed {c} d2" "same_tables d1 d2" "idle d2 = idle d1 - {s}"
      using claim_cpu_ok [OF d1(1,2) l1, of s] s d1(3,4) by (auto simp: same_tables_def)
    have same: "same_tables d d2" by (rule same_tables_trans [OF d1(3) d2(5)])
    have "c \<notin> idle_cores d2"
      using d2(6) \<open>s \<in> sibs d c\<close> same_tables_sibs [OF same] by (auto simp: idle_cores_def)
    then have ok2: "numa_ok d2" using d2(2-4) by (simp add: numa_ok_def numa_listed_def)
    have "cpu_at d2 s = Some (slot_cpu (m_slots d ! s))"
      using cpu_at_Some [OF d2(2)] s(1) same by (simp add: same_tables_def)
    moreover have "[s..<s + core_siblings (m_cores d ! c)] = s # [Suc s..<s + Suc n]"
      by (simp add: n(1) upt_conv_Cons del: upt_Suc)
    ultimately have "claim_siblings [s..<s + core_siblings (m_cores d ! c)] d1 = Some (Some (slot_cpu (m_slots d ! s)), d2)"
      using d2(1) by simp
    then have "claim_core_in w d = Some (Some (slot_cpu (m_slots d ! s)), d2)"
      using w False z c(1) wf
      by (subst claim_core_in.simps)
        (simp add: at_def acquire_first_free_ok BITS_PER_WORD_def numa_wf_def c_def [symmetric] d1_def s_def)
    then show ?thesis
      using ok2 f none False d1(4) d2(6) same unfolding s_def by auto
  qed
qed

lemma claim_core_words_ok:
  assumes "numa_ok d" "j \<le> m_words d" "\<forall>k \<in> idle_cores d. j \<le> k div 64"
  shows "if idle_cores d = {} then claim_core_words [j..<m_words d] d = Some (NO_CPU, d)
    else \<exists>c d'. c \<in> idle_cores d \<and> (\<forall>k \<in> idle_cores d. c \<le> k) \<and>
      claim_core_words [j..<m_words d] d = Some (slot_cpu (m_slots d ! core_first_slot (m_cores d ! c)), d') \<and>
      numa_ok d' \<and> same_tables d d' \<and> idle d' = idle d - {core_first_slot (m_cores d ! c)}"
  using assms(2,3)
proof (induction j rule: inc_induct)
  case base
  have "c div 64 < m_words d" if "c \<in> idle_cores d" for c
    using that core_word_in_range [OF numa_okD(1) [OF assms(1)]] by (simp add: idle_cores_def)
  then have "idle_cores d = {}" using base by fastforce
  then show ?case by simp
next
  case (step j)
  note in_word = claim_core_in_ok [OF assms(1) step.hyps(2)]
  show ?case
  proof (cases "\<exists>c \<in> idle_cores d. c div 64 = j")
    case True
    then obtain c d' where c: "c \<in> idle_cores d" "c div 64 = j" "\<forall>k \<in> idle_cores d. k div 64 = j \<longrightarrow> c \<le> k"
      and d': "claim_core_in j d = Some (Some (slot_cpu (m_slots d ! core_first_slot (m_cores d ! c))), d')"
        "numa_ok d'" "same_tables d d'" "idle d' = idle d - {core_first_slot (m_cores d ! c)}"
      using in_word by auto
    have "\<forall>k \<in> idle_cores d. c \<le> k"
    proof
      fix k assume k: "k \<in> idle_cores d"
      then have "j \<le> k div 64" using step.prems by blast
      then show "c \<le> k"
        using c k by (metis div_le_mono le_antisym linorder_le_cases)
    qed
    then show ?thesis using c(1) d' step.hyps by (auto simp: upt_conv_Cons)
  next
    case False
    then have "claim_core_in j d = Some (None, d)" using in_word by simp
    then have eq: "claim_core_words [j..<m_words d] d = claim_core_words [Suc j..<m_words d] d"
      using step.hyps by (simp add: upt_conv_Cons)
    have later: "\<forall>k \<in> idle_cores d. Suc j \<le> k div 64"
      using False step.prems by (metis Suc_leI le_neq_implies_less)
    show ?thesis unfolding eq by (rule step.IH [OF later])
  qed
qed

lemma claim_cpu_words_ok:
  assumes "numa_ok d" "j \<le> m_words d" "\<forall>k \<in> idle d. j \<le> k div 64"
  shows "if idle d = {} then claim_cpu_words [j..<m_words d] d = Some (NO_CPU, d)
    else \<exists>s d'. s \<in> idle d \<and> (\<forall>k \<in> idle d. s \<le> k) \<and>
      claim_cpu_words [j..<m_words d] d = Some (slot_cpu (m_slots d ! s), d') \<and>
      numa_ok d' \<and> same_tables d d' \<and> idle d' = idle d - {s}"
  using assms(2,3)
proof (induction j rule: inc_induct)
  case base
  have "s div 64 < m_words d" if "s \<in> idle d" for s
    by (rule word_in_range [OF numa_okD(1) [OF assms(1)] idle_bound [OF assms(1) that]])
  then have "idle d = {}" using base by fastforce
  then show ?case by simp
next
  case (step j)
  note wf = numa_okD(1) [OF assms(1)]
  have w: "j < length (m_idle_cpus d)" using step.hyps wf by (simp add: numa_wf_def)
  let ?m = "m_idle_cpus d ! j"
  show ?case
  proof (cases "?m = 0")
    case True
    then have "\<forall>k \<in> idle d. k div 64 \<noteq> j" using bmp_word_0 [OF w] by (simp add: idle_def)
    then have later: "\<forall>k \<in> idle d. Suc j \<le> k div 64"
      using step.prems by (metis Suc_leI le_neq_implies_less)
    have eq: "claim_cpu_words [j..<m_words d] d = claim_cpu_words [Suc j..<m_words d] d"
    proof -
      have "(m_idle_cpus d)[j := 0] = m_idle_cpus d" using True by (metis list_update_id)
      then show ?thesis
        using True w step.hyps by (simp add: upt_conv_Cons at_def acquire_first_free_ok BITS_PER_WORD_def)
    qed
    show ?thesis unfolding eq by (rule step.IH [OF later])
  next
    case False
    define s where "s = j * 64 + countr_zero ?m"
    note f = bmp_first_free [OF w False, folded s_def idle_def]
    note z = countr_zero_char(1) [OF False]
    define d1 where "d1 = d\<lparr>m_idle_cpus := (m_idle_cpus d)[j := ?m AND (?m - 1)]\<rparr>"
    have s: "s < m_cpu_count d" by (rule idle_bound [OF assms(1) f(1)])
    have i1: "idle d1 = idle d - {s}" using f(4) by (simp add: d1_def idle_def)
    have d1: "numa_wf d1" "same_tables d d1"
      using wf by (simp_all add: numa_wf_def same_tables_def d1_def sibs_def)
    have "numa_counts ((\<lambda>_. 0)(core_of d s := - 1)) d1"
      unfolding numa_counts_def i1 same_tables_sibs [OF d1(2)]
      using numa_okD(2) [OF assms(1)] busy_card_insert [of s d "idle d - {s}"] f(1) s
      by (auto simp: numa_counts_def d1_def insert_absorb)
    moreover have "bmp (m_idle_cores d1) = {c. c < m_core_count d1 \<and> sibs d1 c \<subseteq> insert s (idle d1)} - {}"
      using numa_okD(3) [OF assms(1)] f(1)
      by (simp add: numa_listed_def idle_cores_def i1 insert_absorb) (simp add: d1_def sibs_def)
    ultimately obtain d2 where d2: "note_busy s d1 = Some d2" "numa_wf d2" "numa_counts (\<lambda>_. 0) d2"
      "numa_listed {} d2" "same_tables d1 d2" "idle d2 = idle d1"
      using note_busy_ok [OF d1(1), of s "{}"] s i1 same_tables_core_of [OF d1(2)] d1(2)
      by (auto simp: same_tables_def)
    have same: "same_tables d d2" by (rule same_tables_trans [OF d1(2) d2(5)])
    have "cpu_at d2 s = Some (slot_cpu (m_slots d ! s))"
      using cpu_at_Some [OF d2(2)] s same by (simp add: same_tables_def)
    then have "claim_cpu_words [j..<m_words d] d = Some (slot_cpu (m_slots d ! s), d2)"
      using w False z d2(1) step.hyps
      by (simp add: upt_conv_Cons at_def acquire_first_free_ok BITS_PER_WORD_def s_def [symmetric] d1_def [symmetric])
    moreover have "\<forall>k \<in> idle d. s \<le> k"
    proof
      fix k assume k: "k \<in> idle d"
      then have "j \<le> k div 64" using step.prems by blast
      then show "s \<le> k" using f k by (metis div_le_mono le_antisym linorder_le_cases idle_def)
    qed
    ultimately show ?thesis
      using f(1) d2 same i1 by (auto simp: numa_ok_def)
  qed
qed

end
