(* ===== verification/NumaProps.thy ===== *)
theory NumaProps
  imports NumaSpec
begin

text \<open>
  Properties of the NUMA domains: building one, any sequence of operations, what a claim
  returns, the count of busy siblings when the atomic parts of several operations interleave, the
  walk over the overloaded CPUs, and the layout of the tables in their block of pages.
\<close>

subsection \<open>Building a domain\<close>

definition tables_ok :: "cpu_placement list \<Rightarrow> nat \<Rightarrow> numa_slot list \<times> numa_core list \<Rightarrow> bool" where
  "tables_ok cpus n t \<longleftrightarrow> (case t of (slots, cores) \<Rightarrow>
     length slots = n \<and> length cores = length (filter (opens_core cpus) [0..<n]) \<and>
     (cores = [] \<longleftrightarrow> n = 0) \<and>
     (cores \<noteq> [] \<longrightarrow> core_first_slot (last cores) + core_siblings (last cores) = n) \<and>
     (\<forall>s < n. slot_core (slots ! s) < length cores \<and> slot_cpu (slots ! s) = pl_cpu (cpus ! s)) \<and>
     (\<forall>c < length cores. 0 < core_siblings (cores ! c) \<and>
        core_busy (cores ! c) = of_nat (core_siblings (cores ! c)) \<and>
        core_first_slot (cores ! c) + core_siblings (cores ! c) \<le> n \<and>
        (\<forall>s < n. slot_core (slots ! s) = c \<longleftrightarrow>
           core_first_slot (cores ! c) \<le> s \<and> s < core_first_slot (cores ! c) + core_siblings (cores ! c))))"

lemma tables_ok_open:
  assumes "tables_ok cpus n (slots, cores)" "opens_core cpus n"
  shows "tables_ok cpus (Suc n) (place_slot cpus (slots, cores) n)"
proof -
  let ?c = "length cores"
  have p: "place_slot cpus (slots, cores) n =
     (slots @ [\<lparr>slot_cpu = pl_cpu (cpus ! n), slot_core = ?c\<rparr>],
      cores @ [\<lparr>core_busy = 1, core_first_slot = n, core_siblings = 1\<rparr>])"
    using assms(2) by (simp add: place_slot_def)
  show ?thesis
    unfolding p using assms by (auto simp: tables_ok_def nth_append less_Suc_eq)
qed

lemma tables_ok_join:
  assumes "tables_ok cpus n (slots, cores)" "\<not> opens_core cpus n"
  shows "tables_ok cpus (Suc n) (place_slot cpus (slots, cores) n)"
proof -
  have "n \<noteq> 0" using assms(2) by (auto simp: opens_core_def)
  then have ne: "cores \<noteq> []" using assms(1) by (auto simp: tables_ok_def)
  then obtain cs core where cs: "cores = cs @ [core]" by (metis append_butlast_last_id)
  let ?core = "core\<lparr>core_busy := core_busy core + 1, core_siblings := core_siblings core + 1\<rparr>"
  have p: "place_slot cpus (slots, cores) n =
     (slots @ [\<lparr>slot_cpu = pl_cpu (cpus ! n), slot_core = length cs\<rparr>], cs @ [?core])"
    using assms(2) by (simp add: place_slot_def cs)
  have core: "core_first_slot core + core_siblings core = n" "core_busy core = of_nat (core_siblings core)"
    "0 < core_siblings core"
    "\<And>s. s < n \<Longrightarrow> slot_core (slots ! s) = length cs \<longleftrightarrow> core_first_slot core \<le> s \<and> s < core_first_slot core + core_siblings core"
    using assms(1) by (auto simp: tables_ok_def cs nth_append dest: spec [of _ "length cs"])
  have others: "c < length cs \<Longrightarrow> 0 < core_siblings (cs ! c) \<and>
        core_busy (cs ! c) = of_nat (core_siblings (cs ! c)) \<and>
        core_first_slot (cs ! c) + core_siblings (cs ! c) \<le> n \<and>
        (\<forall>s < n. slot_core (slots ! s) = c \<longleftrightarrow>
           core_first_slot (cs ! c) \<le> s \<and> s < core_first_slot (cs ! c) + core_siblings (cs ! c))" for c
    using assms(1) by (auto simp: tables_ok_def cs nth_append dest: spec [of _ c])
  have slots: "length slots = n"
    "\<And>s. s < n \<Longrightarrow> slot_core (slots ! s) < Suc (length cs) \<and> slot_cpu (slots ! s) = pl_cpu (cpus ! s)"
    using assms(1) by (auto simp: tables_ok_def cs)
  show ?thesis
    unfolding p tables_ok_def prod.case
  proof (intro conjI allI impI)
    fix s assume "s < Suc n"
    then consider "s < n" | "s = n" by (auto simp: less_Suc_eq)
    note ss = this
    show "slot_core ((slots @ [\<lparr>slot_cpu = pl_cpu (cpus ! n), slot_core = length cs\<rparr>]) ! s) < length (cs @ [?core])"
      by (cases rule: ss) (use slots in \<open>auto simp: nth_append\<close>)
    show "slot_cpu ((slots @ [\<lparr>slot_cpu = pl_cpu (cpus ! n), slot_core = length cs\<rparr>]) ! s) = pl_cpu (cpus ! s)"
      by (cases rule: ss) (use slots in \<open>auto simp: nth_append\<close>)
  next
    fix c assume "c < length (cs @ [?core])"
    then consider "c < length cs" | "c = length cs" by (auto simp: less_Suc_eq)
    note cc = this
    show "0 < core_siblings ((cs @ [?core]) ! c)"
      by (cases rule: cc) (auto simp: nth_append others core)
    show "core_busy ((cs @ [?core]) ! c) = of_nat (core_siblings ((cs @ [?core]) ! c))"
      by (cases rule: cc) (auto simp: nth_append others core)
    show "core_first_slot ((cs @ [?core]) ! c) + core_siblings ((cs @ [?core]) ! c) \<le> Suc n"
      by (cases rule: cc) (use core(1) others in \<open>auto simp: nth_append intro: le_SucI\<close>)
    fix s assume s: "s < Suc n"
    show "slot_core ((slots @ [\<lparr>slot_cpu = pl_cpu (cpus ! n), slot_core = length cs\<rparr>]) ! s) = c \<longleftrightarrow>
       core_first_slot ((cs @ [?core]) ! c) \<le> s \<and>
       s < core_first_slot ((cs @ [?core]) ! c) + core_siblings ((cs @ [?core]) ! c)"
    proof (cases rule: cc)
      case 1
      then show ?thesis using s slots(1) others [OF 1] by (auto simp: nth_append less_Suc_eq)
    next
      case 2
      then show ?thesis using s slots(1) core by (auto simp: nth_append less_Suc_eq)
    qed
  qed (use assms core(1) in \<open>auto simp: tables_ok_def cs\<close>)
qed

lemma tables_ok_fold: "tables_ok cpus n (foldl (place_slot cpus) ([], []) [0..<n])"
proof (induction n)
  case (Suc n)
  obtain slots cores where t: "foldl (place_slot cpus) ([], []) [0..<n] = (slots, cores)" by fastforce
  show ?case
    using Suc tables_ok_open [of cpus n slots cores] tables_ok_join [of cpus n slots cores]
    by (cases "opens_core cpus n") (simp_all add: t)
qed (simp add: tables_ok_def)

lemma numa_words:
  assumes "n < 2 ^ 32"
  shows "unat (div_round_up (of_nat n :: u32) (64 :: u32)) = (n + 63) div 64"
  using unat_div_round_up [of "64 :: u32" "of_nat n :: u32"] assms
  by (simp add: unat_of_nat take_bit_nat_eq_self)

lemma numa_initialize_ok:
  assumes "length cpus < 2 ^ 32" "numa_initialize alloc node cpus neighbors = Inr d"
  shows "numa_ok d \<and> idle d = {} \<and> m_cpu_count d = length cpus \<and> m_neighbors d = neighbors \<and>
    (\<forall>s < length cpus. slot_cpu (m_slots d ! s) = pl_cpu (cpus ! s))"
proof -
  let ?n = "length cpus"
  obtain slots cores where t: "foldl (place_slot cpus) ([], []) [0..<?n] = (slots, cores)" by fastforce
  have n: "unat (of_nat ?n :: u32) = ?n" using assms(1) by (simp add: unat_of_nat take_bit_nat_eq_self)
  have ok: "tables_ok cpus ?n (slots, cores)" using tables_ok_fold [of cpus ?n] t by simp
  have d: "m_slots d = slots" "m_cores d = cores" "m_cpu_count d = ?n" "m_neighbors d = neighbors"
    "m_core_count d = length (filter (opens_core cpus) [0..<?n])" "m_words d = (?n + 63) div 64"
    "m_idle_cpus d = replicate ((?n + 63) div 64) 0" "m_idle_cores d = replicate ((?n + 63) div 64) 0"
    "m_overloaded d = replicate ((?n + 63) div 64) 0"
    using assms(2) t n numa_words [OF assms(1)]
    by (auto simp: numa_initialize_def Let_def split: prod.splits option.splits)
  have sib: "sibs d c = {core_first_slot (cores ! c)..<core_first_slot (cores ! c) + core_siblings (cores ! c)}"
    if "c < length cores" for c
    using ok that by (fastforce simp: sibs_def tables_ok_def d)
  have i: "idle d = {}" by (simp add: idle_def d)
  have "length cores \<le> ?n" using ok length_filter_le [of "opens_core cpus" "[0..<?n]"]
    by (simp add: tables_ok_def)
  moreover have "?n \<le> 64 * ((?n + 63) div 64)" by linarith
  ultimately have "numa_wf d"
    using ok sib assms(1) by (auto simp: numa_wf_def d tables_ok_def)
  moreover have "numa_counts (\<lambda>_. 0) d"
    using ok sib by (auto simp: numa_counts_def i d tables_ok_def)
  moreover have "numa_listed {} d"
    using ok sib by (auto simp: numa_listed_def idle_cores_def i d tables_ok_def)
  ultimately show ?thesis using ok i by (auto simp: numa_ok_def d tables_ok_def)
qed

subsection \<open>Interleaved operations\<close>

text \<open>
  Between the change of a CPU's idle bit and the update of its core's count, and between that and
  the update of the core's bit, other CPUs may run any part of any operation.  The multiset
  holds what the operations in flight still have to do.  Claiming the first free bit of a word is
  claiming that bit; only the CPU itself sets its own idle bit, so its look at the bit and the
  change are one step.
\<close>

datatype pending = SubBusy nat | AddBusy nat | ListCore nat | UnlistCore nat

inductive numa_step :: "numa_domain \<times> pending multiset \<Rightarrow> numa_domain \<times> pending multiset \<Rightarrow> bool" where
  set_bit: "s < m_cpu_count d \<Longrightarrow> set_idle_bit s d = Some (True, d') \<Longrightarrow>
    numa_step (d, P) (d', add_mset (SubBusy s) P)"
| clear_bit: "s < m_cpu_count d \<Longrightarrow> clear_idle_bit s d = Some (True, d') \<Longrightarrow>
    numa_step (d, P) (d', add_mset (AddBusy s) P)"
| sub_busy: "add_busy (- 1) s d = Some (c, old, d') \<Longrightarrow>
    numa_step (d, add_mset (SubBusy s) P) (d', if old = 1 then add_mset (ListCore c) P else P)"
| add_busy: "add_busy 1 s d = Some (c, old, d') \<Longrightarrow>
    numa_step (d, add_mset (AddBusy s) P) (d', if old = 0 then add_mset (UnlistCore c) P else P)"
| list_core: "list_core c d = Some d' \<Longrightarrow> numa_step (d, add_mset (ListCore c) P) (d', P)"
| unlist_core: "unlist_core c d = Some d' \<Longrightarrow> numa_step (d, add_mset (UnlistCore c) P) (d', P)"
| take_core: "w < m_words d \<Longrightarrow> acquire_first_free (m_idle_cores d ! w) = (b, bits) \<Longrightarrow>
    numa_step (d, P) (d\<lparr>m_idle_cores := (m_idle_cores d)[w := bits]\<rparr>, P)"

text \<open>How far the count of a core is ahead of the bitmap, given what is still to be done.\<close>

definition pend_of :: "numa_domain \<Rightarrow> nat \<Rightarrow> pending \<Rightarrow> u32" where
  "pend_of d c x = (case x of SubBusy s \<Rightarrow> (if core_of d s = c then 1 else 0)
     | AddBusy s \<Rightarrow> (if core_of d s = c then - 1 else 0) | _ \<Rightarrow> 0)"

definition pend_off :: "numa_domain \<Rightarrow> pending multiset \<Rightarrow> nat \<Rightarrow> u32" where
  "pend_off d P c = (\<Sum>x\<in>#P. pend_of d c x)"

definition pend_valid :: "numa_domain \<Rightarrow> pending \<Rightarrow> bool" where
  "pend_valid d x = (case x of SubBusy s \<Rightarrow> s < m_cpu_count d | AddBusy s \<Rightarrow> s < m_cpu_count d
     | ListCore c \<Rightarrow> c < m_core_count d | UnlistCore c \<Rightarrow> c < m_core_count d)"

definition flight_ok :: "numa_domain \<times> pending multiset \<Rightarrow> bool" where
  "flight_ok st \<longleftrightarrow> (case st of (d, P) \<Rightarrow>
     numa_wf d \<and> numa_counts (pend_off d P) d \<and> (\<forall>x \<in># P. pend_valid d x))"

lemma pend_same:
  assumes "same_tables d d'"
  shows "pend_off d' = pend_off d" "pend_valid d' = pend_valid d"
proof -
  have "pend_of d' = pend_of d"
    by (simp add: pend_of_def [abs_def] same_tables_core_of [OF assms])
  then show "pend_off d' = pend_off d" by (simp add: pend_off_def [abs_def])
  show "pend_valid d' = pend_valid d"
    using assms by (simp add: pend_valid_def [abs_def] same_tables_def)
qed

lemma pend_off_add: "pend_off d (add_mset x P) c = pend_of d c x + pend_off d P c"
  by (simp add: pend_off_def)

lemma flight_okI:
  assumes "numa_wf d'" "same_tables d d'" "numa_counts p d'" "p = pend_off d P'" "\<forall>x \<in># P'. pend_valid d x"
  shows "flight_ok (d', P')"
  using assms pend_same [OF assms(2)] by (simp add: flight_ok_def)

lemma flight_ok_step: "numa_step st st' \<Longrightarrow> flight_ok st \<Longrightarrow> flight_ok st'"
proof (induction rule: numa_step.induct)
  case (set_bit s d d' P)
  then have ok: "numa_wf d" "numa_counts (pend_off d P) d" "\<forall>x \<in># P. pend_valid d x" by (auto simp: flight_ok_def)
  have "numa_wf d'" "same_tables d d'"
    "numa_counts ((pend_off d P)(core_of d s := pend_off d P (core_of d s) + 1)) d'"
    using set_idle_bit_ok [OF ok(1,2) set_bit(1)] set_bit(2) by (auto split: if_splits)
  then show ?case
    by (rule flight_okI) (use set_bit(1) ok(3) in \<open>auto simp: pend_off_add pend_of_def pend_valid_def\<close>)
next
  case (clear_bit s d d' P)
  then have ok: "numa_wf d" "numa_counts (pend_off d P) d" "\<forall>x \<in># P. pend_valid d x" by (auto simp: flight_ok_def)
  have "numa_wf d'" "same_tables d d'"
    "numa_counts ((pend_off d P)(core_of d s := pend_off d P (core_of d s) - 1)) d'"
    using clear_idle_bit_ok [OF ok(1,2) clear_bit(1)] clear_bit(2) by (auto split: if_splits)
  then show ?case
    by (rule flight_okI) (use clear_bit(1) ok(3) in \<open>auto simp: pend_off_add pend_of_def pend_valid_def\<close>)
next
  case (sub_busy s d c old d' P)
  let ?P = "add_mset (SubBusy s) P"
  have ok: "numa_wf d" "numa_counts (pend_off d ?P) d" "s < m_cpu_count d" "\<forall>x \<in># P. pend_valid d x"
    using sub_busy(2) by (auto simp: flight_ok_def pend_valid_def)
  have r: "numa_wf d'" "same_tables d d'" "c = core_of d s"
    "numa_counts ((pend_off d ?P)(c := pend_off d ?P c + - 1)) d'"
    using add_busy_ok [OF ok(1-3), of "- 1"] sub_busy(1) by auto
  show ?case
    by (rule flight_okI [OF r(1,2,4)])
      (use core_of_bound [OF ok(1,3)] ok(4) r(3) in \<open>auto simp: pend_off_add pend_of_def pend_valid_def\<close>)
next
  case (add_busy s d c old d' P)
  let ?P = "add_mset (AddBusy s) P"
  have ok: "numa_wf d" "numa_counts (pend_off d ?P) d" "s < m_cpu_count d" "\<forall>x \<in># P. pend_valid d x"
    using add_busy(2) by (auto simp: flight_ok_def pend_valid_def)
  have r: "numa_wf d'" "same_tables d d'" "c = core_of d s"
    "numa_counts ((pend_off d ?P)(c := pend_off d ?P c + 1)) d'"
    using add_busy_ok [OF ok(1-3), of 1] add_busy(1) by auto
  show ?case
    by (rule flight_okI [OF r(1,2,4)])
      (use core_of_bound [OF ok(1,3)] ok(4) r(3) in \<open>auto simp: pend_off_add pend_of_def pend_valid_def\<close>)
next
  case (list_core c d d' P)
  then have ok: "numa_wf d" "numa_counts (pend_off d P) d" "c < m_core_count d" "\<forall>x \<in># P. pend_valid d x"
    by (simp_all add: flight_ok_def pend_valid_def pend_off_add [abs_def] pend_of_def)
  have r: "numa_wf d'" "same_tables d d'" "idle d' = idle d" "m_cores d' = m_cores d"
    using list_core_ok [OF ok(1,3)] list_core(1) by auto
  show ?case
    by (rule flight_okI [OF r(1,2) _ refl ok(4)]) (simp add: numa_counts_cong [OF r(2-4)] ok(2))
next
  case (unlist_core c d d' P)
  then have ok: "numa_wf d" "numa_counts (pend_off d P) d" "c < m_core_count d" "\<forall>x \<in># P. pend_valid d x"
    by (simp_all add: flight_ok_def pend_valid_def pend_off_add [abs_def] pend_of_def)
  have r: "numa_wf d'" "same_tables d d'" "idle d' = idle d" "m_cores d' = m_cores d"
    using unlist_core_ok [OF ok(1,3)] unlist_core(1) by auto
  show ?case
    by (rule flight_okI [OF r(1,2) _ refl ok(4)]) (simp add: numa_counts_cong [OF r(2-4)] ok(2))
next
  case (take_core w d b bits P)
  then have ok: "numa_wf d" "numa_counts (pend_off d P) d" "\<forall>x \<in># P. pend_valid d x" by (auto simp: flight_ok_def)
  let ?d = "d\<lparr>m_idle_cores := (m_idle_cores d)[w := bits]\<rparr>"
  have "numa_wf ?d" "same_tables d ?d" "numa_counts (pend_off d P) ?d"
    using ok(1,2) by (simp_all add: numa_wf_def same_tables_def sibs_def numa_counts_def idle_def)
  then show ?case by (rule flight_okI) (use ok(3) in auto)
qed

lemma flight_ok_reachable: "numa_step\<^sup>*\<^sup>* st st' \<Longrightarrow> flight_ok st \<Longrightarrow> flight_ok st'"
  by (induction rule: rtranclp_induct) (auto intro: flight_ok_step)

lemma flight_ok_start: "numa_ok d \<Longrightarrow> flight_ok (d, {#})"
  by (simp add: flight_ok_def numa_ok_def pend_off_def [abs_def])

subsection \<open>Overloaded CPUs\<close>

text \<open>The reference for the walk: the callback applied to a list of CPUs until it says stop.\<close>

fun until :: "(u32 \<Rightarrow> 's \<Rightarrow> bool \<times> 's) \<Rightarrow> u32 list \<Rightarrow> 's \<Rightarrow> bool \<times> 's" where
  "until fn [] s = (False, s)"
| "until fn (c # cs) s = (case fn c s of (stop, s') \<Rightarrow> if stop then (True, s') else until fn cs s')"

definition overloaded_in :: "numa_domain \<Rightarrow> nat \<Rightarrow> u32 list" where
  "overloaded_in d word = map (\<lambda>s. slot_cpu (m_slots d ! s))
     (filter (\<lambda>s. s \<in> bmp (m_overloaded d)) [word * 64..<word * 64 + 64])"

lemma until_append: "until fn (xs @ ys) s = (case until fn xs s of (stop, s') \<Rightarrow>
    if stop then (True, s') else until fn ys s')"
  by (induction xs arbitrary: s) (auto split: prod.splits)

lemma filter_bit_lowest:
  fixes w :: "'a::len word"
  assumes "w \<noteq> 0"
  shows "filter (bit w) [0..<LENGTH('a)] = countr_zero w # filter (bit (w AND (w - 1))) [0..<LENGTH('a)]"
proof -
  let ?k = "countr_zero w"
  note k = countr_zero_char [OF assms]
  have split: "[0..<LENGTH('a)] = [0..<?k] @ ?k # [Suc ?k..<LENGTH('a)]" by (rule upt_split [OF k(1)])
  have "filter (bit w) [0..<?k] = []" "filter (bit (w AND (w - 1))) [0..<?k] = []"
    using k(3) by (auto simp: filter_empty_conv clear_lowest [OF assms])
  moreover have "filter (bit (w AND (w - 1))) [Suc ?k..<LENGTH('a)] = filter (bit w) [Suc ?k..<LENGTH('a)]"
    by (rule filter_cong) (auto simp: clear_lowest [OF assms])
  ultimately show ?thesis
    using k(2) clear_lowest [OF assms, of ?k] by (subst (1 2) split) simp
qed

lemma overloaded_bits_ok:
  assumes "\<And>i. bit bits i \<Longrightarrow> word * 64 + i < length (m_slots d)"
  shows "overloaded_bits d word fn bits s =
    Some (until fn (map (\<lambda>i. slot_cpu (m_slots d ! (word * 64 + i))) (filter (bit bits) [0..<64])) s)"
  using assms
proof (induction d word fn bits s rule: overloaded_bits.induct)
  case (1 d word fn bits s)
  show ?case
  proof (cases "bits = 0")
    case True
    then show ?thesis by (subst overloaded_bits.simps) simp
  next
    case False
    note k = countr_zero_char [OF False]
    have at: "cpu_at d (word * BITS_PER_WORD + countr_zero bits) = Some (slot_cpu (m_slots d ! (word * 64 + countr_zero bits)))"
      using "1.prems" [OF k(2)] by (simp add: cpu_at_def at_def BITS_PER_WORD_def)
    have later: "overloaded_bits d word fn (bits AND (bits - 1)) s' = Some (until fn (map (\<lambda>i. slot_cpu (m_slots d ! (word * 64 + i)))
        (filter (bit (bits AND (bits - 1))) [0..<64])) s')"
      if "fn (slot_cpu (m_slots d ! (word * 64 + countr_zero bits))) s = (False, s')" for s'
      by (rule "1.IH" [OF False at that [symmetric]]) (simp_all add: clear_lowest [OF False] "1.prems")
    show ?thesis
      using filter_bit_lowest [OF False] False at later
      by (subst overloaded_bits.simps) (auto split: prod.splits)
  qed
qed

lemma overloaded_in_word:
  assumes "word < length (m_overloaded d)"
  shows "overloaded_in d word = map (\<lambda>i. slot_cpu (m_slots d ! (word * 64 + i)))
    (filter (bit (m_overloaded d ! word)) [0..<64])"
proof -
  have "[word * 64..<word * 64 + 64] = map ((+) (word * 64)) [0..<64]"
    by (rule nth_equalityI) simp_all
  moreover have "filter (\<lambda>s. s \<in> bmp (m_overloaded d)) (map ((+) (word * 64)) [0..<64]) =
    map ((+) (word * 64)) (filter (bit (m_overloaded d ! word)) [0..<64])"
    unfolding filter_map
    by (rule arg_cong [where f = "map _"], rule filter_cong) (use assms in \<open>auto simp: bmp_def\<close>)
  ultimately show ?thesis by (simp add: overloaded_in_def comp_def)
qed

lemma overloaded_words_ok:
  assumes "\<And>i. i \<in> bmp (m_overloaded d) \<Longrightarrow> i < length (m_slots d)" "\<forall>w \<in> set ws. w < length (m_overloaded d)"
  shows "overloaded_words ws d fn s = Some (snd (until fn (concat (map (overloaded_in d) ws)) s))"
  using assms(2)
proof (induction ws arbitrary: s)
  case (Cons w ws)
  have w: "w < length (m_overloaded d)" using Cons.prems by simp
  have "overloaded_bits d w fn (m_overloaded d ! w) s = Some (until fn (overloaded_in d w) s)"
    unfolding overloaded_in_word [OF w]
  proof (rule overloaded_bits_ok)
    fix i assume b: "bit (m_overloaded d ! w) i"
    then have "i < 64" by (auto dest: bit_imp_le_length)
    then have "w * 64 + i \<in> bmp (m_overloaded d)" using b w by (simp add: bmp_def)
    then show "w * 64 + i < length (m_slots d)" by (rule assms(1))
  qed
  then show ?case
    using Cons w by (auto simp: at_def until_append split: prod.splits)
qed simp

subsection \<open>Sequences of operations\<close>

datatype numa_op = MarkIdle nat | MarkBusy nat | ClaimCpu nat | ClaimIdleCore | ClaimIdleCpu | SetOverloaded nat bool

fun numa_exec :: "numa_op \<Rightarrow> numa_domain \<Rightarrow> numa_domain option" where
  "numa_exec (MarkIdle s) d = mark_idle s d"
| "numa_exec (MarkBusy s) d = mark_busy s d"
| "numa_exec (ClaimCpu s) d = map_option snd (claim_cpu s d)"
| "numa_exec ClaimIdleCore d = map_option snd (claim_idle_core d)"
| "numa_exec ClaimIdleCpu d = map_option snd (claim_idle_cpu d)"
| "numa_exec (SetOverloaded s v) d = set_overloaded s v d"

fun op_slot :: "numa_op \<Rightarrow> nat option" where
  "op_slot (MarkIdle s) = Some s"
| "op_slot (MarkBusy s) = Some s"
| "op_slot (ClaimCpu s) = Some s"
| "op_slot (SetOverloaded s v) = Some s"
| "op_slot _ = None"

fun numa_run :: "numa_op list \<Rightarrow> numa_domain \<Rightarrow> numa_domain option" where
  "numa_run [] d = Some d"
| "numa_run (x # xs) d = do { d \<leftarrow> numa_exec x d; numa_run xs d }"

lemma set_overloaded_ok:
  assumes "numa_ok d" "s < m_cpu_count d"
  shows "\<exists>d'. set_overloaded s v d = Some d' \<and> numa_ok d' \<and> same_tables d d' \<and> idle d' = idle d \<and>
    bmp (m_overloaded d') = (if v then insert s (bmp (m_overloaded d)) else bmp (m_overloaded d) - {s})"
  using at_word(3,4) [OF numa_okD(1) [OF assms(1)] assms(2)] assms(1)
    bmp_release [of s "m_overloaded d"] bmp_acquire [of s "m_overloaded d"]
  by (simp add: set_overloaded_def numa_ok_def numa_wf_def numa_counts_def numa_listed_def idle_cores_def
      same_tables_def idle_def sibs_def word_of_def bit_of_def BITS_PER_WORD_def)

lemma claim_cpu_ok_seq:
  assumes "numa_ok d" "s < m_cpu_count d"
  shows "\<exists>d'. claim_cpu s d = Some (s \<in> idle d, d') \<and> numa_ok d' \<and> same_tables d d' \<and> idle d' = idle d - {s}"
  using claim_cpu_ok [OF numa_okD [OF assms(1)] assms(2)] assms(1)
  by (cases "s \<in> idle d") (auto simp: numa_ok_def)

lemma claim_idle_core_ok:
  assumes "numa_ok d"
  shows "if idle_cores d = {} then claim_idle_core d = Some (NO_CPU, d)
    else \<exists>c d'. c \<in> idle_cores d \<and> (\<forall>k \<in> idle_cores d. c \<le> k) \<and>
      claim_idle_core d = Some (slot_cpu (m_slots d ! core_first_slot (m_cores d ! c)), d') \<and>
      numa_ok d' \<and> same_tables d d' \<and> idle d' = idle d - {core_first_slot (m_cores d ! c)}"
  unfolding claim_idle_core_def by (rule claim_core_words_ok [OF assms]) simp_all

lemma claim_idle_cpu_ok:
  assumes "numa_ok d"
  shows "if idle d = {} then claim_idle_cpu d = Some (NO_CPU, d)
    else \<exists>s d'. s \<in> idle d \<and> (\<forall>k \<in> idle d. s \<le> k) \<and>
      claim_idle_cpu d = Some (slot_cpu (m_slots d ! s), d') \<and>
      numa_ok d' \<and> same_tables d d' \<and> idle d' = idle d - {s}"
  unfolding claim_idle_cpu_def by (rule claim_cpu_words_ok [OF assms]) simp_all

lemma numa_exec_ok:
  assumes "numa_ok d" "\<And>s. op_slot x = Some s \<Longrightarrow> s < m_cpu_count d"
  shows "\<exists>d'. numa_exec x d = Some d' \<and> numa_ok d' \<and> same_tables d d'"
proof (cases x)
  case (MarkIdle s)
  then show ?thesis using mark_idle_ok [OF assms(1)] assms(2) by auto
next
  case (MarkBusy s)
  then show ?thesis using claim_cpu_ok_seq [OF assms(1)] assms(2) by (fastforce simp: mark_busy_def)
next
  case (ClaimCpu s)
  then show ?thesis using claim_cpu_ok_seq [OF assms(1)] assms(2) by fastforce
next
  case ClaimIdleCore
  then show ?thesis
    using claim_idle_core_ok [OF assms(1)] assms(1) by (cases "idle_cores d = {}") auto
next
  case ClaimIdleCpu
  then show ?thesis
    using claim_idle_cpu_ok [OF assms(1)] assms(1) by (cases "idle d = {}") auto
next
  case (SetOverloaded s v)
  then show ?thesis using set_overloaded_ok [OF assms(1), of s v] assms(2) by auto
qed

lemma numa_run_ok:
  assumes "numa_ok d" "\<And>x s. x \<in> set xs \<Longrightarrow> op_slot x = Some s \<Longrightarrow> s < m_cpu_count d"
  shows "\<exists>d'. numa_run xs d = Some d' \<and> numa_ok d' \<and> same_tables d d'"
  using assms
proof (induction xs arbitrary: d)
  case (Cons x xs)
  obtain d1 where d1: "numa_exec x d = Some d1" "numa_ok d1" "same_tables d d1"
    using numa_exec_ok [OF Cons.prems(1), of x] Cons.prems(2) by auto
  have "m_cpu_count d1 = m_cpu_count d" using d1(3) by (simp add: same_tables_def)
  then obtain d2 where "numa_run xs d1 = Some d2" "numa_ok d2" "same_tables d1 d2"
    using Cons.IH [OF d1(2)] Cons.prems(2) by auto
  then show ?case using d1 same_tables_trans by auto
qed simp

lemma card_bmp: "card (bmp ws) = sum_list (map popcount ws) \<and> finite (bmp ws)"
proof (induction ws rule: rev_induct)
  case (snoc w ws)
  let ?B = "(\<lambda>i. length ws * 64 + i) ` {i. bit w i}"
  have mem: "k \<in> bmp (ws @ [w]) \<longleftrightarrow> k \<in> bmp ws \<or> k \<in> ?B" for k
  proof (cases "k div 64 = length ws")
    case True
    then have "k = length ws * 64 + k mod 64" by (metis div_mult_mod_eq)
    then have "k \<in> ?B \<longleftrightarrow> bit w (k mod 64)"
      by (metis (mono_tags, lifting) add_left_imp_eq image_iff mem_Collect_eq)
    then show ?thesis using True by (simp add: bmp_def)
  next
    case False
    then have "k \<notin> ?B" by (auto dest: bit_imp_le_length)
    then show ?thesis using False by (auto simp: bmp_def nth_append)
  qed
  then have eq: "bmp (ws @ [w]) = bmp ws \<union> ?B" by blast
  have "bmp ws \<inter> ?B = {}" by (auto simp: bmp_def dest: bit_imp_le_length)
  moreover have fin: "finite {i. bit w i}"
    by (rule finite_subset [of _ "{..<64}"]) (auto dest: bit_imp_le_length)
  moreover have "card ?B = popcount w"
    by (simp add: popcount_card card_image inj_on_def)
  ultimately show ?case
    unfolding eq using snoc by (simp add: card_Un_disjoint)
qed (simp add: bmp_def)

lemma idle_cpu_count_card: "numa_wf d \<Longrightarrow> idle_cpu_count d = card (idle d)"
  by (simp add: idle_cpu_count_def idle_def card_bmp numa_wf_def free_count_def [abs_def])

subsection \<open>The layout of the block\<close>

lemma reserve_ok:
  assumes "reserve size_of (2 ^ k) offset n = (start, after)" "k < 64"
    "unat offset + 2 ^ k + unat size_of * unat n < 2 ^ 64"
  shows "unat offset \<le> unat start" "unat start < unat offset + 2 ^ k" "2 ^ k dvd unat start"
    "unat after = unat start + unat size_of * unat n"
proof -
  have s: "start = align_up offset (2 ^ k :: u64)" "after = start + size_of * n"
    using assms(1) by (auto simp: reserve_def Let_def)
  have "unat offset + (2 ^ k - 1) < 2 ^ 64" using assms(3) by linarith
  then have u: "unat start = 2 ^ k * ((unat offset + (2 ^ k - 1)) div 2 ^ k)"
    using unat_align_up [of k offset, where 'u = 64] assms(2) by (simp add: s)
  note c = ceil_multiple [of "2 ^ k" "unat offset", folded u]
  show "unat offset \<le> unat start" "unat start < unat offset + 2 ^ k" "2 ^ k dvd unat start"
    using c by (simp_all add: u)
  have "unat start + unat size_of * unat n < 2 ^ 64" using c(3) assms(3) by simp
  then show "unat after = unat start + unat size_of * unat n"
    by (simp add: s(2) unat_word_ariths)
qed

lemma storage_order_ok: "unat offset \<le> 2 ^ storage_order offset * 4096"
proof -
  let ?m = "max offset 1" let ?p = "div_round_up ?m (4096 :: u64)"
  have m: "unat offset \<le> unat ?m" "0 < unat ?m"
    by (auto simp: word_le_nat_alt [symmetric] max_def unat_gt_0)
  have p: "unat ?p = (unat ?m + 4095) div 4096"
    using unat_div_round_up [of "4096 :: u64" ?m] by simp
  then have "0 < unat ?p" using m(2) by (simp add: div_greater_zero_iff)
  then have "unat ?p = Suc (unat (?p - 1))" by (simp add: unat_minus_one unat_gt_0)
  then have "unat ?p \<le> 2 ^ bit_width (?p - 1)" using unat_less_bit_width [of "?p - 1"] by simp
  moreover have "unat ?m \<le> unat ?p * 4096" unfolding p by linarith
  ultimately show ?thesis
    using m(1) unfolding storage_order_def Let_def
    by (meson le_trans mult_le_mono1)
qed

subsection \<open>Properties\<close>

definition demo_cpus :: "cpu_placement list" where
  "demo_cpus = [\<lparr>pl_cpu = 4, pl_core = 2\<rparr>, \<lparr>pl_cpu = 5, pl_core = 2\<rparr>, \<lparr>pl_cpu = 6, pl_core = 3\<rparr>]"

definition demo_domain :: numa_domain where
  "demo_domain = \<lparr>m_node_id = 0, m_cpu_count = 3, m_core_count = 2, m_words = 1,
     m_slots = [\<lparr>slot_cpu = 4, slot_core = 0\<rparr>, \<lparr>slot_cpu = 5, slot_core = 0\<rparr>, \<lparr>slot_cpu = 6, slot_core = 1\<rparr>],
     m_cores = [\<lparr>core_busy = 2, core_first_slot = 0, core_siblings = 2\<rparr>,
                \<lparr>core_busy = 1, core_first_slot = 2, core_siblings = 1\<rparr>],
     m_idle_cpus = [0], m_idle_cores = [0], m_overloaded = [0], m_neighbors = [1],
     m_storage = Some 0x1000, m_storage_order = 0\<rparr>"

lemma bmp_one_word: "bmp [w] = {k. bit w k}"
proof (rule set_eqI)
  fix k show "k \<in> bmp [w] \<longleftrightarrow> k \<in> {k. bit w k}"
    using bit_imp_le_length [of w k] by (cases "k < 64") (simp_all add: bmp_def, auto)
qed

lemma demo_initialize: "numa_initialize (\<lambda>_ _. Some 0x1000) 0 demo_cpus [1] = Inr demo_domain"
  by code_simp

text \<open>C12: However the atomic parts of marking and claiming CPUs interleave, the count of a core
  accounts for every sibling: whenever no count update is outstanding it is the number of
  siblings that are not listed as idle, although it may wrap around in between.\<close>

theorem numa_count_settles:
  assumes "numa_initialize alloc node cpus neighbors = Inr d" "length cpus < 2 ^ 32"
    "numa_step\<^sup>*\<^sup>* (d, {#}) (d', P)" "\<forall>x \<in># P. \<exists>c. x = ListCore c \<or> x = UnlistCore c"
    "c < m_core_count d'"
  shows "unat (core_busy (m_cores d' ! c)) = card {s. s < m_cpu_count d' \<and> core_of d' s = c \<and> s \<notin> idle d'}"
proof -
  have "flight_ok (d', P)"
    using numa_initialize_ok [OF assms(2,1)] flight_ok_reachable [OF assms(3)] flight_ok_start by blast
  then have ok: "numa_wf d'" "numa_counts (pend_off d' P) d'" by (simp_all add: flight_ok_def)
  have "pend_off d' P c = (\<Sum>x\<in>#P. 0)"
    unfolding pend_off_def using assms(4)
    by (intro arg_cong [of _ _ sum_mset] image_mset_cong) (auto simp: pend_of_def)
  then have "core_busy (m_cores d' ! c) = of_nat (card (sibs d' c - idle d'))"
    using ok(2) assms(5) by (simp add: numa_counts_def)
  moreover have "sibs d' c - idle d' = {s. s < m_cpu_count d' \<and> core_of d' s = c \<and> s \<notin> idle d'}"
    by (auto simp: in_sibs)
  ultimately show ?thesis
    using card_sibs [OF ok(1), of c "idle d'"] by (simp add: unat_of_nat take_bit_nat_eq_self)
qed

theorem numa_count_settles_witness:
  "\<exists>d' P. numa_step\<^sup>*\<^sup>* (demo_domain, {#}) (d', P) \<and> idle d' = {1} \<and> (1 :: nat) < m_core_count d' \<and>
     unat (core_busy (m_cores d' ! 0)) = card {s. s < m_cpu_count d' \<and> core_of d' s = 0 \<and> s \<notin> idle d'}"
proof -
  let ?d = "demo_domain\<lparr>m_idle_cpus := [2]\<rparr>"
  let ?d' = "?d\<lparr>m_cores := [\<lparr>core_busy = 1, core_first_slot = 0, core_siblings = 2\<rparr>,
                \<lparr>core_busy = 1, core_first_slot = 2, core_siblings = 1\<rparr>]\<rparr>"
  have "set_idle_bit 1 demo_domain = Some (True, ?d)" by code_simp
  then have "numa_step (demo_domain, {#}) (?d, add_mset (SubBusy 1) {#})"
    by (intro set_bit) (simp add: demo_domain_def)
  moreover have "add_busy (- 1) 1 ?d = Some (0, 2, ?d')" by code_simp
  then have "numa_step (?d, add_mset (SubBusy 1) {#}) (?d', {#})"
    using sub_busy [of 1 ?d 0 2 ?d' "{#}"] by simp
  ultimately have r: "numa_step\<^sup>*\<^sup>* (demo_domain, {#}) (?d', {#})"
    by (blast intro: converse_rtranclp_into_rtranclp)
  have "bit (2 :: u64) k \<longleftrightarrow> k = 1" for k
    using bit_single [of 1 k, where 'a = 64] by auto
  then have "idle ?d' = {1}"
    by (simp add: idle_def demo_domain_def bmp_one_word)
  moreover have "length demo_cpus < 2 ^ 32" by (simp add: demo_cpus_def)
  ultimately show ?thesis
    using r numa_count_settles [OF demo_initialize _ r, of 0]
    by (intro exI [of _ ?d'] exI [of _ "{#}"]) (simp add: demo_domain_def)
qed

text \<open>C13: After any sequence of operations on slots of the domain, no table is left, the counts
  and both bitmaps agree (a core is listed exactly when all of its siblings are idle), and
  \<^verbatim>\<open>idle_cpu_count\<close> is the number of idle CPUs.\<close>

theorem numa_operations_consistent:
  assumes "numa_initialize alloc node cpus neighbors = Inr d" "length cpus < 2 ^ 32"
    "\<And>x s. x \<in> set xs \<Longrightarrow> op_slot x = Some s \<Longrightarrow> s < length cpus"
  shows "\<exists>d'. numa_run xs d = Some d' \<and> idle_cpu_count d' = card (idle d') \<and>
    (\<forall>c < m_core_count d'.
       unat (core_busy (m_cores d' ! c)) = card (sibs d' c - idle d') \<and>
       (c \<in> bmp (m_idle_cores d') \<longleftrightarrow> sibs d' c \<subseteq> idle d'))"
proof -
  note init = numa_initialize_ok [OF assms(2,1)]
  obtain d' where d': "numa_run xs d = Some d'" "numa_ok d'"
    using numa_run_ok [of d xs] init assms(3) by auto
  note ok = numa_okD [OF d'(2)]
  have "unat (core_busy (m_cores d' ! c)) = card (sibs d' c - idle d')" if "c < m_core_count d'" for c
    using ok(2) that card_sibs [OF ok(1), of c "idle d'"]
    by (simp add: numa_counts_def unat_of_nat take_bit_nat_eq_self)
  moreover have "c \<in> bmp (m_idle_cores d') \<longleftrightarrow> sibs d' c \<subseteq> idle d'" if "c < m_core_count d'" for c
    using ok(3) that by (simp add: numa_listed_def idle_cores_def)
  ultimately show ?thesis using d' idle_cpu_count_card [OF ok(1)] by blast
qed

theorem numa_operations_consistent_witness:
  "\<exists>d'. numa_run [MarkIdle 2, MarkIdle 0, ClaimIdleCore, MarkIdle 1, ClaimIdleCpu] demo_domain = Some d' \<and>
     idle_cpu_count d' = card (idle d')"
  using numa_operations_consistent [OF demo_initialize, of "[MarkIdle 2, MarkIdle 0, ClaimIdleCore, MarkIdle 1, ClaimIdleCpu]"]
  by (fastforce simp: demo_cpus_def)

text \<open>C14: On a consistent domain \<^verbatim>\<open>claim_idle_core\<close> takes the first CPU of the lowest core with
  nothing running on it and returns \<^verbatim>\<open>NO_CPU\<close> with nothing changed if there is none;
  \<^verbatim>\<open>claim_idle_cpu\<close> does the same for the lowest idle slot.  Both return, and both leave the
  domain consistent with exactly that CPU no longer idle.\<close>

theorem numa_claims_lowest:
  assumes "numa_ok d"
  shows "\<exists>d1 d2.
    claim_idle_core d = Some (if idle_cores d = {} then NO_CPU
      else slot_cpu (m_slots d ! core_first_slot (m_cores d ! Min (idle_cores d))), d1) \<and>
    numa_ok d1 \<and> (if idle_cores d = {} then d1 = d
      else idle d1 = idle d - {core_first_slot (m_cores d ! Min (idle_cores d))}) \<and>
    claim_idle_cpu d = Some (if idle d = {} then NO_CPU else slot_cpu (m_slots d ! Min (idle d)), d2) \<and>
    numa_ok d2 \<and> (if idle d = {} then d2 = d else idle d2 = idle d - {Min (idle d)})"
proof -
  have fin: "finite (idle_cores d)" "finite (idle d)"
    by (simp_all add: idle_cores_def idle_def card_bmp)
  have c: "\<exists>d1. claim_idle_core d = Some (if idle_cores d = {} then NO_CPU
      else slot_cpu (m_slots d ! core_first_slot (m_cores d ! Min (idle_cores d))), d1) \<and>
    numa_ok d1 \<and> (if idle_cores d = {} then d1 = d
      else idle d1 = idle d - {core_first_slot (m_cores d ! Min (idle_cores d))})"
  proof (cases "idle_cores d = {}")
    case False
    then obtain c d1 where c: "c \<in> idle_cores d" "\<forall>k \<in> idle_cores d. c \<le> k" and d1: "numa_ok d1"
      "claim_idle_core d = Some (slot_cpu (m_slots d ! core_first_slot (m_cores d ! c)), d1)"
      "idle d1 = idle d - {core_first_slot (m_cores d ! c)}"
      using claim_idle_core_ok [OF assms] by auto
    have "Min (idle_cores d) = c" using c fin by (intro Min_eqI) auto
    then show ?thesis using False d1 by simp
  qed (use claim_idle_core_ok [OF assms] assms in simp)
  have s: "\<exists>d2. claim_idle_cpu d = Some (if idle d = {} then NO_CPU else slot_cpu (m_slots d ! Min (idle d)), d2) \<and>
    numa_ok d2 \<and> (if idle d = {} then d2 = d else idle d2 = idle d - {Min (idle d)})"
  proof (cases "idle d = {}")
    case False
    then obtain s d2 where s: "s \<in> idle d" "\<forall>k \<in> idle d. s \<le> k" and d2: "numa_ok d2"
      "claim_idle_cpu d = Some (slot_cpu (m_slots d ! s), d2)" "idle d2 = idle d - {s}"
      using claim_idle_cpu_ok [OF assms] by auto
    have "Min (idle d) = s" using s fin by (intro Min_eqI) auto
    then show ?thesis using False d2 by simp
  qed (use claim_idle_cpu_ok [OF assms] assms in simp)
  show ?thesis using c s by blast
qed

theorem numa_claims_lowest_witness:
  "numa_ok demo_domain \<and> (\<exists>d1 d2. claim_idle_core demo_domain = Some (NO_CPU, d1) \<and> d1 = demo_domain \<and>
     claim_idle_cpu demo_domain = Some (NO_CPU, d2) \<and> d2 = demo_domain)"
proof -
  note init = numa_initialize_ok [OF _ demo_initialize]
  have ok: "numa_ok demo_domain" "idle demo_domain = {}" using init by (simp_all add: demo_cpus_def)
  moreover have "sibs demo_domain c \<noteq> {}" if "c < m_core_count demo_domain" for c
    using that numa_okD(1) [OF ok(1)] by (auto simp: numa_wf_def)
  then have "idle_cores demo_domain = {}" using ok(2) by (auto simp: idle_cores_def)
  ultimately show ?thesis using numa_claims_lowest [OF ok(1)] by auto
qed

text \<open>The walk over the overloaded CPUs is the callback applied, until it says stop, to the
  overloaded CPUs in slot order, word by word from the word of the given slot and around.\<close>

theorem for_each_overloaded_order:
  assumes "numa_wf d" "\<And>i. i \<in> bmp (m_overloaded d) \<Longrightarrow> i < m_cpu_count d"
  shows "for_each_overloaded start_slot d fn s = Some (snd (until fn
    (concat (map (\<lambda>step. overloaded_in d ((start_slot div 64 + step) mod m_words d)) [0..<m_words d])) s))"
proof -
  have "overloaded_words (map (\<lambda>step. (start_slot div 64 + step) mod m_words d) [0..<m_words d]) d fn s =
    Some (snd (until fn (concat (map (overloaded_in d)
      (map (\<lambda>step. (start_slot div 64 + step) mod m_words d) [0..<m_words d]))) s))"
    by (rule overloaded_words_ok) (use assms in \<open>auto simp: numa_wf_def\<close>)
  then show ?thesis
    by (simp add: for_each_overloaded_def word_of_def BITS_PER_WORD_def comp_def)
qed

theorem for_each_overloaded_order_witness:
  "for_each_overloaded 0 (demo_domain\<lparr>m_overloaded := [5]\<rparr>) (\<lambda>cpu seen. (False, seen @ [cpu])) [] = Some [4, 6]"
proof -
  let ?d = "demo_domain\<lparr>m_overloaded := [5]\<rparr>"
  have "numa_wf demo_domain"
    using numa_initialize_ok [OF _ demo_initialize] by (simp add: demo_cpus_def numa_ok_def)
  then have "numa_wf ?d" by (simp add: numa_wf_def sibs_def demo_domain_def)
  moreover have "i < m_cpu_count ?d" if "i \<in> bmp (m_overloaded ?d)" for i
  proof (rule ccontr)
    assume "\<not> i < m_cpu_count ?d"
    then have "(2 :: nat) ^ 3 \<le> 2 ^ i" by (intro power_increasing) (simp_all add: demo_domain_def)
    then show False using that unat_ge_bit [of "5 :: u64" i] by (simp add: bmp_one_word)
  qed
  moreover have "overloaded_in ?d 0 = [4, 6]"
  proof -
    have "filter (bit (5 :: u64)) [0..<64] = [0, 2]" by code_simp
    then show ?thesis by (subst overloaded_in_word) (simp_all add: demo_domain_def)
  qed
  ultimately show ?thesis
    using for_each_overloaded_order [of ?d 0 "\<lambda>cpu seen. (False, seen @ [cpu])" "[]"]
    by (simp add: demo_domain_def)
qed

text \<open>C15: The four tables of a domain lie one behind the other in the block, each aligned for
  its elements, and the order that is asked for gives enough pages for all of them.\<close>

theorem numa_layout_fits:
  assumes "cpus < 2 ^ 32" "cores \<le> cpus" "words \<le> cpus" "neighbors < 2 ^ 32"
    "numa_layout cpus cores words neighbors = (slots_at, cores_at, bitmaps_at, neighbors_at, offset)"
  shows "slots_at = 0 \<and> 8 * cpus \<le> unat cores_at \<and> unat cores_at + 12 * cores \<le> unat bitmaps_at \<and>
    unat bitmaps_at + 8 * (words * 3) \<le> unat neighbors_at \<and>
    unat neighbors_at + 4 * neighbors = unat offset \<and>
    4 dvd unat cores_at \<and> 8 dvd unat bitmaps_at \<and> 4 dvd unat neighbors_at \<and>
    unat offset \<le> 2 ^ storage_order offset * 4096"
proof -
  have n: "unat (of_nat k :: u64) = k" if "k < 2 ^ 35" for k
    using that by (simp add: unat_of_nat take_bit_nat_eq_self)
  obtain o1 where r1: "reserve 8 (2 ^ 2) 0 (of_nat cpus) = (slots_at, o1)"
    and o1: "\<exists>o2. reserve 12 (2 ^ 2) o1 (of_nat cores) = (cores_at, o2) \<and>
      (\<exists>o3. reserve 8 (2 ^ 3) o2 (of_nat (words * 3)) = (bitmaps_at, o3) \<and>
        reserve 4 (2 ^ 2) o3 (of_nat neighbors) = (neighbors_at, offset))"
    using assms(5) unfolding numa_layout_def by (auto split: prod.splits)
  then obtain o2 o3 where r2: "reserve 12 (2 ^ 2) o1 (of_nat cores) = (cores_at, o2)"
    and r3: "reserve 8 (2 ^ 3) o2 (of_nat (words * 3)) = (bitmaps_at, o3)"
    and r4: "reserve 4 (2 ^ 2) o3 (of_nat neighbors) = (neighbors_at, offset)" by blast
  note u = n [of cpus] n [of cores] n [of "words * 3"] n [of neighbors]
  have a1: "slots_at = 0" using r1 by (auto simp: reserve_def Let_def align_up_def)
  have b1: "unat o1 = 8 * cpus"
    using reserve_ok(4) [OF r1] assms(1) u(1) a1 by simp
  have b2: "unat o1 \<le> unat cores_at" "unat cores_at < unat o1 + 4" "4 dvd unat cores_at" "unat o2 = unat cores_at + 12 * cores"
    using reserve_ok [OF r2] assms(1,2) u(2) b1 by simp_all
  have b3: "unat o2 \<le> unat bitmaps_at" "unat bitmaps_at < unat o2 + 8" "8 dvd unat bitmaps_at" "unat o3 = unat bitmaps_at + 8 * (words * 3)"
    using reserve_ok [OF r3] assms(1-3) u(3) b1 b2(2,4) by simp_all
  have b4: "unat o3 \<le> unat neighbors_at" "4 dvd unat neighbors_at" "unat offset = unat neighbors_at + 4 * neighbors"
    using reserve_ok [OF r4] assms(1-4) u(4) b1 b2(2,4) b3(2,4) by simp_all
  show ?thesis
    using a1 b1 b2 b3 b4 storage_order_ok [of offset] by simp
qed

theorem numa_layout_fits_witness:
  "numa_layout 3 2 1 1 = (0, 24, 48, 72, 76) \<and> unat (76 :: u64) \<le> 2 ^ storage_order 76 * 4096"
proof -
  have l: "numa_layout 3 2 1 1 = (0, 24, 48, 72, 76)" by code_simp
  show ?thesis using l numa_layout_fits [OF _ _ _ _ l] by simp
qed

end
