(* ===== verification/Swar.thy ===== *)
theory Swar
  imports Prelude
begin

text \<open>
  The word-at-a-time helpers of \<^verbatim>\<open>klib/src/include/string.hpp\<close> on an explicit memory, a function
  from 64-bit addresses to bytes; address arithmetic wraps.  A load or store of an integer of
  any width is little endian.  The facts at the end say what the byte tricks compute: which byte
  of a word they flag, and that a chunk comparison finds the first difference.
\<close>

subsection \<open>Memory\<close>

type_synonym mem = "addr \<Rightarrow> u8"

fun le_bytes :: "u8 list \<Rightarrow> 'a::len word" where
  "le_bytes [] = 0"
| "le_bytes (b # bs) = ucast b OR push_bit 8 (le_bytes bs)"

definition unaligned_load :: "mem \<Rightarrow> addr \<Rightarrow> 'a::len word" where
  "unaligned_load m p = le_bytes (map (\<lambda>i. m (p + of_nat i)) [0..<LENGTH('a) div 8])"

definition byte_of :: "'a::len word \<Rightarrow> nat \<Rightarrow> u8" where
  "byte_of v i = ucast (drop_bit (8 * i) v)"

definition unaligned_store :: "addr \<Rightarrow> 'a::len word \<Rightarrow> mem \<Rightarrow> mem" where
  "unaligned_store p v m = (\<lambda>a. if unat (a - p) < LENGTH('a) div 8 then byte_of v (unat (a - p)) else m a)"

subsection \<open>The helpers\<close>

definition ones :: "'a::len word" where
  "ones = NOT 0 div 0xFF"

definition has_zero_byte :: "'a::len word \<Rightarrow> 'a word" where
  "has_zero_byte v = (v - ones) AND NOT v AND push_bit 7 ones"

definition zero_bytes :: "u64 \<Rightarrow> u64" where
  "zero_bytes v = (let lows = 0x7F7F7F7F7F7F7F7F in NOT (((v AND lows) + lows) OR v OR lows))"

definition broadcast_byte :: "u8 \<Rightarrow> u64" where
  "broadcast_byte c = ucast c * 0x0101010101010101"

definition low_bytes :: "nat \<Rightarrow> u64" where
  "low_bytes n = push_bit (n * 8) 1 - 1"

definition word_offset :: "addr \<Rightarrow> nat" where
  "word_offset p = unat (p AND 7)"

definition load_aligned_word :: "mem \<Rightarrow> addr \<Rightarrow> u64" where
  "load_aligned_word m p = unaligned_load m (p AND NOT 7)"

text \<open>\<^verbatim>\<open>rep movsb\<close> and \<^verbatim>\<open>rep stosb\<close> with the direction flag clear: one byte at a time, upwards.\<close>

primrec rep_movsb :: "nat \<Rightarrow> addr \<Rightarrow> addr \<Rightarrow> mem \<Rightarrow> mem" where
  "rep_movsb 0 dest src m = m"
| "rep_movsb (Suc n) dest src m = rep_movsb n (dest + 1) (src + 1) (m(dest := m src))"

primrec rep_stosb :: "nat \<Rightarrow> addr \<Rightarrow> u8 \<Rightarrow> mem \<Rightarrow> mem" where
  "rep_stosb 0 dest val m = m"
| "rep_stosb (Suc n) dest val m = rep_stosb n (dest + 1) val (m(dest := val))"

text \<open>
  The templates below take the chunk type as a type argument in the source; here it is the type of
  the first argument, a token whose value is not used.
\<close>

definition copy_chunk :: "'a::len itself \<Rightarrow> addr \<Rightarrow> addr \<Rightarrow> addr \<Rightarrow> mem \<Rightarrow> mem" where
  "copy_chunk _ dest src offset m =
     unaligned_store (dest + offset) (unaligned_load m (src + offset) :: 'a word) m"

definition transfer_chunks :: "'a::len itself \<Rightarrow> addr \<Rightarrow> addr \<Rightarrow> addr list \<Rightarrow> mem \<Rightarrow> mem" where
  "transfer_chunks _ dest src offsets m =
     (let snapshot = map (\<lambda>offset. unaligned_load m (src + offset) :: 'a word) offsets
      in fold (\<lambda>(offset, v). unaligned_store (dest + offset) v) (zip offsets snapshot) m)"

definition diff_bytes :: "'a::len word \<Rightarrow> 'a word \<Rightarrow> int" where
  "diff_bytes v1 v2 = (let shift = countr_zero (v1 XOR v2) div 8 * 8 in
     uint (drop_bit shift v1 AND 0xFF) - uint (drop_bit shift v2 AND 0xFF))"

definition check_chunk :: "'a::len itself \<Rightarrow> mem \<Rightarrow> addr \<Rightarrow> addr \<Rightarrow> addr \<Rightarrow> int" where
  "check_chunk _ m p1 p2 offset =
     (let v1 = unaligned_load m (p1 + offset) :: 'a word; v2 = unaligned_load m (p2 + offset) :: 'a word
      in if v1 = v2 then 0 else diff_bytes v1 v2)"

definition find_in_chunk :: "'a::len itself \<Rightarrow> mem \<Rightarrow> addr \<Rightarrow> addr \<Rightarrow> u64 \<Rightarrow> ptr" where
  "find_in_chunk _ m base offset pattern =
     (let v = unaligned_load m (base + offset) :: 'a word;
          found = has_zero_byte (v XOR ucast pattern)
      in if found \<noteq> 0 then Some (base + offset + of_nat (countr_zero found div 8)) else None)"

subsection \<open>Bytes of words\<close>

lemma bit_le_bytes:
  "bit (le_bytes bs :: 'a::len word) k \<longleftrightarrow>
     k < LENGTH('a) \<and> k div 8 < length bs \<and> bit (bs ! (k div 8)) (k mod 8)"
proof (induction bs arbitrary: k)
  case (Cons b bs)
  show ?case
  proof (cases "k < 8")
    case False
    then have "k div 8 = Suc ((k - 8) div 8)" "k mod 8 = (k - 8) mod 8"
      by (simp_all add: le_div_geq le_mod_geq not_less)
    then show ?thesis
      using Cons [of "k - 8"] False bit_imp_le_length [of b k]
      by (auto simp: bit_or_iff bit_push_bit_iff bit_unsigned_iff)
  qed (auto simp: bit_or_iff bit_push_bit_iff bit_unsigned_iff)
qed simp

lemma bit_byte_of: "bit (byte_of v i) k \<longleftrightarrow> k < 8 \<and> bit v (8 * i + k)"
  by (auto simp: byte_of_def bit_unsigned_iff bit_drop_bit_eq)

lemma bit_byte_split: "bit v k \<longleftrightarrow> bit (byte_of v (k div 8)) (k mod 8)"
  by (simp add: bit_byte_of)

lemma byte_of_load:
  assumes "LENGTH('a) = 8 * n" "i < n"
  shows "byte_of (unaligned_load m p :: 'a::len word) i = m (p + of_nat i)"
  by (rule bit_word_eqI) (use assms in \<open>simp add: bit_byte_of unaligned_load_def bit_le_bytes\<close>)

lemma byte_of_outside: "LENGTH('a) \<le> 8 * i \<Longrightarrow> byte_of (v :: 'a::len word) i = 0"
  by (rule bit_word_eqI) (auto simp: bit_byte_of dest: bit_imp_le_length)

lemma word_eq_bytes:
  assumes "LENGTH('a) = 8 * n" "\<And>i. i < n \<Longrightarrow> byte_of (v :: 'a::len word) i = byte_of w i"
  shows "v = w"
proof (rule bit_word_eqI)
  fix k assume "k < LENGTH('a)"
  then have "k div 8 < n" using assms(1) by (simp add: less_mult_imp_div_less)
  then show "bit v k = bit w k" using assms(2) bit_byte_split by metis
qed

lemma byte_of_bitwise:
  "byte_of (v XOR w) i = byte_of v i XOR byte_of w i" "byte_of (v OR w) i = byte_of v i OR byte_of w i"
  "byte_of (v AND w) i = byte_of v i AND byte_of w i"
  by (rule bit_word_eqI; simp add: bit_byte_of bit_xor_iff bit_or_iff bit_and_iff)+

lemma pow256: "(256 :: int) ^ i = 2 ^ (8 * i)"
  by (simp add: power_mult)

lemma uint_byte_of_int:
  assumes "8 * i + 8 \<le> LENGTH('a)"
  shows "uint (byte_of (word_of_int z :: 'a::len word) i) = z div 256 ^ i mod 256"
proof -
  have "byte_of (word_of_int z :: 'a word) i = word_of_int (drop_bit (8 * i) z)"
    using assms by (intro bit_word_eqI) (simp add: bit_byte_of bit_word_of_int_iff bit_drop_bit_eq)
  then show ?thesis by (simp add: uint_word_of_int take_bit_eq_mod drop_bit_eq_div pow256)
qed

lemma uint_byte_of:
  "8 * i + 8 \<le> LENGTH('a) \<Longrightarrow> uint (byte_of (v :: 'a::len word) i) = uint v div 256 ^ i mod 256"
  using uint_byte_of_int [of i "uint v", where 'a = 'a] by simp

text \<open>Digits of a number in base 256.\<close>

lemma digit_shift:
  fixes x :: "nat \<Rightarrow> int"
  shows "(\<Sum>j<Suc n. x j * 256 ^ j) = x 0 + 256 * (\<Sum>j<n. x (Suc j) * 256 ^ j)"
proof -
  have "(\<Sum>j<Suc n. x j * 256 ^ j) = x 0 + (\<Sum>j<n. x (Suc j) * 256 ^ Suc j)"
    by (subst sum.lessThan_Suc_shift) simp
  also have "(\<Sum>j<n. x (Suc j) * 256 ^ Suc j) = 256 * (\<Sum>j<n. x (Suc j) * 256 ^ j)"
    by (simp add: sum_distrib_left mult.left_commute)
  finally show ?thesis .
qed

lemma digit_sum:
  fixes x :: "nat \<Rightarrow> int"
  assumes "\<And>j. 0 \<le> x j \<and> x j < 256" "i < n"
  shows "(\<Sum>j<n. x j * 256 ^ j) div 256 ^ i mod 256 = x i"
  using assms
proof (induction i arbitrary: x n)
  case 0
  then obtain n' where n: "n = Suc n'" by (cases n) auto
  show ?case unfolding n digit_shift using 0(1) [of 0] by simp
next
  case (Suc i)
  then obtain n' where n: "n = Suc n'" "i < n'" by (cases n) auto
  have "(\<Sum>j<n. x j * 256 ^ j) div 256 = (\<Sum>j<n'. x (Suc j) * 256 ^ j)"
    unfolding n(1) digit_shift using Suc.prems(1) [of 0] by simp
  then have "(\<Sum>j<n. x j * 256 ^ j) div 256 ^ Suc i = (\<Sum>j<n'. x (Suc j) * 256 ^ j) div 256 ^ i"
    by (simp add: zdiv_zmult2_eq)
  then show ?case using Suc.IH [of "\<lambda>j. x (Suc j)" n'] Suc.prems(1) n(2) by simp
qed

lemma sum_digits_bound:
  fixes x :: "nat \<Rightarrow> int"
  assumes "\<And>j. 0 \<le> x j \<and> x j < 256"
  shows "0 \<le> (\<Sum>j<n. x j * 256 ^ j) \<and> (\<Sum>j<n. x j * 256 ^ j) < 256 ^ n"
proof (induction n)
  case (Suc n)
  have "x n * 256 ^ n \<le> 255 * 256 ^ n" "0 \<le> x n * 256 ^ n"
    using assms [of n] by (auto intro!: mult_right_mono)
  then show ?case using Suc unfolding sum.lessThan_Suc power_Suc by linarith
qed simp

lemma uint_sum_bytes:
  assumes "LENGTH('a) = 8 * n"
  shows "uint (v :: 'a::len word) = (\<Sum>j<n. uint (byte_of v j) * 256 ^ j)"
proof -
  have "uint v mod 256 ^ k = (\<Sum>j<k. uint (byte_of v j) * 256 ^ j)" if "k \<le> n" for k
    using that
  proof (induction k)
    case (Suc k)
    have "uint v mod 256 ^ Suc k = 256 ^ k * (uint v div 256 ^ k mod 256) + uint v mod 256 ^ k"
      using zmod_zmult2_eq [of 256 "uint v" "256 ^ k"] by (simp add: mult.commute)
    then show ?case using Suc assms uint_byte_of [of k v] by simp
  qed simp
  from this [of n] show ?thesis using uint_bound [of v] assms by (simp add: pow256)
qed

subsection \<open>The first zero byte\<close>

lemma uint_ones:
  assumes "LENGTH('a) = 8 * n"
  shows "uint (ones :: 'a::len word) = (\<Sum>j<n. 256 ^ j)"
proof -
  have n: "0 < n" using assms len_gt_0 [where 'a = 'a] by (cases n) auto
  have "255 * (\<Sum>j<n. 256 ^ j) = (256 :: int) ^ n - 1"
    by (induction n) (simp_all add: algebra_simps)
  moreover have "uint (NOT 0 :: 'a word) = 256 ^ n - 1"
    using assms by (simp add: unsigned_minus_1_eq_mask mask_eq_exp_minus_1 pow256)
  moreover have "uint (0xFF :: 'a word) = 255"
  proof -
    have "(255 :: int) < 2 ^ LENGTH('a)"
      using power_increasing [of 8 "LENGTH('a)" "2 :: int"] n assms by simp
    then show ?thesis by (simp add: take_bit_int_eq_self)
  qed
  ultimately have "uint (ones :: 'a word) = 255 * (\<Sum>j<n. 256 ^ j) div 255"
    unfolding ones_def uint_div by simp
  then show ?thesis by simp
qed

lemma byte_of_ones:
  assumes "LENGTH('a) = 8 * n" "i < n"
  shows "byte_of (ones :: 'a::len word) i = 1"
proof -
  have "uint (byte_of (ones :: 'a word) i) = 1"
    using digit_sum [of "\<lambda>_. 1" i n] assms uint_byte_of [of i "ones :: 'a word"]
    by (simp add: uint_ones [OF assms(1)])
  then show ?thesis by (simp add: word_uint_eq_iff)
qed

lemma div_diff_no_borrow:
  fixes a b B :: int
  assumes "0 < B" "b mod B \<le> a mod B"
  shows "(a - b) div B = a div B - b div B"
proof -
  have "a - b = (a div B - b div B) * B + (a mod B - b mod B)"
    by (simp add: algebra_simps minus_mod_eq_div_mult [symmetric])
  moreover have "0 \<le> a mod B - b mod B" "a mod B - b mod B < B"
    using assms pos_mod_sign [of B b] pos_mod_bound [of B a] by linarith+
  ultimately show ?thesis
    by (metis (no_types) assms(1) div_pos_pos_trivial add.right_neutral div_mult_self3 less_irrefl)
qed

lemma ones_below:
  assumes "LENGTH('a) = 8 * n" "i \<le> n" "\<And>j. j < i \<Longrightarrow> byte_of (v :: 'a::len word) j \<noteq> 0"
  shows "uint (ones :: 'a word) mod 256 ^ i \<le> uint v mod 256 ^ i"
  using assms(2,3)
proof (induction i)
  case (Suc i)
  have split: "uint w mod 256 ^ Suc i = 256 ^ i * uint (byte_of w i) + uint w mod 256 ^ i" for w :: "'a word"
    using zmod_zmult2_eq [of 256 "uint w" "256 ^ i"] uint_byte_of [of i w] assms(1) Suc.prems(1)
    by (simp add: mult.commute)
  have "0 < uint (byte_of v i)"
    using Suc.prems(2) [of i] uint_bound(1) [of "byte_of v i"] by (simp add: word_uint_eq_iff order_less_le)
  then have "256 ^ i * 1 \<le> 256 ^ i * uint (byte_of v i)" by (intro mult_left_mono) simp_all
  moreover have "uint (ones :: 'a word) mod 256 ^ i \<le> uint v mod 256 ^ i"
    using Suc by simp
  moreover have one: "uint (byte_of (ones :: 'a word) i) = 1"
    using byte_of_ones [OF assms(1), of i] Suc.prems(1) by simp
  ultimately show ?case unfolding split one by linarith
qed simp

lemma byte_of_minus_ones:
  assumes "LENGTH('a) = 8 * n" "i < n" "\<And>j. j < i \<Longrightarrow> byte_of (v :: 'a::len word) j \<noteq> 0"
  shows "byte_of (v - ones) i = byte_of v i - 1"
proof -
  have le: "8 * i + 8 \<le> LENGTH('a)" using assms(1,2) by simp
  have "v - ones = word_of_int (uint v - uint (ones :: 'a word))" by simp
  then have "uint (byte_of (v - ones) i) = (uint v - uint (ones :: 'a word)) div 256 ^ i mod 256"
    using uint_byte_of_int [OF le] by metis
  also have "\<dots> = (uint v div 256 ^ i - uint (ones :: 'a word) div 256 ^ i) mod 256"
    using ones_below [OF assms(1) _ assms(3)] assms(2) by (subst div_diff_no_borrow) simp_all
  also have "\<dots> = (uint (byte_of v i) - uint (byte_of (ones :: 'a word) i)) mod 256"
    using uint_byte_of [OF le] by (simp add: mod_diff_eq)
  finally show ?thesis
    using byte_of_ones [OF assms(1,2)] by (simp add: word_uint_eq_iff uint_word_ariths)
qed

lemma bit_7_u8: "bit (b :: u8) 7 \<longleftrightarrow> 128 \<le> unat b"
proof -
  have "bit b 7 \<longleftrightarrow> odd (unat b div 128)"
    using bit_unsigned_iff [of b 7, where 'a = nat] by (simp add: bit_iff_odd)
  moreover have "unat b < 256" using unat_bound [of b] by simp
  then have "unat b div 128 = (if 128 \<le> unat b then 1 else 0)" by auto
  ultimately show ?thesis by simp
qed

lemma bit_7_uint: "bit (b :: u8) 7 \<longleftrightarrow> 128 \<le> uint b"
proof -
  have "uint b = int (unat b)" by simp
  then show ?thesis unfolding bit_7_u8 by linarith
qed

lemma zero_byte_test: "bit (b - 1 :: u8) 7 \<and> \<not> bit b 7 \<longleftrightarrow> b = 0"
proof (cases "b = 0")
  case False
  then have "unat (b - 1) = unat b - 1" by (simp add: unat_minus_one)
  then show ?thesis using False by (auto simp: bit_7_u8)
qed (simp add: bit_minus_1_iff)

lemma bit_highs:
  assumes "LENGTH('a) = 8 * n" "i < n" "k < 8"
  shows "bit (push_bit 7 (ones :: 'a::len word)) (8 * i + k) \<longleftrightarrow> k = 7"
proof -
  have b: "bit (ones :: 'a word) (8 * j + l) \<longleftrightarrow> l = 0" if "j < n" "l < 8" for j l
    using byte_of_ones [OF assms(1) that(1)] bit_byte_of [of "ones :: 'a word" j l] that(2)
    by (simp add: bit_1_iff)
  have "k = 7 \<or> k < 7" using assms(3) by linarith
  then consider "k = 7" | "k < 7" "i = 0" | j where "k < 7" "i = Suc j" by (cases i) auto
  then show ?thesis
  proof cases
    case 1
    then show ?thesis using assms b [of i 0] by (simp add: bit_push_bit_iff)
  next
    case 3
    then have "8 * i + k - 7 = 8 * j + (k + 1)" by simp
    then show ?thesis using assms b [of j "k + 1"] 3 by (simp add: bit_push_bit_iff)
  qed (simp add: bit_push_bit_iff)
qed

text \<open>Up to and including the first zero byte, bit 7 of a byte is set exactly when the byte is zero.\<close>

lemma bit_has_zero_byte:
  assumes "LENGTH('a) = 8 * n" "i < n" "k < 8" "\<And>j. j < i \<Longrightarrow> byte_of (v :: 'a::len word) j \<noteq> 0"
  shows "bit (has_zero_byte v) (8 * i + k) \<longleftrightarrow> k = 7 \<and> byte_of v i = 0"
proof -
  have "bit (has_zero_byte v) (8 * i + k) \<longleftrightarrow> bit (byte_of (v - ones) i) k \<and> \<not> bit (byte_of v i) k \<and> k = 7"
    using assms(1-3) bit_highs [OF assms(1-3)]
    by (auto simp: has_zero_byte_def bit_and_iff bit_not_iff bit_byte_of)
  then show ?thesis
    using byte_of_minus_ones [OF assms(1,2,4)] zero_byte_test [of "byte_of v i"] by auto
qed

lemma has_zero_byte_first:
  assumes "LENGTH('a) = 8 * n"
  shows "if \<exists>i < n. byte_of (v :: 'a::len word) i = 0
    then has_zero_byte v \<noteq> 0 \<and> countr_zero (has_zero_byte v) = 8 * (LEAST i. byte_of v i = 0) + 7
    else has_zero_byte v = 0"
proof (cases "\<exists>i < n. byte_of v i = 0")
  case True
  then obtain i0 where i0: "i0 < n" "byte_of v i0 = 0" by blast
  define i where "i = (LEAST i. byte_of v i = 0)"
  have i: "byte_of v i = 0" "i \<le> i0" using i0(2) unfolding i_def by (rule LeastI, intro Least_le)
  have below: "j < i \<Longrightarrow> byte_of v j \<noteq> 0" for j unfolding i_def by (rule not_less_Least)
  have n: "i < n" using i(2) i0(1) by simp
  have b: "bit (has_zero_byte v) (8 * i + 7)"
    using bit_has_zero_byte [OF assms n, of 7 v] below i(1) by simp
  moreover have "\<not> bit (has_zero_byte v) k" if "k < 8 * i + 7" for k
  proof -
    have "k div 8 \<le> i" using that by (simp add: div_le_mono [of k "8 * i + 7" 8, simplified])
    then have "bit (has_zero_byte v) (8 * (k div 8) + k mod 8) \<longleftrightarrow> k mod 8 = 7 \<and> byte_of v (k div 8) = 0"
      using n below by (intro bit_has_zero_byte [OF assms]) auto
    moreover have "k mod 8 = 7 \<Longrightarrow> k div 8 \<noteq> i" using that by (metis mult.commute mult_div_mod_eq less_irrefl)
    ultimately show ?thesis using below \<open>k div 8 \<le> i\<close> by auto
  qed
  ultimately have "countr_zero (has_zero_byte v) = 8 * i + 7" by (rule countr_zero_eqI)
  moreover have "has_zero_byte v \<noteq> 0" using b by auto
  ultimately show ?thesis using True i_def by simp
next
  case False
  have "has_zero_byte v = 0"
  proof (rule bit_word_eqI)
    fix k assume "k < LENGTH('a)"
    then have "k div 8 < n" using assms by (simp add: less_mult_imp_div_less)
    then have "bit (has_zero_byte v) (8 * (k div 8) + k mod 8) \<longleftrightarrow> k mod 8 = 7 \<and> byte_of v (k div 8) = 0"
      using False by (intro bit_has_zero_byte [OF assms]) auto
    then show "bit (has_zero_byte v) k = bit 0 k" using False \<open>k div 8 < n\<close> by simp
  qed
  then show ?thesis using False by simp
qed

subsection \<open>The other byte tricks\<close>

lemma byte_of_not: "LENGTH('a) = 8 * n \<Longrightarrow> i < n \<Longrightarrow> byte_of (NOT v :: 'a::len word) i = NOT (byte_of v i)"
  by (rule bit_word_eqI) (auto simp: bit_byte_of bit_not_iff)

lemma ones_u64: "(ones :: u64) = 0x0101010101010101"
  by code_simp

lemma byte_of_mult_ones:
  assumes "i < 8"
  shows "byte_of (ucast (c :: u8) * ones :: u64) i = c"
proof -
  have d: "0 \<le> uint c \<and> uint c < 256" using uint_bound [of c] by simp
  have "uint (ucast c :: u64) = uint c"
    using d by (simp add: unsigned_ucast_eq take_bit_int_eq_self)
  then have "uint (ucast c :: u64) * uint (ones :: u64) = (\<Sum>j<8. uint c * 256 ^ j)"
    using uint_ones [of 8, where 'a = 64] by (simp add: sum_distrib_left)
  moreover have "(\<Sum>j<8. uint c * 256 ^ j) div 256 ^ i mod 256 = uint c"
    by (rule digit_sum) (use assms d in auto)
  moreover have "uint (byte_of (ucast c * ones :: u64) i) =
    uint (ucast c :: u64) * uint (ones :: u64) div 256 ^ i mod 256"
    using uint_byte_of_int [of i "uint (ucast c :: u64) * uint (ones :: u64)", where 'a = 64] assms by simp
  ultimately have "uint (byte_of (ucast c * ones :: u64) i) = uint c" by simp
  then show ?thesis by (simp add: word_uint_eq_iff)
qed

lemma byte_of_broadcast: "i < 8 \<Longrightarrow> byte_of (broadcast_byte c) i = c"
  using byte_of_mult_ones by (simp add: broadcast_byte_def ones_u64)

lemma byte_of_low_bytes: "n < 8 \<Longrightarrow> i < 8 \<Longrightarrow> byte_of (low_bytes n) i = (if i < n then NOT 0 else 0)"
proof (rule bit_word_eqI)
  fix k assume a: "n < 8" "i < 8" "k < LENGTH(8)"
  have "low_bytes n = mask (8 * n)"
    using a(1) by (simp add: low_bytes_def mask_eq_exp_minus_1 push_bit_eq_mult mult.commute)
  then have "bit (byte_of (low_bytes n) i) k \<longleftrightarrow> 8 * i + k < 8 * n"
    using a by (simp add: bit_byte_of bit_mask_iff)
  also have "\<dots> \<longleftrightarrow> i < n" using a(3) by auto
  finally show "bit (byte_of (low_bytes n) i) k = bit (if i < n then NOT 0 else 0 :: u8) k"
    using a(3) by (simp add: bit_not_iff)
qed

lemma low_seven: "uint (b AND 0x7F :: u8) = uint b mod 128"
proof -
  have "b AND 0x7F = take_bit 7 b" by (simp add: take_bit_eq_mask mask_eq_exp_minus_1)
  then show ?thesis by (simp add: take_bit_eq_mod uint_mod)
qed

text \<open>\<open>zero_bytes\<close> is exact in every byte, since the addition carries across no byte boundary.\<close>

lemma bit_zero_bytes:
  assumes "i < 8" "k < 8"
  shows "bit (zero_bytes v) (8 * i + k) \<longleftrightarrow> k = 7 \<and> byte_of v i = 0"
proof -
  let ?lows = "0x7F7F7F7F7F7F7F7F :: u64"
  have lows: "?lows = ucast (0x7F :: u8) * ones" by (simp add: ones_u64)
  have lb: "j < 8 \<Longrightarrow> byte_of ?lows j = 0x7F" for j
    unfolding lows by (rule byte_of_mult_ones)
  define a where "a j = uint (byte_of v j) mod 128" for j
  have a: "0 \<le> a j \<and> a j < 128" for j by (simp add: a_def)
  have "uint (v AND ?lows) = (\<Sum>j<8. a j * 256 ^ j)"
    using uint_sum_bytes [of 8 "v AND ?lows"] lb
    by (simp add: byte_of_bitwise low_seven a_def)
  moreover have "uint ?lows = (\<Sum>j<8. 127 * 256 ^ j)"
    using uint_sum_bytes [of 8 ?lows] lb by simp
  ultimately have sum: "uint (v AND ?lows) + uint ?lows = (\<Sum>j<8. (a j + 127) * 256 ^ j)"
    by (simp only: sum.distrib distrib_right)
  have "uint (byte_of ((v AND ?lows) + ?lows) i) = (uint (v AND ?lows) + uint ?lows) div 256 ^ i mod 256"
    using uint_byte_of_int [of i "uint (v AND ?lows) + uint ?lows", where 'a = 64] assms(1) by simp
  moreover have "(\<Sum>j<8. (a j + 127) * 256 ^ j) div 256 ^ i mod 256 = a i + 127"
  proof (rule digit_sum)
    show "0 \<le> a j + 127 \<and> a j + 127 < 256" for j using a [of j] by simp
  qed (rule assms(1))
  ultimately have "uint (byte_of ((v AND ?lows) + ?lows) i) = a i + 127"
    unfolding sum by simp
  then have "bit (byte_of ((v AND ?lows) + ?lows) i) 7 \<longleftrightarrow> a i \<noteq> 0"
    using a [of i] unfolding bit_7_uint by linarith
  moreover have "bit (zero_bytes v) (8 * i + k) \<longleftrightarrow>
    \<not> bit (byte_of ((v AND ?lows) + ?lows) i) k \<and> \<not> bit (byte_of v i) k \<and> \<not> bit (0x7F :: u8) k"
  proof -
    have "bit (zero_bytes v) (8 * i + k) \<longleftrightarrow> bit (byte_of (zero_bytes v) i) k"
      using assms(2) by (simp add: bit_byte_of)
    also have "byte_of (zero_bytes v) i = NOT (byte_of ((v AND ?lows) + ?lows) i OR byte_of v i OR 0x7F)"
    proof -
      have "byte_of (NOT w :: u64) i = NOT (byte_of w i)" for w
        by (rule byte_of_not [of 8]) (use assms(1) in simp_all)
      then show ?thesis by (simp only: zero_bytes_def Let_def byte_of_bitwise lb [OF assms(1)])
    qed
    finally show ?thesis using assms(2) unfolding bit_not_iff bit_or_iff possible_bit_word by auto
  qed
  moreover have "\<not> bit (0x7F :: u8) k \<longleftrightarrow> k = 7"
  proof -
    have eq: "(0x7F :: u8) = mask 7" by (simp add: mask_eq_exp_minus_1)
    show ?thesis unfolding eq bit_mask_iff using assms(2) by auto
  qed
  moreover have "a i = 0 \<and> \<not> bit (byte_of v i) 7 \<longleftrightarrow> byte_of v i = 0"
  proof -
    have "0 \<le> uint (byte_of v i)" by simp
    then have "uint (byte_of v i) mod 128 = 0 \<and> \<not> 128 \<le> uint (byte_of v i) \<longleftrightarrow> uint (byte_of v i) = 0"
      by (cases "128 \<le> uint (byte_of v i)") (simp_all add: mod_pos_pos_trivial)
    then show ?thesis unfolding a_def bit_7_uint by (simp add: word_uint_eq_iff)
  qed
  ultimately show ?thesis by auto
qed

subsection \<open>Chunks against bytes\<close>

text \<open>What a comparison or a search of \<open>n\<close> bytes means, one byte at a time.\<close>

definition mem_cmp :: "mem \<Rightarrow> addr \<Rightarrow> addr \<Rightarrow> nat \<Rightarrow> int" where
  "mem_cmp m p1 p2 n = (case find (\<lambda>i. m (p1 + of_nat i) \<noteq> m (p2 + of_nat i)) [0..<n] of
     None \<Rightarrow> 0 | Some i \<Rightarrow> uint (m (p1 + of_nat i)) - uint (m (p2 + of_nat i)))"

definition mem_find :: "mem \<Rightarrow> addr \<Rightarrow> u8 \<Rightarrow> nat \<Rightarrow> ptr" where
  "mem_find m p c n = map_option (\<lambda>i. p + of_nat i) (find (\<lambda>i. m (p + of_nat i) = c) [0..<n])"

lemma find_upt_Least:
  "find P [0..<n] = (if \<exists>i < n. P i then Some (LEAST i. P i) else None)"
proof (cases "\<exists>i < n. P i")
  case True
  then obtain i where i: "i < n" "P i" by blast
  define k where "k = (LEAST i. P i)"
  have k: "P k" "k \<le> i" using i(2) unfolding k_def by (rule LeastI, intro Least_le)
  have below: "\<not> P j" if "j < k" for j using that unfolding k_def by (rule not_less_Least)
  have "find P [0..<n] = Some k"
    unfolding find_Some_iff using i(1) k below by (intro exI [of _ k]) simp
  then show ?thesis using True by (simp add: k_def)
qed (auto simp: find_None_iff)

lemma xor_eq_0_iff: "a XOR b = 0 \<longleftrightarrow> a = (b :: 'a::len word)"
  by (auto simp: bit_eq_iff bit_xor_iff)

lemma find_in_chunk_ok:
  assumes "LENGTH('a) = 8 * n" "n \<le> 8"
  shows "find_in_chunk TYPE('a::len) m base off (broadcast_byte c) = mem_find m (base + off) c n"
proof -
  let ?v = "unaligned_load m (base + off) :: 'a word" and ?p = "ucast (broadcast_byte c) :: 'a word"
  have pb: "i < n \<Longrightarrow> byte_of ?p i = c" for i
  proof -
    assume i: "i < n"
    then have "byte_of ?p i = byte_of (broadcast_byte c) i"
      using assms by (intro bit_word_eqI) (simp add: bit_byte_of bit_unsigned_iff)
    then show ?thesis using byte_of_broadcast i assms(2) by simp
  qed
  have eq: "i < n \<Longrightarrow> byte_of (?v XOR ?p) i = 0 \<longleftrightarrow> m (base + off + of_nat i) = c" for i
    by (simp add: byte_of_bitwise byte_of_load [OF assms(1)] pb xor_eq_0_iff)
  have ex: "(\<exists>i < n. byte_of (?v XOR ?p) i = 0) \<longleftrightarrow> (\<exists>i < n. m (base + off + of_nat i) = c)"
    using eq by blast
  show ?thesis
  proof (cases "\<exists>i < n. m (base + off + of_nat i) = c")
    case True
    then obtain i where i: "i < n" "m (base + off + of_nat i) = c" by blast
    define k where "k = (LEAST i. byte_of (?v XOR ?p) i = 0)"
    have "byte_of (?v XOR ?p) i = 0" using i eq by blast
    then have k: "byte_of (?v XOR ?p) k = 0" "k \<le> i" unfolding k_def by (rule LeastI, intro Least_le)
    then have kn: "k < n" using i(1) by simp
    have "(LEAST i. m (base + off + of_nat i) = c) = k"
    proof (rule Least_equality)
      show "m (base + off + of_nat k) = c" using eq [OF kn] k(1) by blast
      fix y assume y: "m (base + off + of_nat y) = c"
      show "k \<le> y"
      proof (rule ccontr)
        assume "\<not> k \<le> y"
        then have "byte_of (?v XOR ?p) y = 0" "y < k" using y eq [of y] kn by simp_all
        then show False unfolding k_def using not_less_Least by blast
      qed
    qed
    moreover have "has_zero_byte (?v XOR ?p) \<noteq> 0" "countr_zero (has_zero_byte (?v XOR ?p)) = 8 * k + 7"
      using has_zero_byte_first [OF assms(1), of "?v XOR ?p"] True ex k_def by auto
    ultimately show ?thesis
      using True by (simp add: find_in_chunk_def mem_find_def find_upt_Least)
  next
    case False
    then have "has_zero_byte (?v XOR ?p) = 0"
      using has_zero_byte_first [OF assms(1), of "?v XOR ?p"] ex by auto
    then show ?thesis using False by (simp add: find_in_chunk_def mem_find_def find_upt_Least)
  qed
qed


lemma countr_zero_byte:
  fixes w :: "'a::len word"
  assumes "LENGTH('a) = 8 * n" "w \<noteq> 0"
  shows "countr_zero w div 8 < n" "byte_of w (countr_zero w div 8) \<noteq> 0"
    "j < countr_zero w div 8 \<Longrightarrow> byte_of w j = 0"
proof -
  note z = countr_zero_char [OF assms(2)]
  show "countr_zero w div 8 < n" using z(1) assms(1) by (simp add: less_mult_imp_div_less)
  show "byte_of w (countr_zero w div 8) \<noteq> 0"
    using z(2) bit_byte_split [of w "countr_zero w"] by auto
  assume "j < countr_zero w div 8"
  then have "8 * j + k < countr_zero w" if "k < 8" for k using that by linarith
  then show "byte_of w j = 0" using z(3) by (intro bit_word_eqI) (auto simp: bit_byte_of)
qed

lemma uint_low_byte:
  assumes "8 \<le> LENGTH('a)"
  shows "uint (drop_bit (i * 8) v AND 0xFF :: 'a::len word) = uint (byte_of v i)"
proof -
  have eq: "(0xFF :: 'a word) = mask 8" by (simp add: mask_eq_exp_minus_1)
  have "uint (drop_bit (i * 8) v AND 0xFF) = take_bit 8 (uint (drop_bit (i * 8) v))"
    unfolding eq by (simp add: take_bit_eq_mask [symmetric] unsigned_take_bit_eq)
  also have "\<dots> = uint (byte_of v i)"
    by (simp add: byte_of_def unsigned_ucast_eq mult.commute)
  finally show ?thesis .
qed

lemma check_chunk_ok:
  assumes "LENGTH('a) = 8 * n" "0 < n"
  shows "check_chunk TYPE('a::len) m p1 p2 off = mem_cmp m (p1 + off) (p2 + off) n"
proof -
  let ?v = "unaligned_load m (p1 + off) :: 'a word" and ?w = "unaligned_load m (p2 + off) :: 'a word"
  let ?P = "\<lambda>i. m (p1 + off + of_nat i) \<noteq> m (p2 + off + of_nat i)"
  have b: "i < n \<Longrightarrow> byte_of ?v i = m (p1 + off + of_nat i)" "i < n \<Longrightarrow> byte_of ?w i = m (p2 + off + of_nat i)" for i
    by (simp_all add: byte_of_load [OF assms(1)])
  show ?thesis
  proof (cases "?v = ?w")
    case True
    then have "\<not> ?P i" if "i < n" for i using b that by metis
    then show ?thesis using True by (auto simp: check_chunk_def mem_cmp_def find_upt_Least)
  next
    case False
    define k where "k = countr_zero (?v XOR ?w) div 8"
    have nz: "?v XOR ?w \<noteq> 0" using False by (simp add: xor_eq_0_iff)
    note c = countr_zero_byte [OF assms(1) nz, folded k_def, unfolded byte_of_bitwise xor_eq_0_iff]
    have "(LEAST i. ?P i) = k"
    proof (rule Least_equality)
      show "?P k" using c(1,2) b by simp
      fix y assume "?P y"
      then show "k \<le> y" using c(1) c(3) [of y] b [of y] by (cases "k \<le> y") auto
    qed
    moreover have "\<exists>i < n. ?P i" using c(1,2) b by auto
    ultimately have "mem_cmp m (p1 + off) (p2 + off) n = uint (byte_of ?v k) - uint (byte_of ?w k)"
      using b [OF c(1)] by (simp add: mem_cmp_def find_upt_Least)
    moreover have "8 \<le> LENGTH('a)" using assms by simp
    ultimately show ?thesis
      using False uint_low_byte [where 'a = 'a] by (simp add: check_chunk_def diff_bytes_def Let_def k_def [symmetric])
  qed
qed

end
