(* ===== verification/MemFuns.thy ===== *)
theory MemFuns
  imports Swar
begin

text \<open>
  The memory functions of klib, \<^verbatim>\<open>memcpy.cpp\<close>, \<^verbatim>\<open>memmove.cpp\<close>, \<^verbatim>\<open>memset.cpp\<close>, \<^verbatim>\<open>memcmp.cpp\<close> and
  \<^verbatim>\<open>memchr.cpp\<close> under \<^verbatim>\<open>klib/src/string/\<close>: every band of sizes with its chunks, and the loops for the
  longer ones.  The facts state them against the plain definitions by bytes.
\<close>

subsection \<open>Definitions\<close>

definition memcpy :: "addr \<Rightarrow> addr \<Rightarrow> u64 \<Rightarrow> mem \<Rightarrow> mem" where
  "memcpy d s n m =
     (let c8 = (\<lambda>off. copy_chunk TYPE(64) d s off) in
      if n \<le> 16 then
        (if n \<ge> 8 then c8 (n - 8) (c8 0 m)
         else if n \<ge> 4 then copy_chunk TYPE(32) d s (n - 4) (copy_chunk TYPE(32) d s 0 m)
         else if n \<ge> 2 then copy_chunk TYPE(16) d s (n - 2) (copy_chunk TYPE(16) d s 0 m)
         else if n = 1 then copy_chunk TYPE(8) d s 0 m
         else m)
      else if n \<le> 32 then c8 (n - 8) (c8 (n - 16) (c8 8 (c8 0 m)))
      else if n \<le> 64 then
        c8 (n - 8) (c8 (n - 16) (c8 (n - 24) (c8 (n - 32) (c8 24 (c8 16 (c8 8 (c8 0 m)))))))
      else rep_movsb (unat n) d s m)"

text \<open>What is left at the bottom after the blocks of a backward copy, and a short backward copy.\<close>

definition move_down :: "addr \<Rightarrow> addr \<Rightarrow> u64 \<Rightarrow> mem \<Rightarrow> mem" where
  "move_down d s n m =
     (if n \<le> 16 then
        (if n \<ge> 8 then transfer_chunks TYPE(64) d s [n - 8, 0] m
         else if n \<ge> 4 then transfer_chunks TYPE(32) d s [n - 4, 0] m
         else if n \<ge> 2 then transfer_chunks TYPE(16) d s [n - 2, 0] m
         else transfer_chunks TYPE(8) d s [0] m)
      else if n \<le> 32 then transfer_chunks TYPE(64) d s [n - 8, n - 16, 8, 0] m
      else transfer_chunks TYPE(64) d s [n - 8, n - 16, n - 24, n - 32, 24, 16, 8, 0] m)"

function move_blocks :: "addr \<Rightarrow> addr \<Rightarrow> u64 \<Rightarrow> mem \<Rightarrow> u64 \<times> mem" where
  "move_blocks d s rem m =
     (if rem \<ge> 64 then
        let rem' = rem - 64 in
        move_blocks d s rem' (transfer_chunks TYPE(64) d s
          [rem' + 56, rem' + 48, rem' + 40, rem' + 32, rem' + 24, rem' + 16, rem' + 8, rem'] m)
      else (rem, m))"
  by pat_completeness auto
termination
  by (relation "measure (\<lambda>(_, _, rem, _). unat rem)")
    (auto simp: word_le_nat_alt unat_sub)

declare move_blocks.simps [simp del]

definition memmove :: "addr \<Rightarrow> addr \<Rightarrow> u64 \<Rightarrow> mem \<Rightarrow> mem" where
  "memmove d s n m =
     (if n = 0 \<or> d = s then m
      else if d - s \<ge> n then
        (if n \<le> 16 then
           (if n \<ge> 8 then transfer_chunks TYPE(64) d s [0, n - 8] m
            else if n \<ge> 4 then transfer_chunks TYPE(32) d s [0, n - 4] m
            else if n \<ge> 2 then transfer_chunks TYPE(16) d s [0, n - 2] m
            else transfer_chunks TYPE(8) d s [0] m)
         else if n \<le> 64 then
           (if n \<le> 32 then transfer_chunks TYPE(64) d s [0, 8, n - 16, n - 8] m
            else transfer_chunks TYPE(64) d s [0, 8, 16, 24, n - 32, n - 24, n - 16, n - 8] m)
         else rep_movsb (unat n) d s m)
      else if n \<le> 64 then move_down d s n m
      else case move_blocks d s n m of (rem, m') \<Rightarrow> if rem > 0 then move_down d s rem m' else m')"

definition memset :: "addr \<Rightarrow> int \<Rightarrow> u64 \<Rightarrow> mem \<Rightarrow> mem" where
  "memset d ch n m =
     (let byte = word_of_int ch :: u8;
          v = broadcast_byte byte;
          s8 = (\<lambda>off. unaligned_store (d + off) v)
      in
      if n \<le> 16 then
        (if n \<ge> 8 then s8 (n - 8) (s8 0 m)
         else if n \<ge> 4 then unaligned_store (d + (n - 4)) (ucast v :: u32) (unaligned_store (d + 0) (ucast v :: u32) m)
         else if n \<ge> 2 then unaligned_store (d + (n - 2)) (ucast v :: u16) (unaligned_store (d + 0) (ucast v :: u16) m)
         else if n = 1 then unaligned_store (d + 0) byte m
         else m)
      else if n \<le> 32 then s8 (n - 8) (s8 (n - 16) (s8 8 (s8 0 m)))
      else if n \<le> 64 then
        s8 (n - 8) (s8 (n - 16) (s8 (n - 24) (s8 (n - 32) (s8 24 (s8 16 (s8 8 (s8 0 m)))))))
      else rep_stosb (unat n) d byte m)"

lemma unat_rest_minus:
  fixes n offset k :: "'a::len word"
  assumes "k \<le> n - offset"
  shows "unat (n - (offset + k)) = unat (n - offset) - unat k"
proof -
  have "n - (offset + k) = (n - offset) - k" by simp
  then show ?thesis using assms by (simp only: unat_sub)
qed

fun compare_chunks :: "'a::len itself \<Rightarrow> mem \<Rightarrow> addr \<Rightarrow> addr \<Rightarrow> addr list \<Rightarrow> int" where
  "compare_chunks T m p1 p2 [] = 0"
| "compare_chunks T m p1 p2 (off # offs) =
     (let diff = check_chunk T m p1 p2 off in if diff \<noteq> 0 then diff else compare_chunks T m p1 p2 offs)"

function memcmp_loop :: "mem \<Rightarrow> addr \<Rightarrow> addr \<Rightarrow> u64 \<Rightarrow> u64 \<Rightarrow> int" where
  "memcmp_loop m p1 p2 n offset =
     (if n - offset \<ge> 32 then
        let diff = compare_chunks TYPE(64) m p1 p2 [offset, offset + 8, offset + 16, offset + 24]
        in if diff \<noteq> 0 then diff else memcmp_loop m p1 p2 n (offset + 32)
      else if offset < n then
        let tail = n - 32 in compare_chunks TYPE(64) m p1 p2 [tail, tail + 8, tail + 16, tail + 24]
      else 0)"
  by pat_completeness auto
termination
proof (relation "measure (\<lambda>(_, _, _, n, offset). unat (n - offset))", goal_cases)
  case (2 m p1 p2 n offset)
  then have "(32 :: u64) \<le> n - offset" by simp
  from unat_rest_minus [OF this] this show ?case by (simp add: word_le_nat_alt)
qed simp

declare memcmp_loop.simps [simp del]

definition memcmp :: "mem \<Rightarrow> addr \<Rightarrow> addr \<Rightarrow> u64 \<Rightarrow> int" where
  "memcmp m p1 p2 n =
     (if n = 0 \<or> p1 = p2 then 0
      else if n \<le> 16 then
        (if n \<ge> 8 then compare_chunks TYPE(64) m p1 p2 [0, n - 8]
         else if n \<ge> 4 then compare_chunks TYPE(32) m p1 p2 [0, n - 4]
         else if n \<ge> 2 then compare_chunks TYPE(16) m p1 p2 [0, n - 2]
         else compare_chunks TYPE(8) m p1 p2 [0])
      else if n \<le> 32 then compare_chunks TYPE(64) m p1 p2 [0, 8, n - 16, n - 8]
      else memcmp_loop m p1 p2 n 0)"

fun find_first :: "'a::len itself \<Rightarrow> mem \<Rightarrow> addr \<Rightarrow> u64 \<Rightarrow> addr list \<Rightarrow> ptr" where
  "find_first T m p pattern [] = None"
| "find_first T m p pattern (off # offs) =
     (case find_in_chunk T m p off pattern of
        Some match \<Rightarrow> Some match | None \<Rightarrow> find_first T m p pattern offs)"

function memchr_loop :: "mem \<Rightarrow> addr \<Rightarrow> u64 \<Rightarrow> u64 \<Rightarrow> u64 \<Rightarrow> ptr" where
  "memchr_loop m p pattern n offset =
     (if n - offset \<ge> 32 then
        (case find_first TYPE(64) m p pattern [offset, offset + 8, offset + 16, offset + 24] of
           Some match \<Rightarrow> Some match
         | None \<Rightarrow> memchr_loop m p pattern n (offset + 32))
      else if offset < n then
        let tail = n - 32 in find_first TYPE(64) m p pattern [tail, tail + 8, tail + 16, tail + 24]
      else None)"
  by pat_completeness auto
termination
proof (relation "measure (\<lambda>(_, _, _, n, offset). unat (n - offset))", goal_cases)
  case (2 m p pattern n offset)
  then have "(32 :: u64) \<le> n - offset" by simp
  from unat_rest_minus [OF this] this show ?case by (simp add: word_le_nat_alt)
qed simp

declare memchr_loop.simps [simp del]

definition memchr :: "mem \<Rightarrow> addr \<Rightarrow> int \<Rightarrow> u64 \<Rightarrow> ptr" where
  "memchr m p ch n =
     (let pattern = broadcast_byte (word_of_int ch) in
      if n = 0 then None
      else if n \<le> 16 then
        (if n \<ge> 8 then find_first TYPE(64) m p pattern [0, n - 8]
         else if n \<ge> 4 then find_first TYPE(32) m p pattern [0, n - 4]
         else if n \<ge> 2 then find_first TYPE(16) m p pattern [0, n - 2]
         else find_first TYPE(8) m p pattern [0])
      else if n \<le> 32 then find_first TYPE(64) m p pattern [0, 8, n - 16, n - 8]
      else memchr_loop m p pattern n 0)"

subsection \<open>Ranges\<close>

definition range_of :: "addr \<Rightarrow> nat \<Rightarrow> addr set" where
  "range_of p n = {a. unat (a - p) < n}"

text \<open>\<open>copied d s A m\<close> is \<open>m\<close> with the bytes at the addresses in \<open>A\<close> taken from the source.\<close>

definition copied :: "addr \<Rightarrow> addr \<Rightarrow> addr set \<Rightarrow> mem \<Rightarrow> mem" where
  "copied d s A m = (\<lambda>a. if a \<in> A then m (s + (a - d)) else m a)"

lemma unat_add_off:
  fixes a d off :: addr
  assumes "unat (a - (d + off)) < w" "unat off + w \<le> 2 ^ 64"
  shows "unat (a - d) = unat off + unat (a - (d + off))"
proof -
  have "a - d = off + (a - (d + off))" by simp
  then have "unat (a - d) = (unat off + unat (a - (d + off))) mod 2 ^ 64"
    using unat_word_ariths(1) [of off "a - (d + off)"] by simp
  then show ?thesis using assms by simp
qed

lemma window_iff:
  fixes a d off :: addr
  assumes "unat off + w \<le> 2 ^ 64"
  shows "a \<in> range_of (d + off) w \<longleftrightarrow> unat off \<le> unat (a - d) \<and> unat (a - d) < unat off + w"
proof
  assume "a \<in> range_of (d + off) w"
  then show "unat off \<le> unat (a - d) \<and> unat (a - d) < unat off + w"
    using unat_add_off [OF _ assms, of a d] by (simp add: range_of_def)
next
  assume r: "unat off \<le> unat (a - d) \<and> unat (a - d) < unat off + w"
  have eq: "a - (d + off) = (a - d) - off" by simp
  have "unat ((a - d) - off) = unat (a - d) - unat off"
    using r by (intro unat_sub) (simp add: word_le_nat_alt)
  then show "a \<in> range_of (d + off) w" using r unfolding range_of_def mem_Collect_eq eq by linarith
qed

lemma copied_empty [simp]: "copied d s {} m = m"
  by (simp add: copied_def)

lemma store_load:
  assumes "LENGTH('a) = 8 * w"
  shows "unaligned_store (d + off) (unaligned_load m0 (s + off) :: 'a::len word) m =
    (\<lambda>a. if a \<in> range_of (d + off) w then m0 (s + (a - d)) else m a)"
proof (rule ext)
  fix a
  show "unaligned_store (d + off) (unaligned_load m0 (s + off) :: 'a word) m a =
    (if a \<in> range_of (d + off) w then m0 (s + (a - d)) else m a)"
  proof (cases "unat (a - (d + off)) < w")
    case True
    have "s + off + of_nat (unat (a - (d + off))) = s + (a - d)" by simp
    then show ?thesis using True byte_of_load [OF assms True, of m0 "s + off"] assms
      by (simp add: unaligned_store_def range_of_def)
  qed (use assms in \<open>simp add: unaligned_store_def range_of_def\<close>)
qed

subsection \<open>Copying\<close>

definition apart :: "addr \<Rightarrow> addr \<Rightarrow> nat \<Rightarrow> bool" where
  "apart d s n \<longleftrightarrow> range_of d n \<inter> range_of s n = {}"

lemma copy_chunk_copied:
  assumes "LENGTH('a) = 8 * w" "unat off + w \<le> n" "n \<le> 2 ^ 64" "apart d s n" "A \<subseteq> range_of d n"
  shows "copy_chunk TYPE('a::len) d s off (copied d s A m) = copied d s (A \<union> range_of (d + off) w) m"
    "A \<union> range_of (d + off) w \<subseteq> range_of d n"
proof -
  have win: "a \<in> range_of (d + off) w \<longleftrightarrow> unat off \<le> unat (a - d) \<and> unat (a - d) < unat off + w" for a
    by (rule window_iff) (use assms(2,3) in simp)
  show "A \<union> range_of (d + off) w \<subseteq> range_of d n"
    using assms(2,5) win by (auto simp: range_of_def)
  have src: "s + (a - d) \<notin> A" if "a \<in> range_of (d + off) w" for a
  proof -
    have "unat (a - d) < n" using that win assms(2) by auto
    then have "s + (a - d) \<in> range_of s n" by (simp add: range_of_def)
    then show ?thesis using assms(4,5) by (auto simp: apart_def)
  qed
  show "copy_chunk TYPE('a) d s off (copied d s A m) = copied d s (A \<union> range_of (d + off) w) m"
    unfolding copy_chunk_def store_load [OF assms(1)]
    using src by (auto simp: copied_def fun_eq_iff)
qed

lemma range_of_cover:
  assumes "\<And>k. k < n \<Longrightarrow> \<exists>(off, w) \<in> set ws. unat off \<le> k \<and> k < unat off + w"
    "\<And>off w. (off, w) \<in> set ws \<Longrightarrow> unat (off :: addr) + w \<le> n" "n \<le> 2 ^ 64"
  shows "(\<Union>(off, w) \<in> set ws. range_of (d + off) w) = range_of d n"
proof (rule set_eqI)
  fix a
  have win: "a \<in> range_of (d + off) w \<longleftrightarrow> unat off \<le> unat (a - d) \<and> unat (a - d) < unat off + w"
    if "(off, w) \<in> set ws" for off w
    by (rule window_iff) (use assms(2) [OF that] assms(3) in simp)
  show "a \<in> (\<Union>(off, w) \<in> set ws. range_of (d + off) w) \<longleftrightarrow> a \<in> range_of d n"
  proof
    assume "a \<in> range_of d n"
    then have "unat (a - d) < n" by (simp add: range_of_def)
    then show "a \<in> (\<Union>(off, w) \<in> set ws. range_of (d + off) w)"
      using assms(1) [of "unat (a - d)"] win by blast
  next
    assume "a \<in> (\<Union>(off, w) \<in> set ws. range_of (d + off) w)"
    then show "a \<in> range_of d n" using win assms(2) by (fastforce simp: range_of_def)
  qed
qed

lemma transfer_chunks_copied:
  assumes "LENGTH('a) = 8 * w"
  shows "transfer_chunks TYPE('a::len) d s offs m = copied d s (\<Union>off \<in> set offs. range_of (d + off) w) m"
proof -
  have "fold (\<lambda>(off, v). unaligned_store (d + off) v) (zip offs (map (\<lambda>off. unaligned_load m (s + off) :: 'a word) offs))
      (copied d s A m) = copied d s (A \<union> (\<Union>off \<in> set offs. range_of (d + off) w)) m" for A
  proof (induction offs arbitrary: A)
    case (Cons off offs)
    have "unaligned_store (d + off) (unaligned_load m (s + off) :: 'a word) (copied d s A m) =
      copied d s (A \<union> range_of (d + off) w) m"
      unfolding store_load [OF assms] by (auto simp: copied_def fun_eq_iff)
    then show ?case using Cons [of "A \<union> range_of (d + off) w"] by (simp add: Un_assoc)
  qed simp
  from this [of "{}"] show ?thesis by (simp add: transfer_chunks_def Let_def)
qed

lemma range_of_Suc:
  assumes "Suc n \<le> 2 ^ 64"
  shows "range_of d (Suc n) = insert d (range_of (d + 1) n)" "d \<notin> range_of (d + 1) n"
proof -
  have win: "a \<in> range_of (d + 1) n \<longleftrightarrow> 1 \<le> unat (a - d) \<and> unat (a - d) < 1 + n" for a
    using window_iff [of 1 n a d] assms by simp
  show "d \<notin> range_of (d + 1) n" using win [of d] by simp
  have "a \<in> range_of d (Suc n) \<longleftrightarrow> a = d \<or> a \<in> range_of (d + 1) n" for a
  proof (cases "a = d")
    case False
    then have "1 \<le> unat (a - d)" by (simp add: Suc_le_eq unat_gt_0)
    then show ?thesis using False win by (simp add: range_of_def)
  qed (simp add: range_of_def)
  then show "range_of d (Suc n) = insert d (range_of (d + 1) n)" by blast
qed

lemma rep_movsb_copied:
  assumes "n \<le> unat (d - s) \<or> d = s" "n < 2 ^ 64"
  shows "rep_movsb n d s m = copied d s (range_of d n) m"
  using assms
proof (induction n arbitrary: d s m)
  case 0
  then show ?case by (simp add: range_of_def)
next
  case (Suc n)
  have IH: "rep_movsb n (d + 1) (s + 1) (m(d := m s)) = copied (d + 1) (s + 1) (range_of (d + 1) n) (m(d := m s))"
    using Suc.prems by (intro Suc.IH) auto
  note r = range_of_Suc [of n d]
  have "(if a \<in> range_of (d + 1) n then (m(d := m s)) (s + 1 + (a - (d + 1))) else (m(d := m s)) a) =
    (if a \<in> range_of d (Suc n) then m (s + (a - d)) else m a)" for a
  proof (cases "a \<in> range_of (d + 1) n")
    case True
    have src: "s + (a - d) = d \<Longrightarrow> m s = m d"
    proof -
      assume e: "s + (a - d) = d"
      then have "a - d = d - s" by (metis add_diff_cancel_left')
      moreover have "1 \<le> unat (a - d)" "unat (a - d) < Suc n"
        using True window_iff [of 1 n a d] Suc.prems(2) by simp_all
      ultimately show "m s = m d" using Suc.prems(1) by auto
    qed
    define b where "b = s + (a - d)"
    have "s + 1 + (a - (d + 1)) = b" by (simp add: b_def)
    moreover have "(m(d := m s)) b = m b" using src unfolding b_def [symmetric] by simp
    ultimately show ?thesis using True r(1) Suc.prems(2) by (simp add: b_def [symmetric])
  next
    case False
    then show ?thesis using r Suc.prems(2) by auto
  qed
  then show ?case using IH by (simp add: copied_def fun_eq_iff)
qed

text \<open>A list of chunks of one width covers a range when it reaches every byte and none beyond.\<close>

definition covers :: "nat \<Rightarrow> addr list \<Rightarrow> nat \<Rightarrow> bool" where
  "covers w offs n \<longleftrightarrow> n \<le> 2 ^ 64 \<and> (\<forall>off \<in> set offs. unat off + w \<le> n) \<and>
     (\<forall>k < n. \<exists>off \<in> set offs. unat off \<le> k \<and> k < unat off + w)"

lemma covers_range: "covers w offs n \<Longrightarrow> (\<Union>off \<in> set offs. range_of (d + off) w) = range_of d n"
proof -
  assume c: "covers w offs n"
  have "(\<Union>(off, w) \<in> set (map (\<lambda>off. (off, w)) offs). range_of (d + off) w) = range_of d n"
    by (rule range_of_cover) (use c in \<open>auto simp: covers_def\<close>)
  then show ?thesis by simp
qed

lemma copy_chunks_covers:
  assumes "LENGTH('a) = 8 * w" "covers w offs n" "apart d s n"
  shows "fold (copy_chunk TYPE('a::len) d s) offs m = copied d s (range_of d n) m"
proof -
  have "fold (copy_chunk TYPE('a) d s) os (copied d s A m) = copied d s (A \<union> (\<Union>off \<in> set os. range_of (d + off) w)) m"
    if "set os \<subseteq> set offs" "A \<subseteq> range_of d n" for os A
    using that
  proof (induction os arbitrary: A)
    case (Cons off os)
    have off: "unat off + w \<le> n" "n \<le> 2 ^ 64" using assms(2) Cons.prems(1) by (auto simp: covers_def)
    note step = copy_chunk_copied [OF assms(1) off assms(3) Cons.prems(2)]
    show ?case
      using Cons.IH [of "A \<union> range_of (d + off) w"] Cons.prems(1) step by (simp add: Un_assoc)
  qed simp
  from this [of offs "{}"] show ?thesis using covers_range [OF assms(2)] by simp
qed

lemma transfer_covers:
  assumes "LENGTH('a) = 8 * w" "covers w offs n"
  shows "transfer_chunks TYPE('a::len) d s offs m = copied d s (range_of d n) m"
  using transfer_chunks_copied [OF assms(1)] covers_range [OF assms(2)] by simp

text \<open>The bands of the sources.\<close>

lemma unat_le_2p64: "unat (n :: u64) \<le> 2 ^ 64"
  using unat_bound [of n] by simp

lemma covers_2:
  assumes "unat n \<le> 2 * w" "w \<le> unat n" "unat off = unat n - w"
  shows "covers w [0, off] (unat (n :: u64))" "covers w [off, 0] (unat n)"
  using assms unat_le_2p64 [of n] by (auto simp: covers_def)

lemma covers_4:
  assumes "16 < n" "n \<le> 32"
  shows "covers 8 [0, 8, n - 16, n - 8] (unat (n :: u64))" "covers 8 [n - 8, n - 16, 8, 0] (unat n)"
proof -
  have u: "16 < unat n" "unat n \<le> 32" "unat (n - 16) = unat n - 16" "unat (n - 8) = unat n - 8"
    using assms by (simp_all add: word_less_nat_alt word_le_nat_alt unat_sub)
  have "k < 8 \<or> 8 \<le> k \<and> k < 16 \<or> unat n - 16 \<le> k \<and> k < unat n - 8 \<or> unat n - 8 \<le> k" if "k < unat n" for k
    using u by linarith
  then show "covers 8 [0, 8, n - 16, n - 8] (unat n)" "covers 8 [n - 8, n - 16, 8, 0] (unat n)"
    using u(1,2) unat_le_2p64 [of n] unfolding covers_def by (auto simp: u(3,4))
qed

lemma covers_8:
  assumes "32 < n" "n \<le> 64"
  shows "covers 8 [0, 8, 16, 24, n - 32, n - 24, n - 16, n - 8] (unat (n :: u64))"
    "covers 8 [n - 8, n - 16, n - 24, n - 32, 24, 16, 8, 0] (unat n)"
proof -
  have u: "32 < unat n" "unat n \<le> 64" "unat (n - 16) = unat n - 16" "unat (n - 8) = unat n - 8"
    "unat (n - 32) = unat n - 32" "unat (n - 24) = unat n - 24"
    using assms by (simp_all add: word_less_nat_alt word_le_nat_alt unat_sub)
  have "k < 8 \<or> 8 \<le> k \<and> k < 16 \<or> 16 \<le> k \<and> k < 24 \<or> 24 \<le> k \<and> k < 32 \<or>
      unat n - 32 \<le> k \<and> k < unat n - 24 \<or> unat n - 24 \<le> k \<and> k < unat n - 16 \<or>
      unat n - 16 \<le> k \<and> k < unat n - 8 \<or> unat n - 8 \<le> k" if "k < unat n" for k
    using u by linarith
  then show "covers 8 [0, 8, 16, 24, n - 32, n - 24, n - 16, n - 8] (unat n)"
    "covers 8 [n - 8, n - 16, n - 24, n - 32, 24, 16, 8, 0] (unat n)"
    using u(1,2) unat_le_2p64 [of n] unfolding covers_def by (auto simp: u(3-6))
qed

lemma covers_1: "n = 1 \<Longrightarrow> covers 1 [0] (unat (n :: u64))"
  by (simp add: covers_def)

text \<open>Which band a length is in, with the chunks for it.\<close>

lemma band_cases:
  fixes n :: u64
  obtains (zero) "n = 0"
  | (one) "n = 1" "\<not> 2 \<le> n" "\<not> 4 \<le> n" "\<not> 8 \<le> n" "n \<le> 16"
  | (two) "2 \<le> n" "\<not> 4 \<le> n" "\<not> 8 \<le> n" "n \<le> 16" "covers 2 [0, n - 2] (unat n)" "covers 2 [n - 2, 0] (unat n)"
  | (four) "4 \<le> n" "\<not> 8 \<le> n" "n \<le> 16" "covers 4 [0, n - 4] (unat n)" "covers 4 [n - 4, 0] (unat n)"
  | (eight) "8 \<le> n" "n \<le> 16" "covers 8 [0, n - 8] (unat n)" "covers 8 [n - 8, 0] (unat n)"
  | (sixteen) "\<not> n \<le> 16" "n \<le> 32"
  | (thirtytwo) "\<not> n \<le> 16" "\<not> n \<le> 32" "n \<le> 64"
  | (long) "\<not> n \<le> 16" "\<not> n \<le> 32" "\<not> n \<le> 64"
proof -
  have c: "covers w [0, n - of_nat w] (unat n)" "covers w [n - of_nat w, 0] (unat n)"
    if "unat n \<le> 2 * w" "w \<le> unat n" "w \<le> 8" for w
  proof -
    have "unat (of_nat w :: u64) = w" using that(3) by (simp add: unat_of_nat take_bit_nat_eq_self)
    then have "unat (n - of_nat w) = unat n - w" using that by (simp add: unat_sub word_le_nat_alt)
    then show "covers w [0, n - of_nat w] (unat n)" "covers w [n - of_nat w, 0] (unat n)"
      using covers_2 that by blast+
  qed
  have n1: "\<not> 2 \<le> n \<Longrightarrow> n \<noteq> 0 \<Longrightarrow> n = 1"
  proof -
    assume "\<not> 2 \<le> n" "n \<noteq> 0"
    then have "unat n < 2" "0 < unat n" by (simp_all add: word_le_nat_alt unat_gt_0)
    then have "unat n = unat (1 :: u64)" by simp
    then show "n = 1" by (simp only: word_unat_eq_iff)
  qed
  have small: "n \<le> 16" if "\<not> 8 \<le> n" using that by (simp add: word_le_nat_alt)
  consider "n = 0" | "n \<noteq> 0" "\<not> 2 \<le> n" "\<not> 4 \<le> n" "\<not> 8 \<le> n" | "2 \<le> n" "\<not> 4 \<le> n" "\<not> 8 \<le> n"
    | "4 \<le> n" "\<not> 8 \<le> n" | "8 \<le> n" "n \<le> 16" | "\<not> n \<le> 16" "n \<le> 32"
    | "\<not> n \<le> 16" "\<not> n \<le> 32" "n \<le> 64" | "\<not> n \<le> 16" "\<not> n \<le> 32" "\<not> n \<le> 64"
    unfolding word_le_nat_alt by fastforce
  then show thesis
  proof cases
    case 2
    then show ?thesis using one n1 small by blast
  next
    case 3
    then have "unat n \<le> 2 * 2" "2 \<le> unat n" by (simp_all add: word_le_nat_alt)
    then show ?thesis using c [of 2] two 3 small by simp
  next
    case 4
    then have "unat n \<le> 2 * 4" "4 \<le> unat n" by (simp_all add: word_le_nat_alt)
    then show ?thesis using c [of 4] four 4 small by simp
  next
    case 5
    then have "unat n \<le> 2 * 8" "8 \<le> unat n" by (simp_all add: word_le_nat_alt)
    then show ?thesis using c [of 8] eight 5 by simp
  qed (use zero sixteen thirtytwo long in blast)+
qed

lemma memcpy_copied:
  assumes "apart d s (unat n)"
  shows "memcpy d s n m = copied d s (range_of d (unat n)) m"
proof -
  note f = copy_chunks_covers [OF _ _ assms, where m = m]
  show ?thesis
  proof (cases n rule: band_cases)
    case zero
    then show ?thesis by (simp add: memcpy_def range_of_def)
  next
    case one
    then show ?thesis using f [of 1 "[0]", where 'a = 8] covers_1 [of n] by (simp add: memcpy_def)
  next
    case two
    then show ?thesis using f [of 2 "[0, n - 2]", where 'a = 16] by (simp add: memcpy_def)
  next
    case four
    then show ?thesis using f [of 4 "[0, n - 4]", where 'a = 32] by (simp add: memcpy_def)
  next
    case eight
    then show ?thesis using f [of 8 "[0, n - 8]", where 'a = 64] by (simp add: memcpy_def)
  next
    case sixteen
    then show ?thesis
      using f [of 8 "[0, 8, n - 16, n - 8]", where 'a = 64] covers_4 [of n] by (simp add: memcpy_def)
  next
    case thirtytwo
    then show ?thesis
      using f [of 8 "[0, 8, 16, 24, n - 32, n - 24, n - 16, n - 8]", where 'a = 64] covers_8 [of n]
      by (simp add: memcpy_def)
  next
    case long
    have "unat n \<le> unat (d - s) \<or> d = s"
    proof (rule ccontr)
      assume a: "\<not> (unat n \<le> unat (d - s) \<or> d = s)"
      have "d \<in> range_of s (unat n)" using a by (simp add: range_of_def)
      moreover have "0 < unat n" using long by (simp add: word_le_nat_alt)
      then have "d \<in> range_of d (unat n)" by (simp add: range_of_def)
      ultimately show False using assms by (auto simp: apart_def)
    qed
    then show ?thesis using long rep_movsb_copied [of "unat n" d s m] unat_bound [of n] by (simp add: memcpy_def)
  qed
qed

lemma move_down_copied:
  assumes "0 < n" "n \<le> 64"
  shows "move_down d s n m = copied d s (range_of d (unat n)) m"
proof (cases n rule: band_cases)
  case one
  then show ?thesis using transfer_covers [of 1 "[0]" 1, where 'a = 8] covers_1 [of n] by (simp add: move_down_def)
next
  case two
  then show ?thesis using transfer_covers [of 2 "[n - 2, 0]" "unat n", where 'a = 16] by (simp add: move_down_def)
next
  case four
  then show ?thesis using transfer_covers [of 4 "[n - 4, 0]" "unat n", where 'a = 32] by (simp add: move_down_def)
next
  case eight
  then show ?thesis using transfer_covers [of 8 "[n - 8, 0]" "unat n", where 'a = 64] by (simp add: move_down_def)
next
  case sixteen
  then show ?thesis
    using transfer_covers [OF _ covers_4(2) [of n], where 'a = 64] by (simp add: move_down_def)
next
  case thirtytwo
  then show ?thesis
    using transfer_covers [OF _ covers_8(2) [of n], where 'a = 64] by (simp add: move_down_def)
qed (use assms in simp_all)

text \<open>The upper part of a range, which a backward copy has already moved.\<close>

definition upper :: "addr \<Rightarrow> nat \<Rightarrow> nat \<Rightarrow> addr set" where
  "upper d rem n = {a. rem \<le> unat (a - d) \<and> unat (a - d) < n}"

lemma source_below_upper:
  fixes d s a :: addr
  assumes "unat (a - d) < rem" "n + unat (d - s) \<le> 2 ^ 64"
  shows "s + (a - d) \<notin> upper d rem n"
proof -
  have eq: "s + (a - d) - d = (a - d) - (d - s)" by simp
  have "unat (s + (a - d) - d) = (if unat (d - s) \<le> unat (a - d) then unat (a - d) - unat (d - s)
      else unat (a - d) + 2 ^ 64 - unat (d - s))"
    unfolding eq unat_sub_if' by simp
  then show ?thesis using assms by (auto simp: upper_def split: if_splits)
qed

lemma copied_lower:
  assumes "\<And>a. a \<in> W \<Longrightarrow> unat (a - d) < rem" "n + unat (d - s) \<le> 2 ^ 64"
  shows "copied d s W (copied d s (upper d rem n) m) = copied d s (W \<union> upper d rem n) m"
  using assms source_below_upper [OF assms(1) assms(2)] by (auto simp: copied_def fun_eq_iff)

lemma block_windows:
  assumes "unat r + 64 \<le> 2 ^ 64"
  shows "(\<Union>off \<in> set [r + 56, r + 48, r + 40, r + 32, r + 24, r + 16, r + 8, r]. range_of (d + off) 8) =
    upper d (unat (r :: addr)) (unat r + 64)"
proof (rule set_eqI)
  fix a
  have off: "unat (r + of_nat i) = unat r + i" if "i < 64" for i
  proof -
    have i: "unat (of_nat i :: addr) = i" using that by (simp add: unat_of_nat take_bit_nat_eq_self)
    have "unat r + unat (of_nat i :: addr) < 2 ^ 64" using i that assms by simp
    then show ?thesis by (simp only: unat_word_ariths(1)) (simp add: i)
  qed
  have win: "a \<in> range_of (d + (r + of_nat i)) 8 \<longleftrightarrow> unat r + i \<le> unat (a - d) \<and> unat (a - d) < unat r + i + 8"
    if "i \<le> 56" for i
    using window_iff [of "r + of_nat i" 8 a d] off [of i] that assms by simp
  show "a \<in> (\<Union>off \<in> set [r + 56, r + 48, r + 40, r + 32, r + 24, r + 16, r + 8, r]. range_of (d + off) 8)
    \<longleftrightarrow> a \<in> upper d (unat r) (unat r + 64)"
  proof -
    have arith: "R + 56 \<le> K \<and> K < R + 56 + 8 \<or> R + 48 \<le> K \<and> K < R + 48 + 8 \<or> R + 40 \<le> K \<and> K < R + 40 + 8 \<or>
      R + 32 \<le> K \<and> K < R + 32 + 8 \<or> R + 24 \<le> K \<and> K < R + 24 + 8 \<or> R + 16 \<le> K \<and> K < R + 16 + 8 \<or>
      R + 8 \<le> K \<and> K < R + 8 + 8 \<or> R + 0 \<le> K \<and> K < R + 0 + 8 \<longleftrightarrow> R \<le> K \<and> K < R + 64" for R K :: nat
      by presburger
    have "a \<in> (\<Union>off \<in> set [r + 56, r + 48, r + 40, r + 32, r + 24, r + 16, r + 8, r]. range_of (d + off) 8) \<longleftrightarrow>
      a \<in> range_of (d + (r + of_nat 56)) 8 \<or> a \<in> range_of (d + (r + of_nat 48)) 8 \<or>
      a \<in> range_of (d + (r + of_nat 40)) 8 \<or> a \<in> range_of (d + (r + of_nat 32)) 8 \<or>
      a \<in> range_of (d + (r + of_nat 24)) 8 \<or> a \<in> range_of (d + (r + of_nat 16)) 8 \<or>
      a \<in> range_of (d + (r + of_nat 8)) 8 \<or> a \<in> range_of (d + (r + of_nat 0)) 8"
      by simp
    then show ?thesis unfolding upper_def mem_Collect_eq arith [symmetric] by (simp only: win le_numeral_extra numeral_le_iff semiring_norm)
  qed
qed

lemma move_blocks_copied:
  "move_blocks d s rem mm = (rem', m') \<Longrightarrow> mm = copied d s (upper d (unat rem) n) m \<Longrightarrow>
   n + unat (d - s) \<le> 2 ^ 64 \<Longrightarrow> unat rem \<le> n \<Longrightarrow>
   m' = copied d s (upper d (unat rem') n) m \<and> unat rem' < 64"
proof (induction d s rem mm rule: move_blocks.induct)
  case (1 d s rem mm)
  show ?case
  proof (cases "64 \<le> rem")
    case True
    define r where "r = rem - 64"
    have r: "unat rem = unat r + 64" "unat r + 64 \<le> 2 ^ 64"
      using True unat_le_2p64 [of rem] by (simp_all add: r_def word_le_nat_alt unat_sub)
    let ?offs = "[r + 56, r + 48, r + 40, r + 32, r + 24, r + 16, r + 8, r]"
    have "transfer_chunks TYPE(64) d s ?offs mm = copied d s (upper d (unat r) (unat r + 64)) mm"
      using transfer_chunks_copied [of 8, where 'a = 64] block_windows [OF r(2)] by simp
    also have "\<dots> = copied d s (upper d (unat r) (unat r + 64) \<union> upper d (unat rem) n) m"
      unfolding "1.prems"(2) by (rule copied_lower [OF _ "1.prems"(3)]) (simp add: upper_def r)
    also have "upper d (unat r) (unat r + 64) \<union> upper d (unat rem) n = upper d (unat r) n"
      using r(1) "1.prems"(4) by (auto simp: upper_def)
    finally have mid: "transfer_chunks TYPE(64) d s ?offs mm = copied d s (upper d (unat r) n) m" .
    have "move_blocks d s r (transfer_chunks TYPE(64) d s ?offs mm) = (rem', m')"
      using "1.prems"(1) True by (subst (asm) move_blocks.simps) (simp add: r_def Let_def)
    then show ?thesis
      using "1.IH" [OF True r_def] mid "1.prems"(3,4) r(1) by simp
  next
    case False
    then show ?thesis
      using "1.prems" by (subst (asm) move_blocks.simps) (auto simp: word_le_nat_alt)
  qed
qed

lemma memmove_copied:
  assumes "n \<le> 0x8000000000000000"
  shows "memmove d s n m = copied d s (range_of d (unat n)) m"
proof (cases "n = 0 \<or> d = s")
  case True
  then show ?thesis by (auto simp: memmove_def copied_def range_of_def)
next
  case False
  have pos: "0 < n" using False by (simp add: word_gt_0)
  show ?thesis
  proof (cases "n \<le> d - s")
    case forward: True
    show ?thesis
    proof (cases n rule: band_cases)
      case long
      then show ?thesis
        using rep_movsb_copied [of "unat n" d s m] unat_bound [of n] forward False
        by (simp add: memmove_def word_le_nat_alt)
    next
      case one
      then show ?thesis using transfer_covers [of 1 "[0]" 1, where 'a = 8] covers_1 [of n] forward False
        by (simp add: memmove_def)
    next
      case two
      then show ?thesis using transfer_covers [of 2 "[0, n - 2]" "unat n", where 'a = 16] forward False
        by (simp add: memmove_def)
    next
      case four
      then show ?thesis using transfer_covers [of 4 "[0, n - 4]" "unat n", where 'a = 32] forward False
        by (simp add: memmove_def)
    next
      case eight
      then show ?thesis using transfer_covers [of 8 "[0, n - 8]" "unat n", where 'a = 64] forward False
        by (simp add: memmove_def)
    next
      case sixteen
      then have "n \<le> 64" by (simp add: word_le_nat_alt)
      then show ?thesis
        using transfer_covers [OF _ covers_4(1) [of n], where 'a = 64] forward False sixteen by (simp add: memmove_def)
    next
      case thirtytwo
      then show ?thesis
        using transfer_covers [OF _ covers_8(1) [of n], where 'a = 64] forward False by (simp add: memmove_def)
    qed (use False in simp)
  next
    case backward: False
    show ?thesis
    proof (cases "n \<le> 64")
      case True
      then show ?thesis using move_down_copied [OF pos True] False backward by (simp add: memmove_def)
    next
      case long: False
      have fits: "unat n + unat (d - s) \<le> 2 ^ 64"
        using backward assms by (simp add: word_le_nat_alt not_le)
      obtain rem m' where b: "move_blocks d s n m = (rem, m')" by fastforce
      have "upper d (unat n) (unat n) = {}" by (auto simp: upper_def)
      then have m': "m' = copied d s (upper d (unat rem) (unat n)) m" "unat rem < 64"
        using move_blocks_copied [OF b, of "unat n" m] fits by simp_all
      have "copied d s (range_of d (unat rem)) m' = copied d s (range_of d (unat rem) \<union> upper d (unat rem) (unat n)) m"
        unfolding m'(1) by (rule copied_lower [OF _ fits]) (simp add: range_of_def)
      moreover have "range_of d (unat rem) \<union> upper d (unat rem) (unat n) = range_of d (unat n)"
      proof -
        have "unat rem \<le> unat n" using m'(2) long by (simp add: word_le_nat_alt)
        then show ?thesis by (auto simp: range_of_def upper_def)
      qed
      ultimately have "copied d s (range_of d (unat rem)) m' = copied d s (range_of d (unat n)) m" by simp
      moreover have "memmove d s n m = (if rem > 0 then move_down d s rem m' else m')"
        using False backward long b by (simp add: memmove_def)
      moreover have "rem > 0 \<Longrightarrow> move_down d s rem m' = copied d s (range_of d (unat rem)) m'"
        using m'(2) by (intro move_down_copied) (simp_all add: word_le_nat_alt)
      moreover have "\<not> rem > 0 \<Longrightarrow> range_of d (unat rem) = {}" by (simp add: range_of_def word_gt_0)
      ultimately show ?thesis by (cases "rem > 0") simp_all
    qed
  qed
qed

subsection \<open>Filling\<close>

definition filled :: "addr set \<Rightarrow> u8 \<Rightarrow> mem \<Rightarrow> mem" where
  "filled A b m = (\<lambda>a. if a \<in> A then b else m a)"

lemma store_filled:
  assumes "LENGTH('a) = 8 * w" "\<And>i. i < w \<Longrightarrow> byte_of (v :: 'a::len word) i = b"
  shows "unaligned_store p v m = filled (range_of p w) b m"
  using assms by (auto simp: unaligned_store_def filled_def range_of_def fun_eq_iff)

lemma fill_covers:
  assumes "LENGTH('a) = 8 * w" "\<And>i. i < w \<Longrightarrow> byte_of (v :: 'a::len word) i = b" "covers w offs n"
  shows "fold (\<lambda>off. unaligned_store (d + off) v) offs m = filled (range_of d n) b m"
proof -
  have "fold (\<lambda>off. unaligned_store (d + off) v) os (filled A b m) = filled (A \<union> (\<Union>off \<in> set os. range_of (d + off) w)) b m" for os A
  proof (induction os arbitrary: A)
    case (Cons off os)
    have "unaligned_store (d + off) v (filled A b m) = filled (A \<union> range_of (d + off) w) b m"
    proof -
      have "unaligned_store (d + off) v (filled A b m) = filled (range_of (d + off) w) b (filled A b m)"
        by (rule store_filled [OF assms(1,2)])
      then show ?thesis by (auto simp: filled_def fun_eq_iff)
    qed
    then show ?case using Cons [of "A \<union> range_of (d + off) w"] by (simp add: Un_assoc)
  qed simp
  from this [of offs "{}"] show ?thesis using covers_range [OF assms(3)] by (simp add: filled_def)
qed

lemma byte_of_ucast_broadcast:
  assumes "LENGTH('a) = 8 * w" "w \<le> 8" "i < w"
  shows "byte_of (ucast (broadcast_byte c) :: 'a::len word) i = c"
proof -
  have "byte_of (ucast (broadcast_byte c) :: 'a word) i = byte_of (broadcast_byte c) i"
    using assms by (intro bit_word_eqI) (simp add: bit_byte_of bit_unsigned_iff)
  then show ?thesis using byte_of_broadcast assms by simp
qed

lemma rep_stosb_filled: "n < 2 ^ 64 \<Longrightarrow> rep_stosb n d b m = filled (range_of d n) b m"
proof (induction n arbitrary: d m)
  case (Suc n)
  then show ?case using range_of_Suc [of n d] by (auto simp: filled_def fun_eq_iff)
qed (simp add: filled_def range_of_def)

lemma memset_filled: "memset d ch n m = filled (range_of d (unat n)) (word_of_int ch) m"
proof -
  let ?b = "word_of_int ch :: u8"
  let ?v = "broadcast_byte ?b"
  show ?thesis
  proof (cases n rule: band_cases)
    case zero
    then show ?thesis by (simp add: memset_def range_of_def filled_def)
  next
    case one
    have "fold (\<lambda>off. unaligned_store (d + off) ?b) [0] m = filled (range_of d (unat n)) ?b m"
      by (rule fill_covers [of 1]) (use covers_1 [of n] one(1) in \<open>simp_all add: byte_of_def\<close>)
    then show ?thesis using one by (simp add: memset_def Let_def)
  next
    case two
    have "fold (\<lambda>off. unaligned_store (d + off) (ucast ?v :: u16)) [0, n - 2] m = filled (range_of d (unat n)) ?b m"
      by (rule fill_covers [of 2]) (use two(5) in \<open>simp_all add: byte_of_ucast_broadcast [of 2]\<close>)
    then show ?thesis using two by (simp add: memset_def Let_def)
  next
    case four
    have "fold (\<lambda>off. unaligned_store (d + off) (ucast ?v :: u32)) [0, n - 4] m = filled (range_of d (unat n)) ?b m"
      by (rule fill_covers [of 4]) (use four(4) in \<open>simp_all add: byte_of_ucast_broadcast [of 4]\<close>)
    then show ?thesis using four by (simp add: memset_def Let_def)
  next
    case eight
    have "fold (\<lambda>off. unaligned_store (d + off) ?v) [0, n - 8] m = filled (range_of d (unat n)) ?b m"
      by (rule fill_covers [of 8]) (use eight(3) in \<open>simp_all add: byte_of_broadcast\<close>)
    then show ?thesis using eight by (simp add: memset_def Let_def)
  next
    case sixteen
    have "fold (\<lambda>off. unaligned_store (d + off) ?v) [0, 8, n - 16, n - 8] m = filled (range_of d (unat n)) ?b m"
      by (rule fill_covers [of 8]) (use covers_4 [of n] sixteen in \<open>simp_all add: byte_of_broadcast\<close>)
    then show ?thesis using sixteen by (simp add: memset_def Let_def)
  next
    case thirtytwo
    have "fold (\<lambda>off. unaligned_store (d + off) ?v) [0, 8, 16, 24, n - 32, n - 24, n - 16, n - 8] m = filled (range_of d (unat n)) ?b m"
      by (rule fill_covers [of 8]) (use covers_8 [of n] thirtytwo in \<open>simp_all add: byte_of_broadcast\<close>)
    then show ?thesis using thirtytwo by (simp add: memset_def Let_def)
  next
    case long
    then show ?thesis using rep_stosb_filled [of "unat n"] unat_bound [of n] by (simp add: memset_def Let_def)
  qed
qed

subsection \<open>Searching\<close>

lemma find_concat: "find P (xs @ ys) = (case find P xs of None \<Rightarrow> find P ys | Some x \<Rightarrow> Some x)"
  by (induction xs) auto

lemma find_window:
  assumes "\<And>i. i < k \<Longrightarrow> \<not> P i" "off \<le> k"
  shows "map_option ((+) off) (find (\<lambda>i. P (off + i)) [0..<w]) = find P [0..<off + w]"
proof -
  have "find P [0..<off + w] = find P [off..<off + w]"
  proof -
    have "[0..<off + w] = [0..<off] @ [off..<off + w]" using upt_add_eq_append [of 0 off w] by simp
    moreover have "find P [0..<off] = None" using assms by (simp add: find_None_iff)
    ultimately show ?thesis by (simp add: find_concat)
  qed
  moreover have "[off..<off + w] = map ((+) off) [0..<w]" by (rule nth_equalityI) simp_all
  moreover have "find P (map ((+) off) xs) = map_option ((+) off) (find (\<lambda>i. P (off + i)) xs)" for xs
    by (induction xs) auto
  ultimately show ?thesis by simp
qed

lemma find_upt_mono: "find P [0..<k] = Some i \<Longrightarrow> k \<le> n \<Longrightarrow> find P [0..<n] = Some i"
proof -
  assume a: "find P [0..<k] = Some i" "k \<le> n"
  then have "[0..<n] = [0..<k] @ [k..<n]" using upt_add_eq_append [of 0 k "n - k"] by simp
  then show ?thesis using a(1) by (simp add: find_concat)
qed

text \<open>
  \<open>reach w k offs n\<close>: chunks of \<open>w\<close> bytes at the offsets, one after the other, extend a prefix of
  \<open>k\<close> bytes to one of \<open>n\<close> bytes without leaving a gap.  They may overlap.
\<close>

fun reach :: "nat \<Rightarrow> nat \<Rightarrow> addr list \<Rightarrow> nat \<Rightarrow> bool" where
  "reach w k [] n \<longleftrightarrow> k = n"
| "reach w k (off # offs) n \<longleftrightarrow> unat off \<le> k \<and> reach w (max k (unat off + w)) offs n"

lemma reach_mono: "reach w k offs n \<Longrightarrow> k \<le> n"
proof (induction offs arbitrary: k)
  case (Cons off offs)
  then have "max k (unat off + w) \<le> n" by (metis reach.simps(2))
  then show ?case by simp
qed simp

lemma chunk_prefix:
  assumes "find (\<lambda>i. P (unat off + i)) [0..<w] = None" "\<And>i. i < k \<Longrightarrow> \<not> P i" "i < max k (unat off + w)"
    "unat off \<le> k"
  shows "\<not> P i"
proof (cases "i < k")
  case False
  then have "i < unat off + w" using assms(3) by simp
  show ?thesis
  proof (cases "unat off \<le> i")
    case True
    then have "i - unat off < w" using \<open>i < unat off + w\<close> by linarith
    then have "\<not> P (unat off + (i - unat off))" using assms(1) by (simp add: find_None_iff)
    then show ?thesis using True by simp
  next
    case off: False
    then show ?thesis using assms(4) False by simp
  qed
qed (rule assms(2))

lemma compare_reach:
  assumes "LENGTH('a) = 8 * w" "0 < w"
    "\<And>i. i < k \<Longrightarrow> m (p1 + of_nat i) = m (p2 + of_nat i)" "reach w k offs n"
  shows "compare_chunks TYPE('a::len) m p1 p2 offs = mem_cmp m p1 p2 n"
  using assms(3,4)
proof (induction offs arbitrary: k)
  case Nil
  then have "find (\<lambda>i. m (p1 + of_nat i) \<noteq> m (p2 + of_nat i)) [0..<n] = None" by (simp add: find_None_iff)
  then show ?case by (simp add: mem_cmp_def)
next
  case (Cons off offs)
  let ?P = "\<lambda>i. m (p1 + of_nat i) \<noteq> m (p2 + of_nat i)"
  have idx: "p + off + of_nat i = p + of_nat (unat off + i)" for p i by simp
  have chk: "check_chunk TYPE('a) m p1 p2 off = (case find (\<lambda>i. ?P (unat off + i)) [0..<w] of None \<Rightarrow> 0
      | Some i \<Rightarrow> uint (m (p1 + of_nat (unat off + i))) - uint (m (p2 + of_nat (unat off + i))))"
    unfolding check_chunk_ok [OF assms(1,2)] mem_cmp_def idx ..
  have off: "unat off \<le> k" "reach w (max k (unat off + w)) offs n" using Cons.prems(2) by auto
  have win: "map_option ((+) (unat off)) (find (\<lambda>i. ?P (unat off + i)) [0..<w]) = find ?P [0..<unat off + w]"
    by (rule find_window [OF _ off(1)]) (use Cons.prems(1) in simp)
  show ?case
  proof (cases "find (\<lambda>i. ?P (unat off + i)) [0..<w]")
    case None
    have "compare_chunks TYPE('a) m p1 p2 offs = mem_cmp m p1 p2 n"
    proof (rule Cons.IH [OF _ off(2)])
      fix i assume i: "i < max k (unat off + w)"
      have "\<not> ?P i" by (rule chunk_prefix [where P = ?P, OF None _ i off(1)]) (use Cons.prems(1) in simp)
      then show "m (p1 + of_nat i) = m (p2 + of_nat i)" by simp
    qed
    then show ?thesis using chk None by simp
  next
    case (Some i)
    then have "find ?P [0..<unat off + w] = Some (unat off + i)" using win by simp
    moreover have "unat off + w \<le> n" using reach_mono [OF off(2)] by simp
    ultimately have f: "find ?P [0..<n] = Some (unat off + i)" by (rule find_upt_mono)
    then have "?P (unat off + i)" by (auto simp: find_Some_iff)
    then have "uint (m (p1 + of_nat (unat off + i))) - uint (m (p2 + of_nat (unat off + i))) \<noteq> 0"
      by (simp add: word_uint_eq_iff)
    then show ?thesis using chk Some f by (simp add: mem_cmp_def Let_def)
  qed
qed

lemma find_first_reach:
  assumes "LENGTH('a) = 8 * w" "w \<le> 8" "\<And>i. i < k \<Longrightarrow> m (p + of_nat i) \<noteq> c" "reach w k offs n"
  shows "find_first TYPE('a::len) m p (broadcast_byte c) offs = mem_find m p c n"
  using assms(3,4)
proof (induction offs arbitrary: k)
  case Nil
  then have "find (\<lambda>i. m (p + of_nat i) = c) [0..<n] = None" by (simp add: find_None_iff)
  then show ?case by (simp add: mem_find_def)
next
  case (Cons off offs)
  let ?P = "\<lambda>i. m (p + of_nat i) = c"
  have idx: "p + off + of_nat i = p + of_nat (unat off + i)" for i by simp
  have chk: "find_in_chunk TYPE('a) m p off (broadcast_byte c) =
      map_option (\<lambda>i. p + of_nat (unat off + i)) (find (\<lambda>i. ?P (unat off + i)) [0..<w])"
    unfolding find_in_chunk_ok [OF assms(1,2)] mem_find_def idx ..
  have off: "unat off \<le> k" "reach w (max k (unat off + w)) offs n" using Cons.prems(2) by auto
  have win: "map_option ((+) (unat off)) (find (\<lambda>i. ?P (unat off + i)) [0..<w]) = find ?P [0..<unat off + w]"
    by (rule find_window [OF _ off(1)]) (use Cons.prems(1) in simp)
  show ?case
  proof (cases "find (\<lambda>i. ?P (unat off + i)) [0..<w]")
    case None
    have "find_first TYPE('a) m p (broadcast_byte c) offs = mem_find m p c n"
    proof (rule Cons.IH [OF _ off(2)])
      fix i assume i: "i < max k (unat off + w)"
      show "\<not> ?P i" by (rule chunk_prefix [where P = ?P, OF None _ i off(1)]) (use Cons.prems(1) in simp)
    qed
    then show ?thesis using chk None by simp
  next
    case (Some i)
    then have "find ?P [0..<unat off + w] = Some (unat off + i)" using win by simp
    moreover have "unat off + w \<le> n" using reach_mono [OF off(2)] by simp
    ultimately have "find ?P [0..<n] = Some (unat off + i)" by (rule find_upt_mono)
    then show ?thesis using chk Some by (simp add: mem_find_def)
  qed
qed

lemma reach_4:
  assumes "unat o1 \<le> k" "unat o2 = unat o1 + 8" "unat o3 = unat o1 + 16" "unat o4 = unat o1 + 24"
    "k \<le> unat o1 + 32"
  shows "reach 8 k [o1, o2, o3, o4] (unat o1 + 32)"
  using assms by auto

lemma unat_add_small:
  fixes x y :: u64
  assumes "unat x + unat y < 2 ^ 64"
  shows "unat (x + y) = unat x + unat y"
  using assms unat_word_ariths(1) [of x y] by simp

lemma reach_block:
  fixes off n :: u64
  assumes "unat off + 32 \<le> unat n"
  shows "reach 8 (unat off) [off, off + 8, off + 16, off + 24] (unat off + 32)"
  using assms unat_bound [of n]
  by (intro reach_4) (simp_all add: unat_add_small)

lemma reach_tail:
  fixes off n :: u64
  assumes "unat off \<le> unat n" "unat n < unat off + 32" "32 \<le> unat n"
  shows "reach 8 (unat off) [n - 32, n - 32 + 8, n - 32 + 16, n - 32 + 24] (unat n)"
proof -
  have u: "unat (n - 32) = unat n - 32" using assms(3) by (simp add: unat_sub word_le_nat_alt)
  have "reach 8 (unat off) [n - 32, n - 32 + 8, n - 32 + 16, n - 32 + 24] (unat (n - 32) + 32)"
  proof (rule reach_4)
    have "unat (n - 24) = unat n - 24" "unat (n - 16) = unat n - 16" "unat (n - 8) = unat n - 8"
      using assms(3) by (simp_all add: unat_sub word_le_nat_alt)
    then show "unat (n - 32 + 8) = unat (n - 32) + 8" "unat (n - 32 + 16) = unat (n - 32) + 16"
      "unat (n - 32 + 24) = unat (n - 32) + 24" using u assms(3) by simp_all
  qed (use assms u in simp_all)
  then show ?thesis using u assms(3) by simp
qed

lemma reach_bands:
  fixes n :: u64
  shows "n = 1 \<Longrightarrow> reach 1 0 [0] (unat n)"
    "2 \<le> n \<Longrightarrow> \<not> 4 \<le> n \<Longrightarrow> reach 2 0 [0, n - 2] (unat n)"
    "4 \<le> n \<Longrightarrow> \<not> 8 \<le> n \<Longrightarrow> reach 4 0 [0, n - 4] (unat n)"
    "8 \<le> n \<Longrightarrow> n \<le> 16 \<Longrightarrow> reach 8 0 [0, n - 8] (unat n)"
    "\<not> n \<le> 16 \<Longrightarrow> n \<le> 32 \<Longrightarrow> reach 8 0 [0, 8, n - 16, n - 8] (unat n)"
  by (auto simp: word_le_nat_alt unat_sub)

lemma memcmp_loop_ok:
  assumes "offset \<le> n" "32 \<le> n" "\<And>i. i < unat offset \<Longrightarrow> m (p1 + of_nat i) = m (p2 + of_nat i)"
  shows "memcmp_loop m p1 p2 n offset = mem_cmp m p1 p2 (unat n)"
  using assms
proof (induction m p1 p2 n offset rule: memcmp_loop.induct)
  case (1 m p1 p2 n offset)
  have le: "unat offset \<le> unat n" "32 \<le> unat n" using "1.prems"(1,2) by (simp_all add: word_le_nat_alt)
  have diff: "unat (n - offset) = unat n - unat offset" using "1.prems"(1) by (rule unat_sub)
  let ?offs = "[offset, offset + 8, offset + 16, offset + 24]"
  show ?case
  proof (cases "32 \<le> n - offset")
    case True
    then have r: "unat offset + 32 \<le> unat n" using diff le by (simp add: word_le_nat_alt)
    have c: "compare_chunks TYPE(64) m p1 p2 ?offs = mem_cmp m p1 p2 (unat offset + 32)"
      by (rule compare_reach [of 8, OF _ _ _ reach_block [OF r]]) (use "1.prems"(3) in simp_all)
    let ?P = "\<lambda>i. m (p1 + of_nat i) \<noteq> m (p2 + of_nat i)"
    show ?thesis
    proof (cases "find ?P [0..<unat offset + 32]")
      case None
      have o32: "unat (offset + 32) = unat offset + 32"
        using r unat_bound [of n] by (simp add: unat_add_small)
      have "memcmp_loop m p1 p2 n (offset + 32) = mem_cmp m p1 p2 (unat n)"
      proof (rule "1.IH" [OF True refl])
        show "\<not> compare_chunks TYPE(64) m p1 p2 ?offs \<noteq> 0" using c None by (simp add: mem_cmp_def)
        show "offset + 32 \<le> n" using o32 r by (simp add: word_le_nat_alt)
        show "m (p1 + of_nat i) = m (p2 + of_nat i)" if "i < unat (offset + 32)" for i
          using None that o32 by (auto simp: find_None_iff)
      qed (rule "1.prems"(2))
      then show ?thesis
        using True c None by (subst memcmp_loop.simps) (simp add: mem_cmp_def Let_def)
    next
      case (Some i)
      then have f: "find ?P [0..<unat n] = Some i" using find_upt_mono r by blast
      then have "?P i" by (auto simp: find_Some_iff)
      then have "uint (m (p1 + of_nat i)) - uint (m (p2 + of_nat i)) \<noteq> 0" by (simp add: word_uint_eq_iff)
      then show ?thesis
        using True c Some f by (subst memcmp_loop.simps) (simp add: mem_cmp_def Let_def del: compare_chunks.simps)
    qed
  next
    case False
    then have r: "unat n < unat offset + 32" using diff le by (simp add: word_le_nat_alt)
    have "compare_chunks TYPE(64) m p1 p2 [n - 32, n - 32 + 8, n - 32 + 16, n - 32 + 24] = mem_cmp m p1 p2 (unat n)"
      by (rule compare_reach [of 8, OF _ _ _ reach_tail [OF le(1) r le(2)]]) (use "1.prems"(3) in simp_all)
    moreover have "mem_cmp m p1 p2 (unat n) = 0" if "\<not> offset < n"
    proof -
      have "unat n \<le> unat offset" using that by (simp add: word_less_nat_alt)
      then have "find (\<lambda>i. m (p1 + of_nat i) \<noteq> m (p2 + of_nat i)) [0..<unat n] = None"
        using "1.prems"(3) by (simp add: find_None_iff)
      then show ?thesis by (simp add: mem_cmp_def)
    qed
    ultimately show ?thesis
      using False by (subst memcmp_loop.simps) (simp add: Let_def del: compare_chunks.simps)
  qed
qed

lemma memcmp_ok: "memcmp m p1 p2 n = mem_cmp m p1 p2 (unat n)"
proof (cases "n = 0 \<or> p1 = p2")
  case True
  then show ?thesis by (auto simp: memcmp_def mem_cmp_def find_None_iff split: option.split)
next
  case False
  note c = compare_reach [where k = 0, OF _ _ _ , where m = m and ?p1.0 = p1 and ?p2.0 = p2]
  show ?thesis
  proof (cases n rule: band_cases)
    case one
    then show ?thesis using c [of 1, OF _ _ _ reach_bands(1), where 'a = 8] False
      by (simp add: memcmp_def del: compare_chunks.simps)
  next
    case two
    then show ?thesis using c [of 2, OF _ _ _ reach_bands(2), where 'a = 16] False
      by (simp add: memcmp_def del: compare_chunks.simps)
  next
    case four
    then show ?thesis using c [of 4, OF _ _ _ reach_bands(3), where 'a = 32] False
      by (simp add: memcmp_def del: compare_chunks.simps)
  next
    case eight
    then show ?thesis using c [of 8, OF _ _ _ reach_bands(4), where 'a = 64] False
      by (simp add: memcmp_def del: compare_chunks.simps)
  next
    case sixteen
    then show ?thesis using c [of 8, OF _ _ _ reach_bands(5), where 'a = 64] False
      by (simp add: memcmp_def del: compare_chunks.simps)
  next
    case thirtytwo
    then show ?thesis using memcmp_loop_ok [of 0 n] False by (simp add: memcmp_def)
  next
    case long
    then show ?thesis using memcmp_loop_ok [of 0 n] False by (simp add: memcmp_def)
  qed (use False in simp)
qed

lemma memchr_loop_ok:
  assumes "offset \<le> n" "32 \<le> n" "\<And>i. i < unat offset \<Longrightarrow> m (p + of_nat i) \<noteq> c" "pattern = broadcast_byte c"
  shows "memchr_loop m p pattern n offset = mem_find m p c (unat n)"
  using assms
proof (induction m p pattern n offset rule: memchr_loop.induct)
  case (1 m p pattern n offset)
  have le: "unat offset \<le> unat n" "32 \<le> unat n" using "1.prems"(1,2) by (simp_all add: word_le_nat_alt)
  have diff: "unat (n - offset) = unat n - unat offset" using "1.prems"(1) by (rule unat_sub)
  let ?offs = "[offset, offset + 8, offset + 16, offset + 24]"
  let ?P = "\<lambda>i. m (p + of_nat i) = c"
  show ?case
  proof (cases "32 \<le> n - offset")
    case True
    then have r: "unat offset + 32 \<le> unat n" using diff le by (simp add: word_le_nat_alt)
    have f: "find_first TYPE(64) m p pattern ?offs = mem_find m p c (unat offset + 32)"
      unfolding "1.prems"(4)
      by (rule find_first_reach [of 8, OF _ _ _ reach_block [OF r]]) (use "1.prems"(3) in simp_all)
    show ?thesis
    proof (cases "find ?P [0..<unat offset + 32]")
      case None
      have o32: "unat (offset + 32) = unat offset + 32"
        using r unat_bound [of n] by (simp add: unat_add_small)
      have n: "find_first TYPE(64) m p pattern ?offs = None" using f None by (simp add: mem_find_def)
      have "memchr_loop m p pattern n (offset + 32) = mem_find m p c (unat n)"
      proof (rule "1.IH" [OF True n])
        show "offset + 32 \<le> n" using o32 r by (simp add: word_le_nat_alt)
        show "m (p + of_nat i) \<noteq> c" if "i < unat (offset + 32)" for i
          using None that o32 by (auto simp: find_None_iff)
      qed (use "1.prems"(2,4) in simp_all)
      then show ?thesis using True n by (subst memchr_loop.simps) (simp del: find_first.simps)
    next
      case (Some i)
      then have "find ?P [0..<unat n] = Some i" using find_upt_mono r by blast
      then show ?thesis
        using True f Some by (subst memchr_loop.simps) (simp add: mem_find_def del: find_first.simps)
    qed
  next
    case False
    then have r: "unat n < unat offset + 32" using diff le by (simp add: word_le_nat_alt)
    have "find_first TYPE(64) m p pattern [n - 32, n - 32 + 8, n - 32 + 16, n - 32 + 24] = mem_find m p c (unat n)"
      unfolding "1.prems"(4)
      by (rule find_first_reach [of 8, OF _ _ _ reach_tail [OF le(1) r le(2)]]) (use "1.prems"(3) in simp_all)
    moreover have "mem_find m p c (unat n) = None" if "\<not> offset < n"
    proof -
      have "unat n \<le> unat offset" using that by (simp add: word_less_nat_alt)
      then show ?thesis using "1.prems"(3) by (simp add: mem_find_def find_None_iff)
    qed
    ultimately show ?thesis
      using False by (subst memchr_loop.simps) (simp add: Let_def del: find_first.simps)
  qed
qed

lemma memchr_ok: "memchr m p ch n = mem_find m p (word_of_int ch) (unat n)"
proof -
  note c = find_first_reach [where k = 0 and m = m and p = p and c = "word_of_int ch"]
  show ?thesis
  proof (cases n rule: band_cases)
    case zero
    then show ?thesis by (simp add: memchr_def mem_find_def)
  next
    case one
    then show ?thesis using c [of 1, OF _ _ _ reach_bands(1), where 'a = 8]
      by (simp add: memchr_def del: find_first.simps)
  next
    case two
    then show ?thesis using c [of 2, OF _ _ _ reach_bands(2), where 'a = 16]
      by (auto simp add: memchr_def Let_def simp del: find_first.simps)
  next
    case four
    then show ?thesis using c [of 4, OF _ _ _ reach_bands(3), where 'a = 32]
      by (auto simp add: memchr_def Let_def simp del: find_first.simps)
  next
    case eight
    then show ?thesis using c [of 8, OF _ _ _ reach_bands(4), where 'a = 64]
      by (auto simp add: memchr_def Let_def simp del: find_first.simps)
  next
    case sixteen
    then show ?thesis using c [of 8, OF _ _ _ reach_bands(5), where 'a = 64]
      by (auto simp add: memchr_def Let_def simp del: find_first.simps)
  next
    case thirtytwo
    then show ?thesis using memchr_loop_ok [of 0 n] by (auto simp: memchr_def Let_def)
  next
    case long
    then show ?thesis using memchr_loop_ok [of 0 n] by (auto simp: memchr_def Let_def)
  qed
qed

subsection \<open>Properties\<close>

text \<open>C16: \<^verbatim>\<open>memmove\<close> leaves the destination with the bytes the source had before the call,
  however the two ranges overlap and whichever way the copy runs, and touches nothing else.  An
  object is at most half of the address space long.\<close>

theorem memmove_copies:
  assumes "n \<le> 0x8000000000000000"
  shows "memmove d s n m a = (if unat (a - d) < unat n then m (s + (a - d)) else m a)"
  unfolding memmove_copied [OF assms] by (simp add: copied_def range_of_def)

theorem memmove_copies_witness:
  "memmove 4 0 70 (\<lambda>a. ucast a) 73 = 69 \<and> memmove 4 0 70 (\<lambda>a. ucast a) 74 = 74"
  using memmove_copies [of 70 4 0 "\<lambda>a. ucast a" 73] memmove_copies [of 70 4 0 "\<lambda>a. ucast a" 74]
  by simp

text \<open>C17: \<^verbatim>\<open>memcpy\<close> of ranges that do not overlap copies every byte of the source and no other,
  and \<^verbatim>\<open>memset\<close> sets exactly the bytes of its range, for every length.\<close>

theorem memcpy_memset_exact:
  assumes "\<And>x. unat (x - d) < unat n \<Longrightarrow> \<not> unat (x - s) < unat n"
  shows "memcpy d s n m a = (if unat (a - d) < unat n then m (s + (a - d)) else m a) \<and>
    memset d ch n m a = (if unat (a - d) < unat n then word_of_int ch else m a)"
proof -
  have "apart d s (unat n)" using assms by (auto simp: apart_def range_of_def)
  then show ?thesis
    by (simp add: memcpy_copied memset_filled copied_def filled_def range_of_def)
qed

lemma ranges_0_32_apart: "unat (x - 0 :: addr) < 20 \<Longrightarrow> \<not> unat (x - 32) < 20"
proof -
  assume "unat (x - 0) < 20"
  then have "unat x < 20" by simp
  moreover have "unat (x - 32) = unat x + 2 ^ 64 - 32"
    using \<open>unat x < 20\<close> unat_sub_if' [of x 32] by simp
  ultimately show ?thesis by simp
qed

theorem memcpy_memset_exact_witness:
  "memcpy 0 32 20 (\<lambda>a. ucast a) 19 = 51 \<and> memset 0 (- 1) 20 (\<lambda>a. ucast a) 19 = 255"
  using memcpy_memset_exact [of 0 20 32 "\<lambda>a. ucast a" 19 "- 1"] ranges_0_32_apart by simp

text \<open>C18: \<^verbatim>\<open>memcmp\<close> returns the difference of the first two bytes that differ, or zero, and
  \<^verbatim>\<open>memchr\<close> the address of the first byte that matches, or null, as loops over single bytes
  would; the word-at-a-time tests and the overlapping chunks change nothing.\<close>

theorem memcmp_memchr_by_bytes:
  "memcmp m p1 p2 n = (case find (\<lambda>i. m (p1 + of_nat i) \<noteq> m (p2 + of_nat i)) [0..<unat n] of
      None \<Rightarrow> 0 | Some i \<Rightarrow> uint (m (p1 + of_nat i)) - uint (m (p2 + of_nat i))) \<and>
   memchr m p1 ch n = map_option (\<lambda>i. p1 + of_nat i)
      (find (\<lambda>i. m (p1 + of_nat i) = word_of_int ch) [0..<unat n])"
  unfolding memcmp_ok memchr_ok mem_cmp_def mem_find_def by simp

end
