(* ===== verification/StrScan.thy ===== *)
theory StrScan
  imports MemFuns "HOL-Library.Monad_Syntax"
begin

text \<open>
  The string functions of klib that read a word at a time: \<^verbatim>\<open>strlen.cpp\<close>, \<^verbatim>\<open>strchr.cpp\<close> and
  \<^verbatim>\<open>strcmp.cpp\<close> under \<^verbatim>\<open>klib/src/string/\<close>.  A loop that only a terminator ends is a partial function
  with \<^const>\<open>None\<close> for not returning; the facts show that it returns, and what, for every string.
\<close>

subsection \<open>strlen.cpp\<close>

definition clamp :: "u64 \<Rightarrow> u64 \<Rightarrow> u64" where
  "clamp maxlen len = (if len < maxlen then len else maxlen)"

definition match_at :: "u64 \<Rightarrow> u64" where
  "match_at match = of_nat (countr_zero match div 8)"

partial_function (option) strnlen_tail :: "mem \<Rightarrow> u64 \<Rightarrow> addr \<Rightarrow> u64 \<Rightarrow> u64 option" where
  "strnlen_tail m maxlen cur scanned =
     (if scanned < maxlen then
        let match = has_zero_byte (unaligned_load m cur :: u64) in
        if match \<noteq> 0 then Some (clamp maxlen (scanned + match_at match))
        else strnlen_tail m maxlen (cur + 8) (scanned + 8)
      else Some maxlen)"

fun round_scan :: "mem \<Rightarrow> addr \<Rightarrow> u64 \<Rightarrow> u64 list \<Rightarrow> u64 option" where
  "round_scan m cur scanned [] = None"
| "round_scan m cur scanned (i # is) =
     (let match = has_zero_byte (unaligned_load m (cur + i * 8) :: u64) in
      if match \<noteq> 0 then Some (scanned + i * 8 + match_at match) else round_scan m cur scanned is)"

partial_function (option) strnlen_rounds :: "mem \<Rightarrow> u64 \<Rightarrow> addr \<Rightarrow> u64 \<Rightarrow> u64 option" where
  "strnlen_rounds m maxlen cur scanned =
     (if scanned < maxlen \<and> maxlen - scanned \<ge> 32 then
        (case round_scan m cur scanned [0, 1, 2, 3] of
           Some len \<Rightarrow> Some len
         | None \<Rightarrow> strnlen_rounds m maxlen (cur + 32) (scanned + 32))
      else strnlen_tail m maxlen cur scanned)"

definition strnlen :: "mem \<Rightarrow> addr \<Rightarrow> u64 \<Rightarrow> u64 option" where
  "strnlen m str maxlen =
     (if maxlen = 0 then Some 0
      else let offset = word_offset str;
               match = has_zero_byte (load_aligned_word m str OR low_bytes offset)
           in if match \<noteq> 0 then Some (clamp maxlen (match_at match - of_nat offset))
              else strnlen_rounds m maxlen ((str AND NOT 7) + 8) (8 - of_nat offset))"

definition strlen :: "mem \<Rightarrow> addr \<Rightarrow> u64 option" where
  "strlen m str = strnlen m str (NOT 0)"

subsection \<open>strchr.cpp\<close>

definition byte_at :: "addr \<Rightarrow> nat \<Rightarrow> addr" where
  "byte_at word index = word + of_nat (index div 8)"

partial_function (option) strchr_loop :: "mem \<Rightarrow> u64 \<Rightarrow> addr \<Rightarrow> u64 \<Rightarrow> u64 \<Rightarrow> (addr \<times> u64 \<times> u64) option" where
  "strchr_loop m pattern word hit stop =
     (if hit OR stop = 0 then
        let word' = word + 8; w = unaligned_load m word'
        in strchr_loop m pattern word' (has_zero_byte (w XOR pattern)) (has_zero_byte w)
      else Some (word, hit, stop))"

definition strchr :: "mem \<Rightarrow> addr \<Rightarrow> int \<Rightarrow> ptr option" where
  "strchr m str ch = do {
     let pattern = broadcast_byte (word_of_int ch);
     let garbage = low_bytes (word_offset str);
     let w = load_aligned_word m str;
     (word, hit, stop) \<leftarrow> strchr_loop m pattern (str AND NOT 7)
       (has_zero_byte ((w XOR pattern) OR garbage)) (has_zero_byte (w OR garbage));
     Some (if countr_zero hit \<le> countr_zero stop then Some (byte_at word (countr_zero hit)) else None)
   }"

partial_function (option) strrchr_loop ::
  "mem \<Rightarrow> u64 \<Rightarrow> addr \<Rightarrow> u64 \<Rightarrow> u64 \<Rightarrow> ptr \<Rightarrow> (addr \<times> u64 \<times> u64 \<times> ptr) option" where
  "strrchr_loop m pattern word hit stop final =
     (if stop = 0 then
        let final' = (if hit \<noteq> 0 then Some (byte_at word (63 - countl_zero hit)) else final);
            word' = word + 8; w = unaligned_load m word'
        in strrchr_loop m pattern word' (zero_bytes (w XOR pattern)) (zero_bytes w) final'
      else Some (word, hit, stop, final))"

definition strrchr :: "mem \<Rightarrow> addr \<Rightarrow> int \<Rightarrow> ptr option" where
  "strrchr m str ch = do {
     let pattern = broadcast_byte (word_of_int ch);
     let valid = NOT (low_bytes (word_offset str));
     let w = load_aligned_word m str;
     (word, hit, stop, final) \<leftarrow> strrchr_loop m pattern (str AND NOT 7)
       (zero_bytes (w XOR pattern) AND valid) (zero_bytes w AND valid) None;
     let lowest_end = stop AND - stop;
     let hit = hit AND (lowest_end OR (lowest_end - 1));
     Some (if hit \<noteq> 0 then Some (byte_at word (63 - countl_zero hit)) else final)
   }"

subsection \<open>strcmp.cpp\<close>

fun strncmp_bytes :: "mem \<Rightarrow> addr \<Rightarrow> addr \<Rightarrow> nat \<Rightarrow> int" where
  "strncmp_bytes m p1 p2 0 = 0"
| "strncmp_bytes m p1 p2 (Suc n) =
     (if m p1 \<noteq> m p2 \<or> m p1 = 0 then uint (m p1) - uint (m p2)
      else strncmp_bytes m (p1 + 1) (p2 + 1) n)"

function strncmp_words :: "mem \<Rightarrow> addr \<Rightarrow> addr \<Rightarrow> u64 \<Rightarrow> int" where
  "strncmp_words m p1 p2 n =
     (if n \<ge> 8 then
        if p1 AND 4095 > 4088 \<or> p2 AND 4095 > 4088 then
          if m p1 \<noteq> m p2 \<or> m p1 = 0 then uint (m p1) - uint (m p2)
          else strncmp_words m (p1 + 1) (p2 + 1) (n - 1)
        else
          let v1 = unaligned_load m p1 :: u64; v2 = unaligned_load m p2;
              diff = v1 XOR v2; nulls = has_zero_byte v1
          in if diff = 0 \<and> nulls = 0 then strncmp_words m (p1 + 8) (p2 + 8) (n - 8)
             else if diff = 0 then 0
             else let diff_shift = countr_zero diff div 8 * 8 in
               if nulls \<noteq> 0 \<and> countr_zero nulls div 8 * 8 < diff_shift then 0
               else uint (ucast (drop_bit diff_shift v1 AND 0xFF) :: u8) -
                    uint (ucast (drop_bit diff_shift v2 AND 0xFF) :: u8)
      else strncmp_bytes m p1 p2 (unat n))"
  by pat_completeness auto
termination
  by (relation "measure (\<lambda>(_, _, _, n). unat n)") (auto simp: word_le_nat_alt unat_sub)

declare strncmp_words.simps [simp del]

definition strncmp :: "mem \<Rightarrow> addr \<Rightarrow> addr \<Rightarrow> u64 \<Rightarrow> int" where
  "strncmp m s1 s2 n = (if n = 0 \<or> s1 = s2 then 0 else strncmp_words m s1 s2 n)"

definition strcmp :: "mem \<Rightarrow> addr \<Rightarrow> addr \<Rightarrow> int" where
  "strcmp m s1 s2 = strncmp m s1 s2 (NOT 0)"

subsection \<open>Words and aligned words as bytes\<close>

lemma byte_of_word: "t < 8 \<Longrightarrow> byte_of (unaligned_load m p :: u64) t = m (p + of_nat t)"
  by (rule byte_of_load [of 8]) simp_all

lemma zero_scan:
  "has_zero_byte (v :: u64) = 0 \<longleftrightarrow> (\<forall>t < 8. byte_of v t \<noteq> 0)"
  "has_zero_byte v \<noteq> 0 \<Longrightarrow> countr_zero (has_zero_byte v) div 8 < 8 \<and>
     byte_of v (countr_zero (has_zero_byte v) div 8) = 0 \<and>
     (\<forall>t < countr_zero (has_zero_byte v) div 8. byte_of v t \<noteq> 0)"
  "has_zero_byte v \<noteq> 0 \<Longrightarrow> countr_zero (has_zero_byte v) mod 8 = 7"
proof -
  note h = has_zero_byte_first [of 8 v]
  show "has_zero_byte v = 0 \<longleftrightarrow> (\<forall>t < 8. byte_of v t \<noteq> 0)"
    using h by (cases "\<exists>i < 8. byte_of v i = 0") auto
  assume nz: "has_zero_byte v \<noteq> 0"
  then obtain i where i: "i < 8" "byte_of v i = 0" using h by (cases "\<exists>i < 8. byte_of v i = 0") auto
  define k where "k = (LEAST i. byte_of v i = 0)"
  have "\<exists>i < 8. byte_of v i = 0" using i by blast
  then have "countr_zero (has_zero_byte v) = 8 * k + 7" using h unfolding k_def by simp
  then have eq: "countr_zero (has_zero_byte v) div 8 = k" and "countr_zero (has_zero_byte v) mod 8 = 7" by simp_all
  then show "countr_zero (has_zero_byte v) mod 8 = 7" by blast
  have "byte_of v k = 0" "k \<le> i" using i(2) unfolding k_def by (rule LeastI, intro Least_le)
  then show "countr_zero (has_zero_byte v) div 8 < 8 \<and>
     byte_of v (countr_zero (has_zero_byte v) div 8) = 0 \<and>
     (\<forall>t < countr_zero (has_zero_byte v) div 8. byte_of v t \<noteq> 0)"
    unfolding eq using i(1) not_less_Least [of _ "\<lambda>i. byte_of v i = 0", folded k_def] by auto
qed

lemma and_not_plus_and: "(p AND NOT k) + (p AND k) = (p :: 'a::len word)"
proof -
  have "(p AND NOT k) + (p AND k) = (p AND NOT k) OR (p AND k)"
    by (rule disjunctive_add) (auto simp: bit_and_iff bit_not_iff)
  also have "\<dots> = p"
    by (rule bit_word_eqI) (auto simp: bit_or_iff bit_and_iff bit_not_iff)
  finally show ?thesis .
qed

lemma align_split: "(p :: addr) = (p AND NOT 7) + of_nat (word_offset p)" "word_offset p < 8"
proof -
  have "(7 :: addr) = mask 3" by (simp add: mask_eq_exp_minus_1)
  then have "p AND 7 = take_bit 3 p" by (simp add: take_bit_eq_mask)
  then show "word_offset p < 8"
    using take_bit_nat_less_exp [of 3 "unat p"] by (simp add: word_offset_def unsigned_take_bit_eq)
  show "p = (p AND NOT 7) + of_nat (word_offset p)"
    using and_not_plus_and [of p 7] by (simp add: word_offset_def)
qed

lemma byte_of_first_word:
  assumes "t < 8"
  shows "byte_of (load_aligned_word m p) t = m ((p AND NOT 7) + of_nat t)"
  unfolding load_aligned_word_def by (rule byte_of_word [OF assms])

lemma or_garbage_zero:
  assumes "t < 8" "n < 8"
  shows "byte_of (v OR low_bytes n) t = 0 \<longleftrightarrow> n \<le> t \<and> byte_of v t = 0"
  using assms by (auto simp: byte_of_bitwise byte_of_low_bytes)

subsection \<open>The length of a string\<close>

text \<open>The reference: the first terminator among \<open>n\<close> bytes, or \<open>n\<close>.\<close>

definition str_nlen :: "mem \<Rightarrow> addr \<Rightarrow> nat \<Rightarrow> nat" where
  "str_nlen m p n = (case find (\<lambda>i. m (p + of_nat i) = 0) [0..<n] of None \<Rightarrow> n | Some i \<Rightarrow> i)"

lemma str_nlen_eqI:
  assumes "\<And>i. i < k \<Longrightarrow> m (p + of_nat i) \<noteq> 0" "m (p + of_nat k) = 0"
  shows "str_nlen m p n = min n k"
proof (cases "k < n")
  case True
  then have "find (\<lambda>i. m (p + of_nat i) = 0) [0..<n] = Some k"
    using assms unfolding find_Some_iff by (intro exI [of _ k]) simp
  then show ?thesis using True by (simp add: str_nlen_def)
next
  case False
  then have "find (\<lambda>i. m (p + of_nat i) = 0) [0..<n] = None" using assms by (simp add: find_None_iff)
  then show ?thesis using False by (simp add: str_nlen_def)
qed

lemma str_nlen_none: "(\<And>i. i < n \<Longrightarrow> m (p + of_nat i) \<noteq> 0) \<Longrightarrow> str_nlen m p n = n"
proof -
  assume "\<And>i. i < n \<Longrightarrow> m (p + of_nat i) \<noteq> 0"
  then have "find (\<lambda>i. m (p + of_nat i) = 0) [0..<n] = None" by (simp add: find_None_iff)
  then show ?thesis by (simp add: str_nlen_def)
qed

lemma str_nlen_le: "str_nlen m p n \<le> n"
  by (auto simp: str_nlen_def find_Some_iff split: option.splits)

lemma str_nlen_zero: "str_nlen m p n < n \<Longrightarrow> m (p + of_nat (str_nlen m p n)) = 0"
proof (cases "find (\<lambda>i. m (p + of_nat i) = 0) [0..<n]")
  case (Some i)
  then have "m (p + of_nat i) = 0" by (auto simp: find_Some_iff)
  then show ?thesis using Some by (simp add: str_nlen_def)
qed (simp add: str_nlen_def)

lemma clamp_of_nat:
  assumes "k < 2 ^ 64"
  shows "clamp maxlen (of_nat k) = of_nat (min (unat maxlen) k)"
  using assms by (auto simp: clamp_def word_less_nat_alt unat_of_nat take_bit_nat_eq_self min_def)

text \<open>One word of a scan that has reached index \<open>k\<close>: a hit is the first terminator.\<close>

lemma word_scan:
  assumes "\<forall>i < k. m (p + of_nat i) \<noteq> 0"
  defines "match \<equiv> has_zero_byte (unaligned_load m (p + of_nat k) :: u64)"
  shows "match = 0 \<Longrightarrow> i < k + 8 \<Longrightarrow> m (p + of_nat i) \<noteq> 0"
    "match \<noteq> 0 \<Longrightarrow> countr_zero match div 8 < 8 \<and> m (p + of_nat (k + countr_zero match div 8)) = 0 \<and>
       (\<forall>i < k + countr_zero match div 8. m (p + of_nat i) \<noteq> 0)"
proof -
  let ?v = "unaligned_load m (p + of_nat k) :: u64"
  have b: "t < 8 \<Longrightarrow> byte_of ?v t = m (p + of_nat (k + t))" for t
    by (simp add: byte_of_word add.assoc)
  have ext: "i < k + l \<Longrightarrow> (\<And>t. t < l \<Longrightarrow> byte_of ?v t \<noteq> 0) \<Longrightarrow> l \<le> 8 \<Longrightarrow> m (p + of_nat i) \<noteq> 0" for i l
  proof -
    assume a: "i < k + l" "\<And>t. t < l \<Longrightarrow> byte_of ?v t \<noteq> 0" "l \<le> 8"
    show ?thesis
    proof (cases "i < k")
      case False
      then have "i - k < l" "k + (i - k) = i" using a(1) by auto
      then show ?thesis using a(2) [of "i - k"] b [of "i - k"] a(3) by simp
    qed (use assms(1) in blast)
  qed
  show "match = 0 \<Longrightarrow> i < k + 8 \<Longrightarrow> m (p + of_nat i) \<noteq> 0"
    using ext [of i 8] zero_scan(1) [of ?v] unfolding match_def by blast
  assume "match \<noteq> 0"
  note z = zero_scan(2) [of ?v, folded match_def, OF this]
  show "countr_zero match div 8 < 8 \<and> m (p + of_nat (k + countr_zero match div 8)) = 0 \<and>
       (\<forall>i < k + countr_zero match div 8. m (p + of_nat i) \<noteq> 0)"
    using z b [of "countr_zero match div 8"] ext [of _ "countr_zero match div 8"] by auto
qed

text \<open>What makes a scan return: a terminator within the bound, or a bound in the lower half.\<close>

definition str_bounded :: "mem \<Rightarrow> addr \<Rightarrow> nat \<Rightarrow> bool" where
  "str_bounded m p n \<longleftrightarrow> n \<le> 2 ^ 63 \<or> (\<exists>i < n. m (p + of_nat i) = 0)"

lemma first_index_bound:
  assumes "m (p + of_nat k) = 0" "\<forall>i < k. m (p + of_nat i :: addr) \<noteq> (0 :: u8)"
  shows "k < 2 ^ 64"
proof (rule ccontr)
  assume "\<not> k < 2 ^ 64"
  then have "k - 2 ^ 64 < k" "k = (k - 2 ^ 64) + 2 ^ 64" by auto
  moreover have "(of_nat (k - 2 ^ 64) :: addr) = of_nat k"
  proof -
    have "(of_nat k :: addr) = of_nat (k - 2 ^ 64) + of_nat (2 ^ 64)"
      using \<open>k = (k - 2 ^ 64) + 2 ^ 64\<close> by (metis of_nat_add)
    also have "(of_nat (2 ^ 64) :: addr) = 0" by simp
    finally show ?thesis by simp
  qed
  ultimately show False using assms by metis
qed

lemma strnlen_tail_ok:
  assumes "k < 2 ^ 64" "\<forall>i < k. m (p + of_nat i) \<noteq> 0" "str_bounded m p (unat maxlen)"
  shows "strnlen_tail m maxlen (p + of_nat k) (of_nat k) = Some (of_nat (str_nlen m p (unat maxlen)))"
  using assms(1,2)
proof (induction "unat maxlen - k" arbitrary: k rule: less_induct)
  case less
  let ?match = "has_zero_byte (unaligned_load m (p + of_nat k) :: u64)"
  have k: "unat (of_nat k :: u64) = k" using less.prems(1) by (simp add: unat_of_nat take_bit_nat_eq_self)
  note w = word_scan [of k m p, OF less.prems(2)]
  show ?case
  proof (cases "k < unat maxlen")
    case False
    then have "str_nlen m p (unat maxlen) = unat maxlen" using less.prems(2) by (intro str_nlen_none) auto
    then show ?thesis using False k by (subst strnlen_tail.simps) (simp add: word_less_nat_alt)
  next
    case True
    show ?thesis
    proof (cases "?match = 0")
      case no: True
      have "k + 8 < 2 ^ 64"
      proof (cases "\<exists>i < unat maxlen. m (p + of_nat i) = 0")
        case True
        then obtain i where "i < unat maxlen" "m (p + of_nat i) = 0" by blast
        then have "k + 8 \<le> i" using w(1) [OF no, of i] by (cases "k + 8 \<le> i") auto
        then show ?thesis using \<open>i < unat maxlen\<close> unat_bound [of maxlen] by simp
      next
        case False
        then have "unat maxlen \<le> 2 ^ 63" using assms(3) by (auto simp: str_bounded_def)
        then show ?thesis using \<open>k < unat maxlen\<close> by simp
      qed
      then have "strnlen_tail m maxlen (p + of_nat (k + 8)) (of_nat (k + 8)) = Some (of_nat (str_nlen m p (unat maxlen)))"
        using True w(1) [OF no] by (intro less.hyps) auto
      then show ?thesis
        using True k no by (subst strnlen_tail.simps) (simp add: word_less_nat_alt add.assoc add.commute)
    next
      case yes: False
      note z = w(2) [OF yes]
      let ?t = "countr_zero ?match div 8"
      have "str_nlen m p (unat maxlen) = min (unat maxlen) (k + ?t)"
        using z by (intro str_nlen_eqI) auto
      moreover have "clamp maxlen (of_nat k + match_at ?match) = of_nat (min (unat maxlen) (k + ?t))"
        using clamp_of_nat [OF first_index_bound [of m p "k + ?t"], of maxlen] z by (simp add: match_at_def)
      ultimately show ?thesis
        using True k yes by (subst strnlen_tail.simps) (simp add: word_less_nat_alt Let_def)
    qed
  qed
qed


lemma round_scan_ok:
  assumes "\<forall>i < k + 8 * j. m (p + of_nat i) \<noteq> 0" "j \<le> l"
  shows "case round_scan m (p + of_nat k) (of_nat k) (map of_nat [j..<l]) of
      None \<Rightarrow> \<forall>i < k + 8 * l. m (p + of_nat i) \<noteq> 0
    | Some len \<Rightarrow> \<exists>i < k + 8 * l. len = of_nat i \<and> m (p + of_nat i) = 0 \<and> (\<forall>i' < i. m (p + of_nat i') \<noteq> 0)"
  using assms(2,1)
proof (induction j rule: inc_induct)
  case (step j)
  let ?match = "has_zero_byte (unaligned_load m (p + of_nat (k + 8 * j)) :: u64)"
  note w = word_scan [of "k + 8 * j" m p, OF step.prems]
  have unroll: "round_scan m (p + of_nat k) (of_nat k) (map of_nat [j..<l]) =
    (if ?match \<noteq> 0 then Some (of_nat (k + 8 * j) + match_at ?match)
     else round_scan m (p + of_nat k) (of_nat k) (map of_nat [Suc j..<l]))"
    using step.hyps by (simp add: upt_conv_Cons Let_def add.assoc mult.commute)
  show ?case
  proof (cases "?match = 0")
    case True
    have "\<forall>i < k + 8 * Suc j. m (p + of_nat i) \<noteq> 0" using w(1) [OF True] by simp
    then show ?thesis using step.IH unroll True by simp
  next
    case False
    let ?i = "k + 8 * j + countr_zero ?match div 8"
    have "?i < k + 8 * l" using w(2) [OF False] step.hyps by linarith
    moreover have "of_nat (k + 8 * j) + match_at ?match = of_nat ?i" by (simp add: match_at_def)
    ultimately have res: "round_scan m (p + of_nat k) (of_nat k) (map of_nat [j..<l]) = Some (of_nat ?i)"
      using unroll False by simp
    show ?thesis
      unfolding res option.case using w(2) [OF False] \<open>?i < k + 8 * l\<close> by blast
  qed
qed simp

lemma strnlen_rounds_ok:
  assumes "k < 2 ^ 64" "\<forall>i < k. m (p + of_nat i) \<noteq> 0" "str_bounded m p (unat maxlen)"
  shows "strnlen_rounds m maxlen (p + of_nat k) (of_nat k) = Some (of_nat (str_nlen m p (unat maxlen)))"
  using assms(1,2)
proof (induction "unat maxlen - k" arbitrary: k rule: less_induct)
  case less
  have k: "unat (of_nat k :: u64) = k" using less.prems(1) by (simp add: unat_of_nat take_bit_nat_eq_self)
  show ?case
  proof (cases "(of_nat k :: u64) < maxlen \<and> maxlen - of_nat k \<ge> 32")
    case False
    then show ?thesis using strnlen_tail_ok [OF less.prems assms(3)] by (subst strnlen_rounds.simps) auto
  next
    case True
    then have "(of_nat k :: u64) \<le> maxlen" by (simp add: less_imp_le)
    then have "unat (maxlen - of_nat k) = unat maxlen - k" using unat_sub [of "of_nat k" maxlen] k by simp
    then have "k < unat maxlen" "32 \<le> unat maxlen - k" using True k by (simp_all add: word_le_nat_alt word_less_nat_alt)
    then have fits: "k + 32 \<le> unat maxlen" by linarith
    then have b: "k + 32 < 2 ^ 64" using unat_bound [of maxlen] by simp
    have four: "map of_nat [0..<4] = [0, 1, 2, 3 :: u64]" by (simp add: upt_rec)
    note r = round_scan_ok [of k 0 m p 4, unfolded four]
    show ?thesis
    proof (cases "round_scan m (p + of_nat k) (of_nat k) [0, 1, 2, 3]")
      case None
      then have "\<forall>i < k + 32. m (p + of_nat i) \<noteq> 0" using r less.prems(2) by simp
      then have "strnlen_rounds m maxlen (p + of_nat (k + 32)) (of_nat (k + 32)) = Some (of_nat (str_nlen m p (unat maxlen)))"
        using fits b by (intro less.hyps) auto
      then show ?thesis
        using True None by (subst strnlen_rounds.simps) (simp add: add.assoc add.commute del: round_scan.simps)
    next
      case (Some len)
      then obtain i where i: "i < k + 32" "len = of_nat i" "m (p + of_nat i) = 0" "\<forall>i' < i. m (p + of_nat i') \<noteq> 0"
        using r less.prems(2) by auto
      then have "str_nlen m p (unat maxlen) = i" using fits str_nlen_eqI [of i m p "unat maxlen"] by simp
      then show ?thesis
        using True Some i(2) by (subst strnlen_rounds.simps) (simp del: round_scan.simps)
    qed
  qed
qed

lemma strnlen_ok:
  assumes "str_bounded m p (unat maxlen)"
  shows "strnlen m p maxlen = Some (of_nat (str_nlen m p (unat maxlen)))"
proof (cases "maxlen = 0")
  case True
  then show ?thesis by (simp add: strnlen_def str_nlen_def)
next
  case False
  let ?o = "word_offset p" and ?A = "p AND NOT 7"
  let ?v = "load_aligned_word m p OR low_bytes (word_offset p)"
  let ?match = "has_zero_byte ?v"
  note p = align_split [of p]
  have idx: "p + of_nat i = ?A + of_nat (?o + i)" for i
    unfolding of_nat_add add.assoc [symmetric] by (rule arg_cong [where f = "\<lambda>x. x + of_nat i", OF p(1)])
  have b: "t < 8 \<Longrightarrow> byte_of ?v t = 0 \<longleftrightarrow> ?o \<le> t \<and> m (?A + of_nat t) = 0" for t
    using p(2) by (simp add: or_garbage_zero byte_of_first_word)
  show ?thesis
  proof (cases "?match = 0")
    case True
    have "\<forall>i < 8 - ?o. m (p + of_nat i) \<noteq> 0"
    proof (intro allI impI)
      fix i assume i: "i < 8 - ?o"
      then have t: "?o + i < 8" by simp
      then have "byte_of ?v (?o + i) \<noteq> 0" using zero_scan(1) [of ?v] True by blast
      then show "m (p + of_nat i) \<noteq> 0" using b [OF t] unfolding idx by simp
    qed
    then have r: "strnlen_rounds m maxlen (p + of_nat (8 - ?o)) (of_nat (8 - ?o)) = Some (of_nat (str_nlen m p (unat maxlen)))"
      by (intro strnlen_rounds_ok [OF _ _ assms]) simp
    have e1: "p + of_nat (8 - ?o) = ?A + 8" unfolding idx using p(2) by simp
    have e2: "(of_nat (8 - ?o) :: u64) = 8 - of_nat ?o" using p(2) by (simp add: of_nat_diff)
    show ?thesis using False True r [unfolded e1, unfolded e2] by (simp add: strnlen_def Let_def)
  next
    case yes: False
    let ?t = "countr_zero ?match div 8"
    note z = zero_scan(2) [OF yes]
    have t: "?t < 8" "?o \<le> ?t" "m (?A + of_nat ?t) = 0" using z b [of ?t] by auto
    have "str_nlen m p (unat maxlen) = min (unat maxlen) (?t - ?o)"
    proof (rule str_nlen_eqI)
      show "m (p + of_nat (?t - ?o)) = 0" unfolding idx using t by simp
      fix i assume "i < ?t - ?o"
      then have i: "?o + i < ?t" by simp
      then have "byte_of ?v (?o + i) \<noteq> 0" using z by blast
      then show "m (p + of_nat i) \<noteq> 0" using b [of "?o + i"] i t(1) unfolding idx by simp
    qed
    moreover have "match_at ?match - of_nat ?o = of_nat (?t - ?o)" using t(2) by (simp add: match_at_def of_nat_diff)
    moreover have "clamp maxlen (of_nat (?t - ?o)) = of_nat (min (unat maxlen) (?t - ?o))"
      using t(1) by (intro clamp_of_nat) simp
    ultimately show ?thesis using False yes by (simp add: strnlen_def Let_def)
  qed
qed


subsection \<open>The first character\<close>

text \<open>
  Bytes are counted from the aligned word of the string.  \<open>flags x P j\<close>: the mask \<open>x\<close> comes from
  word \<open>j\<close> and flags its bytes where \<open>P\<close> holds, exactly up to the first of them.
\<close>

definition flags :: "u64 \<Rightarrow> (nat \<Rightarrow> bool) \<Rightarrow> nat \<Rightarrow> bool" where
  "flags x P j \<longleftrightarrow> (\<exists>v. x = has_zero_byte v \<and> (\<forall>t < 8. byte_of v t = 0 \<longleftrightarrow> P (8 * j + t)))"

lemma flags_zero: "flags x P j \<Longrightarrow> x = 0 \<longleftrightarrow> (\<forall>t < 8. \<not> P (8 * j + t))"
  by (auto simp: flags_def zero_scan(1))

lemma flags_first:
  assumes "flags x P j" "t < 8" "P (8 * j + t)" "\<And>t'. t' < t \<Longrightarrow> \<not> P (8 * j + t')"
  shows "countr_zero x = 8 * t + 7"
proof -
  obtain v where v: "x = has_zero_byte v" "\<And>t. t < 8 \<Longrightarrow> byte_of v t = 0 \<longleftrightarrow> P (8 * j + t)"
    using assms(1) by (auto simp: flags_def)
  have nz: "has_zero_byte v \<noteq> 0" using v assms(2,3) zero_scan(1) [of v] by blast
  let ?k = "countr_zero (has_zero_byte v) div 8"
  have "?k < 8" "byte_of v ?k = 0" "\<forall>t < ?k. byte_of v t \<noteq> 0" using zero_scan(2) [OF nz] by auto
  then have "?k = t" using v(2) assms(2-4) by (metis linorder_neqE_nat)
  then show ?thesis using zero_scan(3) [OF nz] v(1) by (metis mult.commute div_mult_mod_eq)
qed

lemma flags_later:
  assumes "flags x P j" "t < 8" "\<And>t'. t' \<le> t \<Longrightarrow> \<not> P (8 * j + t')"
  shows "8 * t + 7 < countr_zero x"
proof (cases "\<exists>t < 8. P (8 * j + t)")
  case True
  then obtain u where u: "u < 8" "P (8 * j + u)" by blast
  define w where "w = (LEAST u. P (8 * j + u))"
  have w: "P (8 * j + w)" "w \<le> u" using u(2) unfolding w_def by (rule LeastI, intro Least_le)
  have "\<not> P (8 * j + t')" if "t' < w" for t' using that unfolding w_def by (rule not_less_Least)
  then have "countr_zero x = 8 * w + 7" using w u(1) by (intro flags_first [OF assms(1)]) auto
  moreover have "t < w" using assms(3) w(1) by (meson not_le)
  ultimately show ?thesis by simp
next
  case False
  then have "x = 0" using flags_zero [OF assms(1)] by blast
  then show ?thesis using assms(2) by simp
qed

lemma flags_word:
  assumes "\<And>t. t < 8 \<Longrightarrow> P (8 * j + t) \<longleftrightarrow> m (A + of_nat (8 * j) + of_nat t) = c"
  shows "flags (has_zero_byte (unaligned_load m (A + of_nat (8 * j)) XOR broadcast_byte c)) P j"
  unfolding flags_def using assms
  by (intro exI conjI refl allI impI) (auto simp: byte_of_bitwise byte_of_word byte_of_broadcast xor_eq_0_iff)

lemma broadcast_0 [simp]: "broadcast_byte 0 = 0"
  by (simp add: broadcast_byte_def)

lemma strchr_loop_ok:
  assumes "\<And>b. Pc b \<longleftrightarrow> o0 \<le> b \<and> m (A + of_nat b) = c" "\<And>b. P0 b \<longleftrightarrow> o0 \<le> b \<and> m (A + of_nat b) = 0"
    "o0 < 8" "Pc D \<or> P0 D" "\<And>b. b < D \<Longrightarrow> \<not> Pc b \<and> \<not> P0 b"
    "flags hit Pc j" "flags stop P0 j" "8 * j \<le> D"
  shows "\<exists>hit' stop'. strchr_loop m (broadcast_byte c) (A + of_nat (8 * j)) hit stop =
      Some (A + of_nat (8 * (D div 8)), hit', stop') \<and> flags hit' Pc (D div 8) \<and> flags stop' P0 (D div 8)"
  using assms(6-8)
proof (induction "D - 8 * j" arbitrary: j hit stop rule: less_induct)
  case less
  show ?case
  proof (cases "hit OR stop = 0")
    case True
    then have z: "hit = 0" "stop = 0" by (simp_all add: or_eq_0_iff)
    have "D \<ge> 8 * Suc j"
    proof (rule ccontr)
      assume "\<not> D \<ge> 8 * Suc j"
      then have "D - 8 * j < 8" "8 * j + (D - 8 * j) = D" using less.prems(3) by auto
      then show False using z assms(4) flags_zero [OF less.prems(1)] flags_zero [OF less.prems(2)] by metis
    qed
    let ?w = "unaligned_load m (A + of_nat (8 * Suc j)) :: u64"
    have "Pc (8 * Suc j + t) \<longleftrightarrow> m (A + of_nat (8 * Suc j) + of_nat t) = c" for t
      using assms(1) [of "8 * Suc j + t"] assms(3) by (simp add: add.assoc)
    then have f1: "flags (has_zero_byte (?w XOR broadcast_byte c)) Pc (Suc j)" by (rule flags_word)
    have "P0 (8 * Suc j + t) \<longleftrightarrow> m (A + of_nat (8 * Suc j) + of_nat t) = 0" for t
      using assms(2) [of "8 * Suc j + t"] assms(3) by (simp add: add.assoc)
    then have f2: "flags (has_zero_byte ?w) P0 (Suc j)" using flags_word [of P0 "Suc j" m A 0] by simp
    have word: "A + of_nat (8 * j) + 8 = A + of_nat (8 * Suc j)" by simp
    have "strchr_loop m (broadcast_byte c) (A + of_nat (8 * j)) hit stop =
      strchr_loop m (broadcast_byte c) (A + of_nat (8 * Suc j)) (has_zero_byte (?w XOR broadcast_byte c)) (has_zero_byte ?w)"
      by (subst strchr_loop.simps) (simp only: True simp_thms if_True Let_def word)
    then show ?thesis using less.hyps [OF _ f1 f2] \<open>D \<ge> 8 * Suc j\<close> by simp
  next
    case False
    then obtain t where t: "t < 8" "Pc (8 * j + t) \<or> P0 (8 * j + t)"
      using flags_zero [OF less.prems(1)] flags_zero [OF less.prems(2)] by (auto simp: or_eq_0_iff)
    then have "D \<le> 8 * j + t" using assms(5) by (meson not_le)
    then have "D div 8 = j" using t(1) less.prems(3) by (simp add: div_nat_eqI)
    then show ?thesis using False less.prems by (subst strchr_loop.simps) simp
  qed
qed

lemma least_index:
  fixes P :: "nat \<Rightarrow> bool"
  assumes "P i"
  obtains D where "P D" "\<And>b. b < D \<Longrightarrow> \<not> P b" "D \<le> i"
  using assms LeastI [of P i] not_less_Least [of _ P] Least_le [of P i] by blast

lemma aligned_index:
  "(p :: addr) + of_nat i = (p AND NOT 7) + of_nat (word_offset p + i)"
  unfolding of_nat_add add.assoc [symmetric]
  by (rule arg_cong [where f = "\<lambda>x. x + of_nat i", OF align_split(1)])

lemma flags_first_word:
  assumes "\<And>b. P b \<longleftrightarrow> word_offset p \<le> b \<and> m ((p AND NOT 7) + of_nat b) = c"
  shows "flags (has_zero_byte ((load_aligned_word m p XOR broadcast_byte c) OR low_bytes (word_offset p))) P 0"
  unfolding flags_def
proof (intro exI [of _ "(load_aligned_word m p XOR broadcast_byte c) OR low_bytes (word_offset p)"] conjI allI impI)
  fix t :: nat assume t: "t < 8"
  show "byte_of ((load_aligned_word m p XOR broadcast_byte c) OR low_bytes (word_offset p)) t = 0 \<longleftrightarrow> P (8 * 0 + t)"
    unfolding or_garbage_zero [OF t align_split(2)] byte_of_bitwise(1) byte_of_first_word [OF t]
      byte_of_broadcast [OF t] xor_eq_0_iff assms by simp
qed (rule refl)

text \<open>The reference: the first byte that is the character or the terminator decides.\<close>

lemma strchr_ok:
  assumes "\<And>j. j < i \<Longrightarrow> m (p + of_nat j) \<noteq> c \<and> m (p + of_nat j) \<noteq> 0"
    "m (p + of_nat i) = c \<or> m (p + of_nat i) = 0" "c = word_of_int ch"
  shows "strchr m p ch = Some (if m (p + of_nat i) = c then Some (p + of_nat i) else None)"
proof -
  let ?o = "word_offset p" and ?A = "p AND NOT 7"
  define Pc where "Pc b \<longleftrightarrow> ?o \<le> b \<and> m (?A + of_nat b) = c" for b
  define P0 where "P0 b \<longleftrightarrow> ?o \<le> b \<and> m (?A + of_nat b) = 0" for b
  let ?D = "?o + i"
  have hit: "Pc (?o + j) \<longleftrightarrow> m (p + of_nat j) = c" "P0 (?o + j) \<longleftrightarrow> m (p + of_nat j) = 0" for j
    unfolding Pc_def P0_def aligned_index [of p] by simp_all
  have D: "Pc ?D \<or> P0 ?D" using assms(2) hit by blast
  have below: "\<not> Pc b \<and> \<not> P0 b" if "b < ?D" for b
  proof (cases "?o \<le> b")
    case True
    then obtain j where j: "b = ?o + j" by (metis le_add_diff_inverse)
    then show ?thesis using hit assms(1) that by auto
  qed (simp add: Pc_def P0_def)
  have f1: "flags (has_zero_byte ((load_aligned_word m p XOR broadcast_byte c) OR low_bytes ?o)) Pc 0"
    by (rule flags_first_word) (simp add: Pc_def)
  have f2: "flags (has_zero_byte (load_aligned_word m p OR low_bytes ?o)) P0 0"
    using flags_first_word [of P0 p m 0] by (simp add: P0_def)
  obtain h s where r: "strchr_loop m (broadcast_byte c) ?A
      (has_zero_byte ((load_aligned_word m p XOR broadcast_byte c) OR low_bytes ?o))
      (has_zero_byte (load_aligned_word m p OR low_bytes ?o)) = Some (?A + of_nat (8 * (?D div 8)), h, s)"
    and h: "flags h Pc (?D div 8)" and s: "flags s P0 (?D div 8)"
    using strchr_loop_ok [OF Pc_def P0_def align_split(2) D below f1 f2] by auto
  let ?t = "?D mod 8"
  have t: "?t < 8" "8 * (?D div 8) + ?t = ?D" by simp_all
  have none: "\<not> Pc (8 * (?D div 8) + t') \<and> \<not> P0 (8 * (?D div 8) + t')" if "t' < ?t" for t'
    using below [of "8 * (?D div 8) + t'"] that t(2) by simp
  show ?thesis
  proof (cases "Pc ?D")
    case True
    have hz: "countr_zero h = 8 * ?t + 7"
      by (rule flags_first [OF h t(1)]) (use True none t(2) in auto)
    have "8 * ?t + 7 \<le> countr_zero s"
    proof (cases "P0 ?D")
      case True
      have "countr_zero s = 8 * ?t + 7" by (rule flags_first [OF s t(1)]) (use True none t(2) in auto)
      then show ?thesis by simp
    next
      case False
      have "8 * ?t + 7 < countr_zero s"
        by (rule flags_later [OF s t(1)]) (use False none t(2) le_eq_less_or_eq in auto)
      then show ?thesis by simp
    qed
    moreover have "byte_at (?A + of_nat (8 * (?D div 8))) (8 * ?t + 7) = p + of_nat i"
    proof -
      have "(8 * ?t + 7) div 8 = ?t" by simp
      moreover have "?A + of_nat (8 * (?D div 8)) + of_nat ?t = ?A + of_nat (8 * (?D div 8) + ?t)"
        by (simp only: of_nat_add add.assoc)
      ultimately show ?thesis unfolding byte_at_def aligned_index [of p] by (simp only: t(2))
    qed
    moreover have "m (p + of_nat i) = c" using True hit by blast
    ultimately show ?thesis
      using r hz unfolding strchr_def assms(3) [symmetric] Let_def by simp
  next
    case False
    then have "P0 ?D" using D by blast
    then have "countr_zero s = 8 * ?t + 7" by (intro flags_first [OF s t(1)]) (use none t(2) in auto)
    moreover have "8 * ?t + 7 < countr_zero h"
      by (rule flags_later [OF h t(1)]) (use False none t(2) le_eq_less_or_eq in auto)
    moreover have "m (p + of_nat i) \<noteq> c" using False hit by blast
    ultimately show ?thesis
      using r unfolding strchr_def assms(3) [symmetric] Let_def by simp
  qed
qed

subsection \<open>The last character\<close>

text \<open>The masks are exact here: \<open>exact x P j n\<close> says so for the first \<open>n\<close> bytes of word \<open>j\<close>.\<close>

definition exact :: "u64 \<Rightarrow> (nat \<Rightarrow> bool) \<Rightarrow> nat \<Rightarrow> nat \<Rightarrow> bool" where
  "exact x P j n \<longleftrightarrow> (\<forall>k < 64. bit x k \<longleftrightarrow> k mod 8 = 7 \<and> k div 8 < n \<and> P (8 * j + k div 8))"

text \<open>\<open>is_last P A n r\<close>: \<open>r\<close> points at the last byte below \<open>n\<close> where \<open>P\<close> holds, if there is one.\<close>

definition is_last :: "(nat \<Rightarrow> bool) \<Rightarrow> addr \<Rightarrow> nat \<Rightarrow> ptr \<Rightarrow> bool" where
  "is_last P A n r \<longleftrightarrow> (case r of None \<Rightarrow> \<forall>b < n. \<not> P b
     | Some a \<Rightarrow> \<exists>b < n. a = A + of_nat b \<and> P b \<and> (\<forall>b'. b < b' \<and> b' < n \<longrightarrow> \<not> P b'))"

lemma bit_zero_bytes': "k < 64 \<Longrightarrow> bit (zero_bytes v) k \<longleftrightarrow> k mod 8 = 7 \<and> byte_of v (k div 8) = 0"
  using bit_zero_bytes [of "k div 8" "k mod 8" v] by simp

lemma highest_bit:
  fixes x :: u64
  assumes "x \<noteq> 0"
  shows "63 - countl_zero x < 64" "bit x (63 - countl_zero x)" "63 - countl_zero x < k \<Longrightarrow> \<not> bit x k"
proof -
  have eq: "63 - countl_zero x = bit_width x - 1" by (simp add: bit_width_def)
  show "63 - countl_zero x < 64" by simp
  show "bit x (63 - countl_zero x)" unfolding eq by (rule bit_width_char(3) [OF assms])
  show "63 - countl_zero x < k \<Longrightarrow> \<not> bit x k"
    unfolding eq by (rule bit_width_char(4) [OF assms]) simp
qed

lemma last_step:
  assumes "exact x P j n" "n \<le> 8" "is_last P A (8 * j) r"
  shows "is_last P A (8 * j + n)
    (if x \<noteq> 0 then Some (byte_at (A + of_nat (8 * j)) (63 - countl_zero x)) else r)"
proof (cases "x = 0")
  case True
  have "\<not> P (8 * j + t)" if "t < n" for t
  proof -
    have "8 * t + 7 < 64" using that assms(2) by simp
    then have "bit x (8 * t + 7) \<longleftrightarrow> P (8 * j + t)" using assms(1) that by (simp add: exact_def)
    then show ?thesis using True by simp
  qed
  then have "\<not> P b" if "8 * j \<le> b" "b < 8 * j + n" for b
    using that by (metis le_add_diff_inverse nat_add_left_cancel_less)
  then show ?thesis using assms(3) True
    by (auto simp: is_last_def split: option.splits) (metis not_le trans_less_add1)+
next
  case False
  define k where "k = 63 - countl_zero x"
  note h = highest_bit [OF False, folded k_def]
  have k: "k mod 8 = 7" "k div 8 < n" "P (8 * j + k div 8)" using assms(1) h(1,2) by (auto simp: exact_def)
  have above: "\<not> P b" if "8 * j + k div 8 < b" "b < 8 * j + n" for b
  proof
    assume "P b"
    define t where "t = b - 8 * j"
    have t: "b = 8 * j + t" "t < n" "k div 8 < t" using that by (auto simp: t_def)
    have "8 * t + 7 < 64" using t(2) assms(2) by simp
    then have "bit x (8 * t + 7)" using assms(1) t \<open>P b\<close> by (simp add: exact_def)
    moreover have "k < 8 * t + 7" using t(3) by (metis div_less_iff_less_mult less_add_same_cancel1 less_trans mult.commute zero_less_numeral)
    ultimately show False using h(3) by blast
  qed
  have "byte_at (A + of_nat (8 * j)) k = A + of_nat (8 * j + k div 8)"
    by (simp only: byte_at_def of_nat_add add.assoc)
  then show ?thesis
    using False k above by (auto simp: is_last_def k_def [symmetric] intro!: exI [of _ "8 * j + k div 8"])
qed

lemma lowest_end_bits:
  fixes x :: u64
  assumes "x \<noteq> 0"
  shows "bit ((x AND - x) OR ((x AND - x) - 1)) k \<longleftrightarrow> k \<le> countr_zero x \<and> k < 64"
proof -
  note z = countr_zero_char [OF assms]
  have "- x = NOT (x - 1)" by (simp add: minus_eq_not_minus_1)
  then have "bit (x AND - x) i \<longleftrightarrow> i = countr_zero x" for i
  proof -
    have "bit (x AND - x) i \<longleftrightarrow> bit x i \<and> \<not> bit (x - 1) i"
      unfolding \<open>- x = NOT (x - 1)\<close> bit_and_iff bit_not_iff by (auto dest: bit_imp_le_length)
    moreover have "bit x i \<and> bit (x - 1) i \<longleftrightarrow> bit x i \<and> i \<noteq> countr_zero x"
      using clear_lowest [OF assms, of i] by (simp add: bit_and_iff)
    ultimately show ?thesis using z(2) by auto
  qed
  then have eq: "x AND - x = 2 ^ countr_zero x"
    by (intro bit_word_eqI) (auto simp: bit_exp_iff)
  have "(2 ^ countr_zero x - 1 :: u64) = mask (countr_zero x)" by (simp add: mask_eq_exp_minus_1)
  then show ?thesis
    unfolding eq by (auto simp: bit_or_iff bit_exp_iff bit_mask_iff)
qed

lemma exact_word:
  assumes "\<And>t. t < 8 \<Longrightarrow> P (8 * j + t) \<longleftrightarrow> m (A + of_nat (8 * j) + of_nat t) = c"
  shows "exact (zero_bytes (unaligned_load m (A + of_nat (8 * j)) XOR broadcast_byte c)) P j 8"
  unfolding exact_def
proof (intro allI impI)
  fix k :: nat assume k: "k < 64"
  then have t: "k div 8 < 8" by simp
  show "bit (zero_bytes (unaligned_load m (A + of_nat (8 * j)) XOR broadcast_byte c)) k \<longleftrightarrow>
    k mod 8 = 7 \<and> k div 8 < 8 \<and> P (8 * j + k div 8)"
    unfolding bit_zero_bytes' [OF k] byte_of_bitwise(1) byte_of_word [OF t] byte_of_broadcast [OF t]
      xor_eq_0_iff assms [OF t] using t by blast
qed

lemma exact_first_word:
  assumes "\<And>b. P b \<longleftrightarrow> word_offset p \<le> b \<and> m ((p AND NOT 7) + of_nat b) = c"
  shows "exact (zero_bytes (load_aligned_word m p XOR broadcast_byte c) AND NOT (low_bytes (word_offset p))) P 0 8"
  unfolding exact_def
proof (intro allI impI)
  fix k :: nat assume k: "k < 64"
  then have t: "k div 8 < 8" by simp
  have "bit (NOT (low_bytes (word_offset p))) k \<longleftrightarrow> \<not> bit (byte_of (low_bytes (word_offset p)) (k div 8)) (k mod 8)"
    using k by (simp add: bit_not_iff bit_byte_of)
  also have "\<dots> \<longleftrightarrow> word_offset p \<le> k div 8"
    by (simp add: byte_of_low_bytes [OF align_split(2) t] bit_not_iff)
  finally show "bit (zero_bytes (load_aligned_word m p XOR broadcast_byte c) AND NOT (low_bytes (word_offset p))) k \<longleftrightarrow>
    k mod 8 = 7 \<and> k div 8 < 8 \<and> P (8 * 0 + k div 8)"
    unfolding bit_and_iff bit_zero_bytes' [OF k] byte_of_bitwise(1) byte_of_first_word [OF t]
      byte_of_broadcast [OF t] xor_eq_0_iff assms using t by auto
qed

lemma exact_zero: "exact x P j 8 \<Longrightarrow> x = 0 \<longleftrightarrow> (\<forall>t < 8. \<not> P (8 * j + t))"
proof
  assume e: "exact x P j 8"
  show "x = 0 \<Longrightarrow> \<forall>t < 8. \<not> P (8 * j + t)"
  proof (intro allI impI)
    fix t :: nat assume "x = 0" "t < 8"
    then have "\<not> bit x (8 * t + 7)" "8 * t + 7 < 64" by simp_all
    then show "\<not> P (8 * j + t)" using e \<open>t < 8\<close> by (simp add: exact_def)
  qed
  show "\<forall>t < 8. \<not> P (8 * j + t) \<Longrightarrow> x = 0"
    using e by (intro bit_word_eqI) (auto simp: exact_def)
qed

lemma strrchr_loop_ok:
  assumes "\<And>b. Pc b \<longleftrightarrow> o0 \<le> b \<and> m (A + of_nat b) = c" "\<And>b. P0 b \<longleftrightarrow> o0 \<le> b \<and> m (A + of_nat b) = 0"
    "o0 < 8" "P0 D" "\<And>b. b < D \<Longrightarrow> \<not> P0 b"
    "exact hit Pc j 8" "exact stop P0 j 8" "is_last Pc A (8 * j) r" "8 * j \<le> D"
  shows "\<exists>hit' stop' r'. strrchr_loop m (broadcast_byte c) (A + of_nat (8 * j)) hit stop r =
      Some (A + of_nat (8 * (D div 8)), hit', stop', r') \<and> exact hit' Pc (D div 8) 8 \<and>
      exact stop' P0 (D div 8) 8 \<and> is_last Pc A (8 * (D div 8)) r'"
  using assms(6-9)
proof (induction "D - 8 * j" arbitrary: j hit stop r rule: less_induct)
  case less
  show ?case
  proof (cases "stop = 0")
    case True
    have far: "D \<ge> 8 * Suc j"
    proof (rule ccontr)
      assume "\<not> D \<ge> 8 * Suc j"
      then have "D - 8 * j < 8" "8 * j + (D - 8 * j) = D" using less.prems(4) by auto
      then show False using True assms(4) exact_zero [OF less.prems(2)] by metis
    qed
    let ?w = "unaligned_load m (A + of_nat (8 * Suc j)) :: u64"
    let ?r = "if hit \<noteq> 0 then Some (byte_at (A + of_nat (8 * j)) (63 - countl_zero hit)) else r"
    have "Pc (8 * Suc j + t) \<longleftrightarrow> m (A + of_nat (8 * Suc j) + of_nat t) = c" for t
      using assms(1) [of "8 * Suc j + t"] assms(3) by (simp add: add.assoc)
    then have f1: "exact (zero_bytes (?w XOR broadcast_byte c)) Pc (Suc j) 8" by (rule exact_word)
    have "P0 (8 * Suc j + t) \<longleftrightarrow> m (A + of_nat (8 * Suc j) + of_nat t) = 0" for t
      using assms(2) [of "8 * Suc j + t"] assms(3) by (simp add: add.assoc)
    then have f2: "exact (zero_bytes ?w) P0 (Suc j) 8" using exact_word [of P0 "Suc j" m A 0] by simp
    have f3: "is_last Pc A (8 * Suc j) ?r"
      using last_step [OF less.prems(1) _ less.prems(3)] by (simp add: add.commute)
    have word: "A + of_nat (8 * j) + 8 = A + of_nat (8 * Suc j)" by simp
    have "strrchr_loop m (broadcast_byte c) (A + of_nat (8 * j)) hit stop r =
      strrchr_loop m (broadcast_byte c) (A + of_nat (8 * Suc j)) (zero_bytes (?w XOR broadcast_byte c)) (zero_bytes ?w) ?r"
      by (subst strrchr_loop.simps) (simp only: True simp_thms if_True Let_def word)
    then show ?thesis using less.hyps [OF _ f1 f2 f3] far by simp
  next
    case False
    then obtain t where t: "t < 8" "P0 (8 * j + t)" using exact_zero [OF less.prems(2)] by auto
    then have "D \<le> 8 * j + t" using assms(5) by (meson not_le)
    then have "D div 8 = j" using t(1) less.prems(4) by (simp add: div_nat_eqI)
    then show ?thesis using False less.prems by (subst strrchr_loop.simps) simp
  qed
qed

lemma byte_below: "k mod 8 = 7 \<Longrightarrow> k \<le> 8 * t + 7 \<longleftrightarrow> k div 8 < Suc t" for k t :: nat
  by presburger

lemma is_last_string:
  assumes "is_last P A (Suc (o0 + i)) r" "\<And>j. P (o0 + j) \<longleftrightarrow> m (p + of_nat j) = c" "\<And>b. P b \<Longrightarrow> o0 \<le> b"
    "\<And>j. A + of_nat (o0 + j) = p + of_nat j"
  shows "case r of None \<Rightarrow> \<forall>j \<le> i. m (p + of_nat j) \<noteq> c
    | Some a \<Rightarrow> \<exists>k \<le> i. a = p + of_nat k \<and> m a = c \<and> (\<forall>j. k < j \<and> j \<le> i \<longrightarrow> m (p + of_nat j) \<noteq> c)"
proof (cases r)
  case None
  then have "\<not> P (o0 + j)" if "j \<le> i" for j using assms(1) that by (simp add: is_last_def)
  then show ?thesis using None assms(2) by simp
next
  case (Some a)
  then obtain b where b: "b < Suc (o0 + i)" "a = A + of_nat b" "P b" "\<And>b'. b < b' \<Longrightarrow> b' < Suc (o0 + i) \<Longrightarrow> \<not> P b'"
    using assms(1) by (auto simp: is_last_def)
  obtain k where k: "b = o0 + k" using assms(3) [OF b(3)] by (metis le_add_diff_inverse)
  have "a = p + of_nat k" using b(2) assms(4) k by simp
  moreover have "m (p + of_nat k) = c" using b(3) assms(2) k by simp
  moreover have "m (p + of_nat j) \<noteq> c" if "k < j" "j \<le> i" for j
    using b(4) [of "o0 + j"] assms(2) [of j] k that by simp
  ultimately have "\<exists>k \<le> i. a = p + of_nat k \<and> m a = c \<and> (\<forall>j. k < j \<and> j \<le> i \<longrightarrow> m (p + of_nat j) \<noteq> c)"
    using b(1) k by (intro exI [of _ k]) simp
  then show ?thesis using Some by simp
qed

text \<open>The reference: the last byte up to the terminator, the terminator included, that matches.\<close>

lemma strrchr_ok:
  assumes "\<And>j. j < i \<Longrightarrow> m (p + of_nat j) \<noteq> 0" "m (p + of_nat i) = 0" "c = word_of_int ch"
  shows "\<exists>r. strrchr m p ch = Some r \<and> (case r of
      None \<Rightarrow> \<forall>j \<le> i. m (p + of_nat j) \<noteq> c
    | Some a \<Rightarrow> \<exists>k \<le> i. a = p + of_nat k \<and> m a = c \<and> (\<forall>j. k < j \<and> j \<le> i \<longrightarrow> m (p + of_nat j) \<noteq> c))"
proof -
  let ?o = "word_offset p" and ?A = "p AND NOT 7"
  define Pc where "Pc b \<longleftrightarrow> ?o \<le> b \<and> m (?A + of_nat b) = c" for b
  define P0 where "P0 b \<longleftrightarrow> ?o \<le> b \<and> m (?A + of_nat b) = 0" for b
  let ?D = "?o + i"
  have hit: "Pc (?o + j) \<longleftrightarrow> m (p + of_nat j) = c" "P0 (?o + j) \<longleftrightarrow> m (p + of_nat j) = 0" for j
    unfolding Pc_def P0_def aligned_index [of p] by simp_all
  have D: "P0 ?D" using assms(2) hit by blast
  have below: "\<not> P0 b" if "b < ?D" for b
  proof (cases "?o \<le> b")
    case True
    then obtain j where j: "b = ?o + j" by (metis le_add_diff_inverse)
    then show ?thesis using hit assms(1) that by auto
  qed (simp add: P0_def)
  let ?valid = "NOT (low_bytes ?o)" and ?w = "load_aligned_word m p"
  have f1: "exact (zero_bytes (?w XOR broadcast_byte c) AND ?valid) Pc 0 8"
    by (rule exact_first_word) (simp add: Pc_def)
  have f2: "exact (zero_bytes ?w AND ?valid) P0 0 8"
    using exact_first_word [of P0 p m 0] by (simp add: P0_def)
  have f3: "is_last Pc ?A (8 * 0) None" by (simp add: is_last_def)
  obtain h s r where res: "strrchr_loop m (broadcast_byte c) ?A (zero_bytes (?w XOR broadcast_byte c) AND ?valid)
      (zero_bytes ?w AND ?valid) None = Some (?A + of_nat (8 * (?D div 8)), h, s, r)"
    and h: "exact h Pc (?D div 8) 8" and s: "exact s P0 (?D div 8) 8" and r: "is_last Pc ?A (8 * (?D div 8)) r"
    using strrchr_loop_ok [OF Pc_def P0_def align_split(2) D below f1 f2 f3] by auto
  let ?t = "?D mod 8"
  have t: "?t < 8" "8 * (?D div 8) + ?t = ?D" by simp_all
  have sbits: "bit s k \<longleftrightarrow> k mod 8 = 7 \<and> P0 (8 * (?D div 8) + k div 8)" if "k < 64" for k
    using s that by (auto simp: exact_def)
  have sz: "countr_zero s = 8 * ?t + 7"
  proof (rule countr_zero_eqI)
    have "8 * ?t + 7 < 64" using t(1) by linarith
    moreover have "(8 * ?t + 7) div 8 = ?t" "(8 * ?t + 7) mod 8 = 7" by simp_all
    ultimately show "bit s (8 * ?t + 7)" using sbits D t(2) by simp
    fix k assume k: "k < 8 * ?t + 7"
    show "\<not> bit s k"
    proof
      assume b: "bit s k"
      then have "k < 64" by (auto dest: bit_imp_le_length)
      then have q: "k mod 8 = 7" "P0 (8 * (?D div 8) + k div 8)" using b sbits by auto
      have "k div 8 < ?t" using k q(1) by (metis add_less_cancel_right div_mult_mod_eq mult.commute mult_less_cancel1)
      then show False using q(2) below t(2) by (metis nat_add_left_cancel_less)
    qed
  qed
  then have "s \<noteq> 0" using t(1) by (auto dest: arg_cong [of _ _ countr_zero])
  let ?le = "s AND - s"
  let ?h = "h AND (?le OR (?le - 1))"
  have "exact ?h Pc (?D div 8) (Suc ?t)"
    unfolding exact_def
  proof (intro allI impI)
    fix k :: nat assume k: "k < 64"
    have "k mod 8 = 7 \<Longrightarrow> k \<le> 8 * ?t + 7 \<longleftrightarrow> k div 8 < Suc ?t" by (rule byte_below)
    moreover have "k div 8 < 8" using k by simp
    ultimately show "bit ?h k \<longleftrightarrow> k mod 8 = 7 \<and> k div 8 < Suc ?t \<and> Pc (8 * (?D div 8) + k div 8)"
      using h k unfolding bit_and_iff lowest_end_bits [OF \<open>s \<noteq> 0\<close>] sz exact_def by auto
  qed
  then have last: "is_last Pc ?A (8 * (?D div 8) + Suc ?t)
      (if ?h \<noteq> 0 then Some (byte_at (?A + of_nat (8 * (?D div 8))) (63 - countl_zero ?h)) else r)" (is "is_last _ _ _ ?r")
    using t(1) by (intro last_step r) auto
  have n: "8 * (?D div 8) + Suc ?t = Suc ?D" using t(2) by simp
  have "strrchr m p ch = Some ?r"
    using res unfolding strrchr_def assms(3) [symmetric] Let_def by simp
  moreover have "case ?r of None \<Rightarrow> \<forall>j \<le> i. m (p + of_nat j) \<noteq> c
    | Some a \<Rightarrow> \<exists>k \<le> i. a = p + of_nat k \<and> m a = c \<and> (\<forall>j. k < j \<and> j \<le> i \<longrightarrow> m (p + of_nat j) \<noteq> c)"
    by (rule is_last_string [OF last [unfolded n] hit(1)])
      (simp add: Pc_def, rule aligned_index [symmetric])
  ultimately show ?thesis by blast
qed

subsection \<open>Comparing strings\<close>

lemma strncmp_bytes_skip:
  assumes "\<forall>i < l. m (p1 + of_nat i) = m (p2 + of_nat i) \<and> m (p1 + of_nat i) \<noteq> 0"
  shows "strncmp_bytes m p1 p2 (l + k) = strncmp_bytes m (p1 + of_nat l) (p2 + of_nat l) k"
  using assms
proof (induction l arbitrary: p1 p2)
  case (Suc l)
  have "m p1 = m p2 \<and> m p1 \<noteq> 0" using Suc.prems by (auto dest: spec [of _ 0])
  moreover have step: "\<forall>i < l. m (p1 + 1 + of_nat i) = m (p2 + 1 + of_nat i) \<and> m (p1 + 1 + of_nat i) \<noteq> 0"
    using Suc.prems by (auto simp: add.assoc dest: spec [of _ "Suc _"])
  have "strncmp_bytes m (p1 + 1) (p2 + 1) (l + k) = strncmp_bytes m (p1 + of_nat (Suc l)) (p2 + of_nat (Suc l)) k"
    using Suc.IH [OF step] by (simp add: add.assoc)
  ultimately show ?case by auto
qed simp

lemma strncmp_bytes_stop:
  assumes "\<forall>i < l. m (p1 + of_nat i) = m (p2 + of_nat i) \<and> m (p1 + of_nat i) \<noteq> 0" "l < n"
    "m (p1 + of_nat l) \<noteq> m (p2 + of_nat l) \<or> m (p1 + of_nat l) = 0"
  shows "strncmp_bytes m p1 p2 n = uint (m (p1 + of_nat l)) - uint (m (p2 + of_nat l))"
proof -
  have "n = l + Suc (n - Suc l)" using assms(2) by simp
  then show ?thesis using strncmp_bytes_skip [OF assms(1), of "Suc (n - Suc l)"] assms(3) by simp
qed

lemma uint_ucast_byte: "uint (ucast (drop_bit (i * 8) v AND 0xFF) :: u8) = uint (byte_of (v :: u64) i)"
proof -
  have e: "(0xFF :: u64) = mask 8" by (simp add: mask_eq_exp_minus_1)
  have "(ucast (drop_bit (i * 8) v AND 0xFF) :: u8) = byte_of v i"
    unfolding e by (rule bit_word_eqI) (auto simp: bit_byte_of bit_unsigned_iff bit_and_iff bit_mask_iff
        bit_drop_bit_eq mult.commute)
  then show ?thesis by simp
qed

lemma strncmp_words_ok: "strncmp_words m p1 p2 n = strncmp_bytes m p1 p2 (unat n)"
proof (induction m p1 p2 n rule: strncmp_words.induct)
  case (1 m p1 p2 n)
  show ?case
  proof (cases "8 \<le> n")
    case False
    then show ?thesis by (subst strncmp_words.simps) simp
  next
    case long: True
    then have n: "8 \<le> unat n" by (simp add: word_le_nat_alt)
    show ?thesis
    proof (cases "p1 AND 4095 > 4088 \<or> p2 AND 4095 > 4088")
      case True
      have "unat n = Suc (unat (n - 1))" using n unat_sub [of 1 n] by (simp add: word_le_nat_alt)
      then show ?thesis
        using long True "1.IH"(1) [OF long True] by (subst strncmp_words.simps) auto
    next
      case False
      let ?v1 = "unaligned_load m p1 :: u64" and ?v2 = "unaligned_load m p2 :: u64"
      let ?diff = "?v1 XOR ?v2" and ?nulls = "has_zero_byte ?v1"
      have b1: "t < 8 \<Longrightarrow> byte_of ?v1 t = m (p1 + of_nat t)" for t by (rule byte_of_word)
      have b2: "t < 8 \<Longrightarrow> byte_of ?v2 t = m (p2 + of_nat t)" for t by (rule byte_of_word)
      have eq: "\<forall>t < 8. m (p1 + of_nat t) = m (p2 + of_nat t)" if "?diff = 0"
        using that b1 b2 by (metis xor_eq_0_iff)
      let ?z = "countr_zero ?nulls div 8" and ?d = "countr_zero ?diff div 8"
      have z: "?z < 8" "m (p1 + of_nat ?z) = 0" "\<forall>t < ?z. m (p1 + of_nat t) \<noteq> 0" if "?nulls \<noteq> 0"
        using zero_scan(2) [OF that] b1 by auto
      have d: "?d < 8" "m (p1 + of_nat ?d) \<noteq> m (p2 + of_nat ?d)" "\<forall>t < ?d. m (p1 + of_nat t) = m (p2 + of_nat t)"
        if "?diff \<noteq> 0"
        using countr_zero_byte [of 8, OF _ that, unfolded byte_of_bitwise xor_eq_0_iff] b1 b2 by auto
      consider "?diff = 0" "?nulls = 0" | "?diff = 0" "?nulls \<noteq> 0" | "?diff \<noteq> 0" "?nulls \<noteq> 0" "?z < ?d"
        | "?diff \<noteq> 0" "?nulls = 0 \<or> ?d \<le> ?z" by linarith
      then show ?thesis
      proof cases
        case 1
        have "\<forall>i < 8. m (p1 + of_nat i) = m (p2 + of_nat i) \<and> m (p1 + of_nat i) \<noteq> 0"
          using eq [OF 1(1)] zero_scan(1) [of ?v1] 1(2) b1 by metis
        from strncmp_bytes_skip [OF this, of "unat (n - 8)"]
        have "strncmp_bytes m p1 p2 (unat n) = strncmp_bytes m (p1 + 8) (p2 + 8) (unat (n - 8))"
          using n unat_sub [OF long] by simp
        then show ?thesis
          using long False 1 "1.IH"(2) [OF long False refl refl refl refl] by (subst strncmp_words.simps) (simp add: Let_def)
      next
        case 2
        have "strncmp_bytes m p1 p2 (unat n) = uint (m (p1 + of_nat ?z)) - uint (m (p2 + of_nat ?z))"
          using z [OF 2(2)] eq [OF 2(1)] n by (intro strncmp_bytes_stop) auto
        then show ?thesis
          using long False 2 eq [OF 2(1)] z(1) [OF 2(2)] by (subst strncmp_words.simps) (simp add: Let_def)
      next
        case 3
        have "strncmp_bytes m p1 p2 (unat n) = uint (m (p1 + of_nat ?z)) - uint (m (p2 + of_nat ?z))"
          using z [OF 3(2)] d [OF 3(1)] 3(3) n by (intro strncmp_bytes_stop) auto
        moreover have "m (p1 + of_nat ?z) = m (p2 + of_nat ?z)" using d(3) [OF 3(1)] 3(3) by blast
        ultimately show ?thesis
          using long False 3 by (subst strncmp_words.simps) (simp add: Let_def)
      next
        case 4
        have "\<forall>i < ?d. m (p1 + of_nat i) \<noteq> 0"
        proof (cases "?nulls = 0")
          case True
          then show ?thesis using zero_scan(1) [of ?v1] b1 d(1) [OF 4(1)] by auto
        next
          case False
          then show ?thesis using z(3) 4(2) by auto
        qed
        then have "strncmp_bytes m p1 p2 (unat n) = uint (m (p1 + of_nat ?d)) - uint (m (p2 + of_nat ?d))"
          using d [OF 4(1)] n by (intro strncmp_bytes_stop) auto
        moreover have far: "\<not> (?nulls \<noteq> 0 \<and> ?z * 8 < ?d * 8)" using 4(2) by auto
        have "strncmp_words m p1 p2 n = uint (ucast (drop_bit (?d * 8) ?v1 AND 0xFF) :: u8) -
            uint (ucast (drop_bit (?d * 8) ?v2 AND 0xFF) :: u8)"
          by (subst strncmp_words.simps)
            (simp only: Let_def long False 4(1) far if_True if_False simp_thms)
        ultimately show ?thesis
          unfolding uint_ucast_byte b1 [OF d(1) [OF 4(1)]] b2 [OF d(1) [OF 4(1)]] by simp
      qed
    qed
  qed
qed

lemma strncmp_bytes_same: "strncmp_bytes m p p n = 0"
  by (induction n arbitrary: p) auto

lemma strncmp_ok: "strncmp m s1 s2 n = strncmp_bytes m s1 s2 (unat n)"
  by (auto simp: strncmp_def strncmp_words_ok strncmp_bytes_same)

subsection \<open>Properties\<close>

text \<open>C19: \<^verbatim>\<open>strnlen\<close> returns, and what it returns is the index of the first terminator or the
  bound, whichever is less, provided there is a terminator within the bound or the bound is at
  most half of the address space.  \<^verbatim>\<open>strlen\<close> is the case of the largest bound.\<close>

theorem strnlen_returns:
  assumes "unat maxlen \<le> 2 ^ 63 \<or> (\<exists>i < unat maxlen. m (p + of_nat i) = 0)"
  shows "\<exists>len. strnlen m p maxlen = Some len \<and> len \<le> maxlen \<and>
    (\<forall>i < unat len. m (p + of_nat i) \<noteq> 0) \<and> (len < maxlen \<longrightarrow> m (p + len) = 0)"
proof -
  have ok: "strnlen m p maxlen = Some (of_nat (str_nlen m p (unat maxlen)))"
    by (rule strnlen_ok) (use assms in \<open>simp add: str_bounded_def\<close>)
  let ?len = "str_nlen m p (unat maxlen)"
  have u: "unat (of_nat ?len :: u64) = ?len"
    using str_nlen_le [of m p "unat maxlen"] unat_bound [of maxlen]
    by (simp add: unat_of_nat take_bit_nat_eq_self)
  have "m (p + of_nat i) \<noteq> 0" if "i < ?len" for i
    using that by (auto simp: str_nlen_def find_Some_iff find_None_iff split: option.splits)
  moreover have "?len < unat maxlen \<Longrightarrow> m (p + of_nat ?len) = 0" by (rule str_nlen_zero)
  ultimately show ?thesis
    using ok u str_nlen_le [of m p "unat maxlen"]
    by (intro exI [of _ "of_nat ?len"]) (simp add: word_le_nat_alt word_less_nat_alt)
qed

theorem strnlen_returns_witness:
  "\<exists>len. strnlen (\<lambda>a. if a = 8 then 0 else 65) 5 100 = Some len \<and> len \<le> 100 \<and>
    (\<forall>i < unat len. (\<lambda>a. if a = 8 then 0 else 65 :: u8) (5 + of_nat i :: addr) \<noteq> 0) \<and>
    (len < 100 \<longrightarrow> (\<lambda>a. if a = 8 then 0 else 65 :: u8) (5 + len) = 0)"
  by (rule strnlen_returns) simp

text \<open>On a terminated string \<^verbatim>\<open>strchr\<close> returns the first and \<^verbatim>\<open>strrchr\<close> the last position of
  the character up to and including the terminator, or null; both return.\<close>

theorem strchr_strrchr_positions:
  assumes "\<And>j. j < i \<Longrightarrow> m (p + of_nat j) \<noteq> 0" "m (p + of_nat i) = 0"
  shows "strchr m p ch = Some (map_option (\<lambda>j. p + of_nat j)
      (find (\<lambda>j. m (p + of_nat j) = word_of_int ch) [0..<Suc i])) \<and>
    strrchr m p ch = Some (let js = filter (\<lambda>j. m (p + of_nat j) = word_of_int ch) [0..<Suc i]
      in if js = [] then None else Some (p + of_nat (last js)))"
proof
  let ?P = "\<lambda>j. m (p + of_nat j) = (word_of_int ch :: u8)"
  show "strchr m p ch = Some (map_option (\<lambda>j. p + of_nat j) (find ?P [0..<Suc i]))"
  proof (cases "find ?P [0..<Suc i]")
    case None
    then have "\<And>j. j \<le> i \<Longrightarrow> \<not> ?P j" by (auto simp: find_None_iff less_Suc_eq_le simp del: upt_Suc)
    then show ?thesis using None strchr_ok [of i m p "word_of_int ch" ch] assms by auto
  next
    case (Some D)
    then have D: "D \<le> i" "?P D" "\<And>j. j < D \<Longrightarrow> \<not> ?P j" by (auto simp: find_Some_iff less_Suc_eq_le simp del: upt_Suc)
    then show ?thesis using Some strchr_ok [of D m p "word_of_int ch" ch] assms(1) by auto
  qed
  obtain r where r: "strrchr m p ch = Some r" "case r of None \<Rightarrow> \<forall>j \<le> i. \<not> ?P j
    | Some a \<Rightarrow> \<exists>k \<le> i. a = p + of_nat k \<and> m a = word_of_int ch \<and> (\<forall>j. k < j \<and> j \<le> i \<longrightarrow> \<not> ?P j)"
    using strrchr_ok [of i m p "word_of_int ch" ch] assms by auto
  show "strrchr m p ch = Some (let js = filter ?P [0..<Suc i] in if js = [] then None else Some (p + of_nat (last js)))"
  proof (cases r)
    case None
    then have "filter ?P [0..<Suc i] = []" using r(2) by (auto simp: filter_empty_conv simp del: upt_Suc)
    then show ?thesis using r(1) None by simp
  next
    case (Some a)
    then obtain k where k: "k \<le> i" "a = p + of_nat k" "?P k" "\<And>j. k < j \<Longrightarrow> j \<le> i \<Longrightarrow> \<not> ?P j"
      using r(2) by auto
    have "[0..<Suc i] = [0..<k] @ k # [Suc k..<Suc i]" using k(1) by (intro upt_split) simp
    moreover have "filter ?P [Suc k..<Suc i] = []" using k(4) by (auto simp: filter_empty_conv simp del: upt_Suc)
    ultimately have "filter ?P [0..<Suc i] = filter ?P [0..<k] @ [k]"
      using k(3) by (simp del: upt_Suc)
    then show ?thesis using r(1) Some k(2) by (simp only: Let_def) simp
  qed
qed

theorem strchr_strrchr_positions_witness:
  "strchr (\<lambda>a. if a = 6 then 0 else 65) 3 65 = Some (Some 3) \<and>
   strrchr (\<lambda>a. if a = 6 then 0 else 65) 3 65 = Some (Some 5)"
proof -
  have "(\<lambda>a. if a = 6 then 0 else 65 :: u8) (3 + of_nat j :: addr) \<noteq> 0" if "j < 3" for j :: nat
  proof -
    have "unat (of_nat j :: addr) = j" using that by (simp add: unat_of_nat take_bit_nat_eq_self)
    then have "(of_nat j :: addr) \<noteq> 3" using that by auto
    then show ?thesis by simp
  qed
  from strchr_strrchr_positions [of 3 "\<lambda>a. if a = 6 then 0 else 65" 3 65, OF this]
  show ?thesis by (simp add: upt_rec Let_def)
qed

text \<open>C20: \<^verbatim>\<open>strncmp\<close>, which compares a word at a time away from the ends of pages, returns what the
  comparison byte by byte returns, for all strings, addresses and counts.\<close>

theorem strncmp_by_bytes:
  "strncmp m s1 s2 n = strncmp_bytes m s1 s2 (unat n) \<and>
   strcmp m s1 s2 = strncmp_bytes m s1 s2 (2 ^ 64 - 1)"
  by (simp add: strncmp_ok strcmp_def unsigned_minus_1_eq_mask mask_eq_exp_minus_1)

end
