(* ===== verification/StrText.thy ===== *)
theory StrText
  imports StrScan
begin

text \<open>
  Texts in memory, as lists of bytes: what the facts on the string functions are stated with.  A
  C string is a text without zero bytes, followed by one, of fewer than \<open>2\<^sup>6\<^sup>3\<close> bytes, as every object is.
\<close>

definition text_at :: "mem \<Rightarrow> addr \<Rightarrow> u8 list \<Rightarrow> bool" where
  "text_at m p bs \<longleftrightarrow> (\<forall>i<length bs. m (p + of_nat i) = bs ! i)"

lemma text_at_Nil [simp]: "text_at m p []"
  by (simp add: text_at_def)

lemma text_at_Cons [simp]: "text_at m p (b # bs) \<longleftrightarrow> m p = b \<and> text_at m (p + 1) bs"
  by (simp add: text_at_def All_less_Suc2 add.assoc)

lemma text_at_append [simp]: "text_at m p (as @ bs) \<longleftrightarrow> text_at m p as \<and> text_at m (p + of_nat (length as)) bs"
  by (induction as arbitrary: p) (auto simp: algebra_simps)

lemma text_head: "text_at m p (xs @ ys) \<Longrightarrow> xs \<noteq> [] \<Longrightarrow> text_at m p [hd xs]"
  by (cases xs) auto

definition c_string :: "mem \<Rightarrow> addr \<Rightarrow> u8 list \<Rightarrow> bool" where
  "c_string m p s \<longleftrightarrow> text_at m p (s @ [0]) \<and> 0 \<notin> set s \<and> length s < 2 ^ 63"

lemma text_at_same:
  assumes "text_at m p bs" "\<And>i. i < length bs \<Longrightarrow> m' (p + of_nat i) = m (p + of_nat i)"
  shows "text_at m' p bs"
  using assms by (simp add: text_at_def)

lemma c_string_nth: "c_string m p s \<Longrightarrow> i < length s \<Longrightarrow> m (p + of_nat i) = s ! i"
  by (simp add: c_string_def) (simp add: text_at_def)

lemma c_string_end: "c_string m p s \<Longrightarrow> m (p + of_nat (length s)) = 0"
  by (simp add: c_string_def)

lemma c_string_suffix: "c_string m p (s @ t) \<Longrightarrow> c_string m (p + of_nat (length s)) t"
  by (simp add: c_string_def)

lemma c_string_nlen:
  assumes "c_string m p s"
  shows "str_nlen m p n = min n (length s)"
proof (rule str_nlen_eqI)
  show "m (p + of_nat i) \<noteq> 0" if "i < length s" for i
    using c_string_nth [OF assms that] assms that by (metis c_string_def nth_mem)
qed (rule c_string_end [OF assms])

lemma strnlen_c_string:
  assumes "c_string m p s"
  shows "strnlen m p n = Some (of_nat (min (unat n) (length s)))"
proof -
  have "str_bounded m p (unat n)"
    using c_string_end [OF assms] assms unfolding str_bounded_def c_string_def
    by (cases "unat n \<le> 2 ^ 63") (auto intro: exI [of _ "length s"])
  then show ?thesis by (simp add: strnlen_ok c_string_nlen [OF assms])
qed

lemma strlen_c_string:
  assumes "c_string m p s"
  shows "strlen m p = Some (of_nat (length s))"
proof -
  have "unat (NOT 0 :: u64) = 2 ^ 64 - 1" by (simp add: unsigned_minus_1_eq_mask mask_eq_exp_minus_1)
  then have "length s \<le> unat (NOT 0 :: u64)" using assms unfolding c_string_def by simp
  then show ?thesis unfolding strlen_def strnlen_c_string [OF assms] by (simp add: min_def)
qed

end
