(* ===== verification/StrOps.thy ===== *)
theory StrOps
  imports StrText
begin

text \<open>
  The string functions of klib that are built from the scans: \<^verbatim>\<open>strcpy.cpp\<close>, \<^verbatim>\<open>strcat.cpp\<close>,
  \<^verbatim>\<open>strspn.cpp\<close>, \<^verbatim>\<open>strpbrk.cpp\<close> and \<^verbatim>\<open>strtok.cpp\<close> under \<^verbatim>\<open>klib/src/string/\<close>.  A function that
  writes returns the new memory; \<^const>\<open>None\<close> is a scan that does not end.
\<close>

subsection \<open>strcpy.cpp and strcat.cpp\<close>

definition strncpy :: "addr \<Rightarrow> addr \<Rightarrow> u64 \<Rightarrow> mem \<Rightarrow> mem option" where
  "strncpy dest src n m =
     (if n = 0 then Some m
      else do {
        len \<leftarrow> strnlen m src n;
        let m = memcpy dest src len m;
        Some (if len < n then memset (dest + len) 0 (n - len) m else m)
      })"

definition strcpy :: "addr \<Rightarrow> addr \<Rightarrow> mem \<Rightarrow> mem option" where
  "strcpy dest src m = do {
     len \<leftarrow> strlen m src;
     Some (memcpy dest src (len + 1) m)
   }"

definition strcat :: "addr \<Rightarrow> addr \<Rightarrow> mem \<Rightarrow> mem option" where
  "strcat dest src m = do {
     dest_len \<leftarrow> strlen m dest;
     src_len \<leftarrow> strlen m src;
     Some (memcpy (dest + dest_len) src (src_len + 1) m)
   }"

definition strncat :: "addr \<Rightarrow> addr \<Rightarrow> u64 \<Rightarrow> mem \<Rightarrow> mem option" where
  "strncat dest src n m =
     (if n = 0 then Some m
      else do {
        dest_len \<leftarrow> strlen m dest;
        src_len \<leftarrow> strnlen m src n;
        Some ((memcpy (dest + dest_len) src src_len m)(dest + (dest_len + src_len) := 0))
      })"

subsection \<open>strspn.cpp\<close>

type_synonym byte_set = "u64 list"

definition empty_set :: byte_set where
  "empty_set = [0, 0, 0, 0]"

definition add_byte :: "u8 \<Rightarrow> byte_set \<Rightarrow> byte_set" where
  "add_byte c bits =
     (let i = unat (drop_bit 6 c) in bits[i := bits ! i OR push_bit (unat (c AND 63)) 1])"

definition contains :: "byte_set \<Rightarrow> u8 \<Rightarrow> bool" where
  "contains bits c \<longleftrightarrow> drop_bit (unat (c AND 63)) (bits ! unat (drop_bit 6 c)) AND 1 \<noteq> 0"

partial_function (option) collect_bytes :: "mem \<Rightarrow> addr \<Rightarrow> byte_set \<Rightarrow> byte_set option" where
  "collect_bytes m c bits =
     (if m c \<noteq> 0 then collect_bytes m (c + 1) (add_byte (m c) bits) else Some bits)"

partial_function (option) span_loop :: "mem \<Rightarrow> byte_set \<Rightarrow> bool \<Rightarrow> addr \<Rightarrow> u64 \<Rightarrow> u64 option" where
  "span_loop m bits accept s len =
     (if contains bits (m (s + len)) = accept then span_loop m bits accept s (len + 1) else Some len)"

definition span :: "bool \<Rightarrow> mem \<Rightarrow> addr \<Rightarrow> addr \<Rightarrow> u64 option" where
  "span accept m str chars = do {
     bits \<leftarrow> collect_bytes m chars empty_set;
     let bits = (if \<not> accept then add_byte 0 bits else bits);
     span_loop m bits accept str 0
   }"

definition strspn :: "mem \<Rightarrow> addr \<Rightarrow> addr \<Rightarrow> u64 option" where
  "strspn = span True"

definition strcspn :: "mem \<Rightarrow> addr \<Rightarrow> addr \<Rightarrow> u64 option" where
  "strcspn = span False"

subsection \<open>strpbrk.cpp\<close>

definition strpbrk :: "mem \<Rightarrow> addr \<Rightarrow> addr \<Rightarrow> ptr option" where
  "strpbrk m dest src = do {
     len \<leftarrow> strcspn m dest src;
     Some (if m (dest + len) = 0 then None else Some (dest + len))
   }"

partial_function (option) strstr_loop :: "mem \<Rightarrow> addr \<Rightarrow> u64 \<Rightarrow> addr \<Rightarrow> addr \<Rightarrow> ptr option" where
  "strstr_loop m needle needle_len end_search cur =
     (if cur < end_search then
        case memchr m cur (sint (m needle)) (end_search - cur) of
          None \<Rightarrow> Some None
        | Some cur \<Rightarrow>
            if m (cur + (needle_len - 1)) = m (needle + (needle_len - 1)) \<and>
               (needle_len \<le> 2 \<or> memcmp m (cur + 1) (needle + 1) (needle_len - 2) = 0)
            then Some (Some cur)
            else strstr_loop m needle needle_len end_search (cur + 1)
      else Some None)"

definition strstr :: "mem \<Rightarrow> addr \<Rightarrow> addr \<Rightarrow> ptr option" where
  "strstr m haystack needle = do {
     needle_len \<leftarrow> strlen m needle;
     if needle_len = 0 then Some (Some haystack)
     else do {
       haystack_len \<leftarrow> strlen m haystack;
       if haystack_len < needle_len then Some None
       else strstr_loop m needle needle_len (haystack + (haystack_len - needle_len + 1)) haystack
     }
   }"

subsection \<open>strtok.cpp\<close>

text \<open>The result is the token, what is saved for the next call, and the memory.\<close>

definition strtok_r :: "ptr \<Rightarrow> addr \<Rightarrow> ptr \<Rightarrow> mem \<Rightarrow> (ptr \<times> ptr \<times> mem) option" where
  "strtok_r str delim saveptr m =
     (case (if str = None then saveptr else str) of
        None \<Rightarrow> Some (None, saveptr, m)
      | Some s \<Rightarrow> do {
          skip \<leftarrow> strspn m s delim;
          let token = s + skip;
          if m token = 0 then Some (None, None, m)
          else do {
            s \<leftarrow> strpbrk m token delim;
            Some (case s of
                Some s \<Rightarrow> (Some token, Some (s + 1), m(s := 0))
              | None \<Rightarrow> (Some token, None, m))
          }
        })"

text \<open>The saved pointer of \<^verbatim>\<open>strtok\<close> is a static variable, part of the state.\<close>

definition strtok :: "ptr \<Rightarrow> addr \<Rightarrow> ptr \<times> mem \<Rightarrow> (ptr \<times> ptr \<times> mem) option" where
  "strtok str delim state = (case state of (saved_ptr, m) \<Rightarrow> strtok_r str delim saved_ptr m)"

subsection \<open>Byte sets\<close>

lemma byte_index: "unat (drop_bit 6 c) = unat c div 64" "unat (c AND 63) = unat c mod 64" "unat c div 64 < 4" for c :: u8
proof -
  have m: "(63 :: u8) = mask 6" by (simp add: mask_eq_exp_minus_1)
  show "unat (drop_bit 6 c) = unat c div 64" by (simp add: drop_bit_eq_div unat_div)
  show "unat (c AND 63) = unat c mod 64" unfolding m by (simp add: take_bit_eq_mask [symmetric] take_bit_eq_mod unat_mod)
  show "unat c div 64 < 4" using unat_bound [of c] by simp
qed

lemma contains_bit: "contains bits c \<longleftrightarrow> bit (bits ! (unat c div 64)) (unat c mod 64)"
  by (simp add: contains_def byte_index and_one_eq bit_iff_odd_drop_bit odd_iff_mod_2_eq_one)

lemma contains_add:
  assumes "length bits = 4"
  shows "contains (add_byte c bits) d \<longleftrightarrow> d = c \<or> contains bits d" "length (add_byte c bits) = 4"
proof -
  have "d = c \<longleftrightarrow> unat d div 64 = unat c div 64 \<and> unat d mod 64 = unat c mod 64"
    by (metis div_mod_decomp word_unat_eq_iff)
  moreover have "unat c mod 64 < 64" by simp
  ultimately show "contains (add_byte c bits) d \<longleftrightarrow> d = c \<or> contains bits d"
    using byte_index(3) [of c] byte_index(3) [of d] assms
    by (auto simp: contains_bit add_byte_def Let_def byte_index(1,2) bit_or_iff bit_exp_iff)
  show "length (add_byte c bits) = 4" using assms by (simp add: add_byte_def Let_def)
qed

lemma contains_fold:
  "length bits = 4 \<Longrightarrow> contains (fold add_byte cs bits) d \<longleftrightarrow> d \<in> set cs \<or> contains bits d"
  "length bits = 4 \<Longrightarrow> length (fold add_byte cs bits) = 4"
  by (induction cs arbitrary: bits) (auto simp: contains_add)

lemma collect_bytes_ok:
  "text_at m p (cs @ [0]) \<Longrightarrow> 0 \<notin> set cs \<Longrightarrow> collect_bytes m p bits = Some (fold add_byte cs bits)"
proof (induction cs arbitrary: p bits)
  case Nil
  then show ?case by (subst collect_bytes.simps) simp
next
  case (Cons c cs)
  then show ?case by (subst collect_bytes.simps) auto
qed

lemma span_loop_ok:
  "text_at m (p + len) (xs @ [b]) \<Longrightarrow> \<forall>x\<in>set xs. contains bits x = accept \<Longrightarrow> contains bits b \<noteq> accept \<Longrightarrow>
   span_loop m bits accept p len = Some (len + of_nat (length xs))"
proof (induction xs arbitrary: len)
  case Nil
  then show ?case by (subst span_loop.simps) simp
next
  case (Cons x xs)
  then have "span_loop m bits accept p (len + 1) = Some (len + 1 + of_nat (length xs))"
    by (intro Cons.IH) (auto simp: add.assoc)
  then show ?case using Cons.prems by (subst span_loop.simps) (simp add: algebra_simps)
qed

lemma takeWhile_text:
  obtains b where "text_at m p (s @ [0]) \<Longrightarrow> text_at m p (takeWhile P s @ [b])" "b = 0 \<or> \<not> P b" "b = 0 \<Longrightarrow> 0 \<notin> set s \<Longrightarrow> takeWhile P s = s"
    "b \<noteq> 0 \<Longrightarrow> b \<in> set s"
proof (cases "dropWhile P s")
  case Nil
  then have tw: "takeWhile P s = s" by (metis append_Nil2 takeWhile_dropWhile_id)
  show ?thesis by (rule that [of 0]) (simp_all add: tw)
next
  case (Cons b t)
  have "s = takeWhile P s @ b # t" using takeWhile_dropWhile_id [of P s] Cons by simp
  then have b: "text_at m p (s @ [0]) \<Longrightarrow> text_at m p (takeWhile P s @ [b])" "b \<in> set s"
    by (metis append.assoc append_Cons append_Nil text_at_append, metis in_set_conv_decomp)
  have "\<not> P b" using Cons by (metis dropWhile_eq_Cons_conv)
  then show ?thesis by (intro that [of b]) (use b in auto)
qed

lemma span_ok:
  assumes "c_string m p s" "c_string m q cs"
  shows "span accept m p q = Some (of_nat (length (takeWhile (\<lambda>b. (b \<in> set cs) = accept) s)))"
proof -
  let ?P = "\<lambda>b. (b \<in> set cs) = accept"
  let ?bits = "fold add_byte cs empty_set"
  let ?all = "if \<not> accept then add_byte 0 ?bits else ?bits"
  have l: "length empty_set = 4" "length ?bits = 4" by (simp_all add: empty_set_def contains_fold)
  have e: "\<not> contains empty_set d" for d
    using byte_index(3) [of d] by (auto simp: contains_bit empty_set_def nth_Cons' )
  have c: "contains ?all d = accept \<longleftrightarrow> ?P d \<and> (accept \<or> d \<noteq> 0)" for d
    by (auto simp: contains_add(1) [OF l(2)] contains_fold(1) [OF l(1)] e)
  have z: "0 \<notin> set s" "0 \<notin> set cs" using assms by (auto simp: c_string_def)
  obtain b where b: "text_at m p (takeWhile ?P s @ [b])" "b = 0 \<or> \<not> ?P b"
    using takeWhile_text [of m p s ?P] assms(1) by (metis c_string_def)
  have "span_loop m ?all accept p 0 = Some (0 + of_nat (length (takeWhile ?P s)))"
  proof (rule span_loop_ok)
    show "\<forall>x\<in>set (takeWhile ?P s). contains ?all x = accept"
      using z(1) unfolding c by (metis set_takeWhileD)
    show "contains ?all b \<noteq> accept" unfolding c using b(2) z(2) by auto
  qed (use b(1) in simp)
  moreover have "collect_bytes m q empty_set = Some ?bits"
    using assms(2) by (intro collect_bytes_ok) (auto simp: c_string_def)
  ultimately show ?thesis by (simp add: span_def Let_def)
qed

lemma strpbrk_ok:
  assumes "c_string m p s" "c_string m q cs"
  shows "strpbrk m p q = Some (if \<exists>b\<in>set s. b \<in> set cs
    then Some (p + of_nat (length (takeWhile (\<lambda>b. b \<notin> set cs) s))) else None)"
proof -
  let ?P = "\<lambda>b. b \<notin> set cs"
  obtain b where b: "text_at m p (takeWhile ?P s @ [b])" "b = 0 \<or> \<not> ?P b" "b = 0 \<Longrightarrow> takeWhile ?P s = s" "b \<noteq> 0 \<Longrightarrow> b \<in> set s"
    using takeWhile_text [of m p s ?P] assms(1) by (metis c_string_def)
  have "strcspn m p q = Some (of_nat (length (takeWhile ?P s)))"
    using span_ok [OF assms, of False] by (simp add: strcspn_def)
  moreover have "m (p + of_nat (length (takeWhile ?P s))) = b" using b(1) by simp
  moreover have "b = 0 \<longleftrightarrow> \<not> (\<exists>b\<in>set s. b \<in> set cs)"
    using b(2-4) by (metis takeWhile_eq_all_conv)
  ultimately show ?thesis by (simp add: strpbrk_def)
qed

subsection \<open>Searching\<close>

lemma mem_cmp_0: "mem_cmp m p q n = 0 \<longleftrightarrow> (\<forall>i<n. m (p + of_nat i) = m (q + of_nat i))"
proof (cases "find (\<lambda>i. m (p + of_nat i) \<noteq> m (q + of_nat i)) [0..<n]")
  case None
  then have "mem_cmp m p q n = 0" by (simp add: mem_cmp_def)
  moreover have "\<forall>i<n. m (p + of_nat i) = m (q + of_nat i)" using None by (auto simp: find_None_iff)
  ultimately show ?thesis by simp
next
  case (Some i)
  then have "i < n" "m (p + of_nat i) \<noteq> m (q + of_nat i)" by (auto simp: find_Some_iff)
  moreover have "uint (m (p + of_nat i)) \<noteq> uint (m (q + of_nat i))"
    using calculation(2) by (simp add: word_uint_eq_iff)
  ultimately show ?thesis using Some by (auto simp: mem_cmp_def)
qed

text \<open>The needle is in memory from \<open>p\<close> on.\<close>

definition occurs :: "mem \<Rightarrow> u8 list \<Rightarrow> addr \<Rightarrow> bool" where
  "occurs m needle p \<longleftrightarrow> (\<forall>t<length needle. m (p + of_nat t) = needle ! t)"

lemma occurs_test:
  assumes n: "c_string m q needle" "needle \<noteq> []" and first: "m p = needle ! 0"
  shows "m (p + (of_nat (length needle) - 1)) = m (q + (of_nat (length needle) - 1)) \<and>
      ((of_nat (length needle) :: u64) \<le> 2 \<or> memcmp m (p + 1) (q + 1) (of_nat (length needle) - 2) = 0) \<longleftrightarrow>
    occurs m needle p"
proof -
  let ?k = "length needle"
  have lt: "?k < 2 ^ 63" using n(1) by (simp add: c_string_def)
  have nth: "m (q + of_nat t) = needle ! t" if "t < ?k" for t by (rule c_string_nth [OF n(1) that])
  have l1: "(of_nat ?k - 1 :: u64) = of_nat (?k - 1)" using n(2) by (cases needle) simp_all
  have u: "unat (of_nat ?k :: u64) = ?k" using lt by (simp add: unat_of_nat take_bit_nat_eq_self)
  have le2: "(of_nat ?k :: u64) \<le> 2 \<longleftrightarrow> ?k \<le> 2" using u by (simp add: word_le_nat_alt)
  have l2: "unat (of_nat ?k - 2 :: u64) = ?k - 2" if "\<not> ?k \<le> 2"
    using unat_sub [of 2 "of_nat ?k :: u64"] that u by (simp add: word_le_nat_alt)
  have mid: "memcmp m (p + 1) (q + 1) (of_nat ?k - 2) = 0 \<longleftrightarrow> (\<forall>t. 0 < t \<longrightarrow> t < ?k - 1 \<longrightarrow> m (p + of_nat t) = needle ! t)"
    if k: "\<not> ?k \<le> 2"
  proof -
    have "(\<forall>i<?k - 2. m (p + 1 + of_nat i) = m (q + 1 + of_nat i)) \<longleftrightarrow>
        (\<forall>i<?k - 2. m (p + of_nat (Suc i)) = needle ! Suc i)"
      using nth [of "Suc _"] by (auto simp: add.assoc)
    also have "\<dots> \<longleftrightarrow> (\<forall>t. 0 < t \<longrightarrow> t < ?k - 1 \<longrightarrow> m (p + of_nat t) = needle ! t)"
    proof (intro iffI allI impI)
      fix t assume a: "\<forall>i<?k - 2. m (p + of_nat (Suc i)) = needle ! Suc i" and t: "0 < t" "t < ?k - 1"
      show "m (p + of_nat t) = needle ! t" using a [rule_format, of "t - 1"] t by simp
    next
      fix i assume a: "\<forall>t. 0 < t \<longrightarrow> t < ?k - 1 \<longrightarrow> m (p + of_nat t) = needle ! t" and i: "i < ?k - 2"
      show "m (p + of_nat (Suc i)) = needle ! Suc i" using a [rule_format, of "Suc i"] i by simp
    qed
    finally show ?thesis by (simp add: memcmp_ok mem_cmp_0 l2 [OF k])
  qed
  have split: "occurs m needle p \<longleftrightarrow> m (p + of_nat (?k - 1)) = needle ! (?k - 1) \<and>
      (\<forall>t. 0 < t \<longrightarrow> t < ?k - 1 \<longrightarrow> m (p + of_nat t) = needle ! t)"
  proof
    assume r: "m (p + of_nat (?k - 1)) = needle ! (?k - 1) \<and> (\<forall>t. 0 < t \<longrightarrow> t < ?k - 1 \<longrightarrow> m (p + of_nat t) = needle ! t)"
    show "occurs m needle p"
      unfolding occurs_def
    proof (intro allI impI)
      fix t assume "t < ?k"
      then consider "t = 0" | "0 < t" "t < ?k - 1" | "t = ?k - 1" by linarith
      then show "m (p + of_nat t) = needle ! t" using r first by cases auto
    qed
  qed (use n(2) in \<open>auto simp: occurs_def\<close>)
  have "?k - 1 < ?k" using n(2) by (cases needle) simp_all
  then have "m (q + of_nat (?k - 1)) = needle ! (?k - 1)" by (rule nth)
  then show ?thesis
    unfolding l1 le2 split using mid by (cases "?k \<le> 2") auto
qed

lemma find_upt_start:
  "find P [i..<n] = (if i < n then if P i then Some i else find P [Suc i..<n] else None)"
  by (simp add: upt_conv_Cons)

lemma find_skip:
  "i \<le> j \<Longrightarrow> \<forall>k. i \<le> k \<longrightarrow> k < j \<longrightarrow> \<not> P k \<Longrightarrow> j \<le> n \<Longrightarrow> find P [i..<n] = find P [j..<n]"
proof (induction "j - i" arbitrary: i)
  case (Suc d)
  then have "find P [Suc i..<n] = find P [j..<n]" by (intro Suc.hyps(1)) auto
  then show ?case using Suc.prems Suc.hyps(2) by (subst find_upt_start) auto
qed simp

lemma strstr_loop_ok:
  assumes n: "c_string m q needle" "needle \<noteq> []" and fit: "unat p + B < 2 ^ 64"
  shows "i \<le> B \<Longrightarrow> strstr_loop m q (of_nat (length needle)) (p + of_nat B) (p + of_nat i) =
    Some (map_option (\<lambda>j. p + of_nat j) (find (\<lambda>j. occurs m needle (p + of_nat j)) [i..<B]))"
proof (induction "B - i" arbitrary: i rule: less_induct)
  case less
  have at: "unat (p + of_nat j) = unat p + j" if "j \<le> B" for j
    using that fit by (simp add: unat_word_ariths unat_of_nat take_bit_nat_eq_self)
  have lt: "p + of_nat i < p + of_nat B \<longleftrightarrow> i < B" using at [of i] at [of B] less.prems by (simp add: word_less_nat_alt)
  let ?O = "\<lambda>j. occurs m needle (p + of_nat j)"
  have q0: "m q = needle ! 0" using c_string_nth [OF n(1), of 0] n(2) by simp
  show ?case
  proof (cases "i < B")
    case False
    then show ?thesis using lt by (subst strstr_loop.simps) simp
  next
    case True
    have d: "p + of_nat B - (p + of_nat i) = of_nat (B - i)" using True by (simp add: of_nat_diff)
    have u: "unat (of_nat (B - i) :: u64) = B - i" using fit by (simp add: unat_of_nat take_bit_nat_eq_self)
    let ?F = "find (\<lambda>t. m (p + of_nat i + of_nat t) = needle ! 0) [0..<B - i]"
    have chr: "memchr m (p + of_nat i) (sint (m q)) (p + of_nat B - (p + of_nat i)) =
        map_option (\<lambda>t. p + of_nat i + of_nat t) ?F"
      unfolding d memchr_ok u mem_find_def q0 by simp
    have o0: "m (p + of_nat j) = needle ! 0" if "?O j" for j using that n(2) by (auto simp: occurs_def)
    show ?thesis
    proof (cases ?F)
      case None
      have "\<not> ?O j" if "i \<le> j" "j < B" for j
        using None o0 [of j] that unfolding find_None_iff
        by (auto dest: spec [of _ "j - i"] simp: add.assoc simp flip: of_nat_add)
      then have "find ?O [i..<B] = None" by (auto simp: find_None_iff)
      then show ?thesis using True lt chr None by (subst strstr_loop.simps) simp
    next
      case (Some t)
      then have t: "t < B - i" "m (p + of_nat i + of_nat t) = needle ! 0"
        "\<And>t'. t' < t \<Longrightarrow> m (p + of_nat i + of_nat t') \<noteq> needle ! 0"
        by (auto simp: find_Some_iff)
      let ?j = "i + t"
      have j: "p + of_nat i + of_nat t = p + of_nat ?j" by (simp add: add.assoc)
      have before: "\<not> ?O k" if "i \<le> k" "k < ?j" for k
        using t(3) [of "k - i"] o0 [of k] that by (auto simp: add.assoc simp flip: of_nat_add)
      have find: "find ?O [i..<B] = find ?O [?j..<B]"
        using before t(1) True by (intro find_skip) auto
      have test: "m (p + of_nat ?j + (of_nat (length needle) - 1)) = m (q + (of_nat (length needle) - 1)) \<and>
          ((of_nat (length needle) :: u64) \<le> 2 \<or> memcmp m (p + of_nat ?j + 1) (q + 1) (of_nat (length needle) - 2) = 0) \<longleftrightarrow> ?O ?j"
        by (rule occurs_test [OF n]) (use t(2) j in simp)
      have step: "strstr_loop m q (of_nat (length needle)) (p + of_nat B) (p + of_nat i) =
          (if ?O ?j then Some (Some (p + of_nat ?j))
           else strstr_loop m q (of_nat (length needle)) (p + of_nat B) (p + of_nat ?j + 1))"
        using True lt by (subst strstr_loop.simps) (simp only: chr Some option.map option.case j test if_True)
      show ?thesis
      proof (cases "?O ?j")
        case False
        have "strstr_loop m q (of_nat (length needle)) (p + of_nat B) (p + of_nat (Suc ?j)) =
            Some (map_option (\<lambda>j. p + of_nat j) (find ?O [Suc ?j..<B]))"
          by (rule less.hyps) (use t(1) True in auto)
        moreover have "find ?O [?j..<B] = find ?O [Suc ?j..<B]" using False by (subst find_upt_start) auto
        moreover have "p + of_nat (Suc ?j) = p + of_nat ?j + 1" by (simp add: add.assoc add.commute)
        ultimately show ?thesis using False step find by (simp only: if_False)
      next
        case True
        then have "find ?O [?j..<B] = Some ?j" using t(1) by (subst find_upt_start) simp
        then show ?thesis using True step find by simp
      qed
    qed
  qed
qed

lemma occurs_list:
  assumes "c_string m p s" "i + length needle \<le> length s"
  shows "occurs m needle (p + of_nat i) \<longleftrightarrow> take (length needle) (drop i s) = needle"
proof -
  have "m (p + of_nat i + of_nat t) = take (length needle) (drop i s) ! t" if "t < length needle" for t
    using c_string_nth [OF assms(1), of "i + t"] that assms(2) by (simp add: add.assoc)
  moreover have "length (take (length needle) (drop i s)) = length needle" using assms(2) by simp
  ultimately show ?thesis unfolding occurs_def by (metis nth_equalityI)
qed

text \<open>The first position at which a list contains another one.\<close>

definition first_match :: "'a list \<Rightarrow> 'a list \<Rightarrow> nat option" where
  "first_match s needle =
     find (\<lambda>i. take (length needle) (drop i s) = needle) [0..<Suc (length s) - length needle]"

lemma strstr_ok:
  assumes h: "c_string m p s" and n: "c_string m q needle" and fit: "unat p + length s < 2 ^ 64 - 1"
  shows "strstr m p q = Some (map_option (\<lambda>i. p + of_nat i) (first_match s needle))"
proof (cases "needle = []")
  case True
  have "first_match s [] = Some 0" unfolding first_match_def by (subst find_upt_start) simp
  then show ?thesis using strlen_c_string [OF n] True by (simp add: strstr_def)
next
  case False
  have l: "length s < 2 ^ 63" "length needle < 2 ^ 63" using h n by (simp_all add: c_string_def)
  then have u: "unat (of_nat (length s) :: u64) = length s" "unat (of_nat (length needle) :: u64) = length needle"
    by (simp_all add: unat_of_nat take_bit_nat_eq_self)
  have nz: "(of_nat (length needle) :: u64) \<noteq> 0" using u(2) False by (auto simp: unat_eq_0 [symmetric])
  show ?thesis
  proof (cases "length s < length needle")
    case True
    then show ?thesis
      using strlen_c_string [OF h] strlen_c_string [OF n] nz u by (simp add: strstr_def first_match_def word_less_nat_alt)
  next
    case ge: False
    let ?B = "Suc (length s) - length needle"
    have e: "of_nat (length s) - of_nat (length needle) + 1 = (of_nat ?B :: u64)"
      using ge by (simp add: of_nat_diff Suc_diff_le)
    have B: "unat p + ?B < 2 ^ 64" using fit False by (cases needle) auto
    have "find (\<lambda>j. occurs m needle (p + of_nat j)) [0..<?B] = first_match s needle"
      unfolding first_match_def using ge by (intro find_cong) (auto simp: occurs_list [OF h])
    then have "strstr_loop m q (of_nat (length needle)) (p + of_nat ?B) p =
        Some (map_option (\<lambda>i. p + of_nat i) (first_match s needle))"
      using strstr_loop_ok [OF n False B, of 0] by simp
    then show ?thesis
      using strlen_c_string [OF h] strlen_c_string [OF n] nz u ge
      by (simp only: strstr_def bind.bind_lunit nz if_False word_less_nat_alt u e)
  qed
qed

subsection \<open>Tokens\<close>

text \<open>The runs of bytes outside a set, in order.\<close>

function tokens :: "'a set \<Rightarrow> 'a list \<Rightarrow> 'a list list" where
  "tokens D s =
     (let t = dropWhile (\<lambda>b. b \<in> D) s in
      if t = [] then []
      else takeWhile (\<lambda>b. b \<notin> D) t # tokens D (drop 1 (dropWhile (\<lambda>b. b \<notin> D) t)))"
  by pat_completeness auto
termination
proof (relation "measure (\<lambda>(D, s). length s)", goal_cases)
  case (2 D s t)
  then have "length t \<le> length s" "t \<noteq> []" by (auto simp: length_dropWhile_le)
  moreover have "length (dropWhile (\<lambda>b. b \<notin> D) t) \<le> length t" by (rule length_dropWhile_le)
  ultimately show ?case by (cases t) auto
qed simp

declare tokens.simps [simp del]

text \<open>The calls of a client: the string first, then null until null is returned.\<close>

inductive strtok_calls :: "addr \<Rightarrow> ptr \<Rightarrow> ptr \<Rightarrow> mem \<Rightarrow> addr list \<Rightarrow> mem \<Rightarrow> bool" where
  last_call: "strtok_r str delim saveptr m = Some (None, saveptr', m') \<Longrightarrow> strtok_calls delim str saveptr m [] m'"
| next_call: "strtok_r str delim saveptr m = Some (Some token, saveptr', m') \<Longrightarrow>
    strtok_calls delim None saveptr' m' ts m'' \<Longrightarrow> strtok_calls delim str saveptr m (token # ts) m''"

lemma in_range: "i < 2 ^ 64 \<Longrightarrow> p + of_nat i \<in> range_of p n \<longleftrightarrow> i < n" for p :: addr
  by (simp add: range_of_def unat_of_nat take_bit_nat_eq_self)

lemma in_range_shift:
  fixes x p :: addr
  assumes "a + n < 2 ^ 64"
  shows "x \<in> range_of (p + of_nat a) n \<longleftrightarrow> a \<le> unat (x - p) \<and> unat (x - p) < a + n"
proof -
  have "unat (of_nat a :: addr) = a" using assms by (simp add: unat_of_nat take_bit_nat_eq_self)
  then show ?thesis using window_iff [of "of_nat a" n x p] assms by simp
qed

lemma c_string_frame:
  assumes "c_string m p s" "\<And>x. x \<in> range_of p (Suc (length s)) \<Longrightarrow> m' x = m x"
  shows "c_string m' p s"
proof -
  have "text_at m' p (s @ [0])"
  proof (rule text_at_same)
    fix i assume i: "i < length (s @ [0])"
    then have "i < 2 ^ 64" using assms(1) by (simp add: c_string_def)
    then show "m' (p + of_nat i) = m (p + of_nat i)" using i by (intro assms(2)) (simp add: in_range)
  qed (use assms(1) in \<open>simp add: c_string_def\<close>)
  then show ?thesis using assms(1) by (simp add: c_string_def)
qed

lemma strspn_ok: "c_string m p s \<Longrightarrow> c_string m q ds \<Longrightarrow> strspn m p q = Some (of_nat (length (takeWhile (\<lambda>b. b \<in> set ds) s)))"
  using span_ok [of m p s q ds True] by (simp add: strspn_def)

lemma strtok_none:
  assumes s: "c_string m p s" and d: "c_string m q ds" and a: "(if str = None then saveptr else str) = Some p"
    and e: "dropWhile (\<lambda>b. b \<in> set ds) s = []"
  shows "strtok_r str q saveptr m = Some (None, None, m)"
proof -
  have "takeWhile (\<lambda>b. b \<in> set ds) s = s" using e by (metis append_Nil2 takeWhile_dropWhile_id)
  then have "strspn m p q = Some (of_nat (length s))" using strspn_ok [OF s d] by (simp only:)
  then show ?thesis using a c_string_end [OF s] by (simp add: strtok_r_def)
qed

lemma strtok_some:
  assumes s: "c_string m p s" and d: "c_string m q ds" and a: "(if str = None then saveptr else str) = Some p"
  defines "t \<equiv> dropWhile (\<lambda>b. b \<in> set ds) s" and "k \<equiv> length (takeWhile (\<lambda>b. b \<in> set ds) s)"
  defines "w \<equiv> takeWhile (\<lambda>b. b \<notin> set ds) t"
  assumes ne: "t \<noteq> []"
  shows "strtok_r str q saveptr m = Some
    (if \<exists>b\<in>set t. b \<in> set ds then (Some (p + of_nat k), Some (p + of_nat (k + length w + 1)), m(p + of_nat (k + length w) := 0))
     else (Some (p + of_nat k), None, m))"
proof -
  have "s = takeWhile (\<lambda>b. b \<in> set ds) s @ t" by (simp add: t_def)
  then have st: "c_string m (p + of_nat k) t" using s c_string_suffix [of m p _ t] unfolding k_def by metis
  have "m (p + of_nat k) = hd t" "hd t \<in> set t" using c_string_nth [OF st, of 0] ne by (simp_all add: hd_conv_nth)
  then have nz: "m (p + of_nat k) \<noteq> 0" using st by (auto simp: c_string_def)
  have br: "strpbrk m (p + of_nat k) q = Some (if \<exists>b\<in>set t. b \<in> set ds then Some (p + of_nat k + of_nat (length w)) else None)"
    unfolding w_def by (rule strpbrk_ok [OF st d])
  have at: "p + of_nat k + of_nat (length w) = p + of_nat (k + length w)"
    "p + of_nat (k + length w) + 1 = p + of_nat (k + length w + 1)" by (simp_all add: algebra_simps)
  show ?thesis
    using a strspn_ok [OF s d] nz
    by (simp add: strtok_r_def k_def [symmetric] br at)
qed

lemma tokens_step:
  assumes "dropWhile (\<lambda>b. b \<in> D) s = t" "t \<noteq> []"
  shows "tokens D s = takeWhile (\<lambda>b. b \<notin> D) t # tokens D (drop 1 (dropWhile (\<lambda>b. b \<notin> D) t))"
  using assms by (subst tokens.simps) (simp add: Let_def)

lemma tokens_Nil [simp]: "tokens D [] = []"
  by (subst tokens.simps) simp

lemma of_nat_u64_eq: "i < 2 ^ 63 \<Longrightarrow> n < 2 ^ 63 \<Longrightarrow> of_nat i = (of_nat n :: u64) \<longleftrightarrow> i = n"
  by (simp only: word_unat_eq_iff) (simp add: unat_of_nat take_bit_nat_eq_self)

lemma split_token:
  assumes "c_string m p s" "s = pre @ w @ b # r"
  defines "x \<equiv> p + of_nat (length pre + length w)"
  shows "c_string (m(x := 0)) (p + of_nat (length pre)) w" "c_string (m(x := 0)) (p + of_nat (length pre + length w + 1)) r"
    "x \<in> range_of p (Suc (length s))"
    "range_of (p + of_nat (length pre + length w + 1)) (Suc (length r)) \<subseteq> range_of p (Suc (length s))"
    "range_of (p + of_nat (length pre)) (Suc (length w)) \<inter> range_of (p + of_nat (length pre + length w + 1)) (Suc (length r)) = {}"
proof -
  let ?n = "length pre + length w"
  have len: "length s = ?n + 1 + length r" "length s < 2 ^ 63" using assms(1,2) by (auto simp: c_string_def)
  have at: "p + of_nat i = x \<longleftrightarrow> i = ?n" if "i < 2 ^ 63" for i
    using of_nat_u64_eq [OF that, of ?n] len unfolding x_def by (simp del: of_nat_add)
  have tail: "text_at m p (pre @ w @ b # r @ [0])" "0 \<notin> set w" "0 \<notin> set r"
    using assms(1) unfolding c_string_def assms(2) by simp_all
  have "text_at (m(x := 0)) (p + of_nat (length pre)) w"
  proof (rule text_at_same)
    fix i assume "i < length w"
    then have "p + of_nat (length pre + i) \<noteq> x" using at [of "length pre + i"] len by simp
    then show "(m(x := 0)) (p + of_nat (length pre) + of_nat i) = m (p + of_nat (length pre) + of_nat i)"
      by (simp add: add.assoc)
  qed (use tail in simp)
  moreover have "p + of_nat (length pre) + of_nat (length w) = x" by (simp add: x_def add.assoc)
  ultimately show "c_string (m(x := 0)) (p + of_nat (length pre)) w"
    using len tail by (simp add: c_string_def)
  have "text_at m (p + of_nat (?n + 1)) (r @ [0])" using tail(1) by (simp add: algebra_simps)
  then have "text_at (m(x := 0)) (p + of_nat (?n + 1)) (r @ [0])"
  proof (rule text_at_same)
    fix i assume "i < length (r @ [0])"
    then have "p + of_nat (?n + 1 + i) \<noteq> x" using at [of "?n + 1 + i"] len by simp
    moreover have "p + of_nat (?n + 1) + of_nat i = p + of_nat (?n + 1 + i)" by (simp add: algebra_simps)
    ultimately show "(m(x := 0)) (p + of_nat (?n + 1) + of_nat i) = m (p + of_nat (?n + 1) + of_nat i)"
      by (simp only: fun_upd_apply if_False)
  qed
  then show "c_string (m(x := 0)) (p + of_nat (?n + 1)) r" using len tail by (simp add: c_string_def)
  show "x \<in> range_of p (Suc (length s))" using in_range [of ?n p "Suc (length s)"] len by (simp add: x_def)
  have up: "y \<in> range_of (p + of_nat (?n + 1)) (Suc (length r)) \<longleftrightarrow> ?n + 1 \<le> unat (y - p) \<and> unat (y - p) < ?n + 1 + Suc (length r)" for y
    by (rule in_range_shift) (use len in simp)
  show "range_of (p + of_nat (?n + 1)) (Suc (length r)) \<subseteq> range_of p (Suc (length s))"
    using up len by (auto simp: range_of_def)
  have "y \<in> range_of (p + of_nat (length pre)) (Suc (length w)) \<longleftrightarrow> length pre \<le> unat (y - p) \<and> unat (y - p) < length pre + Suc (length w)" for y
    by (rule in_range_shift) (use len in simp)
  then show "range_of (p + of_nat (length pre)) (Suc (length w)) \<inter> range_of (p + of_nat (?n + 1)) (Suc (length r)) = {}"
    using up by fastforce
qed

lemma strtok_calls_ok:
  "c_string m p s \<Longrightarrow> c_string m q ds \<Longrightarrow> range_of p (Suc (length s)) \<inter> range_of q (Suc (length ds)) = {} \<Longrightarrow>
   (if str = None then saveptr else str) = Some p \<Longrightarrow>
   \<exists>ts m'. strtok_calls q str saveptr m ts m' \<and> list_all2 (c_string m') ts (tokens (set ds) s) \<and>
     (\<forall>x. x \<notin> range_of p (Suc (length s)) \<longrightarrow> m' x = m x)"
proof (induction "length s" arbitrary: s m p str saveptr rule: less_induct)
  case less
  note s = less.prems(1) and d = less.prems(2) and dis = less.prems(3) and a = less.prems(4)
  let ?D = "set ds"
  obtain t pre w where t_def: "t = dropWhile (\<lambda>b. b \<in> ?D) s" and pre_def: "pre = takeWhile (\<lambda>b. b \<in> ?D) s"
    and w_def: "w = takeWhile (\<lambda>b. b \<notin> ?D) t" by simp
  let ?t = t and ?pre = pre and ?w = w
  have s_split: "s = pre @ t" by (simp add: t_def pre_def)
  show ?case
  proof (cases "?t = []")
    case True
    then have "tokens ?D s = []" using t_def by (subst tokens.simps) simp
    then show ?thesis using last_call [OF strtok_none [OF s d a True [unfolded t_def]]] by auto
  next
    case ne: False
    note step = strtok_some [OF s d a ne [unfolded t_def], folded t_def pre_def, folded w_def]
    show ?thesis
    proof (cases "\<exists>b\<in>set ?t. b \<in> ?D")
      case False
      then have w: "?w = ?t" "dropWhile (\<lambda>b. b \<notin> ?D) ?t = []" by (auto simp: w_def)
      have "c_string m (p + of_nat (length ?pre)) ?t" using c_string_suffix [of m p ?pre ?t] s s_split by simp
      moreover have "strtok_calls q None None m [] m" by (rule last_call [of _ _ _ _ None]) (simp add: strtok_r_def)
      then have "strtok_calls q str saveptr m [p + of_nat (length ?pre)] m"
        using step False by (intro next_call [of _ _ _ _ _ None m]) (simp_all only: if_False)
      moreover have "tokens ?D s = [?t]"
        unfolding tokens_step [OF t_def [symmetric] ne] w_def [symmetric] w by simp
      ultimately show ?thesis
        by (intro exI [of _ "[p + of_nat (length ?pre)]"] exI [of _ m]) simp
    next
      case True
      then obtain b r where br: "dropWhile (\<lambda>b. b \<notin> ?D) ?t = b # r"
        by (cases "dropWhile (\<lambda>b. b \<notin> ?D) ?t") auto
      have "?t = ?w @ b # r" using takeWhile_dropWhile_id [of "\<lambda>b. b \<notin> ?D" ?t] br by (simp add: w_def)
      then have sp: "s = ?pre @ ?w @ b # r" using s_split by simp
      let ?x = "p + of_nat (length ?pre + length ?w)" and ?r = "p + of_nat (length ?pre + length ?w + 1)"
      let ?m = "m(?x := 0)"
      note sl = split_token [OF s sp]
      have d': "c_string ?m q ds"
        by (rule c_string_frame [OF d]) (use sl(3) dis in auto)
      have "length s = length ?pre + length ?w + Suc (length r)" using arg_cong [OF sp, of length] by simp
      then have "length r < length s" by simp
      then obtain ts m' where ih: "strtok_calls q None (Some ?r) ?m ts m'" "list_all2 (c_string m') ts (tokens ?D r)"
        "\<And>x. x \<notin> range_of ?r (Suc (length r)) \<Longrightarrow> m' x = ?m x"
        using less.hyps [OF _ sl(2) d', of None "Some ?r"] sl(4) dis by auto
      have "strtok_calls q str saveptr m ((p + of_nat (length ?pre)) # ts) m'"
        using step True ih(1) by (intro next_call [of _ _ _ _ _ "Some ?r" ?m]) simp_all
      moreover have "c_string m' (p + of_nat (length ?pre)) ?w"
        by (rule c_string_frame [OF sl(1)], rule ih(3)) (use sl(5) in blast)
      moreover have "tokens ?D s = ?w # tokens ?D r" using tokens_step [OF t_def [symmetric] ne] br by (simp add: w_def)
      moreover have "m' x = m x" if "x \<notin> range_of p (Suc (length s))" for x
      proof -
        have x: "x \<notin> range_of ?r (Suc (length r))" "x \<noteq> ?x" using sl(3,4) that by blast+
        then show ?thesis using ih(3) [OF x(1)] by (simp only: fun_upd_apply if_False)
      qed
      ultimately show ?thesis using ih(2) by (intro exI [of _ "(p + of_nat (length ?pre)) # ts"] exI [of _ m']) simp
    qed
  qed
qed

subsection \<open>Copying strings\<close>

lemma copied_text:
  assumes "text_at m q bs" "length bs < 2 ^ 64" "apart p q (length bs)"
  shows "text_at (copied p q (range_of p (length bs)) m) p bs"
  unfolding text_at_def
proof (intro allI impI)
  fix i assume i: "i < length bs"
  then have "p + of_nat i \<in> range_of p (length bs)" using assms(2) by (simp add: in_range)
  then show "copied p q (range_of p (length bs)) m (p + of_nat i) = bs ! i"
    using i assms(1) by (simp add: copied_def text_at_def)
qed

lemma unat_length: "c_string m p s \<Longrightarrow> unat (of_nat (length s) :: u64) = length s"
  by (simp add: c_string_def unat_of_nat take_bit_nat_eq_self)

lemma strcpy_eq:
  assumes "c_string m q s" "apart p q (Suc (length s))"
  shows "strcpy p q m = Some (copied p q (range_of p (Suc (length s))) m)"
proof -
  have u: "unat (of_nat (length s) + 1 :: u64) = Suc (length s)"
    using assms(1) unat_length [OF assms(1)] by (simp add: c_string_def unat_word_ariths)
  then show ?thesis
    using strlen_c_string [OF assms(1)] memcpy_copied [of p q "of_nat (length s) + 1" m] assms(2)
    by (simp add: strcpy_def)
qed

lemma strcat_eq: "c_string m p s \<Longrightarrow> strcat p q m = strcpy (p + of_nat (length s)) q m"
  by (simp add: strcat_def strcpy_def strlen_c_string)

lemma c_string_append:
  assumes "c_string m p t" "\<And>x. x \<in> range_of p (length t) \<Longrightarrow> m' x = m x"
    "text_at m' (p + of_nat (length t)) (s @ [0])" "0 \<notin> set s" "length t + length s < 2 ^ 63"
  shows "c_string m' p (t @ s)"
proof -
  have "text_at m' p t"
  proof (rule text_at_same [of m])
    fix i assume "i < length t"
    then show "m' (p + of_nat i) = m (p + of_nat i)" using assms(5) by (intro assms(2)) (simp add: in_range)
  qed (use assms(1) in \<open>simp add: c_string_def\<close>)
  then show ?thesis using assms(1,3-5) by (auto simp: c_string_def add.assoc)
qed

lemma below_tail:
  assumes "k + l < 2 ^ 64" "x \<in> range_of p k"
  shows "x \<notin> range_of (p + of_nat k) l"
  using assms in_range_shift [OF assms(1), of x p] by (simp add: range_of_def)

lemma apart_le:
  assumes "apart p q n" "k \<le> n"
  shows "apart p q k"
proof -
  have "range_of a k \<subseteq> range_of a n" for a using assms(2) by (auto simp: range_of_def)
  then show ?thesis using assms(1) unfolding apart_def by fast
qed

lemma strncat_eq:
  assumes t: "c_string m p t" and s: "c_string m q s" and fit: "length t + length s < 2 ^ 63"
    and ap: "apart (p + of_nat (length t)) q (Suc (length s))"
  shows "\<exists>m'. strncat p q n m = Some m' \<and> c_string m' p (t @ take (unat n) s)"
proof (cases "n = 0")
  case False
  let ?k = "min (unat n) (length s)" and ?p = "p + of_nat (length t)"
  have k: "unat (of_nat ?k :: u64) = ?k" using fit by (simp add: unat_of_nat take_bit_nat_eq_self)
  let ?m = "(copied ?p q (range_of ?p ?k) m)(?p + of_nat ?k := 0)"
  have cp: "memcpy ?p q (of_nat ?k) m = copied ?p q (range_of ?p ?k) m"
    using memcpy_copied [of ?p q "of_nat ?k" m] apart_le [OF ap, of ?k] unfolding k by simp
  have at: "p + (of_nat (length t) + of_nat ?k) = ?p + of_nat ?k" by (simp only: add.assoc)
  have cat: "strncat p q n m = Some ?m"
    using False strlen_c_string [OF t] strnlen_c_string [OF s, of n]
    by (simp only: strncat_def if_False bind.bind_lunit cp at)
  have lt: "length (take ?k s) = ?k" by simp
  have tq: "text_at m q (take ?k s)"
    using s unfolding c_string_def by (metis append.assoc append_take_drop_id text_at_append)
  have "text_at (copied ?p q (range_of ?p ?k) m) ?p (take ?k s)"
    using copied_text [OF tq, of ?p] fit apart_le [OF ap, of ?k] unfolding lt by simp
  then have tx: "text_at ?m ?p (take ?k s)"
  proof (rule text_at_same)
    fix i assume i: "i < length (take ?k s)"
    then have "i < ?k" "?k < 2 ^ 63" using fit by simp_all
    then have "of_nat i \<noteq> (of_nat ?k :: u64)" using of_nat_u64_eq [of i ?k] by linarith
    then have "?p + of_nat i \<noteq> ?p + of_nat ?k" by simp
    then show "?m (?p + of_nat i) = copied ?p q (range_of ?p ?k) m (?p + of_nat i)" by (simp only: fun_upd_apply if_False)
  qed
  have frame: "?m x = m x" if "x \<in> range_of p (length t)" for x
  proof -
    have out: "x \<notin> range_of ?p (Suc ?k)" by (rule below_tail [OF _ that]) (use fit in simp)
    have "?p + of_nat ?k \<in> range_of ?p (Suc ?k)" using in_range [of ?k ?p "Suc ?k"] fit by simp
    then have "x \<noteq> ?p + of_nat ?k" using out by blast
    moreover have "x \<notin> range_of ?p ?k" using out unfolding range_of_def mem_Collect_eq by linarith
    ultimately show ?thesis by (simp add: copied_def)
  qed
  have tx0: "text_at ?m ?p (take ?k s @ [0])" using tx unfolding text_at_append lt by simp
  have "c_string ?m p (t @ take ?k s)"
  proof (rule c_string_append [OF t _ tx0])
    show "?m x = m x" if "x \<in> range_of p (length t)" for x by (rule frame [OF that])
  qed (use s fit in \<open>auto simp: c_string_def dest: in_set_takeD\<close>)
  moreover have "take ?k s = take (unat n) s" by (simp add: min_def)
  ultimately show ?thesis using cat by simp
qed (use t in \<open>simp add: strncat_def\<close>)

lemma strncpy_eq:
  assumes s: "c_string m q s" and ap: "apart p q (Suc (length s))"
  shows "\<exists>m'. strncpy p q n m = Some m' \<and> text_at m' p (take (unat n) s @ replicate (unat n - length s) 0) \<and>
    (\<forall>x. x \<notin> range_of p (unat n) \<longrightarrow> m' x = m x)"
proof (cases "n = 0")
  case False
  let ?n = "unat n"
  let ?k = "min ?n (length s)"
  have fit: "length s < 2 ^ 63" "?n < 2 ^ 64" using s unat_bound [of n] by (simp_all add: c_string_def)
  have k: "unat (of_nat ?k :: u64) = ?k" using fit by (simp add: unat_of_nat take_bit_nat_eq_self)
  let ?c = "copied p q (range_of p ?k) m"
  have cp: "memcpy p q (of_nat ?k) m = ?c"
    using memcpy_copied [of p q "of_nat ?k" m] apart_le [OF ap, of ?k] unfolding k by simp
  let ?m = "filled (range_of (p + of_nat ?k) (?n - ?k)) 0 ?c"
  have lt: "of_nat ?k < n \<longleftrightarrow> ?k < ?n" by (simp add: word_less_nat_alt k)
  have sub: "unat (n - of_nat ?k) = ?n - ?k" if "?k < ?n"
    using unat_sub [of "of_nat ?k" n] that k by (simp add: word_le_nat_alt)
  have none: "?m = ?c" if "\<not> ?k < ?n" using that by (simp add: filled_def range_of_def)
  have "strncpy p q n m = Some (if ?k < ?n then memset (p + of_nat ?k) 0 (n - of_nat ?k) ?c else ?c)"
    using False strnlen_c_string [OF s, of n] by (simp only: strncpy_def if_False bind.bind_lunit Let_def cp lt)
  also have "\<dots> = Some ?m" using sub none by (simp only: memset_filled of_int_0 split: if_split) simp
  finally have cpy: "strncpy p q n m = Some ?m" .
  have up: "x \<in> range_of (p + of_nat ?k) (?n - ?k) \<longleftrightarrow> ?k \<le> unat (x - p) \<and> unat (x - p) < ?n" for x
    using in_range_shift [of ?k "?n - ?k" x p] fit by simp
  have "text_at ?m p (take ?n s @ replicate (?n - length s) 0)"
    unfolding text_at_def
  proof (intro allI impI)
    fix i assume "i < length (take ?n s @ replicate (?n - length s) 0)"
    then have i: "i < ?n" by simp
    have ui: "unat (p + of_nat i - p) = i" using i fit by (simp add: unat_of_nat take_bit_nat_eq_self)
    show "?m (p + of_nat i) = (take ?n s @ replicate (?n - length s) 0) ! i"
    proof (cases "i < ?k")
      case True
      then have "p + of_nat i \<notin> range_of (p + of_nat ?k) (?n - ?k)" "p + of_nat i \<in> range_of p ?k"
        using up ui by (simp_all add: range_of_def min_def split: if_splits)
      then show ?thesis using True c_string_nth [OF s, of i] by (simp add: filled_def copied_def nth_append)
    next
      case False
      then have "p + of_nat i \<in> range_of (p + of_nat ?k) (?n - ?k)" using up ui i by simp
      then show ?thesis using False i by (simp add: filled_def nth_append)
    qed
  qed
  moreover have "?m x = m x" if "x \<notin> range_of p ?n" for x
    using that up [of x] by (auto simp: filled_def copied_def range_of_def)
  ultimately show ?thesis using cpy by blast
qed (simp add: strncpy_def)

subsection \<open>Properties\<close>

text \<open>C21:
  \<^verbatim>\<open>strcpy\<close>, \<^verbatim>\<open>strncpy\<close>, \<^verbatim>\<open>strcat\<close> and \<^verbatim>\<open>strncat\<close> between ranges that do not overlap return: the destination is
  then the source string, its first bytes padded with zeros to the given length, the two strings one
  after the other, and the first string followed by at most the given number of bytes of the second.
\<close>

theorem string_copies:
  assumes "c_string m p t" "c_string m q s" "length t + length s < 2 ^ 63"
    "apart p q (Suc (length s))" "apart (p + of_nat (length t)) q (Suc (length s))"
  shows "(\<exists>m'. strcpy p q m = Some m' \<and> c_string m' p s \<and> (\<forall>x. x \<notin> range_of p (Suc (length s)) \<longrightarrow> m' x = m x)) \<and>
    (\<exists>m'. strncpy p q n m = Some m' \<and> text_at m' p (take (unat n) s @ replicate (unat n - length s) 0) \<and>
       (\<forall>x. x \<notin> range_of p (unat n) \<longrightarrow> m' x = m x)) \<and>
    (\<exists>m'. strcat p q m = Some m' \<and> c_string m' p (t @ s)) \<and>
    (\<exists>m'. strncat p q n m = Some m' \<and> c_string m' p (t @ take (unat n) s))"
proof -
  have src: "text_at m q (s @ [0])" "0 \<notin> set s" "length (s @ [0]) < 2 ^ 64" "length (s @ [0]) = Suc (length s)"
    using assms(2) by (simp_all add: c_string_def)
  have cpy: "\<exists>m'. strcpy d q m = Some m' \<and> text_at m' d (s @ [0]) \<and> (\<forall>x. x \<notin> range_of d (Suc (length s)) \<longrightarrow> m' x = m x)"
    if "apart d q (Suc (length s))" for d
    using strcpy_eq [OF assms(2) that] copied_text [OF src(1,3), of d] that unfolding src(4)
    by (simp add: copied_def)
  have 1: "\<exists>m'. strcpy p q m = Some m' \<and> c_string m' p s \<and> (\<forall>x. x \<notin> range_of p (Suc (length s)) \<longrightarrow> m' x = m x)"
    using cpy [OF assms(4)] assms(2) by (auto simp: c_string_def)
  obtain m' where m': "strcpy (p + of_nat (length t)) q m = Some m'" "text_at m' (p + of_nat (length t)) (s @ [0])"
    "\<forall>x. x \<notin> range_of (p + of_nat (length t)) (Suc (length s)) \<longrightarrow> m' x = m x"
    using cpy [OF assms(5)] by blast
  have "c_string m' p (t @ s)"
  proof (rule c_string_append [OF assms(1) _ m'(2) src(2) assms(3)])
    fix x assume "x \<in> range_of p (length t)"
    then have "x \<notin> range_of (p + of_nat (length t)) (Suc (length s))"
      by (rule below_tail [rotated]) (use assms(3) in simp)
    then show "m' x = m x" using m'(3) by blast
  qed
  then have "\<exists>m'. strcat p q m = Some m' \<and> c_string m' p (t @ s)" using m'(1) strcat_eq [OF assms(1)] by simp
  then show ?thesis using 1 strncpy_eq [OF assms(2,4)] strncat_eq [OF assms(1-3,5)] by blast
qed

definition demo_text :: mem where
  "demo_text = (\<lambda>a. if a = 0x100 then 0x61 else if a = 0x200 then 0x62 else if a = 0x201 then 0x2C else if a = 0x202 then 0x63 else 0)"

lemma demo_strings: "c_string demo_text 0x100 [0x61]" "c_string demo_text 0x200 [0x62, 0x2C, 0x63]" "c_string demo_text 0x201 [0x2C, 0x63]"
  by (simp_all add: c_string_def demo_text_def)

lemma range_of_4: "range_of d 4 = {d, d + 1, d + 2, d + 3}"
proof -
  have "range_of x 1 = {x}" for x by (auto simp: range_of_def unat_eq_0)
  moreover have "d + 1 + 1 = d + 2" "d + 2 + 1 = d + 3" by simp_all
  moreover have "Suc 3 = 4" "Suc 2 = 3" "Suc 1 = 2" by simp_all
  ultimately show ?thesis
    using range_of_Suc(1) [of 3 d] range_of_Suc(1) [of 2 "d + 1"] range_of_Suc(1) [of 1 "d + 2"] by (simp only:) simp
qed

lemma demo_apart: "apart 0x100 0x200 4" "apart 0x101 0x200 4"
  by (simp_all add: apart_def range_of_4)

theorem string_copies_witness:
  "c_string demo_text 0x100 [0x61] \<and> c_string demo_text 0x200 [0x62, 0x2C, 0x63] \<and>
   apart 0x100 0x200 4 \<and> apart 0x101 0x200 4 \<and>
   (\<exists>m'. strcpy 0x100 0x200 demo_text = Some m' \<and> c_string m' 0x100 [0x62, 0x2C, 0x63]) \<and>
   (\<exists>m'. strncpy 0x100 0x200 5 demo_text = Some m' \<and> text_at m' 0x100 [0x62, 0x2C, 0x63, 0, 0]) \<and>
   (\<exists>m'. strcat 0x100 0x200 demo_text = Some m' \<and> c_string m' 0x100 [0x61, 0x62, 0x2C, 0x63]) \<and>
   (\<exists>m'. strncat 0x100 0x200 5 demo_text = Some m' \<and> c_string m' 0x100 [0x61, 0x62, 0x2C, 0x63])"
proof -
  have a: "apart 0x100 0x200 (Suc (length [0x62, 0x2C, 0x63 :: u8]))"
    "apart (0x100 + of_nat (length [0x61 :: u8])) 0x200 (Suc (length [0x62, 0x2C, 0x63 :: u8]))"
    using demo_apart by (simp_all add: eval_nat_numeral)
  have n: "unat (5 :: u64) = 5" "replicate 2 (0 :: u8) = [0, 0]" by (simp, simp add: numeral_2_eq_2)
  from string_copies [OF demo_strings(1,2) _ a, of 5] show ?thesis
    using demo_strings demo_apart by (simp add: n) blast
qed

text \<open>C22:
  The searches on strings: \<^verbatim>\<open>strspn\<close> and \<^verbatim>\<open>strcspn\<close> return the length of the longest prefix inside and
  outside a set of characters, \<^verbatim>\<open>strpbrk\<close> the first character from the set, and \<^verbatim>\<open>strstr\<close> the first place
  where the string contains the other one; where there is none, the result is null.
\<close>

theorem string_searches:
  assumes "c_string m p s" "c_string m q t"
  shows "strspn m p q = Some (of_nat (length (takeWhile (\<lambda>b. b \<in> set t) s))) \<and>
    strcspn m p q = Some (of_nat (length (takeWhile (\<lambda>b. b \<notin> set t) s))) \<and>
    strpbrk m p q = Some (map_option (\<lambda>i. p + of_nat i) (find (\<lambda>i. s ! i \<in> set t) [0..<length s])) \<and>
    (unat p + length s < 2 ^ 64 - 1 \<longrightarrow>
       strstr m p q = Some (map_option (\<lambda>i. p + of_nat i)
         (find (\<lambda>i. take (length t) (drop i s) = t) [0..<Suc (length s) - length t])))"
proof -
  have "(if \<exists>b\<in>set s. b \<in> set t then Some (length (takeWhile (\<lambda>b. b \<notin> set t) s)) else None) =
      find (\<lambda>i. s ! i \<in> set t) [0..<length s]"
  proof (induction s)
    case (Cons a s)
    have up: "[0..<length (a # s)] = 0 # map Suc [0..<length s]" by (simp add: map_Suc_upt upt_conv_Cons del: upt_Suc)
    have fm: "find P (map Suc xs) = map_option Suc (find (P \<circ> Suc) xs)" for P xs by (induction xs) auto
    show ?case unfolding up using Cons [symmetric] by (auto simp: fm comp_def split: if_splits)
  qed simp
  note found = this [symmetric]
  have "strpbrk m p q = Some (map_option (\<lambda>i. p + of_nat i) (find (\<lambda>i. s ! i \<in> set t) [0..<length s]))"
    unfolding found using strpbrk_ok [OF assms] by simp
  then show ?thesis
    using span_ok [OF assms, of True] span_ok [OF assms, of False] strstr_ok [OF assms]
    by (simp add: strspn_def strcspn_def first_match_def)
qed

theorem string_searches_witness:
  "c_string demo_text 0x200 [0x62, 0x2C, 0x63] \<and> c_string demo_text 0x201 [0x2C, 0x63] \<and>
   strspn demo_text 0x200 0x201 = Some 0 \<and> strcspn demo_text 0x200 0x201 = Some 1 \<and>
   strpbrk demo_text 0x200 0x201 = Some (Some 0x201) \<and> strstr demo_text 0x200 0x201 = Some (Some 0x201)"
  using string_searches [OF demo_strings(2,3)] demo_strings by (simp add: upt_rec)

text \<open>C23:
  A client that calls \<^verbatim>\<open>strtok_r\<close> with a string and then with null until null is returned gets, in order,
  exactly the maximal runs of characters that are not delimiters, each as a string of its own, and no
  byte outside the string has changed.  Every call returns.
\<close>

theorem strtok_tokens:
  assumes "c_string m p s" "c_string m delim ds" "range_of p (Suc (length s)) \<inter> range_of delim (Suc (length ds)) = {}"
  shows "\<exists>ts m'. strtok_calls delim (Some p) saveptr m ts m' \<and> list_all2 (c_string m') ts (tokens (set ds) s) \<and>
    (\<forall>x. x \<notin> range_of p (Suc (length s)) \<longrightarrow> m' x = m x)"
  using strtok_calls_ok [OF assms, of "Some p" saveptr] by simp

theorem strtok_tokens_witness:
  "c_string demo_text 0x200 [0x62, 0x2C, 0x63] \<and> c_string demo_text 0x100 [0x61] \<and>
   range_of 0x200 (Suc (length [0x62, 0x2C, 0x63 :: u8])) \<inter> range_of 0x100 (Suc (length [0x61 :: u8])) = {} \<and>
   (\<exists>t m'. strtok_calls 0x100 (Some 0x200) None demo_text [t] m' \<and> c_string m' t [0x62, 0x2C, 0x63])"
proof -
  have d: "range_of 0x200 (Suc (length [0x62, 0x2C, 0x63 :: u8])) \<inter> range_of 0x100 (Suc (length [0x61 :: u8])) = {}"
  proof -
    have "range_of 0x100 2 \<subseteq> range_of 0x100 4" by (auto simp: range_of_def)
    moreover have "Suc (length [0x62, 0x2C, 0x63 :: u8]) = 4" "Suc (length [0x61 :: u8]) = 2" by simp_all
    ultimately show ?thesis using demo_apart(1) unfolding apart_def by (simp only:) blast
  qed
  have "tokens (set [0x61]) [0x62, 0x2C, 0x63 :: u8] = [[0x62, 0x2C, 0x63]]"
    by (simp add: tokens.simps)
  then show ?thesis
    using strtok_tokens [OF demo_strings(2,1) d, of None] demo_strings d
    by (auto simp: list_all2_Cons2)
qed

end
