(* ===== verification/QSort.thy ===== *)
theory QSort
  imports MemFuns "HOL-Library.Multiset" "HOL-Library.Monad_Syntax"
begin

text \<open>
  \<^verbatim>\<open>klib/src/stdlib/qsort.cpp\<close>: the introsort of klib on an explicit memory.  The comparison
  function that the caller passes is a parameter, a function of the bytes of the two elements that
  it is given.  Element indices are natural numbers; an index that the source would decrement below
  zero makes the result \<^const>\<open>None\<close>.  The facts show that every pass rearranges the elements of
  its range and touches nothing else, that the partition and the heap sort put elements where they
  belong, and that introsort leaves every element within one short partition of its place.
\<close>

subsection \<open>Definitions\<close>

type_synonym compare_fn = "u8 list \<Rightarrow> u8 list \<Rightarrow> int"

definition INSERTION_THRESHOLD :: nat where
  "INSERTION_THRESHOLD = 16"

definition swap_chunk :: "'a::len itself \<Rightarrow> addr \<Rightarrow> addr \<Rightarrow> mem \<Rightarrow> mem" where
  "swap_chunk _ p1 p2 m =
     (let tmp = unaligned_load m p1 :: 'a word
      in unaligned_store p2 tmp (unaligned_store p1 (unaligned_load m p2 :: 'a word) m))"

fun swap_words :: "addr \<Rightarrow> addr \<Rightarrow> nat \<Rightarrow> mem \<Rightarrow> mem \<times> addr \<times> addr \<times> nat" where
  "swap_words p1 p2 n m =
     (if n \<ge> 8 then swap_words (p1 + 8) (p2 + 8) (n - 8) (swap_chunk TYPE(64) p1 p2 m)
      else (m, p1, p2, n))"

primrec swap_rest :: "nat \<Rightarrow> addr \<Rightarrow> addr \<Rightarrow> mem \<Rightarrow> mem" where
  "swap_rest 0 p1 p2 m = m"
| "swap_rest (Suc n) p1 p2 m = swap_rest n (p1 + 1) (p2 + 1) (m(p1 := m p2, p2 := m p1))"

definition swap_bytes :: "addr \<Rightarrow> addr \<Rightarrow> u64 \<Rightarrow> mem \<Rightarrow> mem" where
  "swap_bytes a b sz m =
     (case swap_words a b (unat sz) m of (m', p1, p2, n) \<Rightarrow>
        if n \<ge> 4 then swap_rest (n - 4) (p1 + 4) (p2 + 4) (swap_chunk TYPE(32) p1 p2 m')
        else swap_rest n p1 p2 m')"

record sorter =
  m_base :: addr
  m_size :: u64
  m_compare :: compare_fn

definition element_at :: "sorter \<Rightarrow> nat \<Rightarrow> addr" where
  "element_at s i = m_base s + of_nat i * m_size s"

definition element :: "sorter \<Rightarrow> mem \<Rightarrow> nat \<Rightarrow> u8 list" where
  "element s m i = map (\<lambda>k. m (element_at s i + of_nat k)) [0..<unat (m_size s)]"

definition sorter_less :: "sorter \<Rightarrow> mem \<Rightarrow> nat \<Rightarrow> nat \<Rightarrow> bool" where
  "sorter_less s m i j \<longleftrightarrow> m_compare s (element s m i) (element s m j) < 0"

definition sorter_swap :: "sorter \<Rightarrow> nat \<Rightarrow> nat \<Rightarrow> mem \<Rightarrow> mem" where
  "sorter_swap s i j m = swap_bytes (element_at s i) (element_at s j) (m_size s) m"

function sift_down :: "sorter \<Rightarrow> nat \<Rightarrow> nat \<Rightarrow> nat \<Rightarrow> mem \<Rightarrow> mem" where
  "sift_down s root first end m =
     (let child = 2 * root + 1 in
      if child \<ge> end then m
      else
        let child = (if child + 1 < end \<and> sorter_less s m (first + child) (first + child + 1)
                     then child + 1 else child)
        in if \<not> sorter_less s m (first + root) (first + child) then m
           else sift_down s child first end (sorter_swap s (first + root) (first + child) m))"
  by pat_completeness auto
termination
  by (relation "measure (\<lambda>(s, root, first, end, m). end - root)") (auto split: if_splits)

primrec heapify :: "sorter \<Rightarrow> nat \<Rightarrow> nat \<Rightarrow> nat \<Rightarrow> mem \<Rightarrow> mem" where
  "heapify s first n 0 m = m"
| "heapify s first n (Suc i) m = heapify s first n i (sift_down s i first n m)"

primrec sort_heap :: "sorter \<Rightarrow> nat \<Rightarrow> nat \<Rightarrow> mem \<Rightarrow> mem" where
  "sort_heap s first 0 m = m"
| "sort_heap s first (Suc e) m =
     sort_heap s first e (sift_down s 0 first (Suc e) (sorter_swap s first (first + Suc e) m))"

definition heap_sort :: "sorter \<Rightarrow> nat \<Rightarrow> nat \<Rightarrow> mem \<Rightarrow> mem" where
  "heap_sort s first n m = sort_heap s first (n - 1) (heapify s first n (n div 2) m)"

function scan_left :: "sorter \<Rightarrow> mem \<Rightarrow> nat \<Rightarrow> nat \<Rightarrow> nat \<Rightarrow> nat" where
  "scan_left s m first left right =
     (if left \<le> right \<and> sorter_less s m left first then scan_left s m first (left + 1) right else left)"
  by pat_completeness auto
termination
  by (relation "measure (\<lambda>(s, m, first, left, right). Suc right - left)") auto

fun scan_right :: "sorter \<Rightarrow> mem \<Rightarrow> nat \<Rightarrow> nat \<Rightarrow> nat \<Rightarrow> nat option" where
  "scan_right s m first left 0 = (if left \<le> 0 \<and> sorter_less s m first 0 then None else Some 0)"
| "scan_right s m first left (Suc right) =
     (if left \<le> Suc right \<and> sorter_less s m first (Suc right) then scan_right s m first left right
      else Some (Suc right))"

declare sift_down.simps [simp del] scan_left.simps [simp del]

lemma scan_left_ge: "left \<le> scan_left s m first left right"
  by (induction s m first left right rule: scan_left.induct) (subst scan_left.simps, auto)

lemma scan_right_le: "scan_right s m first left right = Some r \<Longrightarrow> r \<le> right"
  by (induction s m first left right rule: scan_right.induct) (auto split: if_splits)

function partition_loop :: "sorter \<Rightarrow> nat \<Rightarrow> nat \<Rightarrow> nat \<Rightarrow> mem \<Rightarrow> (mem \<times> nat) option" where
  "partition_loop s first left right m =
     (let left = scan_left s m first left right in
      case scan_right s m first left right of
        None \<Rightarrow> None
      | Some right \<Rightarrow>
          if left \<ge> right then Some (m, right)
          else partition_loop s first (left + 1) (right - 1) (sorter_swap s left right m))"
  by pat_completeness auto
termination
proof (relation "measure (\<lambda>(s, first, left, right, m). Suc right - left)", goal_cases)
  case (2 s first left right m left' right')
  then show ?case
    using scan_left_ge [of left s m first right] scan_right_le [of s m first left' right right'] by auto
qed simp

declare partition_loop.simps [simp del]

definition sorter_partition :: "sorter \<Rightarrow> nat \<Rightarrow> nat \<Rightarrow> mem \<Rightarrow> (mem \<times> nat) option" where
  "sorter_partition s first n m =
     (let mid = first + n div 2;
          final = first + n - 1;
          m = (if sorter_less s m mid first then sorter_swap s mid first m else m);
          m = (if sorter_less s m final first then sorter_swap s final first m else m);
          m = (if sorter_less s m final mid then sorter_swap s final mid m else m);
          m = sorter_swap s mid first m
      in do {
        (m, right) \<leftarrow> partition_loop s first (first + 1) final m;
        Some (sorter_swap s first right m, right)
      })"

fun introsort :: "sorter \<Rightarrow> nat \<Rightarrow> nat \<Rightarrow> nat \<Rightarrow> mem \<Rightarrow> mem option" where
  "introsort s first n 0 m =
     (if n > INSERTION_THRESHOLD then Some (heap_sort s first n m) else Some m)"
| "introsort s first n (Suc depth_limit) m =
     (if n > INSERTION_THRESHOLD then do {
        (m, pivot) \<leftarrow> sorter_partition s first n m;
        let left_count = pivot - first;
        let right_count = n - left_count - 1;
        if left_count < right_count then do {
          m \<leftarrow> introsort s first left_count depth_limit m;
          introsort s (pivot + 1) right_count depth_limit m
        } else do {
          m \<leftarrow> introsort s (pivot + 1) right_count depth_limit m;
          introsort s first left_count depth_limit m
        }
      } else Some m)"

primrec insert_back :: "sorter \<Rightarrow> nat \<Rightarrow> mem \<Rightarrow> mem" where
  "insert_back s 0 m = m"
| "insert_back s (Suc j) m =
     (if sorter_less s m (Suc j) j then insert_back s j (sorter_swap s (Suc j) j m) else m)"

definition insertion_sort :: "sorter \<Rightarrow> nat \<Rightarrow> mem \<Rightarrow> mem" where
  "insertion_sort s n m = fold (insert_back s) [1..<n] m"

definition qsort :: "addr \<Rightarrow> u64 \<Rightarrow> u64 \<Rightarrow> compare_fn \<Rightarrow> mem \<Rightarrow> mem option" where
  "qsort base n sz compare m =
     (if n < 2 \<or> sz = 0 then Some m
      else do {
        let s = \<lparr>m_base = base, m_size = sz, m_compare = compare\<rparr>;
        m \<leftarrow> introsort s 0 (unat n) (2 * bit_width n) m;
        Some (insertion_sort s (unat n) m)
      })"

subsection \<open>Swapping\<close>

text \<open>Two ranges are the same or have no address in common.\<close>

definition separate :: "addr \<Rightarrow> addr \<Rightarrow> nat \<Rightarrow> bool" where
  "separate a b n \<longleftrightarrow> a = b \<or> range_of a n \<inter> range_of b n = {}"

definition swapped :: "addr \<Rightarrow> addr \<Rightarrow> nat \<Rightarrow> mem \<Rightarrow> mem" where
  "swapped a b n m =
     (\<lambda>x. if x \<in> range_of a n then m (b + (x - a)) else if x \<in> range_of b n then m (a + (x - b)) else m x)"

lemma swapped_0 [simp]: "swapped a b 0 m = m"
  by (simp add: swapped_def range_of_def)

lemma swap_chunk_swapped:
  assumes "LENGTH('a) = 8 * w" "separate a b w"
  shows "swap_chunk TYPE('a::len) a b m = swapped a b w m"
proof -
  have ld: "unaligned_store p (unaligned_load m' q :: 'a word) m'' =
      (\<lambda>x. if x \<in> range_of p w then m' (q + (x - p)) else m'' x)" for p q m' m''
    using store_load [OF assms(1), of p 0 m' q m''] by simp
  show ?thesis
    using assms(2) by (auto simp: swap_chunk_def Let_def ld swapped_def separate_def fun_eq_iff)
qed

lemma swapped_add:
  assumes "separate a b (k + l)" "k + l < 2 ^ 64"
  shows "swapped (a + of_nat k) (b + of_nat k) l (swapped a b k m) = swapped a b (k + l) m"
proof (rule ext)
  fix x
  have u: "unat (of_nat k :: addr) = k" using assms(2) by (simp add: unat_of_nat)
  have win: "y \<in> range_of (p + of_nat k) l \<longleftrightarrow> k \<le> unat (y - p) \<and> unat (y - p) < k + l" for p y :: addr
    using window_iff [of "of_nat k" l y p] assms(2) u by simp
  have shift: "q + of_nat k + (x - (p + of_nat k)) = q + (x - p)" for p q :: addr by simp
  have bk: "unat ((q + (x - p)) - q) = unat (x - p)" for p q :: addr by simp
  have dis: "a = b \<or> \<not> (unat (y - a) < k + l \<and> unat (y - b) < k + l)" for y
    using assms(1) by (auto simp: separate_def range_of_def)
  show "swapped (a + of_nat k) (b + of_nat k) l (swapped a b k m) x = swapped a b (k + l) m x"
    using dis [of x] dis [of "b + (x - a)"] dis [of "a + (x - b)"]
    unfolding swapped_def win shift by (auto simp: range_of_def)
qed

lemma separate_mono:
  assumes "separate a b n" "k \<le> n"
  shows "separate a b k"
proof -
  have "range_of p k \<subseteq> range_of p n" for p using assms(2) by (auto simp: range_of_def)
  then show ?thesis using assms(1) unfolding separate_def by fast
qed

lemma separate_shift:
  assumes "separate a b (k + l)" "k + l < 2 ^ 64"
  shows "separate (a + of_nat k) (b + of_nat k) l"
proof -
  have u: "unat (of_nat k :: addr) = k" using assms(2) by (simp add: unat_of_nat)
  have "y \<in> range_of (p + of_nat k) l \<Longrightarrow> y \<in> range_of p (k + l)" for p y :: addr
    using window_iff [of "of_nat k" l y p] assms(2) u by (simp add: range_of_def)
  then show ?thesis using assms(1) unfolding separate_def by fast
qed

lemma swap_words_swapped:
  "separate p1 p2 n \<Longrightarrow> n < 2 ^ 64 \<Longrightarrow>
   swap_words p1 p2 n m =
     (swapped p1 p2 (n - n mod 8) m, p1 + of_nat (n - n mod 8), p2 + of_nat (n - n mod 8), n mod 8)"
proof (induction p1 p2 n m rule: swap_words.induct)
  case (1 p1 p2 n m)
  show ?case
  proof (cases "8 \<le> n")
    case True
    let ?k = "n - 8 - (n - 8) mod 8"
    have k: "n - n mod 8 = 8 + ?k" "n mod 8 = (n - 8) mod 8"
      using True mod_less_eq_dividend [of "n - 8" 8] by (simp_all add: le_mod_geq)
    have sep: "separate p1 p2 (8 + (n - 8))" using "1.prems"(1) True by simp
    have sepk: "separate p1 p2 (8 + ?k)"
      by (rule separate_mono [OF sep]) simp
    have chunk: "swap_chunk TYPE(64) p1 p2 m = swapped p1 p2 8 m"
      by (rule swap_chunk_swapped) (use separate_mono [OF "1.prems"(1), of 8] True in simp_all)
    have "swap_words (p1 + 8) (p2 + 8) (n - 8) (swap_chunk TYPE(64) p1 p2 m) =
        (swapped (p1 + 8) (p2 + 8) ?k (swap_chunk TYPE(64) p1 p2 m), p1 + 8 + of_nat ?k, p2 + 8 + of_nat ?k, (n - 8) mod 8)"
      using "1.IH" [OF True] separate_shift [OF sep] "1.prems"(2) True by simp
    moreover have "swapped (p1 + 8) (p2 + 8) ?k (swapped p1 p2 8 m) = swapped p1 p2 (8 + ?k) m"
      using swapped_add [OF sepk] "1.prems"(2) True by simp
    ultimately show ?thesis
      using True unfolding k(1) unfolding k(2)
      by (subst swap_words.simps) (simp only: chunk if_True of_nat_add of_nat_numeral add.assoc)
  qed simp
qed

lemma swap_rest_swapped:
  "separate p1 p2 n \<Longrightarrow> n < 2 ^ 64 \<Longrightarrow> swap_rest n p1 p2 m = swapped p1 p2 n m"
proof (induction n arbitrary: p1 p2 m)
  case (Suc n)
  have one: "m(p1 := m p2, p2 := m p1) = swapped p1 p2 1 m"
    by (auto simp: swapped_def range_of_def fun_eq_iff unat_eq_0)
  have sep: "separate p1 p2 (1 + n)" using Suc.prems(1) by simp
  show ?case
    using Suc.IH [of "p1 + 1" "p2 + 1" "swapped p1 p2 1 m"] separate_shift [OF sep] swapped_add [OF sep] Suc.prems(2)
    by (simp add: one del: fun_upd_apply)
qed simp

lemma swap_bytes_swapped:
  assumes "separate a b (unat sz)"
  shows "swap_bytes a b sz m = swapped a b (unat sz) m"
proof -
  let ?n = "unat sz" and ?k = "unat sz - unat sz mod 8" and ?r = "unat sz mod 8"
  have lt: "?n < 2 ^ 64" using unat_bound [of sz] by simp
  have n: "?n = ?k + ?r" by simp
  have sep: "separate a b (?k + ?r)" using assms by simp
  let ?a = "a + of_nat ?k" and ?b = "b + of_nat ?k"
  have rest: "separate ?a ?b ?r" using separate_shift [OF sep] lt by simp
  have join: "swapped ?a ?b ?r (swapped a b ?k m) = swapped a b ?n m"
    using swapped_add [OF sep] lt by simp
  have w: "swap_words a b ?n m = (swapped a b ?k m, ?a, ?b, ?r)"
    by (rule swap_words_swapped [OF assms lt])
  show ?thesis
  proof (cases "4 \<le> ?r")
    case True
    have s4: "separate ?a ?b (4 + (?r - 4))" using rest True by simp
    have c: "swap_chunk TYPE(32) ?a ?b m' = swapped ?a ?b 4 m'" for m'
      by (rule swap_chunk_swapped) (use separate_mono [OF rest, of 4] True in simp_all)
    have "swap_rest (?r - 4) (?a + 4) (?b + 4) m' = swapped (?a + 4) (?b + 4) (?r - 4) m'" for m'
      by (rule swap_rest_swapped) (use separate_shift [OF s4] True in simp_all)
    moreover have "swapped (?a + 4) (?b + 4) (?r - 4) (swapped ?a ?b 4 m') = swapped ?a ?b ?r m'" for m'
      using swapped_add [OF s4] True by simp
    ultimately show ?thesis using True join by (simp only: swap_bytes_def w prod.case if_True c)
  next
    case False
    have "swap_rest ?r ?a ?b m' = swapped ?a ?b ?r m'" for m'
      by (rule swap_rest_swapped [OF rest]) simp
    then show ?thesis using False join by (simp only: swap_bytes_def w prod.case if_False)
  qed
qed

subsection \<open>Elements\<close>

text \<open>The array of \<open>n\<close> elements does not reach around the address space.\<close>

definition fits :: "sorter \<Rightarrow> nat \<Rightarrow> bool" where
  "fits s n \<longleftrightarrow> n * unat (m_size s) < 2 ^ 64"

definition byte_span :: "sorter \<Rightarrow> nat \<Rightarrow> nat \<Rightarrow> addr set" where
  "byte_span s lo hi = {x. lo * unat (m_size s) \<le> unat (x - m_base s) \<and> unat (x - m_base s) < hi * unat (m_size s)}"

lemma fits_index:
  assumes "fits s n" "i < n"
  shows "i * unat (m_size s) + unat (m_size s) < 2 ^ 64"
proof -
  have "i * unat (m_size s) + unat (m_size s) \<le> n * unat (m_size s)"
    using mult_le_mono1 [of "Suc i" n "unat (m_size s)"] assms(2) by simp
  then show ?thesis using assms(1) by (simp add: fits_def)
qed

lemma element_range:
  assumes "fits s n" "i < n"
  shows "x \<in> range_of (element_at s i) (unat (m_size s)) \<longleftrightarrow> x \<in> byte_span s i (Suc i)"
proof -
  let ?off = "of_nat i * m_size s"
  have "?off = of_nat (i * unat (m_size s))" by simp
  then have "unat ?off = i * unat (m_size s) mod 2 ^ 64"
    by (simp only: unat_of_nat) simp
  then have off: "unat ?off = i * unat (m_size s)"
    using fits_index [OF assms] by (simp del: take_bit_eq_mod)
  have "unat ?off + unat (m_size s) \<le> 2 ^ 64" using fits_index [OF assms] off by linarith
  from window_iff [OF this, of x "m_base s"] show ?thesis
    unfolding element_at_def byte_span_def off by (simp add: add.commute)
qed

lemma byte_span_disjoint: "j \<le> i \<or> l \<le> k \<Longrightarrow> x \<in> byte_span s k j \<Longrightarrow> x \<notin> byte_span s i l"
  using mult_le_mono1 [of j i "unat (m_size s)"] mult_le_mono1 [of l k "unat (m_size s)"]
  unfolding byte_span_def mem_Collect_eq by linarith

lemma byte_span_mono: "lo \<le> i \<Longrightarrow> j \<le> hi \<Longrightarrow> x \<in> byte_span s i j \<Longrightarrow> x \<in> byte_span s lo hi"
  using mult_le_mono1 [of lo i "unat (m_size s)"] mult_le_mono1 [of j hi "unat (m_size s)"]
  unfolding byte_span_def mem_Collect_eq by linarith

lemma separate_elements:
  assumes "fits s n" "i < n" "j < n"
  shows "separate (element_at s i) (element_at s j) (unat (m_size s))"
proof (cases "i = j")
  case False
  then have "Suc i \<le> j \<or> Suc j \<le> i" by auto
  then have "x \<in> byte_span s i (Suc i) \<Longrightarrow> x \<notin> byte_span s j (Suc j)" for x by (rule byte_span_disjoint)
  then show ?thesis
    unfolding separate_def using element_range [OF assms(1)] assms by blast
qed (simp add: separate_def)

lemma element_same:
  assumes "fits s n" "k < n" "\<And>x. x \<in> byte_span s k (Suc k) \<Longrightarrow> m' x = m x"
  shows "element s m' k = element s m k"
proof -
  have "m' (element_at s k + of_nat q) = m (element_at s k + of_nat q)" if "q < unat (m_size s)" for q
  proof -
    have "q < 2 ^ 64" using that unat_bound [of "m_size s"] by simp
    then have "element_at s k + of_nat q \<in> range_of (element_at s k) (unat (m_size s))"
      using that by (simp add: range_of_def unat_of_nat)
    then show ?thesis using assms element_range by blast
  qed
  then show ?thesis by (simp add: element_def)
qed

lemma element_swap:
  assumes "fits s n" "i < n" "j < n" "k < n"
  shows "element s (sorter_swap s i j m) k =
    (if k = i then element s m j else if k = j then element s m i else element s m k)"
proof -
  let ?z = "unat (m_size s)"
  have sw: "sorter_swap s i j m = swapped (element_at s i) (element_at s j) ?z m"
    unfolding sorter_swap_def by (rule swap_bytes_swapped [OF separate_elements [OF assms(1-3)]])
  have "sorter_swap s i j m (element_at s k + of_nat q) =
      m (element_at s (if k = i then j else if k = j then i else k) + of_nat q)" if "q < ?z" for q
  proof -
    have lt: "q < 2 ^ 64" using that unat_bound [of "m_size s"] by simp
    let ?x = "element_at s k + of_nat q"
    have own: "?x \<in> range_of (element_at s k) ?z"
      using that lt by (simp add: range_of_def unat_of_nat)
    have other: "?x \<notin> range_of (element_at s l) ?z" if "l < n" "l \<noteq> k" for l
    proof -
      have "Suc k \<le> l \<or> Suc l \<le> k" using that(2) by auto
      then have "x \<in> byte_span s k (Suc k) \<Longrightarrow> x \<notin> byte_span s l (Suc l)" for x by (rule byte_span_disjoint)
      then show ?thesis using own element_range [OF assms(1)] assms(4) that(1) by blast
    qed
    show ?thesis unfolding sw swapped_def using own other assms(2,3) by auto
  qed
  then have "element s (sorter_swap s i j m) k = element s m (if k = i then j else if k = j then i else k)"
    unfolding element_def by (intro map_cong) auto
  then show ?thesis by simp
qed

lemma swap_outside:
  assumes "fits s n" "lo \<le> i" "i < hi" "lo \<le> j" "j < hi" "hi \<le> n" "x \<notin> byte_span s lo hi"
  shows "sorter_swap s i j m x = m x"
proof -
  have sw: "sorter_swap s i j m = swapped (element_at s i) (element_at s j) (unat (m_size s)) m"
    unfolding sorter_swap_def
    by (rule swap_bytes_swapped [OF separate_elements [OF assms(1)]]) (use assms in auto)
  have "x \<notin> range_of (element_at s k) (unat (m_size s))" if "lo \<le> k" "k < hi" for k
    using element_range [OF assms(1), of k x] byte_span_mono [of lo k "Suc k" hi x s] that assms(6,7) by auto
  then show ?thesis unfolding sw swapped_def using assms by simp
qed

text \<open>A pass over the elements from \<open>lo\<close> up to \<open>hi\<close> permutes them and leaves everything else alone.\<close>

definition rearranged :: "sorter \<Rightarrow> nat \<Rightarrow> nat \<Rightarrow> mem \<Rightarrow> mem \<Rightarrow> bool" where
  "rearranged s lo hi m m' \<longleftrightarrow>
     (\<forall>x. x \<notin> byte_span s lo hi \<longrightarrow> m' x = m x) \<and>
     mset (map (element s m') [lo..<hi]) = mset (map (element s m) [lo..<hi])"

lemma rearranged_refl [simp]: "rearranged s lo hi m m"
  by (simp add: rearranged_def)

lemma rearranged_trans: "rearranged s lo hi m m' \<Longrightarrow> rearranged s lo hi m' m'' \<Longrightarrow> rearranged s lo hi m m''"
  by (simp add: rearranged_def)

lemma rearranged_element:
  assumes "rearranged s lo hi m m'" "fits s n" "k < n" "k < lo \<or> hi \<le> k"
  shows "element s m' k = element s m k"
proof (rule element_same [OF assms(2,3)])
  fix x assume "x \<in> byte_span s k (Suc k)"
  then have "x \<notin> byte_span s lo hi" by (rule byte_span_disjoint [rotated]) (use assms(4) in auto)
  then show "m' x = m x" using assms(1) by (simp add: rearranged_def)
qed

lemma rearranged_all:
  assumes "rearranged s lo hi m m'" "\<And>i. lo \<le> i \<Longrightarrow> i < hi \<Longrightarrow> P (element s m i)" "lo \<le> j" "j < hi"
  shows "P (element s m' j)"
proof -
  have "set (map (element s m') [lo..<hi]) = set (map (element s m) [lo..<hi])"
    using assms(1) unfolding rearranged_def by (blast dest: mset_eq_setD)
  moreover have "element s m' j \<in> set (map (element s m') [lo..<hi])" using assms(3,4) by simp
  ultimately obtain i where "i \<in> set [lo..<hi]" "element s m' j = element s m i" by auto
  then show ?thesis using assms(2) by simp
qed

lemma rearranged_widen:
  assumes "rearranged s a b m m'" "fits s n" "lo \<le> a" "a \<le> b" "b \<le> hi" "hi \<le> n"
  shows "rearranged s lo hi m m'"
proof -
  have "m' x = m x" if "x \<notin> byte_span s lo hi" for x
    using assms(1) that byte_span_mono [OF assms(3,5)] by (auto simp: rearranged_def)
  moreover have "[lo..<hi] = [lo..<a] @ [a..<b] @ [b..<hi]"
    using assms(3-5) by (metis le_add_diff_inverse upt_add_eq_append le_trans)
  moreover have "map (element s m') [lo..<a] = map (element s m) [lo..<a]"
    "map (element s m') [b..<hi] = map (element s m) [b..<hi]"
    using rearranged_element [OF assms(1,2)] assms(3-6) by (auto intro!: map_cong)
  ultimately show ?thesis using assms(1) by (auto simp only: rearranged_def map_append mset_append)
qed

lemma rearranged_swap:
  assumes "fits s n" "lo \<le> i" "i < hi" "lo \<le> j" "j < hi" "hi \<le> n"
  shows "rearranged s lo hi m (sorter_swap s i j m)"
proof -
  let ?xs = "map (element s m) [lo..<hi]"
  have "map (element s (sorter_swap s i j m)) [lo..<hi] = ?xs[j - lo := ?xs ! (i - lo), i - lo := ?xs ! (j - lo)]"
    using assms by (intro nth_equalityI) (auto simp: element_swap [OF assms(1)] nth_list_update)
  moreover have "mset (?xs[j - lo := ?xs ! (i - lo), i - lo := ?xs ! (j - lo)]) = mset ?xs"
    by (rule mset_swap) (use assms in auto)
  ultimately show ?thesis
    using swap_outside [OF assms] by (simp add: rearranged_def)
qed

subsection \<open>Orders\<close>

text \<open>
  What the C standard asks of a comparison function on elements of \<open>n\<close> bytes: it never puts two
  elements before each other, and being not after is transitive.
\<close>

definition ordering :: "nat \<Rightarrow> compare_fn \<Rightarrow> bool" where
  "ordering n compare \<longleftrightarrow>
     (\<forall>x y. length x = n \<longrightarrow> length y = n \<longrightarrow> compare x y < 0 \<longrightarrow> 0 \<le> compare y x) \<and>
     (\<forall>x y z. length x = n \<longrightarrow> length y = n \<longrightarrow> length z = n \<longrightarrow>
        0 \<le> compare y x \<longrightarrow> 0 \<le> compare z y \<longrightarrow> 0 \<le> compare z x)"

definition le :: "sorter \<Rightarrow> u8 list \<Rightarrow> u8 list \<Rightarrow> bool" where
  "le s x y \<longleftrightarrow> 0 \<le> m_compare s y x"

abbreviation ordered :: "sorter \<Rightarrow> bool" where
  "ordered s \<equiv> ordering (unat (m_size s)) (m_compare s)"

lemma length_element [simp]: "length (element s m i) = unat (m_size s)"
  by (simp add: element_def)

lemma le_trans_element:
  "ordered s \<Longrightarrow> le s (element s m i) (element s m' j) \<Longrightarrow> le s (element s m' j) (element s m'' k) \<Longrightarrow>
   le s (element s m i) (element s m'' k)"
  unfolding ordering_def le_def using length_element by blast

lemma less_le: "ordered s \<Longrightarrow> sorter_less s m i j \<Longrightarrow> le s (element s m i) (element s m j)"
  unfolding ordering_def le_def sorter_less_def using length_element by blast

lemma not_less_le: "\<not> sorter_less s m i j \<Longrightarrow> le s (element s m j) (element s m i)"
  unfolding le_def sorter_less_def by simp

lemma le_refl_element: "ordered s \<Longrightarrow> le s (element s m i) (element s m i)"
  using less_le not_less_le by blast

subsection \<open>Heap sort\<close>

definition parent_of :: "nat \<Rightarrow> nat" where
  "parent_of c = (c - 1) div 2"

lemma parent_of_simps [simp]: "parent_of (Suc (2 * r)) = r" "parent_of (Suc (Suc (2 * r))) = r"
  by (simp_all add: parent_of_def)

lemma parent_of_less: "0 < c \<Longrightarrow> parent_of c < c"
  by (simp add: parent_of_def)

lemma parent_of_cases: "0 < c \<Longrightarrow> parent_of c = r \<Longrightarrow> c = Suc (2 * r) \<or> c = Suc (Suc (2 * r))"
  unfolding parent_of_def by presburger

definition heap_above :: "sorter \<Rightarrow> mem \<Rightarrow> nat \<Rightarrow> nat \<Rightarrow> nat \<Rightarrow> bool" where
  "heap_above s m first k e \<longleftrightarrow>
     (\<forall>c<e. 0 < c \<longrightarrow> k \<le> parent_of c \<longrightarrow>
        le s (element s m (first + c)) (element s m (first + parent_of c)))"

text \<open>The heap order with a hole at \<open>root\<close>.\<close>

definition heap_but :: "sorter \<Rightarrow> mem \<Rightarrow> nat \<Rightarrow> nat \<Rightarrow> nat \<Rightarrow> nat \<Rightarrow> bool" where
  "heap_but s m first k e root \<longleftrightarrow>
     (\<forall>c<e. 0 < c \<longrightarrow> k \<le> parent_of c \<longrightarrow> parent_of c \<noteq> root \<longrightarrow>
        le s (element s m (first + c)) (element s m (first + parent_of c))) \<and>
     (\<forall>c<e. 0 < c \<longrightarrow> parent_of c = root \<longrightarrow> 0 < root \<longrightarrow> k \<le> parent_of root \<longrightarrow>
        le s (element s m (first + c)) (element s m (first + parent_of root)))"

lemma heap_but_swap:
  assumes o: "ordered s" and f: "fits s n" "first + e \<le> n"
    and h: "heap_but s m first k e root" and ch: "ch < e" "0 < ch" "parent_of ch = root"
    and best: "\<And>c. c < e \<Longrightarrow> 0 < c \<Longrightarrow> parent_of c = root \<Longrightarrow> le s (element s m (first + c)) (element s m (first + ch))"
    and lt: "sorter_less s m (first + root) (first + ch)"
  shows "heap_but s (sorter_swap s (first + root) (first + ch) m) first k e ch"
proof -
  let ?m = "sorter_swap s (first + root) (first + ch) m"
  have rch: "root < ch" using parent_of_less [OF ch(2)] ch(3) by simp
  have el: "element s ?m (first + c) =
      (if c = root then element s m (first + ch) else if c = ch then element s m (first + root)
       else element s m (first + c))" if "c < e" for c
    using element_swap [OF f(1), of "first + root" "first + ch" "first + c" m] that ch(1) rch f(2) by simp
  have A: "le s (element s ?m (first + c)) (element s ?m (first + parent_of c))"
    if c: "c < e" "0 < c" "k \<le> parent_of c" "parent_of c \<noteq> ch" for c
  proof (cases "parent_of c = root")
    case True
    then have "c \<noteq> root" using parent_of_less [OF c(2)] by simp
    then show ?thesis
      using True c best [OF c(1,2) True] less_le [OF o lt] el [OF c(1)] el [of root] rch ch(1) by auto
  next
    case False
    have "parent_of c < e" using parent_of_less [OF c(2)] c(1) by simp
    moreover have "c \<noteq> ch" using False ch(3) by auto
    ultimately show ?thesis
      using False c h ch el [OF c(1)] el [of "parent_of c"] unfolding heap_but_def by auto
  qed
  have B: "le s (element s ?m (first + c)) (element s ?m (first + parent_of ch))"
    if c: "c < e" "0 < c" "parent_of c = ch" "k \<le> parent_of ch" for c
  proof -
    have "c \<noteq> ch" "c \<noteq> root" using parent_of_less [OF c(2)] c(3) rch by auto
    then show ?thesis
      using c h ch rch el [OF c(1)] el [of root] unfolding heap_but_def by auto
  qed
  show ?thesis unfolding heap_but_def using A B by blast
qed

lemma sift_down_ok:
  "ordered s \<Longrightarrow> fits s n \<Longrightarrow> first + e \<le> n \<Longrightarrow> heap_but s m first k e root \<Longrightarrow>
   heap_above s (sift_down s root first e m) first k e \<and>
   rearranged s first (first + e) m (sift_down s root first e m)"
proof (induction s root first e m rule: sift_down.induct)
  case (1 s root first e m)
  note o = "1.prems"(1) and f = "1.prems"(2,3) and h = "1.prems"(4)
  have A: "le s (element s m (first + c)) (element s m (first + parent_of c))"
    if "c < e" "0 < c" "k \<le> parent_of c" "parent_of c \<noteq> root" for c
    using h that unfolding heap_but_def by blast
  show ?case
  proof (cases "e \<le> 2 * root + 1")
    case True
    then have "parent_of c \<noteq> root" if "c < e" "0 < c" for c
      using parent_of_cases [OF that(2), of root] that(1) by auto
    then have "heap_above s m first k e" unfolding heap_above_def using A by blast
    then show ?thesis using True by (subst sift_down.simps, subst sift_down.simps) simp
  next
    case False
    define ch where "ch = (if 2 * root + 1 + 1 < e \<and> sorter_less s m (first + (2 * root + 1)) (first + (2 * root + 1) + 1)
                     then 2 * root + 1 + 1 else 2 * root + 1)"
    have ch: "ch < e" "0 < ch" "parent_of ch = root" using False by (auto simp: ch_def)
    have best: "le s (element s m (first + c)) (element s m (first + ch))"
      if "c < e" "0 < c" "parent_of c = root" for c
      using parent_of_cases [OF that(2,3)] that(1) le_refl_element [OF o] less_le [OF o] not_less_le
      by (auto simp: ch_def)
    let ?m = "sorter_swap s (first + root) (first + ch) m"
    have step: "sift_down s root first e m =
        (if \<not> sorter_less s m (first + root) (first + ch) then m else sift_down s ch first e ?m)"
      using False by (subst sift_down.simps) (simp only: Let_def ch_def if_False)
    show ?thesis
    proof (cases "sorter_less s m (first + root) (first + ch)")
      case lt: True
      have root: "root < e" using ch(1) parent_of_less [OF ch(2)] ch(3) by simp
      have "heap_above s (sift_down s ch first e ?m) first k e \<and>
          rearranged s first (first + e) ?m (sift_down s ch first e ?m)"
        by (rule "1.IH" [OF refl _ ch_def _ o f heap_but_swap [OF o f h ch best lt]]) (use False lt in simp_all)
      moreover have "rearranged s first (first + e) m ?m"
        by (rule rearranged_swap [OF f(1)]) (use root ch f(2) in simp_all)
      ultimately show ?thesis using lt rearranged_trans by (auto simp: step)
    next
      case nl: False
      have "le s (element s m (first + c)) (element s m (first + parent_of c))"
        if "c < e" "0 < c" "k \<le> parent_of c" for c
        using A [OF that] le_trans_element [OF o best [OF that(1,2)] not_less_le [OF nl]] by (cases "parent_of c = root") auto
      then show ?thesis using nl unfolding step heap_above_def by simp
    qed
  qed
qed

lemma heapify_ok:
  "ordered s \<Longrightarrow> fits s N \<Longrightarrow> first + n \<le> N \<Longrightarrow> heap_above s m first i n \<Longrightarrow>
   heap_above s (heapify s first n i m) first 0 n \<and> rearranged s first (first + n) m (heapify s first n i m)"
proof (induction i arbitrary: m)
  case (Suc i)
  have "parent_of i < i" if "0 < i" using parent_of_less [OF that] .
  then have "heap_but s m first i n i"
    using Suc.prems(4) unfolding heap_but_def heap_above_def by (metis Suc_leI le_neq_implies_less not_le)
  note d = sift_down_ok [OF Suc.prems(1-3) this]
  have "heap_above s (heapify s first n i (sift_down s i first n m)) first 0 n \<and>
      rearranged s first (first + n) (sift_down s i first n m) (heapify s first n i (sift_down s i first n m))"
    using Suc.IH [OF Suc.prems(1-3)] d by blast
  then show ?case using d rearranged_trans by auto
qed simp

lemma heap_max:
  assumes "ordered s" "heap_above s m first 0 e"
  shows "c < e \<Longrightarrow> le s (element s m (first + c)) (element s m first)"
proof (induction c rule: less_induct)
  case (less c)
  show ?case
  proof (cases "c = 0")
    case False
    then have p: "parent_of c < c" by (simp add: parent_of_less)
    then have "le s (element s m (first + parent_of c)) (element s m first)"
      using less by simp
    moreover have "le s (element s m (first + c)) (element s m (first + parent_of c))"
      using assms(2) False less.prems by (simp add: heap_above_def)
    ultimately show ?thesis using le_trans_element [OF assms(1)] by blast
  qed (simp add: le_refl_element [OF assms(1)])
qed

text \<open>Everything from position \<open>e\<close> of the range on is in its final place.\<close>

definition settled :: "sorter \<Rightarrow> mem \<Rightarrow> nat \<Rightarrow> nat \<Rightarrow> nat \<Rightarrow> bool" where
  "settled s m first n e \<longleftrightarrow>
     (\<forall>i j. i \<le> j \<longrightarrow> e \<le> j \<longrightarrow> j < n \<longrightarrow> le s (element s m (first + i)) (element s m (first + j)))"

lemma sort_heap_step:
  assumes o: "ordered s" and f: "fits s N" "first + n \<le> N" "Suc e < n"
    and h: "heap_above s m first 0 (Suc (Suc e))" and t: "settled s m first n (Suc (Suc e))"
  defines "m1 \<equiv> sorter_swap s first (first + Suc e) m"
  defines "m2 \<equiv> sift_down s 0 first (Suc e) m1"
  shows "heap_above s m2 first 0 (Suc e)" "settled s m2 first n (Suc e)" "rearranged s first (first + n) m m2"
proof -
  have el: "element s m1 (first + c) = (if c = 0 then element s m (first + Suc e)
      else if c = Suc e then element s m first else element s m (first + c))" if "c < n" for c
    using element_swap [OF f(1), of first "first + Suc e" "first + c" m] that f(2,3) by (simp add: m1_def)
  have "le s (element s m1 (first + c)) (element s m1 (first + parent_of c))"
    if "c < Suc e" "0 < c" "parent_of c \<noteq> 0" for c
    using h that el [of c] el [of "parent_of c"] f(3) parent_of_less [OF that(2)] by (simp add: heap_above_def)
  then have "heap_but s m1 first 0 (Suc e) 0" by (simp add: heap_but_def)
  from sift_down_ok [OF o f(1) _ this]
  have d: "heap_above s m2 first 0 (Suc e)" "rearranged s first (first + Suc e) m1 m2"
    using f by (simp_all add: m2_def)
  have r1: "rearranged s first (first + Suc (Suc e)) m m1"
    unfolding m1_def by (rule rearranged_swap [OF f(1)]) (use f in simp_all)
  have r12: "rearranged s first (first + Suc (Suc e)) m1 m2"
    by (rule rearranged_widen [OF d(2) f(1)]) (use f in simp_all)
  note r2 = rearranged_trans [OF r1 r12]
  show "rearranged s first (first + n) m m2"
    by (rule rearranged_widen [OF r2 f(1)]) (use f in simp_all)
  show "heap_above s m2 first 0 (Suc e)" by (rule d(1))
  have keep: "element s m2 (first + j) = element s m (first + j)" if "Suc (Suc e) \<le> j" "j < n" for j
    by (rule rearranged_element [OF r2 f(1)]) (use that f in simp_all)
  have hi: "element s m2 (first + Suc e) = element s m first"
    using rearranged_element [OF d(2) f(1), of "first + Suc e"] el [of "Suc e"] f by simp
  have inner: "P (element s m2 (first + i))"
    if "i \<le> Suc e" "\<And>c. c \<le> Suc e \<Longrightarrow> P (element s m (first + c))" for i P
  proof (rule rearranged_all [OF r2])
    show "P (element s m k)" if "first \<le> k" "k < first + Suc (Suc e)" for k
      using \<open>\<And>c. c \<le> Suc e \<Longrightarrow> P (element s m (first + c))\<close> [of "k - first"] that by simp
  qed (use that in simp_all)
  show "settled s m2 first n (Suc e)"
    unfolding settled_def
  proof (intro allI impI)
    fix i j assume ij: "i \<le> j" "Suc e \<le> j" "j < n"
    show "le s (element s m2 (first + i)) (element s m2 (first + j))"
    proof (cases "j = Suc e")
      case True
      have "le s (element s m2 (first + i)) (element s m first)"
        by (rule inner [where P = "\<lambda>x. le s x (element s m first)"])
          (use heap_max [OF o h] True ij in auto)
      then show ?thesis using True hi by simp
    next
      case False
      then have j: "Suc (Suc e) \<le> j" using ij by simp
      show ?thesis
      proof (cases "i \<le> Suc e")
        case True
        have "le s (element s m2 (first + i)) (element s m (first + j))"
          by (rule inner [where P = "\<lambda>x. le s x (element s m (first + j))", OF True])
            (use t j ij in \<open>auto simp: settled_def\<close>)
        then show ?thesis using keep [OF j ij(3)] by simp
      next
        case False
        then show ?thesis using t j ij keep by (auto simp: settled_def)
      qed
    qed
  qed
qed

lemma sort_heap_ok:
  "ordered s \<Longrightarrow> fits s N \<Longrightarrow> first + n \<le> N \<Longrightarrow> e < n \<Longrightarrow> heap_above s m first 0 (Suc e) \<Longrightarrow>
   settled s m first n (Suc e) \<Longrightarrow>
   settled s (sort_heap s first e m) first n 0 \<and> rearranged s first (first + n) m (sort_heap s first e m)"
proof (induction e arbitrary: m)
  case 0
  then have "settled s m first n 0"
    unfolding settled_def by (metis le_refl_element Suc_leI le_zero_eq neq0_conv)
  then show ?case by simp
next
  case (Suc e)
  note st = sort_heap_step [OF Suc.prems(1-3) Suc.prems(4-6)]
  show ?case
    using Suc.IH [OF Suc.prems(1-3) _ st(1,2)] Suc.prems(4) rearranged_trans [OF st(3)] by simp
qed

lemma heap_sort_ok:
  assumes "ordered s" "fits s N" "first + n \<le> N" "0 < n"
  shows "settled s (heap_sort s first n m) first n 0" "rearranged s first (first + n) m (heap_sort s first n m)"
proof -
  have "n div 2 \<le> parent_of c \<Longrightarrow> n \<le> c" if "0 < c" for c
    using that unfolding parent_of_def by linarith
  then have "heap_above s m first (n div 2) n" unfolding heap_above_def by (metis not_le)
  note h = heapify_ok [OF assms(1-3) this]
  let ?m = "heapify s first n (n div 2) m"
  have "settled s ?m first n (Suc (n - 1))" using assms(4) by (simp add: settled_def)
  with h have "settled s (sort_heap s first (n - 1) ?m) first n 0 \<and>
      rearranged s first (first + n) ?m (sort_heap s first (n - 1) ?m)"
    using sort_heap_ok [OF assms(1-3), of "n - 1" ?m] assms(4) by simp
  then show "settled s (heap_sort s first n m) first n 0" "rearranged s first (first + n) m (heap_sort s first n m)"
    using h rearranged_trans by (auto simp: heap_sort_def)
qed

subsection \<open>Partition\<close>

lemma scan_left_ok:
  "left \<le> Suc right \<Longrightarrow>
   (let l = scan_left s m first left right in
     l \<le> Suc right \<and> (\<forall>i. left \<le> i \<longrightarrow> i < l \<longrightarrow> sorter_less s m i first) \<and>
     (l \<le> right \<longrightarrow> \<not> sorter_less s m l first))"
proof (induction s m first left right rule: scan_left.induct)
  case (1 s m first left right)
  show ?case
  proof (cases "left \<le> right \<and> sorter_less s m left first")
    case True
    have "scan_left s m first left right = scan_left s m first (left + 1) right"
      using True by (subst scan_left.simps) simp
    moreover have "left \<le> i \<longleftrightarrow> i = left \<or> left + 1 \<le> i" for i by auto
    ultimately show ?thesis using "1.IH" [OF True] True by (auto simp: Let_def)
  next
    case False
    then have "scan_left s m first left right = left" by (subst scan_left.simps) auto
    then show ?thesis using False "1.prems" by auto
  qed
qed

lemma scan_right_ok:
  "0 < left \<Longrightarrow> left \<le> Suc right \<Longrightarrow>
   \<exists>r. scan_right s m first left right = Some r \<and> r \<le> right \<and> left \<le> Suc r \<and>
     (\<forall>i. r < i \<longrightarrow> i \<le> right \<longrightarrow> sorter_less s m first i) \<and> (left \<le> r \<longrightarrow> \<not> sorter_less s m first r)"
proof (induction s m first left right rule: scan_right.induct)
  case (2 s m first left right)
  show ?case
  proof (cases "left \<le> Suc right \<and> sorter_less s m first (Suc right)")
    case True
    then obtain r where "scan_right s m first left right = Some r" "r \<le> right" "left \<le> Suc r"
      "\<forall>i. r < i \<longrightarrow> i \<le> right \<longrightarrow> sorter_less s m first i" "left \<le> r \<longrightarrow> \<not> sorter_less s m first r"
      using "2.IH" [OF True "2.prems"(1)] by auto
    then show ?thesis using True by (auto simp: le_Suc_eq)
  next
    case False
    then have "scan_right s m first left (Suc right) = Some (Suc right)" by auto
    then show ?thesis using False "2.prems" by auto
  qed
qed simp

text \<open>What the two scans keep: the pivot is the first element of the range.\<close>

definition around :: "sorter \<Rightarrow> mem \<Rightarrow> nat \<Rightarrow> nat \<Rightarrow> nat \<Rightarrow> nat \<Rightarrow> bool" where
  "around s m first bound left right \<longleftrightarrow>
     (\<forall>i. first \<le> i \<longrightarrow> i < left \<longrightarrow> le s (element s m i) (element s m first)) \<and>
     (\<forall>i. right < i \<longrightarrow> i < bound \<longrightarrow> le s (element s m first) (element s m i))"

lemma partition_loop_ok:
  "ordered s \<Longrightarrow> fits s N \<Longrightarrow> bound \<le> N \<Longrightarrow> first < left \<Longrightarrow> left \<le> Suc right \<Longrightarrow> right < bound \<Longrightarrow>
   around s m first bound left right \<Longrightarrow>
   \<exists>m' r. partition_loop s first left right m = Some (m', r) \<and> first \<le> r \<and> r < bound \<and>
     around s m' first bound (Suc r) r \<and> rearranged s first bound m m'"
proof (induction s first left right m rule: partition_loop.induct)
  case (1 s first left right m)
  note o = "1.prems"(1) and f = "1.prems"(2,3) and b = "1.prems"(4,5,6)
  define l where "l = scan_left s m first left right"
  have l: "left \<le> l" "l \<le> Suc right" "\<And>i. left \<le> i \<Longrightarrow> i < l \<Longrightarrow> sorter_less s m i first"
    "l \<le> right \<Longrightarrow> \<not> sorter_less s m l first"
    using scan_left_ok [OF b(2), of s m first] scan_left_ge [of left s m first right] by (auto simp: l_def Let_def)
  obtain r where r: "scan_right s m first l right = Some r" "r \<le> right" "l \<le> Suc r"
    "\<And>i. r < i \<Longrightarrow> i \<le> right \<Longrightarrow> sorter_less s m first i" "l \<le> r \<Longrightarrow> \<not> sorter_less s m first r"
    using scan_right_ok [of l right s m first] l b by auto
  have step: "partition_loop s first left right m =
      (if l \<ge> r then Some (m, r) else partition_loop s first (l + 1) (r - 1) (sorter_swap s l r m))"
    by (subst partition_loop.simps) (simp only: Let_def l_def [symmetric] r(1) option.case)
  have lo: "le s (element s m i) (element s m first)" if "first \<le> i" "i < l" for i
    using "1.prems"(7) less_le [OF o l(3)] that by (cases "i < left") (auto simp: around_def)
  have hi: "le s (element s m first) (element s m i)" if "r < i" "i < bound" for i
    using "1.prems"(7) less_le [OF o r(4)] that by (cases "i \<le> right") (auto simp: around_def)
  show ?case
  proof (cases "l \<ge> r")
    case True
    have "le s (element s m i) (element s m first)" if "first \<le> i" "i < Suc r" for i
    proof (cases "i < l")
      case False
      then have "i = r" "l \<le> r" using True that by auto
      then show ?thesis using not_less_le r(5) by blast
    qed (use lo that in blast)
    then have "around s m first bound (Suc r) r" using hi by (simp add: around_def)
    then show ?thesis using True step r l b by (intro exI [of _ m] exI [of _ r]) auto
  next
    case False
    then have lr: "l < r" by simp
    let ?m = "sorter_swap s l r m"
    have el: "element s ?m i = (if i = l then element s m r else if i = r then element s m l else element s m i)"
      if "i < bound" for i
      using element_swap [OF f(1), of l r i m] that f(2) lr r(2) b by simp
    have first: "element s ?m first = element s m first" using el [of first] b l lr by simp
    have "le s (element s ?m i) (element s ?m first)" if "first \<le> i" "i < l + 1" for i
      using el [of i] that lr r(2) b lo [of i] not_less_le [OF r(5)] unfolding first by auto
    moreover have "le s (element s ?m first) (element s ?m i)" if "r - 1 < i" "i < bound" for i
      using el [of i] that lr r(2) b hi [of i] not_less_le [OF l(4)] unfolding first by auto
    ultimately have ar: "around s ?m first bound (l + 1) (r - 1)" by (simp add: around_def)
    have "\<exists>m' r'. partition_loop s first (l + 1) (r - 1) ?m = Some (m', r') \<and> first \<le> r' \<and> r' < bound \<and>
        around s m' first bound (Suc r') r' \<and> rearranged s first bound ?m m'"
      by (rule "1.IH" [OF l_def r(1) False o f _ _ _ ar]) (use b l r lr in auto)
    moreover have "rearranged s first bound m ?m"
      by (rule rearranged_swap [OF f(1)]) (use b l r lr f(2) in auto)
    ultimately show ?thesis using False step rearranged_trans by simp blast
  qed
qed

lemma rearranged_if_swap:
  assumes "fits s N" "lo \<le> i" "i < hi" "lo \<le> j" "j < hi" "hi \<le> N" "rearranged s lo hi m m'"
  shows "rearranged s lo hi m (if b then sorter_swap s i j m' else m')"
  using rearranged_trans [OF assms(7) rearranged_swap [OF assms(1-6)]] assms(7) by simp

lemma partition_ok:
  assumes o: "ordered s" and f: "fits s N" "first + n \<le> N" "1 < n"
  shows "\<exists>m' r. sorter_partition s first n m = Some (m', r) \<and> first \<le> r \<and> r < first + n \<and>
    (\<forall>i. first \<le> i \<longrightarrow> i < r \<longrightarrow> le s (element s m' i) (element s m' r)) \<and>
    (\<forall>i. r < i \<longrightarrow> i < first + n \<longrightarrow> le s (element s m' r) (element s m' i)) \<and>
    rearranged s first (first + n) m m'"
proof -
  let ?mid = "first + n div 2" and ?final = "first + n - 1"
  define m1 where "m1 = (if sorter_less s m ?mid first then sorter_swap s ?mid first m else m)"
  define m2 where "m2 = (if sorter_less s m1 ?final first then sorter_swap s ?final first m1 else m1)"
  define m3 where "m3 = (if sorter_less s m2 ?final ?mid then sorter_swap s ?final ?mid m2 else m2)"
  define m4 where "m4 = sorter_swap s ?mid first m3"
  have in_range: "first \<le> ?mid" "?mid < first + n" "first \<le> ?final" "?final < first + n" "first < first + n"
    using f(3) by auto
  have r1: "rearranged s first (first + n) m m1"
    unfolding m1_def by (rule rearranged_if_swap [OF f(1)]) (use in_range f(2) in simp_all)
  have r2: "rearranged s first (first + n) m m2"
    unfolding m2_def by (rule rearranged_if_swap [OF f(1) _ _ _ _ _ r1]) (use in_range f(2) in simp_all)
  have r3: "rearranged s first (first + n) m m3"
    unfolding m3_def by (rule rearranged_if_swap [OF f(1) _ _ _ _ _ r2]) (use in_range f(2) in simp_all)
  have r4: "rearranged s first (first + n) m m4"
    unfolding m4_def by (rule rearranged_trans [OF r3 rearranged_swap [OF f(1)]]) (use in_range f(2) in simp_all)
  have "around s m4 first (first + n) (first + 1) ?final"
    unfolding around_def using le_refl_element [OF o] by (auto simp: less_Suc_eq_le)
  from partition_loop_ok [OF o f(1,2) _ _ _ this]
  obtain m5 r where p: "partition_loop s first (first + 1) ?final m4 = Some (m5, r)" "first \<le> r" "r < first + n"
    "around s m5 first (first + n) (Suc r) r" "rearranged s first (first + n) m4 m5"
    using f(3) by auto
  let ?m = "sorter_swap s first r m5"
  have "sorter_partition s first n m = Some (?m, r)"
    unfolding sorter_partition_def Let_def m1_def [symmetric] m2_def [symmetric] m3_def [symmetric] m4_def [symmetric]
    by (simp only: p(1) bind.bind_lunit prod.case)
  moreover have el: "element s ?m i = (if i = first then element s m5 r else if i = r then element s m5 first
      else element s m5 i)" if "i < first + n" for i
    using element_swap [OF f(1), of first r i m5] that f(2,3) p(3) by simp
  moreover have "le s (element s ?m i) (element s ?m r)" if "first \<le> i" "i < r" for i
    using p(4) that el [of i] el [of r] p(2,3) by (auto simp: around_def)
  moreover have "le s (element s ?m r) (element s ?m i)" if "r < i" "i < first + n" for i
    using p(4) that el [of i] el [of r] p(2,3) by (auto simp: around_def)
  moreover have "rearranged s first (first + n) m5 ?m"
    by (rule rearranged_swap [OF f(1)]) (use p(2,3) f(2,3) in simp_all)
  ultimately show ?thesis using p(2,3) rearranged_trans [OF r4] rearranged_trans [OF p(5)] by blast
qed

subsection \<open>Introsort\<close>

text \<open>
  Elements that are a short partition apart are in order: the final pass moves each element by
  fewer than \<^const>\<open>INSERTION_THRESHOLD\<close> places.
\<close>

definition nearly_sorted :: "sorter \<Rightarrow> mem \<Rightarrow> nat \<Rightarrow> nat \<Rightarrow> bool" where
  "nearly_sorted s m lo hi \<longleftrightarrow>
     (\<forall>i j. lo \<le> i \<longrightarrow> i + INSERTION_THRESHOLD \<le> j \<longrightarrow> j < hi \<longrightarrow> le s (element s m i) (element s m j))"

lemma nearly_sorted_same:
  assumes "nearly_sorted s m lo hi" "\<And>i. lo \<le> i \<Longrightarrow> i < hi \<Longrightarrow> element s m' i = element s m i"
  shows "nearly_sorted s m' lo hi"
  using assms by (simp add: nearly_sorted_def)

lemma nearly_sorted_join:
  assumes o: "ordered s" and "nearly_sorted s m lo p" "nearly_sorted s m (Suc p) hi"
    "\<And>i. lo \<le> i \<Longrightarrow> i < p \<Longrightarrow> le s (element s m i) (element s m p)"
    "\<And>i. p < i \<Longrightarrow> i < hi \<Longrightarrow> le s (element s m p) (element s m i)"
  shows "nearly_sorted s m lo hi"
  unfolding nearly_sorted_def
proof (intro allI impI)
  fix i j assume ij: "lo \<le> i" "i + INSERTION_THRESHOLD \<le> j" "j < hi"
  then have "i < j" by (simp add: INSERTION_THRESHOLD_def)
  then consider "j < p" | "p < i" | "i = p" "p < j" | "i < p" "j = p" | "i < p" "p < j" by linarith
  then show "le s (element s m i) (element s m j)"
    by cases (use assms ij le_trans_element [OF o, of m i m p m j] in \<open>auto simp: nearly_sorted_def\<close>)
qed

text \<open>One range and then a disjoint one, on either side of the pivot, in either order.\<close>

lemma introsort_join:
  assumes o: "ordered s" and f: "fits s N" "first + n \<le> N" and p: "first \<le> p" "p < first + n"
    and piv: "(\<forall>i. first \<le> i \<longrightarrow> i < p \<longrightarrow> le s (element s m i) (element s m p)) \<and>
      (\<forall>i. p < i \<longrightarrow> i < first + n \<longrightarrow> le s (element s m p) (element s m i))"
    and ra: "rearranged s a b m ma" and rb: "rearranged s c d ma m'"
    and near: "nearly_sorted s m' first p" "nearly_sorted s m' (Suc p) (first + n)"
    and ends: "(a, b, c, d) = (first, p, Suc p, first + n) \<or> (a, b, c, d) = (Suc p, first + n, first, p)"
  shows "rearranged s first (first + n) m m' \<and> nearly_sorted s m' first (first + n)"
proof -
  have ea: "element s ma i = element s m i" if "i < a \<or> b \<le> i" "i < N" for i
    using rearranged_element [OF ra f(1) that(2,1)] .
  have eb: "element s m' i = element s ma i" if "i < c \<or> d \<le> i" "i < N" for i
    using rearranged_element [OF rb f(1) that(2,1)] .
  have piv': "element s m' p = element s m p" using ea [of p] eb [of p] ends p f(2) by auto
  have low: "le s (element s m' i) (element s m' p)" if i: "first \<le> i" "i < p" for i
    unfolding piv' using ends
  proof
    assume e: "(a, b, c, d) = (first, p, Suc p, first + n)"
    show "le s (element s m' i) (element s m p)"
      using rearranged_all [OF ra, where P = "\<lambda>x. le s x (element s m p)"] piv eb [of i] e i p f(2) by simp
  next
    assume e: "(a, b, c, d) = (Suc p, first + n, first, p)"
    have "le s (element s ma j) (element s m p)" if "first \<le> j" "j < p" for j
      using piv ea [of j] e that p f(2) by simp
    then show "le s (element s m' i) (element s m p)"
      using rearranged_all [OF rb, where P = "\<lambda>x. le s x (element s m p)"] e i by simp
  qed
  have high: "le s (element s m' p) (element s m' i)" if i: "p < i" "i < first + n" for i
    unfolding piv' using ends
  proof
    assume e: "(a, b, c, d) = (first, p, Suc p, first + n)"
    have "le s (element s m p) (element s ma j)" if "p < j" "j < first + n" for j
      using piv ea [of j] e that p f(2) by simp
    then show "le s (element s m p) (element s m' i)"
      using rearranged_all [OF rb, where P = "\<lambda>x. le s (element s m p) x"] e i by simp
  next
    assume e: "(a, b, c, d) = (Suc p, first + n, first, p)"
    show "le s (element s m p) (element s m' i)"
      using rearranged_all [OF ra, where P = "\<lambda>x. le s (element s m p) x"] piv eb [of i] e i p f(2) by simp
  qed
  have "rearranged s first (first + n) m ma"
    by (rule rearranged_widen [OF ra f(1)]) (use ends p f(2) in auto)
  moreover have "rearranged s first (first + n) ma m'"
    by (rule rearranged_widen [OF rb f(1)]) (use ends p f(2) in auto)
  ultimately show ?thesis using nearly_sorted_join [OF o near low high] rearranged_trans by blast
qed

lemma introsort_ok:
  "ordered s \<Longrightarrow> fits s N \<Longrightarrow> first + n \<le> N \<Longrightarrow>
   \<exists>m'. introsort s first n d m = Some m' \<and> rearranged s first (first + n) m m' \<and>
     nearly_sorted s m' first (first + n)"
proof (induction d arbitrary: first n m)
  case 0
  show ?case
  proof (cases "n > INSERTION_THRESHOLD")
    case True
    then have "0 < n" by simp
    note h = heap_sort_ok [OF 0 this, of m]
    have "le s (element s (heap_sort s first n m) i) (element s (heap_sort s first n m) j)"
      if "first \<le> i" "i \<le> j" "j < first + n" for i j
      using h(1) [unfolded settled_def, rule_format, of "i - first" "j - first"] that by simp
    then have "nearly_sorted s (heap_sort s first n m) first (first + n)" by (simp add: nearly_sorted_def)
    then show ?thesis using True h(2) by simp
  qed (auto simp: nearly_sorted_def)
next
  case (Suc d)
  show ?case
  proof (cases "n > INSERTION_THRESHOLD")
    case True
    note o = Suc.prems(1) and f = Suc.prems(2,3)
    have "1 < n" using True by (simp add: INSERTION_THRESHOLD_def)
    from partition_ok [OF o f this, of m] obtain m1 p where
      p: "sorter_partition s first n m = Some (m1, p)" "first \<le> p" "p < first + n"
      and below: "\<And>i. first \<le> i \<Longrightarrow> i < p \<Longrightarrow> le s (element s m1 i) (element s m1 p)"
      and above: "\<And>i. p < i \<Longrightarrow> i < first + n \<Longrightarrow> le s (element s m1 p) (element s m1 i)"
      and r1: "rearranged s first (first + n) m m1" by blast
    let ?l = "p - first" and ?r = "n - (p - first) - 1"
    have len: "first + ?l = p" "Suc p + ?r = first + n" using p by auto
    have left: "\<exists>m'. introsort s first ?l d m0 = Some m' \<and> rearranged s first p m0 m' \<and> nearly_sorted s m' first p" for m0
      using Suc.IH [OF o f(1), of first ?l m0] p f(2) unfolding len by simp
    have right: "\<exists>m'. introsort s (p + 1) ?r d m0 = Some m' \<and> rearranged s (Suc p) (first + n) m0 m' \<and>
        nearly_sorted s m' (Suc p) (first + n)" for m0
      using Suc.IH [OF o f(1), of "Suc p" ?r m0] f(2) unfolding len by simp
    have fin: "rearranged s first (first + n) m m' \<and> nearly_sorted s m' first (first + n)"
      if "rearranged s a b m1 ma" "rearranged s c d ma m'" "nearly_sorted s m' first p" "nearly_sorted s m' (Suc p) (first + n)"
        "(a, b, c, d) = (first, p, Suc p, first + n) \<or> (a, b, c, d) = (Suc p, first + n, first, p)" for a b c d ma m'
      using introsort_join [OF o f p(2,3) _ that] below above rearranged_trans [OF r1] by blast
    have keep_l: "nearly_sorted s m' first p"
      if "nearly_sorted s ma first p" "rearranged s (Suc p) (first + n) ma m'" for ma m'
      by (rule nearly_sorted_same [OF that(1) rearranged_element [OF that(2) f(1)]]) (use p f(2) in auto)
    have keep_r: "nearly_sorted s m' (Suc p) (first + n)"
      if "nearly_sorted s ma (Suc p) (first + n)" "rearranged s first p ma m'" for ma m'
      by (rule nearly_sorted_same [OF that(1) rearranged_element [OF that(2) f(1)]]) (use p f(2) in auto)
    show ?thesis
    proof (cases "?l < ?r")
      case lt: True
      obtain ma where a: "introsort s first ?l d m1 = Some ma" "rearranged s first p m1 ma" "nearly_sorted s ma first p"
        using left by blast
      obtain mb where b: "introsort s (p + 1) ?r d ma = Some mb" "rearranged s (Suc p) (first + n) ma mb"
        "nearly_sorted s mb (Suc p) (first + n)" using right by blast
      have "introsort s first n (Suc d) m = Some mb" using True lt p(1) a(1) b(1) by (simp add: Let_def)
      then show ?thesis using fin [OF a(2) b(2) keep_l [OF a(3) b(2)] b(3)] by simp
    next
      case ge: False
      obtain ma where a: "introsort s (p + 1) ?r d m1 = Some ma" "rearranged s (Suc p) (first + n) m1 ma"
        "nearly_sorted s ma (Suc p) (first + n)" using right by blast
      obtain mb where b: "introsort s first ?l d ma = Some mb" "rearranged s first p ma mb" "nearly_sorted s mb first p"
        using left by blast
      have "introsort s first n (Suc d) m = Some mb" using True ge p(1) a(1) b(1) by (simp add: Let_def)
      then show ?thesis using fin [OF a(2) b(2) b(3) keep_r [OF a(3) b(2)]] by simp
    qed
  qed (auto simp: nearly_sorted_def)
qed

subsection \<open>The final pass\<close>

text \<open>The elements up to \<open>hi\<close> are in order, but for the one at \<open>j\<close>, which is still on its way down.\<close>

definition sorted_but :: "sorter \<Rightarrow> mem \<Rightarrow> nat \<Rightarrow> nat \<Rightarrow> bool" where
  "sorted_but s m hi j \<longleftrightarrow>
     (\<forall>a b. a < b \<longrightarrow> b \<le> hi \<longrightarrow> a \<noteq> j \<longrightarrow> b \<noteq> j \<longrightarrow> le s (element s m a) (element s m b)) \<and>
     (\<forall>b. j < b \<longrightarrow> b \<le> hi \<longrightarrow> le s (element s m j) (element s m b))"

definition sorted_to :: "sorter \<Rightarrow> mem \<Rightarrow> nat \<Rightarrow> bool" where
  "sorted_to s m n \<longleftrightarrow> (\<forall>a b. a < b \<longrightarrow> b < n \<longrightarrow> le s (element s m a) (element s m b))"

lemma sorted_but_swap:
  assumes o: "ordered s" and f: "fits s N" "hi < N" "Suc j \<le> hi"
    and h: "sorted_but s m hi (Suc j)" and lt: "sorter_less s m (Suc j) j"
  shows "sorted_but s (sorter_swap s (Suc j) j m) hi j"
proof -
  have el: "element s (sorter_swap s (Suc j) j m) k =
      (if k = Suc j then element s m j else if k = j then element s m (Suc j) else element s m k)" if "k \<le> hi" for k
    using element_swap [OF f(1), of "Suc j" j k m] that f(2,3) by simp
  show ?thesis
    unfolding sorted_but_def
    using h less_le [OF o lt] f(3) unfolding sorted_but_def by (auto simp: el)
qed

lemma insert_back_ok:
  "ordered s \<Longrightarrow> fits s N \<Longrightarrow> hi < N \<Longrightarrow> j \<le> hi \<Longrightarrow> sorted_but s m hi j \<Longrightarrow>
   sorted_to s (insert_back s j m) (Suc hi) \<and> rearranged s 0 (Suc hi) m (insert_back s j m)"
proof (induction j arbitrary: m)
  case 0
  then have "sorted_to s m (Suc hi)"
    unfolding sorted_but_def sorted_to_def by (metis gr_implies_not0 less_Suc_eq_le neq0_conv)
  then show ?case by simp
next
  case (Suc j)
  note o = Suc.prems(1) and f = Suc.prems(2-4) and h = Suc.prems(5)
  show ?case
  proof (cases "sorter_less s m (Suc j) j")
    case True
    have "rearranged s 0 (Suc hi) m (sorter_swap s (Suc j) j m)"
      by (rule rearranged_swap [OF f(1)]) (use f in simp_all)
    then show ?thesis
      using True Suc.IH [OF o f(1,2) _ sorted_but_swap [OF o f h True]] f(3) rearranged_trans by auto
  next
    case False
    have j: "le s (element s m j) (element s m (Suc j))" by (rule not_less_le [OF False])
    have "le s (element s m a) (element s m (Suc j))" if "a < Suc j" for a
    proof (cases "a = j")
      case False
      then have "le s (element s m a) (element s m j)" using h that f(3) by (auto simp: sorted_but_def)
      then show ?thesis using le_trans_element [OF o _ j] by blast
    qed (use j in simp)
    then have "sorted_to s m (Suc hi)" using h unfolding sorted_but_def sorted_to_def by (metis less_Suc_eq_le)
    then show ?thesis using False by simp
  qed
qed

lemma insertion_sort_ok:
  assumes "ordered s" "fits s n"
  shows "sorted_to s (insertion_sort s n m) n" "rearranged s 0 n m (insertion_sort s n m)"
proof -
  have "sorted_to s (fold (insert_back s) [1..<k] m) k \<and> rearranged s 0 n m (fold (insert_back s) [1..<k] m)"
    if "k \<le> n" for k
    using that
  proof (induction k)
    case 0
    then show ?case by (simp add: sorted_to_def)
  next
    case (Suc k)
    let ?m = "fold (insert_back s) [1..<k] m"
    show ?case
    proof (cases "k = 0")
      case False
      have "sorted_but s ?m k k" using Suc by (simp add: sorted_but_def sorted_to_def)
      from insert_back_ok [OF assms _ _ this] Suc.prems
      have st: "sorted_to s (insert_back s k ?m) (Suc k)" "rearranged s 0 (Suc k) ?m (insert_back s k ?m)" by auto
      have "rearranged s 0 n ?m (insert_back s k ?m)"
        by (rule rearranged_widen [OF st(2) assms(2)]) (use Suc.prems in auto)
      then show ?thesis using False st(1) Suc rearranged_trans by auto
    qed (simp add: sorted_to_def)
  qed
  then show "sorted_to s (insertion_sort s n m) n" "rearranged s 0 n m (insertion_sort s n m)"
    by (simp_all add: insertion_sort_def)
qed

subsection \<open>Properties\<close>

lemma sorted_to_wrt:
  assumes "\<And>a b. a < b \<Longrightarrow> b < n \<Longrightarrow> le s (element s m (first + a)) (element s m (first + b))"
  shows "sorted_wrt (\<lambda>x y. 0 \<le> m_compare s y x) (map (element s m) [first..<first + n])"
  using assms by (simp add: sorted_wrt_iff_nth_less le_def)

text \<open>The elements of an array, each as the list of its bytes.\<close>

definition elements :: "addr \<Rightarrow> nat \<Rightarrow> u64 \<Rightarrow> mem \<Rightarrow> u8 list list" where
  "elements base n sz m = map (\<lambda>i. map (\<lambda>k. m (base + of_nat i * sz + of_nat k)) [0..<unat sz]) [0..<n]"

text \<open>C24:
  For a comparison function that orders the elements, \<^verbatim>\<open>qsort\<close> returns, and the array then holds the
  same elements in an order in which no element is after a later one; no byte outside the array has
  changed.  The array is an object of fewer than \<open>2\<^sup>6\<^sup>3\<close> bytes, so no index of the source wraps.
\<close>

theorem qsort_sorts:
  assumes "ordering (unat sz) compare" "unat n * unat sz < 2 ^ 63"
  shows "\<exists>m'. qsort base n sz compare m = Some m' \<and>
    sorted_wrt (\<lambda>x y. 0 \<le> compare y x) (elements base (unat n) sz m') \<and>
    mset (elements base (unat n) sz m') = mset (elements base (unat n) sz m) \<and>
    (\<forall>x. unat n * unat sz \<le> unat (x - base) \<longrightarrow> m' x = m x)"
proof -
  define s where "s = \<lparr>m_base = base, m_size = sz, m_compare = compare\<rparr>"
  have s: "ordered s" "fits s (unat n)" using assms(1,2) by (simp_all add: s_def fits_def)
  have el: "elements base (unat n) sz m' = map (element s m') [0..<unat n]" for m'
    by (simp add: elements_def element_def element_at_def s_def)
  have sorted: "sorted_wrt (\<lambda>x y. 0 \<le> compare y x) (elements base (unat n) sz m')" if "sorted_to s m' (unat n)" for m'
    using sorted_to_wrt [of "unat n" s m' 0] that by (simp add: el s_def sorted_to_def)
  show ?thesis
  proof (cases "n < 2 \<or> sz = 0")
    case True
    have "sorted_to s m (unat n)"
      unfolding sorted_to_def
    proof (intro allI impI)
      fix a b assume "a < b" "b < unat n"
      then have "sz = 0" using True by (auto simp: word_less_nat_alt)
      then have "element s m a = element s m b" by (simp add: element_def s_def)
      then show "le s (element s m a) (element s m b)" using le_refl_element [OF s(1)] by simp
    qed
    then show ?thesis using sorted True by (auto simp: qsort_def)
  next
    case False
    obtain m1 where m1: "introsort s 0 (unat n) (2 * bit_width n) m = Some m1" "rearranged s 0 (unat n) m m1"
      using introsort_ok [OF s, of 0 "unat n"] by auto
    let ?m = "insertion_sort s (unat n) m1"
    have "qsort base n sz compare m = Some ?m"
      using False m1(1) by (simp add: qsort_def s_def Let_def)
    moreover have "sorted_to s ?m (unat n)" "rearranged s 0 (unat n) m ?m"
      using insertion_sort_ok [OF s] rearranged_trans [OF m1(2)] by auto
    moreover have "x \<notin> byte_span s 0 (unat n)" if "unat n * unat sz \<le> unat (x - base)" for x
      using that by (simp add: byte_span_def s_def)
    ultimately show ?thesis using sorted unfolding rearranged_def el by blast
  qed
qed

definition demo_compare :: compare_fn where
  "demo_compare x y = (case (x, y) of (a # _, b # _) \<Rightarrow> uint a - uint b | _ \<Rightarrow> 0)"

lemma demo_ordering: "ordering 1 demo_compare"
  by (auto simp: ordering_def demo_compare_def length_Suc_conv)

theorem qsort_sorts_witness:
  "ordering (unat (1 :: u64)) demo_compare \<and> unat (20 :: u64) * unat (1 :: u64) < 2 ^ 63 \<and>
   (\<exists>m'. qsort 0x1000 20 1 demo_compare (\<lambda>a. ucast (7 * a)) = Some m' \<and>
      sorted_wrt (\<lambda>x y. 0 \<le> demo_compare y x) (elements 0x1000 (unat (20 :: u64)) 1 m') \<and>
      mset (elements 0x1000 (unat (20 :: u64)) 1 m') = mset (elements 0x1000 (unat (20 :: u64)) 1 (\<lambda>a. ucast (7 * a))))"
proof -
  have o: "ordering (unat (1 :: u64)) demo_compare" using demo_ordering by simp
  have n: "unat (20 :: u64) * unat (1 :: u64) < 2 ^ 63" by simp
  show ?thesis using qsort_sorts [OF o n, of "0x1000" "\<lambda>a. ucast (7 * a)"] o n by blast
qed

text \<open>C25:
  Whatever the depth limit, introsort returns, with every element fewer than
  \<^const>\<open>INSERTION_THRESHOLD\<close> places from where it belongs: elements that are that far apart are
  already in order.  When the limit is used up, the heap sort puts the whole range in order.
\<close>

theorem introsort_within_partition:
  assumes "ordering (unat (m_size s)) (m_compare s)" "(first + n) * unat (m_size s) < 2 ^ 63"
  shows "(\<exists>m'. introsort s first n depth_limit m = Some m' \<and>
      (\<forall>i j. first \<le> i \<longrightarrow> i + INSERTION_THRESHOLD \<le> j \<longrightarrow> j < first + n \<longrightarrow>
         0 \<le> m_compare s (element s m' j) (element s m' i)) \<and>
      mset (map (element s m') [first..<first + n]) = mset (map (element s m) [first..<first + n])) \<and>
    (0 < n \<longrightarrow> sorted_wrt (\<lambda>x y. 0 \<le> m_compare s y x)
       (map (element s (heap_sort s first n m)) [first..<first + n]))"
proof -
  have f: "fits s (first + n)" using assms(2) by (simp add: fits_def)
  have "sorted_wrt (\<lambda>x y. 0 \<le> m_compare s y x) (map (element s (heap_sort s first n m)) [first..<first + n])" if "0 < n"
    using heap_sort_ok(1) [OF assms(1) f _ that, of first m] by (intro sorted_to_wrt) (simp add: settled_def)
  then show ?thesis
    using introsort_ok [OF assms(1) f, of first n depth_limit m]
    unfolding nearly_sorted_def rearranged_def le_def by auto
qed

definition demo_sorter :: sorter where
  "demo_sorter = \<lparr>m_base = 0x1000, m_size = 1, m_compare = demo_compare\<rparr>"

theorem introsort_within_partition_witness:
  "ordering (unat (m_size demo_sorter)) (m_compare demo_sorter) \<and> (4 + 40) * unat (m_size demo_sorter) < 2 ^ 63 \<and>
   (\<exists>m'. introsort demo_sorter 4 40 1 (\<lambda>a. ucast (7 * a)) = Some m' \<and>
      0 \<le> m_compare demo_sorter (element demo_sorter m' 30) (element demo_sorter m' 10)) \<and>
   sorted_wrt (\<lambda>x y. 0 \<le> m_compare demo_sorter y x)
     (map (element demo_sorter (heap_sort demo_sorter 4 40 (\<lambda>a. ucast (7 * a)))) [4..<4 + 40])"
proof -
  have o: "ordering (unat (m_size demo_sorter)) (m_compare demo_sorter)"
    using demo_ordering by (simp add: demo_sorter_def)
  have n: "(4 + 40) * unat (m_size demo_sorter) < 2 ^ 63" by (simp add: demo_sorter_def)
  note t = introsort_within_partition [OF o n, of 1 "\<lambda>a. ucast (7 * a)"]
  from t obtain m' where m': "introsort demo_sorter 4 40 1 (\<lambda>a. ucast (7 * a)) = Some m'"
    "\<forall>i j. 4 \<le> i \<longrightarrow> i + INSERTION_THRESHOLD \<le> j \<longrightarrow> j < 4 + 40 \<longrightarrow>
       0 \<le> m_compare demo_sorter (element demo_sorter m' j) (element demo_sorter m' i)" by blast
  have "0 \<le> m_compare demo_sorter (element demo_sorter m' 30) (element demo_sorter m' 10)"
    by (rule m'(2) [rule_format]) (simp_all add: INSERTION_THRESHOLD_def)
  moreover have "(0 :: nat) < 40" by simp
  ultimately show ?thesis using o n m'(1) t by blast
qed

end
