(* ===== verification/StdNum.thy ===== *)
theory StdNum
  imports StrText "HOL-Library.Signed_Division" "HOL-Library.Monad_Syntax"
begin

text \<open>
  The character classes of \<^verbatim>\<open>klib/include/ctype.h\<close> and the number functions of
  \<^verbatim>\<open>klib/src/stdlib/\<close>: \<^verbatim>\<open>abs.cpp\<close>, \<^verbatim>\<open>atoi.cpp\<close>, \<^verbatim>\<open>strtol.cpp\<close> and the binary search of \<^verbatim>\<open>bsearch.cpp\<close>.
  An \<^verbatim>\<open>int\<close> is a 32-bit word, read with sign; a \<^verbatim>\<open>char\<close> is sign-extended when it is passed as one.
  The scans over a string may run on for as long as the memory looks like a number, so they are
  partial: \<^const>\<open>None\<close> is a scan that does not end.
\<close>

subsection \<open>Character classes\<close>

type_synonym c_int = "32 word"

definition islower :: "c_int \<Rightarrow> bool" where "islower c \<longleftrightarrow> (c AND 0xFF) - 0x61 < 26"

definition isupper :: "c_int \<Rightarrow> bool" where "isupper c \<longleftrightarrow> (c AND 0xFF) - 0x41 < 26"

definition isalpha :: "c_int \<Rightarrow> bool" where "isalpha c \<longleftrightarrow> ((c AND 0xFF) OR 0x20) - 0x61 < 26"

definition isdigit :: "c_int \<Rightarrow> bool" where "isdigit c \<longleftrightarrow> (c AND 0xFF) - 0x30 < 10"

definition isalnum :: "c_int \<Rightarrow> bool" where "isalnum c \<longleftrightarrow> isalpha c \<or> isdigit c"

definition isxdigit :: "c_int \<Rightarrow> bool" where
  "isxdigit c \<longleftrightarrow> isdigit c \<or> ((c AND 0xFF) OR 0x20) - 0x61 < 6"

definition isspace :: "c_int \<Rightarrow> bool" where
  "isspace c \<longleftrightarrow> c AND 0xFF = 0x20 \<or> (c AND 0xFF) - 0x09 < 5"

definition isblank :: "c_int \<Rightarrow> bool" where "isblank c \<longleftrightarrow> c AND 0xFF = 0x20 \<or> c AND 0xFF = 0x09"

definition isprint :: "c_int \<Rightarrow> bool" where "isprint c \<longleftrightarrow> (c AND 0xFF) - 0x20 < 95"

definition isgraph :: "c_int \<Rightarrow> bool" where "isgraph c \<longleftrightarrow> (c AND 0xFF) - 0x21 < 94"

definition iscntrl :: "c_int \<Rightarrow> bool" where "iscntrl c \<longleftrightarrow> c AND 0xFF < 0x20 \<or> c AND 0xFF = 0x7F"

definition ispunct :: "c_int \<Rightarrow> bool" where "ispunct c \<longleftrightarrow> isgraph c \<and> \<not> isalnum c"

definition tolower :: "c_int \<Rightarrow> c_int" where "tolower c = (if isupper c then c OR 0x20 else c)"

definition toupper :: "c_int \<Rightarrow> c_int" where "toupper c = (if islower c then c AND NOT 0x20 else c)"

subsection \<open>Absolute value and division\<close>

definition abs_impl :: "'a::len word \<Rightarrow> 'a word" where
  "abs_impl x = (let mask = signed_drop_bit (LENGTH('a) - 1) x in (x XOR mask) - mask)"

text \<open>The division instruction faults on a zero divisor and on a quotient that does not fit.\<close>

definition div_impl :: "'a::len word \<Rightarrow> 'a word \<Rightarrow> ('a word \<times> 'a word) option" where
  "div_impl numer denom =
     (if denom = 0 \<or> (numer = push_bit (LENGTH('a) - 1) 1 \<and> denom = NOT 0) then None
      else Some (word_of_int (sint numer sdiv sint denom), word_of_int (sint numer smod sint denom)))"

subsection \<open>Numbers in strings\<close>

partial_function (option) skip_space :: "mem \<Rightarrow> addr \<Rightarrow> addr option" where
  "skip_space m s = (if isspace (scast (m s)) then skip_space m (s + 1) else Some s)"

definition read_sign :: "mem \<Rightarrow> addr \<Rightarrow> bool \<times> addr" where
  "read_sign m s = (if m s = 0x2D then (True, s + 1) else if m s = 0x2B then (False, s + 1) else (False, s))"

partial_function (option) atoX_loop :: "mem \<Rightarrow> addr \<Rightarrow> 'a::len word \<Rightarrow> 'a word option" where
  "atoX_loop m s res =
     (let c = m s - 0x30 in
      if c < 10 then atoX_loop m (s + 1) (res * 10 + ucast c) else Some res)"

definition atoX :: "mem \<Rightarrow> addr \<Rightarrow> 'a::len word option" where
  "atoX m str = do {
     s \<leftarrow> skip_space m str;
     let (neg, s) = read_sign m s;
     res \<leftarrow> atoX_loop m s 0;
     Some (if neg then - res else res)
   }"

definition digit_value :: "u8 \<Rightarrow> u32" where
  "digit_value c =
     (if ucast c - 0x30 < (10 :: u32) then ucast c - 0x30
      else let letter = (ucast c OR 0x20) - 0x61 in if letter < 26 then letter + 10 else 255)"

definition read_base :: "mem \<Rightarrow> addr \<Rightarrow> int \<Rightarrow> int \<times> addr" where
  "read_base m s base =
     (if (base = 0 \<or> base = 16) \<and> m s = 0x30 \<and> m (s + 1) OR 0x20 = 0x78 then
        (if digit_value (m (s + 2)) < 16 then (16, s + 2) else if base = 0 then (8, s) else (base, s))
      else if base = 0 then (if m s = 0x30 then (8, s) else (10, s))
      else (base, s))"

partial_function (option) strtoX_loop ::
    "mem \<Rightarrow> int \<Rightarrow> 'a::len word \<Rightarrow> 'a word \<Rightarrow> addr \<Rightarrow> 'a word \<Rightarrow> bool \<Rightarrow> bool \<Rightarrow> (addr \<times> 'a word \<times> bool \<times> bool) option" where
  "strtoX_loop m base cutoff cutlim s acc any_digits overflow =
     (let val = digit_value (m s) in
      if uint val \<ge> base then Some (s, acc, any_digits, overflow)
      else if overflow then strtoX_loop m base cutoff cutlim (s + 1) acc True overflow
      else if acc > cutoff \<or> (acc = cutoff \<and> ucast val > cutlim)
      then strtoX_loop m base cutoff cutlim (s + 1) acc True True
      else strtoX_loop m base cutoff cutlim (s + 1) (acc * word_of_int base + ucast val) True overflow)"

definition store_end :: "ptr \<Rightarrow> addr \<Rightarrow> mem \<Rightarrow> mem" where
  "store_end endptr v m = (case endptr of None \<Rightarrow> m | Some p \<Rightarrow> unaligned_store p v m)"

definition max_signed :: "'a::len word" where
  "max_signed = NOT (push_bit (LENGTH('a) - 1) 1)"

definition strtoX :: "bool \<Rightarrow> mem \<Rightarrow> addr \<Rightarrow> ptr \<Rightarrow> int \<Rightarrow> ('a::len word \<times> mem) option" where
  "strtoX is_signed m nptr endptr base = do {
     s \<leftarrow> skip_space m nptr;
     let (neg, s) = read_sign m s;
     let (base, s) = read_base m s base;
     if base < 2 \<or> base > 36 then Some (0, store_end endptr nptr m)
     else do {
       let limit = (if is_signed then (if neg then max_signed + 1 else max_signed) else NOT 0 :: 'a word);
       (s, acc, any_digits, overflow) \<leftarrow>
         strtoX_loop m base (limit div word_of_int base) (limit mod word_of_int base) s 0 False False;
       if \<not> any_digits then Some (0, store_end endptr nptr m)
       else Some
         (if overflow then (if is_signed then (if neg then push_bit (LENGTH('a) - 1) 1 else max_signed) else NOT 0)
          else if neg then 0 - acc else acc,
          store_end endptr s m)
     }
   }"

definition atoi :: "mem \<Rightarrow> addr \<Rightarrow> c_int option" where "atoi = atoX"

definition atol :: "mem \<Rightarrow> addr \<Rightarrow> u64 option" where "atol = atoX"

definition strtol :: "mem \<Rightarrow> addr \<Rightarrow> ptr \<Rightarrow> int \<Rightarrow> (u64 \<times> mem) option" where
  "strtol = strtoX True"

definition strtoul :: "mem \<Rightarrow> addr \<Rightarrow> ptr \<Rightarrow> int \<Rightarrow> (u64 \<times> mem) option" where
  "strtoul = strtoX False"

subsection \<open>Binary search\<close>

text \<open>
  The comparison function is a parameter that reads the memory through the two pointers it is
  given; the doubling of \<^verbatim>\<open>bound\<close> may wrap, so both loops are partial.
\<close>

partial_function (option) gallop :: "(addr \<Rightarrow> int) \<Rightarrow> addr \<Rightarrow> u64 \<Rightarrow> u64 \<Rightarrow> u64 \<Rightarrow> u64 option" where
  "gallop cmp base n sz bound =
     (if bound < n \<and> cmp (base + bound * sz) > 0 then gallop cmp base n sz (bound * 2) else Some bound)"

partial_function (option) bsearch_loop :: "(addr \<Rightarrow> int) \<Rightarrow> addr \<Rightarrow> u64 \<Rightarrow> u64 \<Rightarrow> u64 \<Rightarrow> ptr option" where
  "bsearch_loop cmp base sz left right =
     (if left \<le> right then
        let mid = left + (right - left) div 2;
            mid_ptr = base + mid * sz;
            cmp_res = cmp mid_ptr
        in if cmp_res = 0 then Some (Some mid_ptr)
           else if cmp_res > 0 then bsearch_loop cmp base sz (mid + 1) right
           else if mid = 0 then Some None
           else bsearch_loop cmp base sz left (mid - 1)
      else Some None)"

definition bsearch :: "addr \<Rightarrow> addr \<Rightarrow> u64 \<Rightarrow> u64 \<Rightarrow> (addr \<Rightarrow> addr \<Rightarrow> int) \<Rightarrow> ptr option" where
  "bsearch key base n sz compar =
     (if n = 0 \<or> sz = 0 then Some None
      else if compar key base = 0 then Some (Some base)
      else do {
        bound \<leftarrow> gallop (compar key) base n sz 1;
        bsearch_loop (compar key) base sz (bound div 2) (if bound < n then bound else n - 1)
      })"

subsection \<open>Bytes\<close>

lemma all_bytes:
  assumes "list_all (\<lambda>n. P (word_of_int (int n))) [0..<256]"
  shows "P (b :: u8)"
proof -
  have "unat b \<in> set [0..<256]" using unat_bound [of b] by simp
  with assms [unfolded list_all_iff] have "P (word_of_int (int (unat b)))" by (rule bspec)
  then show ?thesis by simp
qed

lemma digit_value_decimal:
  "digit_value b < 10 \<longleftrightarrow> b - 0x30 < 10" "b - 0x30 < 10 \<Longrightarrow> digit_value b = ucast (b - 0x30)"
proof -
  have "(digit_value b < 10 \<longleftrightarrow> b - 0x30 < 10) \<and> (b - 0x30 < 10 \<longrightarrow> digit_value b = ucast (b - 0x30))"
    by (rule all_bytes) code_simp
  then show "digit_value b < 10 \<longleftrightarrow> b - 0x30 < 10" "b - 0x30 < 10 \<Longrightarrow> digit_value b = ucast (b - 0x30)" by auto
qed

lemma digit_value_char:
  "digit_value b < 36 \<Longrightarrow> \<not> isspace (scast b) \<and> b \<noteq> 0x2D \<and> b \<noteq> 0x2B" "36 \<le> digit_value b \<Longrightarrow> digit_value b = 255"
proof -
  have "(digit_value b < 36 \<longrightarrow> \<not> isspace (scast b) \<and> b \<noteq> 0x2D \<and> b \<noteq> 0x2B) \<and> (36 \<le> digit_value b \<longrightarrow> digit_value b = 255)"
    by (rule all_bytes) code_simp
  then show "digit_value b < 36 \<Longrightarrow> \<not> isspace (scast b) \<and> b \<noteq> 0x2D \<and> b \<noteq> 0x2B"
    "36 \<le> digit_value b \<Longrightarrow> digit_value b = 255" by auto
qed

lemma low_byte: "c AND 0xFF = ucast (ucast c :: u8)" for c :: c_int
proof (rule bit_word_eqI)
  fix k assume "k < LENGTH(32)"
  have e: "(0xFF :: c_int) = mask 8" by (simp add: mask_eq_exp_minus_1)
  show "bit (c AND 0xFF) k = bit (ucast (ucast c :: u8) :: c_int) k"
    unfolding e by (auto simp: bit_and_iff bit_mask_iff bit_unsigned_iff dest: bit_imp_le_length)
qed

subsection \<open>Numbers in strings\<close>

text \<open>The number that a list of digits stands for.\<close>

definition number :: "int \<Rightarrow> int \<Rightarrow> u8 list \<Rightarrow> int" where
  "number r = foldl (\<lambda>v d. v * r + uint (digit_value d))"

lemma number_simps [simp]:
  "number r v [] = v" "number r v (d # ds) = number r (v * r + uint (digit_value d)) ds"
  "number r v (ds @ es) = number r (number r v ds) es"
  by (simp_all add: number_def)

lemma number_mono: "0 \<le> v \<Longrightarrow> 1 \<le> r \<Longrightarrow> v \<le> number r v ds"
proof (induction ds arbitrary: v)
  case (Cons d ds)
  have "v * 1 \<le> v * r" using Cons.prems by (intro mult_left_mono) auto
  then have "v \<le> v * r + uint (digit_value d)" by (simp add: add_increasing2)
  also have "\<dots> \<le> number r (v * r + uint (digit_value d)) ds"
    using calculation Cons.prems by (intro Cons.IH) auto
  finally show ?case by simp
qed simp

lemma skip_space_ok:
  "\<forall>b\<in>set ws. isspace (scast b) \<Longrightarrow> text_at m p (ws @ [b]) \<Longrightarrow> \<not> isspace (scast b) \<Longrightarrow>
   skip_space m p = Some (p + of_nat (length ws))"
proof (induction ws arbitrary: p)
  case Nil
  then show ?case by (subst skip_space.simps) simp
next
  case (Cons w ws)
  then have "skip_space m (p + 1) = Some (p + 1 + of_nat (length ws))" by (intro Cons.IH) auto
  then show ?case using Cons.prems by (subst skip_space.simps) (simp add: algebra_simps)
qed

lemma read_sign_ok:
  "sg \<in> {[], [0x2B], [0x2D]} \<Longrightarrow> text_at m p (sg @ [b]) \<Longrightarrow> (sg = [] \<Longrightarrow> b \<noteq> 0x2B \<and> b \<noteq> 0x2D) \<Longrightarrow>
   read_sign m p = (sg = [0x2D], p + of_nat (length sg))"
  by (auto simp: read_sign_def)

lemma atoX_loop_ok:
  "\<forall>d\<in>set ds. digit_value d < 10 \<Longrightarrow> \<not> digit_value b < 10 \<Longrightarrow> text_at m p (ds @ [b]) \<Longrightarrow>
   atoX_loop m p (word_of_int v :: 'a::len word) = Some (word_of_int (number 10 v ds))"
proof (induction ds arbitrary: p v)
  case Nil
  then show ?case by (subst atoX_loop.simps) (simp add: digit_value_decimal)
next
  case (Cons d ds)
  have d: "d - 0x30 < 10" using Cons.prems(1) digit_value_decimal(1) [of d] by simp
  have "uint (digit_value d) = uint (d - 0x30)"
    using digit_value_decimal(2) [OF d] by (simp add: uint_up_ucast is_up)
  then have e: "word_of_int v * 10 + ucast (d - 0x30) = (word_of_int (v * 10 + uint (digit_value d)) :: 'a word)"
    by (simp add: of_int_of_nat_eq) 
  have "atoX_loop m (p + 1) (word_of_int (v * 10 + uint (digit_value d)) :: 'a word) =
      Some (word_of_int (number 10 (v * 10 + uint (digit_value d)) ds))"
    using Cons.prems by (intro Cons.IH) auto
  then show ?case using Cons.prems(3) d by (subst atoX_loop.simps) (simp add: e Let_def)
qed

lemma over_limit:
  assumes "0 < r" "0 \<le> d" "d < r"
  shows "(v > L div r \<or> v = L div r \<and> d > L mod r) \<longleftrightarrow> v * r + d > (L :: int)"
proof -
  obtain q k where q: "q = L div r" and k: "k = L mod r" by simp
  have L: "L = q * r + k" unfolding q k by simp
  have m: "0 \<le> k" "k < r" using assms by (simp_all add: k)
  consider "v < q" | "v = q" | "v > q" by linarith
  then have "(v > q \<or> v = q \<and> d > k) \<longleftrightarrow> v * r + d > q * r + k"
  proof cases
    case 1
    then have "(v + 1) * r \<le> q * r" using assms(1) by (intro mult_right_mono) auto
    then show ?thesis using 1 m assms by (simp add: distrib_right)
  next
    case 3
    then have "(q + 1) * r \<le> v * r" using assms(1) by (intro mult_right_mono) auto
    then show ?thesis using 3 m assms by (simp add: distrib_right)
  qed auto
  then show ?thesis unfolding q [symmetric] k [symmetric] L [symmetric] .
qed

lemma strtoX_overflowed:
  "\<forall>d\<in>set ds. uint (digit_value d) < r \<Longrightarrow> \<not> uint (digit_value b) < r \<Longrightarrow> text_at m p (ds @ [b]) \<Longrightarrow>
   strtoX_loop m r cutoff cutlim p acc any True = Some (p + of_nat (length ds), acc, any \<or> ds \<noteq> [], True)"
proof (induction ds arbitrary: p any)
  case Nil
  then show ?case by (subst strtoX_loop.simps) simp
next
  case (Cons d ds)
  then have "strtoX_loop m r cutoff cutlim (p + 1) acc True True = Some (p + 1 + of_nat (length ds), acc, True, True)"
    by (subst Cons.IH) auto
  then show ?case using Cons.prems by (subst strtoX_loop.simps) (simp add: algebra_simps)
qed

lemma strtoX_loop_ok:
  fixes limit :: u64
  assumes r: "2 \<le> r" "r \<le> 36"
  shows "\<forall>d\<in>set ds. uint (digit_value d) < r \<Longrightarrow> \<not> uint (digit_value b) < r \<Longrightarrow> text_at m p (ds @ [b]) \<Longrightarrow>
     0 \<le> v \<Longrightarrow> v \<le> uint limit \<Longrightarrow>
     \<exists>acc. strtoX_loop m r (limit div word_of_int r) (limit mod word_of_int r) p (word_of_int v) any False =
       Some (p + of_nat (length ds), acc, any \<or> ds \<noteq> [], number r v ds > uint limit) \<and>
       (number r v ds \<le> uint limit \<longrightarrow> acc = word_of_int (number r v ds))"
proof (induction ds arbitrary: p v any)
  case Nil
  then show ?case by (subst strtoX_loop.simps) auto
next
  case (Cons d ds)
  let ?L = "uint limit" and ?d = "uint (digit_value d)" and ?w = "word_of_int v :: u64"
  have rw: "uint (word_of_int r :: u64) = r" using r by (simp add: uint_word_of_int_eq take_bit_int_eq_self)
  have c: "uint (limit div word_of_int r) = ?L div r" "uint (limit mod word_of_int r) = ?L mod r"
    by (simp_all only: uint_div uint_mod rw)
  have v: "uint ?w = v" using Cons.prems(4,5) uint_bound [of limit] by (simp add: uint_word_of_int_eq take_bit_int_eq_self)
  have dv: "uint (ucast (digit_value d) :: u64) = ?d" by (simp add: uint_up_ucast is_up)
  have d: "?d < r" using Cons.prems(1) by simp
  have test: "(?w > limit div word_of_int r \<or> ?w = limit div word_of_int r \<and> ucast (digit_value d) > limit mod word_of_int r)
      \<longleftrightarrow> v * r + ?d > ?L"
    using over_limit [of r ?d ?L v] r d by (simp only: word_less_alt word_uint_eq_iff c v dv) simp
  let ?N = "number r (v * r + ?d) ds"
  have mono: "v * r + ?d \<le> ?N"
    using Cons.prems(4) r by (intro number_mono) auto
  have tail: "text_at m (p + 1) (ds @ [b])" using Cons.prems(3) by simp
  show ?case
  proof (cases "v * r + ?d > ?L")
    case True
    have "strtoX_loop m r (limit div word_of_int r) (limit mod word_of_int r) p ?w any False =
        strtoX_loop m r (limit div word_of_int r) (limit mod word_of_int r) (p + 1) ?w True True"
      using Cons.prems(3) d True test by (subst strtoX_loop.simps) (simp add: Let_def)
    also have "\<dots> = Some (p + 1 + of_nat (length ds), ?w, True, True)"
      using Cons.prems(1) by (subst strtoX_overflowed [OF _ Cons.prems(2) tail]) auto
    finally show ?thesis using True mono by (auto simp: algebra_simps)
  next
    case False
    have e: "?w * word_of_int r + ucast (digit_value d) = word_of_int (v * r + ?d)"
      by (simp add: dv [symmetric])
    have "strtoX_loop m r (limit div word_of_int r) (limit mod word_of_int r) p ?w any False =
        strtoX_loop m r (limit div word_of_int r) (limit mod word_of_int r) (p + 1) (word_of_int (v * r + ?d)) True False"
      using Cons.prems(3) d False test e by (subst strtoX_loop.simps) (auto simp: Let_def)
    moreover have "0 \<le> v * r + ?d" using Cons.prems(4) r by auto
    ultimately show ?thesis
      using Cons.IH [OF _ Cons.prems(2) tail, of "v * r + ?d" True] Cons.prems(1) False by (auto simp: algebra_simps)
  qed
qed

text \<open>
  What a text looks like to \<^verbatim>\<open>strtol\<close>: white space, a sign, a prefix, digits in base \<open>r\<close>, and the byte
  that ends them; the byte after that one decides whether \<^verbatim>\<open>0x\<close> is a prefix.
\<close>

definition number_base :: "int \<Rightarrow> u8 list \<Rightarrow> u8 list \<Rightarrow> u8 \<Rightarrow> u8 \<Rightarrow> int \<Rightarrow> bool" where
  "number_base base pre ds stop after r \<longleftrightarrow>
     (if pre = [] then
        r = (if base = 0 then if hd (ds @ [stop]) = 0x30 then 8 else 10 else base) \<and>
        \<not> ((base = 0 \<or> base = 16) \<and> ds = [0x30] \<and> stop \<in> {0x58, 0x78} \<and> digit_value after < 16)
      else (base = 0 \<or> base = 16) \<and> r = 16 \<and> pre \<in> {[0x30, 0x58], [0x30, 0x78]} \<and> ds \<noteq> [])"

definition number_text :: "int \<Rightarrow> u8 list \<Rightarrow> u8 list \<Rightarrow> u8 list \<Rightarrow> u8 list \<Rightarrow> u8 \<Rightarrow> u8 \<Rightarrow> int \<Rightarrow> bool" where
  "number_text base ws sg pre ds stop after r \<longleftrightarrow>
     (\<forall>b\<in>set ws. isspace (scast b)) \<and> \<not> isspace (scast (hd (sg @ pre @ ds @ [stop]))) \<and>
     sg \<in> {[], [0x2B], [0x2D]} \<and> (sg = [] \<longrightarrow> hd (pre @ ds @ [stop]) \<notin> {0x2B, 0x2D}) \<and>
     number_base base pre ds stop after r \<and>
     (\<forall>d\<in>set ds. uint (digit_value d) < r) \<and> r \<le> uint (digit_value stop)"

lemma fold_case_x: "b OR 0x20 = 0x78 \<longleftrightarrow> b = 0x58 \<or> b = (0x78 :: u8)"
  by (rule all_bytes) code_simp

lemma digit_values: "digit_value 0x30 = 0" "digit_value 0x58 = 33" "digit_value 0x78 = 33"
  by (simp_all add: digit_value_def)

lemma read_base_ok:
  assumes "text_at m p (pre @ ds @ [stop, after])" "number_base base pre ds stop after r"
    "\<forall>d\<in>set ds. uint (digit_value d) < r" "r \<le> uint (digit_value stop)"
  shows "read_base m p base = (r, p + of_nat (length pre))"
proof (cases "pre = []")
  case pre: True
  show ?thesis
  proof (cases "(base = 0 \<or> base = 16) \<and> m p = 0x30 \<and> m (p + 1) OR 0x20 = 0x78")
    case x: True
    then have r: "r = 8 \<or> r = 16" using assms(1,2) pre by (cases ds) (auto simp: number_base_def)
    have "ds \<noteq> []" using r x assms(1,4) pre by (auto simp: digit_values)
    then obtain ds' where ds: "ds = 0x30 # ds'" using x assms(1) pre by (cases ds) auto
    have x1: "m (p + 1) = 0x58 \<or> m (p + 1) = 0x78" using x fold_case_x by blast
    have "ds' = []"
    proof (rule ccontr)
      assume "ds' \<noteq> []"
      then have "digit_value (m (p + 1)) \<in> digit_value ` set ds" using assms(1) pre ds by (cases ds') auto
      then have "uint (digit_value (m (p + 1))) < r" using assms(3) by auto
      then show False using x1 r by (auto simp: digit_values)
    qed
    then show ?thesis
      using x x1 ds pre assms(1,2) by (auto simp: read_base_def number_base_def add.assoc)
  next
    case False
    have "m p = hd (ds @ [stop])" using assms(1) pre by (cases ds) auto
    then show ?thesis using False pre assms(2) unfolding read_base_def number_base_def by auto
  qed
next
  case False
  then obtain d ds' where ds: "ds = d # ds'" using assms(2) by (cases ds) (auto simp: number_base_def)
  have "uint (digit_value d) < 16" using assms(2,3) False ds by (auto simp: number_base_def)
  then have "digit_value d < 16" by (simp add: word_less_alt)
  then show ?thesis using False ds assms(1,2) by (auto simp: read_base_def number_base_def add.assoc)
qed

lemma strtoX_ok:
  fixes is_signed :: bool
  assumes t: "text_at m nptr (ws @ sg @ pre @ ds @ [stop, after])" and n: "number_text base ws sg pre ds stop after r"
  defines "neg \<equiv> sg = [0x2D]"
    and "limit \<equiv> (if is_signed then (if sg = [0x2D] then max_signed + 1 else max_signed) else NOT 0 :: u64)"
    and "past \<equiv> nptr + of_nat (length (ws @ sg @ pre @ ds))"
  shows "(strtoX is_signed m nptr e base :: (u64 \<times> mem) option) = Some
    (if r < 2 \<or> 36 < r \<or> ds = [] then (0, store_end e nptr m)
     else if number r 0 ds > uint limit
     then (if is_signed then (if neg then push_bit 63 1 else max_signed) else NOT 0, store_end e past m)
     else (word_of_int (if neg then - number r 0 ds else number r 0 ds), store_end e past m))"
proof -
  let ?p = "nptr + of_nat (length ws)" let ?q = "?p + of_nat (length sg)" let ?s = "?q + of_nat (length pre)"
  have tp: "text_at m ?p ((sg @ pre @ ds @ [stop]) @ [after])" and tq: "text_at m ?q ((pre @ ds @ [stop]) @ [after])"
    and ts: "text_at m ?s ((ds @ [stop]) @ [after])"
    using t by (simp_all add: add.assoc)
  obtain b c where b: "b = hd (sg @ pre @ ds @ [stop])" and c: "c = hd (pre @ ds @ [stop])" by simp
  have mb: "m ?p = b" "m ?q = c" using text_head [OF tp] text_head [OF tq] unfolding b c by simp_all
  have sp: "skip_space m nptr = Some ?p"
    by (rule skip_space_ok [where b = b])
      (use n t mb b [symmetric] in \<open>simp_all add: number_text_def\<close>)
  have tsg: "text_at m ?p (sg @ [c])" using tp mb by simp
  have sg: "read_sign m ?p = (neg, ?q)"
    unfolding neg_def
    by (rule read_sign_ok [OF _ tsg]) (use n c [symmetric] in \<open>auto simp: number_text_def\<close>)
  have "text_at m ?q (pre @ ds @ [stop, after])" using tq by simp
  then have rb: "read_base m ?q base = (r, ?s)"
    by (rule read_base_ok) (use n in \<open>simp_all add: number_text_def\<close>)
  have past: "past = ?s + of_nat (length ds)" by (simp add: past_def algebra_simps)
  show ?thesis
  proof (cases "r < 2 \<or> 36 < r")
    case True
    then show ?thesis by (auto simp: strtoX_def sp sg rb)
  next
    case False
    have "text_at m ?s (ds @ [stop])" using ts by simp
    then obtain acc where loop: "strtoX_loop m r (limit div word_of_int r) (limit mod word_of_int r) ?s 0 False False =
        Some (past, acc, ds \<noteq> [], number r 0 ds > uint limit)"
      and acc: "number r 0 ds \<le> uint limit \<Longrightarrow> acc = word_of_int (number r 0 ds)"
      using strtoX_loop_ok [of r ds stop m ?s 0 limit False] False n unfolding past by (auto simp: number_text_def)
    show ?thesis
      using False acc
      by (auto simp: strtoX_def sp sg rb limit_def [folded neg_def, symmetric] loop)
  qed
qed

lemma max_signed_u64: "max_signed = (0x7FFFFFFFFFFFFFFF :: u64)"
  by (simp add: max_signed_def)

subsection \<open>Decimal text\<close>

text \<open>The decimal digits of a number, as the bytes of their characters.\<close>

fun decimal :: "nat \<Rightarrow> u8 list" where
  "decimal n = (if n < 10 then [0x30 + of_nat n] else decimal (n div 10) @ [0x30 + of_nat (n mod 10)])"

declare decimal.simps [simp del]

lemma decimal_digit: "n < 10 \<Longrightarrow> uint (digit_value (0x30 + of_nat n)) = int n"
proof -
  assume n: "n < 10"
  then have "(0x30 + of_nat n) - 0x30 < (10 :: u8)" by (simp add: word_less_nat_alt unat_of_nat)
  then show ?thesis
    using digit_value_decimal(2) n by (simp add: uint_up_ucast is_up unsigned_of_nat take_bit_nat_eq_self)
qed

lemma decimal_number: "number 10 0 (decimal n) = int n"
proof (induction n rule: decimal.induct)
  case (1 n)
  show ?case
  proof (cases "n < 10")
    case False
    then show ?thesis using 1 decimal_digit [of "n mod 10"] by (subst decimal.simps) (simp add: zdiv_int zmod_int)
  qed (subst decimal.simps, simp add: decimal_digit)
qed

lemma decimal_digits: "d \<in> set (decimal n) \<Longrightarrow> digit_value d < 10"
proof (induction n rule: decimal.induct)
  case (1 n)
  have small: "k < 10 \<Longrightarrow> digit_value (0x30 + of_nat k) < 10" for k
    using decimal_digit [of k] by (simp add: word_less_alt)
  show ?case
  proof (cases "n < 10")
    case True
    then show ?thesis using "1.prems" small by (subst (asm) decimal.simps) simp
  next
    case False
    then show ?thesis using "1.prems" "1.IH" small [of "n mod 10"] by (subst (asm) decimal.simps) auto
  qed
qed

lemma decimal_nonempty: "decimal n \<noteq> []"
  by (subst decimal.simps) simp

subsection \<open>Signed arithmetic\<close>

lemma sign_mask: "signed_drop_bit (LENGTH('a) - 1) x = (if sint x < 0 then NOT 0 else 0)" for x :: "'a::len word"
proof (rule bit_word_eqI)
  fix k assume "k < LENGTH('a)"
  moreover have "sint x < 0 \<longleftrightarrow> bit x (LENGTH('a) - 1)"
    using bit_last_iff [of x] by simp
  ultimately show "bit (signed_drop_bit (LENGTH('a) - 1) x) k = bit (if sint x < 0 then NOT 0 else 0 :: 'a word) k"
    by (cases k) (auto simp: bit_signed_drop_bit_iff bit_not_iff)
qed

lemma abs_impl_eq: "abs_impl x = (if sint x < 0 then - x else x)" for x :: "'a::len word"
  unfolding abs_impl_def Let_def sign_mask by (simp add: not_eq_complement)

lemma sint_abs_impl:
  fixes x :: "'a::len word"
  shows "sint (abs_impl x) = (if sint x = - (2 ^ (LENGTH('a) - 1)) then sint x else \<bar>sint x\<bar>)"
proof -
  have neg: "sint (- x) = signed_take_bit (LENGTH('a) - 1) (- sint x)" by (simp add: sint_word_ariths)
  have b: "- (2 ^ (LENGTH('a) - 1)) \<le> sint x" "sint x < 2 ^ (LENGTH('a) - 1)"
    using sint_ge [of x] sint_less [of x] by auto
  show ?thesis
  proof (cases "sint x = - (2 ^ (LENGTH('a) - 1))")
    case True
    have "sint (- x) = sint x"
      unfolding neg True signed_take_bit_eq_take_bit_shift by (simp add: take_bit_eq_mod power_Suc [symmetric] del: power_Suc)
    then show ?thesis using True by (simp add: abs_impl_eq)
  next
    case False
    then have "sint (- x) = - sint x" if "sint x < 0"
      unfolding neg using that b by (intro signed_take_bit_int_eq_self) auto
    then show ?thesis using False by (simp add: abs_impl_eq)
  qed
qed

lemma sdiv_fits:
  fixes n d :: int
  assumes "- (2 ^ k) \<le> n" "n < 2 ^ k" "d \<noteq> 0" "\<not> (n = - (2 ^ k) \<and> d = -1)"
  shows "- (2 ^ k) \<le> n sdiv d \<and> n sdiv d < 2 ^ k"
proof (cases "n = - (2 ^ k)")
  case False
  then show ?thesis using sdiv_int_range [of n d] assms(1,2) by auto
next
  case True
  then have d: "d \<noteq> -1" using assms(4) by simp
  show ?thesis
  proof (cases "d = 1")
    case True
    then show ?thesis using assms by simp
  next
    case False
    then have "2 \<le> \<bar>d\<bar>" using d assms(3) by linarith
    then have "\<bar>n\<bar> div \<bar>d\<bar> \<le> \<bar>n\<bar> div 2" by (intro zdiv_mono2) auto
    also have "\<dots> < 2 ^ k" using True int_div_less_self [of "2 ^ k" 2] by simp
    finally have "\<bar>n\<bar> div \<bar>d\<bar> < 2 ^ k" .
    moreover have "0 \<le> \<bar>n\<bar> div \<bar>d\<bar>" by (simp add: div_int_pos_iff)
    moreover obtain q where q: "q = \<bar>n\<bar> div \<bar>d\<bar>" by simp
    ultimately show ?thesis
      unfolding signed_divide_int_def q [symmetric] by (auto simp: sgn_if)
  qed
qed

text \<open>\<^verbatim>\<open>abs\<close> returns the magnitude of its argument, and the most negative number unchanged, since its
  magnitude does not fit; \<^verbatim>\<open>div\<close> faults exactly when the divisor is zero or the quotient does not fit,
  and otherwise returns the truncated quotient with a remainder of the dividend's sign.
\<close>

theorem abs_div_exact:
  fixes x numer denom :: "'a::len word"
  shows "sint (abs_impl x) = (if sint x = - (2 ^ (LENGTH('a) - 1)) then sint x else \<bar>sint x\<bar>) \<and>
    (case div_impl numer denom of
       None \<Rightarrow> sint denom = 0 \<or> sint numer = - (2 ^ (LENGTH('a) - 1)) \<and> sint denom = - 1
     | Some (quot, rem) \<Rightarrow>
         sint numer = sint quot * sint denom + sint rem \<and> \<bar>sint rem\<bar> < \<bar>sint denom\<bar> \<and>
         (sint rem = 0 \<or> sint rem < 0 = (sint numer < 0)))"
proof -
  let ?k = "LENGTH('a) - 1" and ?n = "sint numer" and ?d = "sint denom"
  have "(push_bit ?k 1 :: 'a word) = word_of_int (2 ^ ?k)" by (simp add: push_bit_eq_mult)
  then have "sint (push_bit ?k 1 :: 'a word) = - (2 ^ ?k)"
    by (simp only: signed_of_int signed_take_bit_eq_take_bit_shift)
      (simp add: take_bit_eq_mod power_Suc [symmetric] del: power_Suc)
  then have min: "numer = push_bit ?k 1 \<longleftrightarrow> ?n = - (2 ^ ?k)" by (metis signed_word_eqI)
  have zero: "denom = 0 \<longleftrightarrow> ?d = 0" by (metis signed_0 signed_word_eqI)
  have m1: "denom = NOT 0 \<longleftrightarrow> ?d = - 1"
    by (metis signed_minus_1 signed_word_eqI bit.compl_zero)
  have b: "- (2 ^ ?k) \<le> sint w" "sint w < 2 ^ ?k" for w :: "'a word"
    using sint_ge [of w] sint_less [of w] by auto
  have fits: "sint (word_of_int i :: 'a word) = i" if "- (2 ^ ?k) \<le> i" "i < 2 ^ ?k" for i
    using that by (simp add: signed_of_int signed_take_bit_int_eq_self)
  have "case div_impl numer denom of None \<Rightarrow> ?d = 0 \<or> ?n = - (2 ^ ?k) \<and> ?d = - 1
     | Some (quot, rem) \<Rightarrow> ?n = sint quot * ?d + sint rem \<and> \<bar>sint rem\<bar> < \<bar>?d\<bar> \<and>
         (sint rem = 0 \<or> sint rem < 0 = (?n < 0))"
  proof (cases "denom = 0 \<or> (numer = push_bit ?k 1 \<and> denom = NOT 0)")
    case True
    then show ?thesis using min zero m1 by (auto simp: div_impl_def)
  next
    case False
    have ok: "?d \<noteq> 0" "\<not> (?n = - (2 ^ ?k) \<and> ?d = - 1)" using False min zero m1 by auto
    have q: "sint (word_of_int (?n sdiv ?d) :: 'a word) = ?n sdiv ?d"
      using sdiv_fits [OF b ok] by (intro fits) auto
    have small: "\<bar>?n smod ?d\<bar> < \<bar>?d\<bar>" using smod_int_range [OF ok(1), of ?n] by auto
    have sign: "?n smod ?d = 0 \<or> (?n smod ?d < 0) = (?n < 0)"
      using smod_int_compares(2,4,6,7) [of ?n ?d] ok(1) by (cases "0 \<le> ?n"; cases "0 < ?d") auto
    have r: "sint (word_of_int (?n smod ?d) :: 'a word) = ?n smod ?d"
      using small b [of denom] by (intro fits) auto
    have "div_impl numer denom = Some (word_of_int (?n sdiv ?d), word_of_int (?n smod ?d))"
      using False by (simp add: div_impl_def)
    then show ?thesis using small sign q r sdiv_mult_smod_eq [of ?n ?d] by simp
  qed
  then show ?thesis using sint_abs_impl [of x] by simp
qed

end
