(* ===== verification/StdProps.thy ===== *)
theory StdProps
  imports StdNum
begin

text \<open>
  Properties of the number and character functions: what \<^verbatim>\<open>strtol\<close> and \<^verbatim>\<open>strtoul\<close> read, that decimal
  text is read back, what the character classes contain, and what the binary search finds.
\<close>

subsection \<open>Reading numbers\<close>

definition decimal_text :: "int \<Rightarrow> u8 list" where
  "decimal_text i = (if i < 0 then [0x2D] else []) @ decimal (nat \<bar>i\<bar>)"

text \<open>C26:
  \<^verbatim>\<open>strtol\<close> and \<^verbatim>\<open>strtoul\<close> on a text of white space, a sign, a prefix and digits: with an invalid base
  or without a digit they return 0 and report that nothing was read; otherwise they report the
  position after the last digit and return the number, clamped to the range of the result type when
  it is too large for it.
\<close>

theorem strtol_reads:
  assumes "text_at m nptr (ws @ sg @ pre @ ds @ [stop, after])" "number_text base ws sg pre ds stop after r"
  shows "strtol m nptr endptr base = Some
      (if r < 2 \<or> 36 < r \<or> ds = [] then (0, store_end endptr nptr m)
       else (word_of_int (max (- (2 ^ 63)) (min (2 ^ 63 - 1) (if sg = [0x2D] then - number r 0 ds else number r 0 ds))),
             store_end endptr (nptr + of_nat (length (ws @ sg @ pre @ ds))) m)) \<and>
    strtoul m nptr endptr base = Some
      (if r < 2 \<or> 36 < r \<or> ds = [] then (0, store_end endptr nptr m)
       else (if number r 0 ds < 2 ^ 64 then word_of_int (if sg = [0x2D] then - number r 0 ds else number r 0 ds) else - 1,
             store_end endptr (nptr + of_nat (length (ws @ sg @ pre @ ds))) m))"
proof -
  have n: "0 \<le> number r 0 ds" if "2 \<le> r" using number_mono [of 0 r ds] that by simp
  have m1: "uint (- 1 :: u64) = 2 ^ 64 - 1" by (simp add: unsigned_minus_1_eq_mask mask_eq_exp_minus_1)
  show ?thesis
    unfolding strtol_def strtoul_def strtoX_ok [OF assms] max_signed_u64
    using n m1 by (auto simp: min_def max_def)
qed

theorem strtol_reads_witness:
  "let m = (\<lambda>a. ([0x20, 0x2D, 0x30, 0x78, 0x31, 0x46, 0x7A, 0] :: u8 list) ! unat (a - 0x100)) in
   text_at m 0x100 ([0x20] @ [0x2D] @ [0x30, 0x78] @ [0x31, 0x46] @ [0x7A, 0]) \<and>
   number_text 0 [0x20] [0x2D] [0x30, 0x78] [0x31, 0x46] 0x7A 0 16 \<and>
   map_option fst (strtol m 0x100 None 0) = Some (- 0x1F)"
proof -
  let ?m = "\<lambda>a. ([0x20, 0x2D, 0x30, 0x78, 0x31, 0x46, 0x7A, 0] :: u8 list) ! unat (a - 0x100 :: addr)"
  have t: "text_at ?m 0x100 ([0x20] @ [0x2D] @ [0x30, 0x78] @ [0x31, 0x46] @ [0x7A, 0])" by simp
  have n: "number_text 0 [0x20] [0x2D] [0x30, 0x78] [0x31, 0x46] 0x7A 0 16"
    by (simp add: number_text_def number_base_def isspace_def digit_value_def)
  show ?thesis
    using t n strtol_reads [OF t n, of None] by (simp add: Let_def digit_value_def)
qed

text \<open>C27:
  The decimal text of any number of the result type, with a minus sign for a negative one, is read
  back exactly by \<^verbatim>\<open>strtol\<close>, which stops at the end of the text, and by \<^verbatim>\<open>atol\<close>; the text of any 32-bit
  number is read back by \<^verbatim>\<open>atoi\<close>.
\<close>

theorem decimal_round_trip:
  assumes "text_at m p (decimal_text i @ [0])"
  shows "(- (2 ^ 63) \<le> i \<and> i < 2 ^ 63 \<longrightarrow>
      strtol m p endptr 10 = Some (word_of_int i, store_end endptr (p + of_nat (length (decimal_text i))) m) \<and>
      atol m p = Some (word_of_int i)) \<and>
    (- (2 ^ 31) \<le> i \<and> i < 2 ^ 31 \<longrightarrow> atoi m p = Some (word_of_int i))"
proof -
  let ?sg = "if i < 0 then [0x2D] else [] :: u8 list" and ?ds = "decimal (nat \<bar>i\<bar>)"
  have n: "number 10 0 ?ds = \<bar>i\<bar>" by (simp add: decimal_number)
  have dig: "digit_value d < 10" if "d \<in> set ?ds" for d by (rule decimal_digits [OF that])
  have stop: "digit_value 0 = 255" by (simp add: digit_value_def)
  obtain d ds where ds: "?ds = d # ds" using decimal_nonempty by (cases ?ds) auto
  have dt: "decimal_text i = (if i < 0 then [0x2D] else []) @ d # ds" unfolding decimal_text_def ds ..
  have d: "\<not> isspace (scast d)" "d \<noteq> 0x2D" "d \<noteq> 0x2B"
    using digit_value_char(1) [of d] dig [of d] ds by (auto simp: word_less_nat_alt)
  have sign: "\<not> isspace (scast (0x2D :: u8))" by (simp add: isspace_def)
  have t: "text_at m p ([] @ ?sg @ [] @ ?ds @ [0, m (p + of_nat (length (decimal_text i)) + 1)])"
    using assms by (simp add: decimal_text_def add.assoc)
  have nt: "number_text 10 [] ?sg [] ?ds 0 (m (p + of_nat (length (decimal_text i)) + 1)) 10"
    using dig d sign stop by (auto simp: number_text_def number_base_def ds word_less_alt)
  have len: "[] @ ?sg @ [] @ ?ds = decimal_text i" by (simp add: decimal_text_def)
  have ats: "atoX m p = Some (word_of_int i :: 'w::len word)"
  proof -
    have sk: "skip_space m p = Some p"
      using skip_space_ok [of "[]" m p "hd (decimal_text i)"] assms d sign
      by (cases "i < 0") (auto simp: dt)
    have rs: "read_sign m p = (i < 0, p + of_nat (length ?sg))"
      using assms d by (cases "i < 0") (auto simp: read_sign_def dt)
    have "text_at m (p + of_nat (length ?sg)) (?ds @ [0])" using assms by (simp add: decimal_text_def)
    from atoX_loop_ok [OF _ _ this, of 0] dig stop
    have "atoX_loop m (p + of_nat (length ?sg)) (0 :: 'w word) = Some (word_of_int \<bar>i\<bar>)" by (simp add: n)
    then show ?thesis by (simp add: atoX_def sk rs)
  qed
  have "strtol m p endptr 10 = Some (word_of_int i, store_end endptr (p + of_nat (length (decimal_text i))) m)"
    if "- (2 ^ 63) \<le> i" "i < 2 ^ 63"
    unfolding strtol_def strtoX_ok [OF t nt] len max_signed_u64 n using that ds by auto
  then show ?thesis by (simp add: atol_def atoi_def ats)
qed

theorem decimal_round_trip_witness:
  "let m = (\<lambda>a. (decimal_text (- 40213) @ [0]) ! unat (a - 0x100 :: addr)) in
   text_at m 0x100 (decimal_text (- 40213) @ [0]) \<and> map_option fst (strtol m 0x100 None 10) = Some (- 40213) \<and>
   atol m 0x100 = Some (- 40213) \<and> atoi m 0x100 = Some (- 40213)"
proof -
  let ?m = "\<lambda>a. (decimal_text (- 40213) @ [0]) ! unat (a - 0x100 :: addr)"
  have dt: "decimal_text (- 40213) = [0x2D, 0x34, 0x30, 0x32, 0x31, 0x33]"
    by (simp add: decimal_text_def decimal.simps)
  have t: "text_at ?m 0x100 (decimal_text (- 40213) @ [0])" by (simp add: dt)
  show ?thesis using t decimal_round_trip [OF t, of None] by (simp add: Let_def)
qed

subsection \<open>Character classes\<close>

lemma range_check:
  fixes u :: c_int
  assumes "unat n + unat lo < 2 ^ 32"
  shows "u - lo < n \<longleftrightarrow> unat lo \<le> unat u \<and> unat u < unat lo + unat n"
proof (cases "lo \<le> u")
  case True
  then show ?thesis by (auto simp: word_less_nat_alt word_le_nat_alt unat_sub)
next
  case False
  then have "unat u < unat lo" by (simp add: word_le_nat_alt)
  moreover have "unat (u - lo) = 2 ^ 32 - (unat lo - unat u)"
    using False by (simp add: unat_sub_if' word_le_nat_alt)
  ultimately show ?thesis using assms by (simp add: word_less_nat_alt)
qed

lemma unat_low_byte: "unat (c AND 0xFF) = unat (ucast c :: u8)" for c :: c_int
  unfolding low_byte by (simp add: unat_ucast_up)

lemma folded_letter:
  fixes c :: c_int and n :: c_int
  assumes "unat n \<le> 26"
  shows "((c AND 0xFF) OR 0x20) - 0x61 < n \<longleftrightarrow>
    unat (ucast c :: u8) \<in> {0x41..<0x41 + unat n} \<union> {0x61..<0x61 + unat n}"
proof -
  define b where "b = (ucast c :: u8)"
  have b5: "bit b 5 \<longleftrightarrow> odd (unat b div 32)"
    using bit_iff_odd [of "unat b" 5] by (simp add: bit_unsigned_iff)
  have u: "unat (ucast b OR 0x20 :: c_int) = unat b + (if odd (unat b div 32) then 0 else 32)"
  proof (cases "bit b 5")
    case True
    have "ucast b OR 0x20 = (ucast b :: c_int)"
    proof (rule bit_word_eqI)
      have "(0x20 :: c_int) = 2 ^ 5" by simp
      then show "bit (ucast b OR 0x20 :: c_int) k = bit (ucast b :: c_int) k" if "k < LENGTH(32)" for k
        using True by (auto simp only: bit_or_iff bit_exp_iff) (simp add: bit_unsigned_iff)
    qed
    then show ?thesis using True b5 by (simp add: unat_ucast_up)
  next
    case False
    have "ucast b AND 0x20 = (0 :: c_int)"
    proof (rule bit_word_eqI)
      have "(0x20 :: c_int) = 2 ^ 5" by simp
      then show "bit (ucast b AND 0x20 :: c_int) k = bit (0 :: c_int) k" if "k < LENGTH(32)" for k
        using False by (auto simp only: bit_and_iff bit_exp_iff) (simp_all add: bit_unsigned_iff)
    qed
    then have "ucast b OR 0x20 = (ucast b + 0x20 :: c_int)" by (simp add: disjunctive_add_eq_or)
    moreover have "unat (ucast b + 0x20 :: c_int) = unat b + 32"
      using unat_bound [of b] by (simp add: unat_word_ariths unat_ucast_up)
    ultimately show ?thesis using False b5 by simp
  qed
  have "((c AND 0xFF) OR 0x20) - 0x61 < n \<longleftrightarrow> 0x61 \<le> unat (ucast b OR 0x20 :: c_int) \<and> unat (ucast b OR 0x20 :: c_int) < 0x61 + unat n"
    using range_check [of n "0x61"] assms by (simp add: low_byte b_def)
  then show ?thesis
    using assms unfolding b_def [symmetric] u by auto presburger+
qed

lemma class_ranges:
  "islower c \<longleftrightarrow> unat (ucast c :: u8) \<in> {0x61..0x7A}" "isupper c \<longleftrightarrow> unat (ucast c :: u8) \<in> {0x41..0x5A}"
  "isdigit c \<longleftrightarrow> unat (ucast c :: u8) \<in> {0x30..0x39}" "isprint c \<longleftrightarrow> unat (ucast c :: u8) \<in> {0x20..0x7E}"
  "isgraph c \<longleftrightarrow> unat (ucast c :: u8) \<in> {0x21..0x7E}"
  "isspace c \<longleftrightarrow> unat (ucast c :: u8) \<in> {0x09..0x0D} \<union> {0x20}"
  unfolding islower_def isupper_def isdigit_def isprint_def isgraph_def isspace_def
  by (auto simp: range_check unat_low_byte word_unat_eq_iff)

lemma case_bit:
  "(0x41 \<le> unat x \<and> unat x \<le> 0x5A \<longrightarrow> unat (x OR 0x20) = unat x + 32) \<and>
   (0x61 \<le> unat x \<and> unat x \<le> 0x7A \<longrightarrow> unat (x AND NOT 0x20) = unat x - 32)" for x :: u8
  by (rule all_bytes) code_simp

text \<open>Each character class is the set of ASCII codes that ISO C names, decided by the low byte of the
  argument: the classes partition the codes below 128 into control and printing characters, bytes
  from 128 on belong to no class, and the case conversions move letters, and nothing else, by 32.
\<close>

theorem ctype_classes:
  fixes c :: c_int
  shows "(let b = unat (ucast c :: u8) in
      (islower c \<longleftrightarrow> b \<in> {0x61..0x7A}) \<and> (isupper c \<longleftrightarrow> b \<in> {0x41..0x5A}) \<and> (isdigit c \<longleftrightarrow> b \<in> {0x30..0x39}) \<and>
      (isalpha c \<longleftrightarrow> islower c \<or> isupper c) \<and> (isalnum c \<longleftrightarrow> isalpha c \<or> isdigit c) \<and>
      (isxdigit c \<longleftrightarrow> isdigit c \<or> b \<in> {0x41..0x46} \<or> b \<in> {0x61..0x66}) \<and>
      (isspace c \<longleftrightarrow> b \<in> {0x09..0x0D} \<or> b = 0x20) \<and> (isblank c \<longleftrightarrow> b = 0x09 \<or> b = 0x20) \<and>
      (isprint c \<longleftrightarrow> b \<in> {0x20..0x7E}) \<and> (iscntrl c \<longleftrightarrow> b < 128 \<and> b \<notin> {0x20..0x7E}) \<and>
      (isgraph c \<longleftrightarrow> isprint c \<and> b \<noteq> 0x20) \<and> (ispunct c \<longleftrightarrow> isgraph c \<and> b \<notin> {0x30..0x39} \<union> {0x41..0x5A} \<union> {0x61..0x7A}) \<and>
      unat (ucast (tolower c) :: u8) = (if isupper c then b + 32 else b) \<and>
      unat (ucast (toupper c) :: u8) = (if islower c then b - 32 else b))"
proof -
  define b where "b = unat (ucast c :: u8)"
  have al: "isalpha c \<longleftrightarrow> b \<in> {0x41..0x5A} \<union> {0x61..0x7A}"
    "isxdigit c \<longleftrightarrow> b \<in> {0x30..0x39} \<union> {0x41..0x46} \<union> {0x61..0x66}"
    using folded_letter [of 26 c] folded_letter [of 6 c] class_ranges(3) [of c]
    unfolding isalpha_def isxdigit_def b_def by auto
  have eq: "c AND 0xFF = k \<longleftrightarrow> b = unat k" "c AND 0xFF < k \<longleftrightarrow> b < unat k" for k :: c_int
    by (simp_all only: b_def unat_low_byte [symmetric] word_unat_eq_iff word_less_nat_alt)
  have "ucast (NOT 0x20 :: c_int) = (NOT 0x20 :: u8)" by code_simp
  then have low: "ucast (c OR 0x20) = (ucast c OR 0x20 :: u8)" "ucast (c AND NOT 0x20) = (ucast c AND NOT 0x20 :: u8)"
    by (simp_all only: unsigned_or_eq unsigned_and_eq) simp
  have up: "unat (ucast (tolower c) :: u8) = (if isupper c then b + 32 else b)"
    using case_bit [of "ucast c"] class_ranges(2) [of c] unfolding tolower_def b_def low [symmetric] by auto
  have down: "unat (ucast (toupper c) :: u8) = (if islower c then b - 32 else b)"
    using case_bit [of "ucast c"] class_ranges(1) [of c] unfolding toupper_def b_def low [symmetric] by auto
  note sets = class_ranges [of c, folded b_def] al
  show ?thesis
    unfolding Let_def b_def [symmetric] isblank_def iscntrl_def eq isalnum_def ispunct_def up down sets
    by (intro conjI) (simp_all, presburger+)
qed

end
