(* ===== verification/BSearchProps.thy ===== *)
theory BSearchProps
  imports StdNum
begin

text \<open>
  The binary search of \<^verbatim>\<open>klib/src/stdlib/bsearch.cpp\<close>: on an array of fewer than \<open>2\<^sup>6\<^sup>3\<close> elements that
  is ordered as the comparison sees it, both loops end and find an equal element if there is one.
\<close>

text \<open>
  What the caller provides: along the array the comparison of the key is first positive, then zero,
  then negative.
\<close>

definition ordered_for :: "(addr \<Rightarrow> int) \<Rightarrow> addr \<Rightarrow> u64 \<Rightarrow> u64 \<Rightarrow> bool" where
  "ordered_for cmp base n sz \<longleftrightarrow>
     (\<forall>i j. i < j \<longrightarrow> j < n \<longrightarrow>
        (cmp (base + i * sz) < 0 \<longrightarrow> cmp (base + j * sz) < 0) \<and> (cmp (base + j * sz) > 0 \<longrightarrow> cmp (base + i * sz) > 0))"

text \<open>An equal element, if the array has one, is in the window from \<open>left\<close> to \<open>right\<close>.\<close>

definition bracketed :: "(addr \<Rightarrow> int) \<Rightarrow> addr \<Rightarrow> u64 \<Rightarrow> u64 \<Rightarrow> u64 \<Rightarrow> u64 \<Rightarrow> bool" where
  "bracketed cmp base n sz left right \<longleftrightarrow>
     (\<forall>i<n. cmp (base + i * sz) = 0 \<longrightarrow> (\<exists>j. left \<le> j \<and> j \<le> right \<and> j < n \<and> cmp (base + j * sz) = 0))"

lemma gallop_ok:
  assumes o: "ordered_for cmp base n sz" and n: "unat n \<le> 2 ^ 63"
  shows "1 \<le> unat bound \<Longrightarrow> unat bound = 1 \<or> (unat bound \<le> 2 * unat n \<and> bound div 2 < n \<and> 0 < cmp (base + bound div 2 * sz)) \<Longrightarrow>
    \<exists>b. gallop cmp base n sz bound = Some b \<and> (b = 1 \<or> b div 2 < n \<and> 0 < cmp (base + b div 2 * sz)) \<and>
      (b < n \<longrightarrow> cmp (base + b * sz) \<le> 0) \<and> 1 \<le> unat b"
proof (induction "2 * unat n - unat bound" arbitrary: bound rule: less_induct)
  case less
  show ?case
  proof (cases "bound < n \<and> cmp (base + bound * sz) > 0")
    case True
    have lt: "unat bound < unat n" using True by (simp add: word_less_nat_alt)
    then have d: "unat (bound * 2) = 2 * unat bound" using n by (simp add: unat_word_ariths)
    have half: "bound * 2 div 2 = bound"
      by (rule word_unat_eq_iff [THEN iffD2]) (simp add: unat_div d)
    have "gallop cmp base n sz bound = gallop cmp base n sz (bound * 2)"
      using True by (subst gallop.simps) simp
    moreover have "\<exists>b. gallop cmp base n sz (bound * 2) = Some b \<and> (b = 1 \<or> b div 2 < n \<and> 0 < cmp (base + b div 2 * sz)) \<and>
      (b < n \<longrightarrow> cmp (base + b * sz) \<le> 0) \<and> 1 \<le> unat b"
      by (rule less.hyps) (use d lt less.prems(1) True half in auto)
    ultimately show ?thesis by simp
  next
    case False
    have "gallop cmp base n sz bound = Some bound" using False by (subst gallop.simps) auto
    moreover have "bound = 1 \<or> bound div 2 < n \<and> 0 < cmp (base + bound div 2 * sz)"
      using less.prems(2) by (auto simp: word_unat_eq_iff)
    ultimately show ?thesis using False less.prems(1) by auto
  qed
qed

lemma unat_mid:
  fixes left right :: u64
  assumes "left \<le> right"
  shows "unat (left + (right - left) div 2) = unat left + (unat right - unat left) div 2"
proof -
  have s: "unat (right - left) = unat right - unat left" using assms by (simp add: unat_sub)
  have "unat left + (unat right - unat left) div 2 < 2 ^ 64"
    using unat_bound [of right] assms by (simp add: word_le_nat_alt)
  then show ?thesis by (simp add: unat_word_ariths unat_div s)
qed

lemma bsearch_loop_ok:
  assumes o: "ordered_for cmp base n sz"
  shows "right < n \<Longrightarrow> bracketed cmp base n sz left right \<Longrightarrow>
    \<exists>p. bsearch_loop cmp base sz left right = Some p \<and>
      (case p of None \<Rightarrow> \<forall>i<n. cmp (base + i * sz) \<noteq> 0
       | Some q \<Rightarrow> \<exists>i<n. q = base + i * sz \<and> cmp q = 0)"
proof (induction "Suc (unat right) - unat left" arbitrary: left right rule: less_induct)
  case less
  show ?case
  proof (cases "left \<le> right")
    case True
    define mid where "mid = left + (right - left) div 2"
    have u: "unat mid = unat left + (unat right - unat left) div 2" unfolding mid_def by (rule unat_mid [OF True])
    have lr: "unat left \<le> unat right" using True by (simp add: word_le_nat_alt)
    have mr: "unat left \<le> unat mid" "unat mid \<le> unat right" using u lr by auto
    then have mn: "mid < n" using less.prems(1) by (simp add: word_less_nat_alt)
    let ?c = "cmp (base + mid * sz)"
    have step: "bsearch_loop cmp base sz left right =
        (if ?c = 0 then Some (Some (base + mid * sz))
         else if ?c > 0 then bsearch_loop cmp base sz (mid + 1) right
         else if mid = 0 then Some None
         else bsearch_loop cmp base sz left (mid - 1))"
      using True by (subst bsearch_loop.simps) (simp only: Let_def mid_def if_True)
    have m1: "unat (mid + 1) = Suc (unat mid)"
      using mn unat_bound [of n] by (simp add: unat_word_ariths word_less_nat_alt)
    consider "?c = 0" | "?c > 0" | "?c < 0" "mid = 0" | "?c < 0" "mid \<noteq> 0" by linarith
    then show ?thesis
    proof cases
      case 1
      then show ?thesis using step mn by auto
    next
      case 2
      have "bracketed cmp base n sz (mid + 1) right"
        unfolding bracketed_def
      proof (intro allI impI)
        fix i assume "i < n" "cmp (base + i * sz) = 0"
        then obtain j where j: "left \<le> j" "j \<le> right" "j < n" "cmp (base + j * sz) = 0"
          using less.prems(2) by (auto simp: bracketed_def)
        have "\<not> j \<le> mid"
        proof
          assume "j \<le> mid"
          then have "j < mid \<or> j = mid" by auto
          then show False using o 2 j mn unfolding ordered_for_def by fastforce
        qed
        then have "mid + 1 \<le> j" using m1 by (simp add: word_le_nat_alt)
        then show "\<exists>j. mid + 1 \<le> j \<and> j \<le> right \<and> j < n \<and> cmp (base + j * sz) = 0" using j by blast
      qed
      then show ?thesis
        using step 2 less.hyps [of right "mid + 1"] m1 mr less.prems(1) by simp
    next
      case 3
      have "cmp (base + i * sz) \<noteq> 0" if "i < n" for i
      proof (cases "i = 0")
        case False
        then have "mid < i" using 3(2) by (simp add: word_neq_0_conv)
        then show ?thesis using o 3(1) that unfolding ordered_for_def by fastforce
      qed (use 3 in simp)
      then show ?thesis using step 3 by simp
    next
      case 4
      have u1: "unat (mid - 1) = unat mid - 1" using 4(2) by (simp add: unat_minus_one)
      have pos: "0 < unat mid" using 4(2) by (simp add: unat_gt_0)
      have "bracketed cmp base n sz left (mid - 1)"
        unfolding bracketed_def
      proof (intro allI impI)
        fix i assume "i < n" "cmp (base + i * sz) = 0"
        then obtain j where j: "left \<le> j" "j \<le> right" "j < n" "cmp (base + j * sz) = 0"
          using less.prems(2) by (auto simp: bracketed_def)
        have "\<not> mid \<le> j"
        proof
          assume "mid \<le> j"
          then have "mid < j \<or> j = mid" by auto
          then show False using o 4 j unfolding ordered_for_def by fastforce
        qed
        then have "j \<le> mid - 1" using u1 by (simp add: word_le_nat_alt)
        then show "\<exists>j. left \<le> j \<and> j \<le> mid - 1 \<and> j < n \<and> cmp (base + j * sz) = 0" using j by blast
      qed
      moreover have "mid - 1 < n" using mn u1 by (simp add: word_less_nat_alt)
      ultimately show ?thesis
        using step 4 less.hyps [of "mid - 1" left] u1 pos mr by simp
    qed
  next
    case False
    then have "cmp (base + i * sz) \<noteq> 0" if "i < n" for i
      using less.prems(2) that unfolding bracketed_def by (metis order_trans)
    then show ?thesis using False by (subst bsearch_loop.simps) simp
  qed
qed

text \<open>C28:
  On an array of at most \<open>2\<^sup>6\<^sup>3\<close> elements that is ordered as the comparison function sees it, \<^verbatim>\<open>bsearch\<close>
  returns: an element that compares equal to the key if there is one, and null if there is none.
\<close>

theorem bsearch_finds:
  assumes "ordered_for (compar key) base n sz" "unat n \<le> 2 ^ 63" "sz \<noteq> 0"
  shows "\<exists>p. bsearch key base n sz compar = Some p \<and>
    (case p of None \<Rightarrow> \<forall>i<n. compar key (base + i * sz) \<noteq> 0
     | Some q \<Rightarrow> \<exists>i<n. q = base + i * sz \<and> compar key q = 0)"
proof (cases "n = 0 \<or> compar key base = 0")
  case True
  then show ?thesis
    using assms(3) by (cases "n = 0") (auto simp: bsearch_def word_neq_0_conv intro!: exI [of _ 0])
next
  case False
  let ?c = "\<lambda>i. compar key (base + i * sz)"
  obtain b where b: "gallop (compar key) base n sz 1 = Some b" "b = 1 \<or> b div 2 < n \<and> 0 < ?c (b div 2)"
    "b < n \<longrightarrow> ?c b \<le> 0" "1 \<le> unat b"
    using gallop_ok [OF assms(1,2), of 1] by auto
  let ?r = "if b < n then b else n - 1"
  have n1: "unat (n - 1) = unat n - 1" using False by (simp add: unat_minus_one)
  have n0: "0 < unat n" using False by (simp add: unat_gt_0)
  have rn: "?r < n" using n1 n0 by (simp add: word_less_nat_alt)
  have "bracketed (compar key) base n sz (b div 2) ?r"
    unfolding bracketed_def
  proof (intro allI impI)
    fix i assume i: "i < n" "?c i = 0"
    have lo: "b div 2 \<le> i"
    proof (rule ccontr)
      assume "\<not> b div 2 \<le> i"
      then have lt: "i < b div 2" by simp
      then have "b \<noteq> 1" by auto
      then show False using b(2) assms(1) lt i unfolding ordered_for_def by fastforce
    qed
    show "\<exists>j. b div 2 \<le> j \<and> j \<le> ?r \<and> j < n \<and> ?c j = 0"
    proof (cases "i \<le> ?r")
      case False
      then have bn: "b < n" "b < i"
        using i(1) n1 n0 by (auto simp: word_less_nat_alt word_le_nat_alt split: if_splits)
      then have "?c b = 0" using b(3) assms(1) i unfolding ordered_for_def by fastforce
      moreover have "b div 2 \<le> b" by (simp add: word_le_nat_alt unat_div)
      ultimately show ?thesis using bn by auto
    qed (use lo i in blast)
  qed
  from bsearch_loop_ok [OF assms(1) rn this] show ?thesis
    using False assms(3) b(1) by (simp add: bsearch_def)
qed

theorem bsearch_finds_witness:
  "let compar = (\<lambda>k p. int (unat k) - int (unat p)) :: addr \<Rightarrow> addr \<Rightarrow> int in
   ordered_for (compar 0x130) 0x100 10 0x10 \<and> unat (10 :: u64) \<le> 2 ^ 63 \<and> (0x10 :: u64) \<noteq> 0 \<and>
   bsearch 0x130 0x100 10 0x10 compar = Some (Some 0x130)"
proof -
  let ?compar = "(\<lambda>k p. int (unat k) - int (unat p)) :: addr \<Rightarrow> addr \<Rightarrow> int"
  have at: "unat (0x100 + i * 0x10 :: addr) = 0x100 + unat i * 0x10" if "i < 10" for i :: u64
    using that by (simp add: unat_word_ariths word_less_nat_alt)
  have o: "ordered_for (?compar 0x130) 0x100 10 0x10"
    unfolding ordered_for_def
  proof (intro allI impI)
    fix i j :: u64 assume ij: "i < j" "j < 10"
    then have "unat i < unat j" "i < 10" by (auto simp: word_less_nat_alt)
    moreover have "uint i < uint j" using ij(1) by (simp add: word_less_alt)
    ultimately show "(?compar 0x130 (0x100 + i * 0x10) < 0 \<longrightarrow> ?compar 0x130 (0x100 + j * 0x10) < 0) \<and>
        (?compar 0x130 (0x100 + j * 0x10) > 0 \<longrightarrow> ?compar 0x130 (0x100 + i * 0x10) > 0)"
      unfolding at [OF ij(2)] at [OF \<open>i < 10\<close>] by simp
  qed
  have n: "unat (10 :: u64) \<le> 2 ^ 63" "(0x10 :: u64) \<noteq> 0" by simp_all
  obtain p where p: "bsearch 0x130 0x100 10 0x10 ?compar = Some p"
    "case p of None \<Rightarrow> \<forall>i<10. ?compar 0x130 (0x100 + i * 0x10) \<noteq> 0
     | Some q \<Rightarrow> \<exists>i<10. q = 0x100 + i * 0x10 \<and> ?compar 0x130 q = 0"
    using bsearch_finds [where compar = ?compar and key = "0x130", OF o n] by blast
  have "p = Some 0x130"
  proof (cases p)
    case None
    then have "?compar 0x130 (0x100 + 3 * 0x10) \<noteq> 0" using p(2) by (auto dest: spec [of _ 3])
    then show ?thesis by simp
  next
    case (Some q)
    then have "uint q = uint (0x130 :: addr)" using p(2) by auto
    then have "q = 0x130" by (rule word_uint_eq_iff [THEN iffD2])
    then show ?thesis using Some by simp
  qed
  then show ?thesis using o n p(1) by (simp only: Let_def) simp
qed

end
