(* ===== verification/RingDeque.thy ===== *)
theory RingDeque
  imports Maths "HOL-Library.Monad_Syntax"
begin

text \<open>
  The single-threaded deque of \<^verbatim>\<open>kernel/include/utils/ring_buffer.hpp\<close>.  The indices run freely
  through the 64-bit numbers, wrap-around included, and are masked on access.  A slot of the storage
  is \<^const>\<open>None\<close> while it holds no object; to move an object out of such a slot makes the result of the
  operation \<^const>\<open>None\<close>.  A locale states what a bounded deque promises, with the facts a client needs,
  and is interpreted on these operations.
\<close>

subsection \<open>Definitions\<close>

datatype deque_error = Empty | Full

record 'a ring_deque =
  m_head :: u64
  m_tail :: u64
  m_storage :: "'a option list"

text \<open>The capacity is a template argument; it is the first argument of every operation.\<close>

definition slot_of :: "u64 \<Rightarrow> u64 \<Rightarrow> nat" where
  "slot_of cap i = unat (i AND (cap - 1))"

definition new_deque :: "u64 \<Rightarrow> 'a ring_deque" where
  "new_deque cap = \<lparr>m_head = 0, m_tail = 0, m_storage = replicate (unat cap) None\<rparr>"

definition deque_size :: "'a ring_deque \<Rightarrow> u64" where
  "deque_size d = m_tail d - m_head d"

definition deque_empty :: "'a ring_deque \<Rightarrow> bool" where
  "deque_empty d \<longleftrightarrow> m_head d = m_tail d"

definition deque_full :: "u64 \<Rightarrow> 'a ring_deque \<Rightarrow> bool" where
  "deque_full cap d \<longleftrightarrow> deque_size d = cap"

definition put_back :: "u64 \<Rightarrow> 'a \<Rightarrow> 'a ring_deque \<Rightarrow> 'a ring_deque" where
  "put_back cap x d =
     d\<lparr>m_storage := (m_storage d)[slot_of cap (m_tail d) := Some x], m_tail := m_tail d + 1\<rparr>"

definition emplace_back :: "u64 \<Rightarrow> 'a \<Rightarrow> 'a ring_deque \<Rightarrow> deque_error + 'a ring_deque" where
  "emplace_back cap x d = (if deque_full cap d then Inl Full else Inr (put_back cap x d))"

definition emplace_front :: "u64 \<Rightarrow> 'a \<Rightarrow> 'a ring_deque \<Rightarrow> deque_error + 'a ring_deque" where
  "emplace_front cap x d =
     (if deque_full cap d then Inl Full
      else let new_head = m_head d - 1 in
        Inr (d\<lparr>m_storage := (m_storage d)[slot_of cap new_head := Some x], m_head := new_head\<rparr>))"

definition take_front :: "u64 \<Rightarrow> 'a ring_deque \<Rightarrow> ('a \<times> 'a ring_deque) option" where
  "take_front cap d =
     (let p = slot_of cap (m_head d) in
      map_option (\<lambda>v. (v, d\<lparr>m_storage := (m_storage d)[p := None], m_head := m_head d + 1\<rparr>)) (m_storage d ! p))"

definition deque_pop_back :: "u64 \<Rightarrow> 'a ring_deque \<Rightarrow> (deque_error + 'a \<times> 'a ring_deque) option" where
  "deque_pop_back cap d =
     (if deque_empty d then Some (Inl Empty)
      else let tail = m_tail d - 1; p = slot_of cap tail in
        map_option (\<lambda>v. Inr (v, d\<lparr>m_storage := (m_storage d)[p := None], m_tail := tail\<rparr>)) (m_storage d ! p))"

definition deque_pop_front :: "u64 \<Rightarrow> 'a ring_deque \<Rightarrow> (deque_error + 'a \<times> 'a ring_deque) option" where
  "deque_pop_front cap d =
     (if deque_empty d then Some (Inl Empty) else map_option Inr (take_front cap d))"

definition deque_front :: "u64 \<Rightarrow> 'a ring_deque \<Rightarrow> 'a option" where
  "deque_front cap d = m_storage d ! slot_of cap (m_head d)"

definition deque_back :: "u64 \<Rightarrow> 'a ring_deque \<Rightarrow> 'a option" where
  "deque_back cap d = m_storage d ! slot_of cap (m_tail d - 1)"

definition push_back_bulk :: "u64 \<Rightarrow> 'a list \<Rightarrow> 'a ring_deque \<Rightarrow> nat \<times> 'a ring_deque" where
  "push_back_bulk cap items d =
     (let available = unat (cap - deque_size d);
          to_write = (if length items < available then length items else available)
      in (to_write, fold (put_back cap) (take to_write items) d))"

primrec take_fronts :: "u64 \<Rightarrow> nat \<Rightarrow> 'a ring_deque \<Rightarrow> ('a list \<times> 'a ring_deque) option" where
  "take_fronts cap 0 d = Some ([], d)"
| "take_fronts cap (Suc n) d = do {
     (v, d) \<leftarrow> take_front cap d;
     (vs, d) \<leftarrow> take_fronts cap n d;
     Some (v # vs, d)
   }"

definition pop_front_bulk :: "u64 \<Rightarrow> nat \<Rightarrow> 'a ring_deque \<Rightarrow> ('a list \<times> 'a ring_deque) option" where
  "pop_front_bulk cap n d =
     (let available = unat (deque_size d); to_read = (if n < available then n else available)
      in take_fronts cap to_read d)"

text \<open>
  For a type with a trivial destructor \<^verbatim>\<open>clear\<close> only moves the index; for the others it destroys what is
  queued.  In both cases no object is left.
\<close>

primrec destroy_fronts :: "u64 \<Rightarrow> nat \<Rightarrow> 'a ring_deque \<Rightarrow> 'a ring_deque" where
  "destroy_fronts cap 0 d = d"
| "destroy_fronts cap (Suc n) d =
     destroy_fronts cap n (d\<lparr>m_storage := (m_storage d)[slot_of cap (m_head d) := None], m_head := m_head d + 1\<rparr>)"

definition deque_clear :: "u64 \<Rightarrow> 'a ring_deque \<Rightarrow> 'a ring_deque" where
  "deque_clear cap d = destroy_fronts cap (unat (deque_size d)) d"

subsection \<open>What a bounded deque promises\<close>

datatype 'a deque_op = Push_back 'a | Push_front 'a | Pop_back | Pop_front

datatype 'a outcome = Done | Failed deque_error | Got 'a

text \<open>The specification: a list of bounded length.\<close>

fun list_step :: "nat \<Rightarrow> 'a deque_op \<Rightarrow> 'a list \<Rightarrow> 'a outcome \<times> 'a list" where
  "list_step n (Push_back x) xs = (if length xs = n then (Failed Full, xs) else (Done, xs @ [x]))"
| "list_step n (Push_front x) xs = (if length xs = n then (Failed Full, xs) else (Done, x # xs))"
| "list_step n Pop_back xs = (if xs = [] then (Failed Empty, xs) else (Got (last xs), butlast xs))"
| "list_step n Pop_front xs = (if xs = [] then (Failed Empty, xs) else (Got (hd xs), tl xs))"

fun run_with :: "('o \<Rightarrow> 'd \<Rightarrow> ('r \<times> 'd) option) \<Rightarrow> 'o list \<Rightarrow> 'd \<Rightarrow> ('r list \<times> 'd) option" where
  "run_with step [] d = Some ([], d)"
| "run_with step (op # ops) d = do {
     (r, d) \<leftarrow> step op d;
     (rs, d) \<leftarrow> run_with step ops d;
     Some (r # rs, d)
   }"

definition step_with ::
    "('a \<Rightarrow> 'd \<Rightarrow> deque_error + 'd) \<Rightarrow> ('a \<Rightarrow> 'd \<Rightarrow> deque_error + 'd) \<Rightarrow>
     ('d \<Rightarrow> (deque_error + 'a \<times> 'd) option) \<Rightarrow> ('d \<Rightarrow> (deque_error + 'a \<times> 'd) option) \<Rightarrow>
     'a deque_op \<Rightarrow> 'd \<Rightarrow> ('a outcome \<times> 'd) option" where
  "step_with push_back push_front pop_back pop_front op d =
     (let push = (\<lambda>r. Some (case r of Inl e \<Rightarrow> (Failed e, d) | Inr d' \<Rightarrow> (Done, d')));
          pop = map_option (\<lambda>r. case r of Inl e \<Rightarrow> (Failed e, d) | Inr (x, d') \<Rightarrow> (Got x, d'))
      in case op of Push_back x \<Rightarrow> push (push_back x d) | Push_front x \<Rightarrow> push (push_front x d)
         | Pop_back \<Rightarrow> pop (pop_back d) | Pop_front \<Rightarrow> pop (pop_front d))"

locale bounded_deque =
  fixes n :: nat
    and rep :: "'d \<Rightarrow> 'a list \<Rightarrow> bool"
    and push_back :: "'a \<Rightarrow> 'd \<Rightarrow> deque_error + 'd"
    and push_front :: "'a \<Rightarrow> 'd \<Rightarrow> deque_error + 'd"
    and pop_back :: "'d \<Rightarrow> (deque_error + 'a \<times> 'd) option"
    and pop_front :: "'d \<Rightarrow> (deque_error + 'a \<times> 'd) option"
  assumes rep_bound: "rep d xs \<Longrightarrow> length xs \<le> n"
    and push_full: "rep d xs \<Longrightarrow> length xs = n \<Longrightarrow> push_back x d = Inl Full \<and> push_front x d = Inl Full"
    and push_back: "rep d xs \<Longrightarrow> length xs < n \<Longrightarrow> \<exists>d'. push_back x d = Inr d' \<and> rep d' (xs @ [x])"
    and push_front: "rep d xs \<Longrightarrow> length xs < n \<Longrightarrow> \<exists>d'. push_front x d = Inr d' \<and> rep d' (x # xs)"
    and pop_empty: "rep d [] \<Longrightarrow> pop_back d = Some (Inl Empty) \<and> pop_front d = Some (Inl Empty)"
    and pop_back: "rep d (xs @ [x]) \<Longrightarrow> \<exists>d'. pop_back d = Some (Inr (x, d')) \<and> rep d' xs"
    and pop_front: "rep d (x # xs) \<Longrightarrow> \<exists>d'. pop_front d = Some (Inr (x, d')) \<and> rep d' xs"
begin

lemma step_refines:
  assumes "rep d xs"
  shows "\<exists>d'. step_with push_back push_front pop_back pop_front op d = Some (fst (list_step n op xs), d') \<and> rep d' (snd (list_step n op xs))"
proof -
  have "length xs = n \<or> length xs < n" using rep_bound [OF assms] by auto
  then show ?thesis
  proof (cases op)
    case (Push_back x)
    then show ?thesis
      using \<open>length xs = n \<or> length xs < n\<close> push_full [OF assms] push_back [OF assms, of x] assms
      by (auto simp: step_with_def)
  next
    case (Push_front x)
    then show ?thesis
      using \<open>length xs = n \<or> length xs < n\<close> push_full [OF assms] push_front [OF assms, of x] assms
      by (auto simp: step_with_def)
  next
    case Pop_back
    then show ?thesis
      using assms pop_empty pop_back [of d "butlast xs" "last xs"] by (cases "xs = []") (auto simp: step_with_def)
  next
    case Pop_front
    then show ?thesis
      using assms pop_empty pop_front [of d "hd xs" "tl xs"] by (cases xs) (auto simp: step_with_def)
  qed
qed

lemma run_refines:
  "rep d xs \<Longrightarrow>
   \<exists>rs d' xs'. run_with (step_with push_back push_front pop_back pop_front) ops d = Some (rs, d') \<and>
     run_with (\<lambda>op xs. Some (list_step n op xs)) ops xs = Some (rs, xs') \<and> rep d' xs'"
proof (induction ops arbitrary: d xs)
  case (Cons op ops)
  obtain d1 where d1: "step_with push_back push_front pop_back pop_front op d = Some (fst (list_step n op xs), d1)" "rep d1 (snd (list_step n op xs))"
    using step_refines [OF Cons.prems] by blast
  obtain rs d' xs' where "run_with (step_with push_back push_front pop_back pop_front) ops d1 = Some (rs, d')"
    "run_with (\<lambda>op xs. Some (list_step n op xs)) ops (snd (list_step n op xs)) = Some (rs, xs')" "rep d' xs'"
    using Cons.IH [OF d1(2)] by blast
  then show ?case using d1(1) by (cases "list_step n op xs") auto
qed simp

end

subsection \<open>The ring as a list\<close>

lemma slot_of_mod:
  assumes "has_single_bit cap"
  shows "slot_of cap i = unat i mod unat cap" "unat cap dvd 2 ^ 64" "0 < unat cap"
proof -
  obtain k where k: "k < 64" "cap = 2 ^ k" using assms by (auto simp: has_single_bit_iff)
  then have u: "unat cap = 2 ^ k" by simp
  show "unat cap dvd 2 ^ 64" unfolding u by (rule le_imp_power_dvd) (use k(1) in simp)
  show "0 < unat cap" by (simp add: u)
  show "slot_of cap i = unat i mod unat cap"
    unfolding u slot_of_def k(2) pow2_minus_1 by (simp add: take_bit_eq_mask [symmetric] take_bit_eq_mod unat_mod)
qed

lemma slot_of_add:
  assumes "has_single_bit cap"
  shows "slot_of cap (i + of_nat j) = (slot_of cap i + j) mod unat cap"
proof -
  note s = slot_of_mod [OF assms]
  have "unat (i + of_nat j) = (unat i + j) mod 2 ^ 64"
    by (simp add: unat_word_ariths unat_of_nat mod_simps take_bit_eq_mod)
  then show ?thesis unfolding s(1) using s(2) by (simp add: mod_mod_cancel mod_simps)
qed

lemma slot_of_minus:
  assumes "has_single_bit cap"
  shows "slot_of cap (i - 1) = (slot_of cap i + (unat cap - 1)) mod unat cap"
proof -
  note s = slot_of_mod [OF assms]
  have "slot_of cap i = (slot_of cap (i - 1) + 1) mod unat cap" using slot_of_add [OF assms, of "i - 1" 1] by simp
  then have "(slot_of cap i + (unat cap - 1)) mod unat cap = (slot_of cap (i - 1) + 1 + (unat cap - 1)) mod unat cap"
    by (simp only: mod_add_left_eq)
  also have "\<dots> = (slot_of cap (i - 1) + unat cap) mod unat cap" using s(3) by simp
  also have "\<dots> = slot_of cap (i - 1)" using s(3) by (simp add: s(1))
  finally show ?thesis by simp
qed

lemma mod_add_inj:
  fixes h :: nat
  assumes "i < n" "j < n"
  shows "(h + i) mod n = (h + j) mod n \<longleftrightarrow> i = j"
proof -
  have *: "i = j" if "i \<le> j" "(h + j) mod n = (h + i) mod n" "j < n" for i j
  proof -
    have "n dvd (h + j) - (h + i)" using that by (simp add: mod_eq_dvd_iff_nat)
    then show ?thesis using that by (auto dest: dvd_imp_le)
  qed
  show ?thesis
  proof (cases "i \<le> j")
    case True
    then show ?thesis using * [of i j] assms by auto
  next
    case False
    then show ?thesis using * [of j i] assms by auto
  qed
qed

text \<open>\<open>deque_holds cap d xs\<close>: the queue is \<open>xs\<close>, from head to tail, and every other slot is empty.\<close>

definition deque_holds :: "u64 \<Rightarrow> 'a ring_deque \<Rightarrow> 'a list \<Rightarrow> bool" where
  "deque_holds cap d xs \<longleftrightarrow>
     has_single_bit cap \<and> length (m_storage d) = unat cap \<and> length xs \<le> unat cap \<and>
     m_tail d = m_head d + of_nat (length xs) \<and>
     (\<forall>i<unat cap. m_storage d ! ((slot_of cap (m_head d) + i) mod unat cap) =
        (if i < length xs then Some (xs ! i) else None))"

lemma deque_holdsD:
  assumes "deque_holds cap d xs"
  shows "has_single_bit cap" "length (m_storage d) = unat cap" "length xs \<le> unat cap"
    "m_tail d = m_head d + of_nat (length xs)" "0 < unat cap"
    "i < unat cap \<Longrightarrow> m_storage d ! ((slot_of cap (m_head d) + i) mod unat cap) = (if i < length xs then Some (xs ! i) else None)"
  using assms slot_of_mod(3) unfolding deque_holds_def by blast+

lemma deque_holds_new: "has_single_bit cap \<Longrightarrow> deque_holds cap (new_deque cap) []"
  using slot_of_mod(3) by (simp add: deque_holds_def new_deque_def)

lemma unat_deque_size:
  assumes "deque_holds cap d xs"
  shows "unat (deque_size d) = length xs"
proof -
  have "length xs < 2 ^ 64" using deque_holdsD(3) [OF assms] unat_bound [of cap] by simp
  then show ?thesis using deque_holdsD(4) [OF assms] by (simp add: deque_size_def unat_of_nat take_bit_nat_eq_self)
qed

lemma deque_full_iff: "deque_holds cap d xs \<Longrightarrow> deque_full cap d \<longleftrightarrow> length xs = unat cap"
  using unat_deque_size [of cap d xs] by (auto simp: deque_full_def word_unat_eq_iff)

lemma deque_empty_iff: "deque_holds cap d xs \<Longrightarrow> deque_empty d \<longleftrightarrow> xs = []"
  using unat_deque_size [of cap d xs] by (auto simp: deque_empty_def deque_size_def deque_holds_def)

lemma put_back_ok:
  assumes "deque_holds cap d xs" "length xs < unat cap"
  shows "deque_holds cap (put_back cap x d) (xs @ [x])"
proof -
  note h = deque_holdsD [OF assms(1)]
  have "(m_storage d)[(slot_of cap (m_head d) + length xs) mod unat cap := Some x] ! ((slot_of cap (m_head d) + i) mod unat cap) =
      (if i < Suc (length xs) then Some ((xs @ [x]) ! i) else None)" if "i < unat cap" for i
    using h(5) h(6) [OF that] mod_add_inj [OF assms(2) that, of "slot_of cap (m_head d)"] h(2)
    by (auto simp: nth_list_update nth_append less_Suc_eq)
  moreover have "m_tail d + 1 = m_head d + of_nat (length (xs @ [x]))" using h(4) by simp
  ultimately show ?thesis using h(1-3) assms(2) by (simp add: deque_holds_def put_back_def slot_of_add [OF h(1)])
qed

lemma emplace_front_ok:
  assumes "deque_holds cap d xs" "length xs < unat cap"
  shows "\<exists>d'. emplace_front cap x d = Inr d' \<and> deque_holds cap d' (x # xs)"
proof -
  note h = deque_holdsD [OF assms(1)]
  let ?n = "unat cap" and ?h = "slot_of cap (m_head d)"
  let ?s = "(m_storage d)[(?h + (?n - 1)) mod ?n := Some x]"
  have "?s ! (((?h + (?n - 1)) mod ?n + i) mod ?n) = (if i < Suc (length xs) then Some ((x # xs) ! i) else None)"
    if i: "i < ?n" for i
  proof (cases i)
    case 0
    then show ?thesis using h(2,5) by simp
  next
    case (Suc k)
    have "((?h + (?n - 1)) mod ?n + i) mod ?n = (?h + (?n - 1) + i) mod ?n" by (rule mod_add_left_eq)
    also have "?h + (?n - 1) + i = ?h + k + ?n" using Suc h(5) by simp
    finally have e: "((?h + (?n - 1)) mod ?n + i) mod ?n = (?h + k) mod ?n" by simp
    have "(?h + (?n - 1)) mod ?n \<noteq> (?h + k) mod ?n"
      using mod_add_inj [of "?n - 1" ?n k ?h] Suc i by auto
    then show ?thesis unfolding e using h(6) [of k] Suc i by simp
  qed
  then show ?thesis
    using h assms(2) deque_full_iff [OF assms(1)] by (simp add: emplace_front_def Let_def deque_holds_def slot_of_minus [OF h(1)])
qed

lemma take_front_ok:
  assumes "deque_holds cap d (x # xs)"
  shows "\<exists>d'. take_front cap d = Some (x, d') \<and> deque_holds cap d' xs"
proof -
  note h = deque_holdsD [OF assms]
  let ?n = "unat cap" and ?h = "slot_of cap (m_head d)"
  have hn: "?h < ?n" using slot_of_mod(1) [OF h(1)] h(5) by simp
  have v: "m_storage d ! ?h = Some x" using h(6) [of 0] h(5) hn by simp
  have head: "slot_of cap (m_head d + 1) = (?h + 1) mod ?n" using slot_of_add [OF h(1), of "m_head d" 1] by simp
  have "(m_storage d)[?h := None] ! (((?h + 1) mod ?n + i) mod ?n) = (if i < length xs then Some (xs ! i) else None)"
    if i: "i < ?n" for i
  proof -
    have e: "((?h + 1) mod ?n + i) mod ?n = (?h + Suc i) mod ?n" by (simp add: mod_simps)
    show ?thesis
    proof (cases "Suc i < ?n")
      case True
      have "?h mod ?n \<noteq> (?h + Suc i) mod ?n" using mod_add_inj [of 0 ?n "Suc i" ?h] True by simp
      then show ?thesis unfolding e using h(6) [OF True] hn by simp
    next
      case False
      then have "Suc i = ?n" using i by simp
      then have "(?h + Suc i) mod ?n = ?h" using hn by simp
      then show ?thesis unfolding e using hn h(2,3) \<open>Suc i = ?n\<close> by simp
    qed
  qed
  then show ?thesis
    using h v by (simp add: take_front_def Let_def deque_holds_def head)
qed

lemma pop_back_ok:
  assumes "deque_holds cap d (xs @ [x])"
  shows "\<exists>d'. deque_pop_back cap d = Some (Inr (x, d')) \<and> deque_holds cap d' xs"
proof -
  note h = deque_holdsD [OF assms]
  let ?n = "unat cap" and ?h = "slot_of cap (m_head d)"
  have tl: "m_tail d - 1 = m_head d + of_nat (length xs)" using h(4) by simp
  have lt: "length xs < ?n" using h(3) by simp
  have v: "m_storage d ! ((?h + length xs) mod ?n) = Some x" using h(6) [OF lt] by simp
  have "(m_storage d)[(?h + length xs) mod ?n := None] ! ((?h + i) mod ?n) = (if i < length xs then Some (xs ! i) else None)"
    if i: "i < ?n" for i
    using h(5) h(6) [OF i] mod_add_inj [OF lt i, of ?h] h(2) by (auto simp: nth_list_update nth_append)
  then show ?thesis
    using h(1-3) lt v deque_empty_iff [OF assms]
    by (simp add: deque_pop_back_def Let_def deque_holds_def tl slot_of_add [OF h(1)])
qed

interpretation ring: bounded_deque "unat cap" "deque_holds cap" "emplace_back cap" "emplace_front cap"
  "deque_pop_back cap" "deque_pop_front cap"
proof (unfold_locales, goal_cases)
  case (1 d xs)
  then show ?case by (rule deque_holdsD(3))
next
  case (2 d xs x)
  then show ?case using deque_full_iff [OF 2(1)] by (simp add: emplace_back_def emplace_front_def)
next
  case (3 d xs x)
  then show ?case using deque_full_iff [OF 3(1)] put_back_ok by (auto simp: emplace_back_def)
next
  case (4 d xs x)
  then show ?case by (rule emplace_front_ok)
next
  case (5 d)
  then show ?case using deque_empty_iff [OF 5] by (simp add: deque_pop_back_def deque_pop_front_def)
next
  case (6 d xs x)
  then show ?case by (rule pop_back_ok)
next
  case (7 d x xs)
  then show ?case using take_front_ok [OF 7] deque_empty_iff [OF 7] by (auto simp: deque_pop_front_def)
qed

subsection \<open>Bulk operations and clearing\<close>

lemma put_backs_ok:
  "deque_holds cap d xs \<Longrightarrow> length xs + length ys \<le> unat cap \<Longrightarrow> deque_holds cap (fold (put_back cap) ys d) (xs @ ys)"
proof (induction ys arbitrary: d xs)
  case (Cons y ys)
  then have "deque_holds cap (put_back cap y d) (xs @ [y])" by (intro put_back_ok) auto
  then show ?case using Cons.IH [of "put_back cap y d" "xs @ [y]"] Cons.prems(2) by simp
qed simp

lemma push_back_bulk_ok:
  assumes "deque_holds cap d xs"
  shows "\<exists>d'. push_back_bulk cap ys d = (min (length ys) (unat cap - length xs), d') \<and>
    deque_holds cap d' (xs @ take (unat cap - length xs) ys)"
proof -
  have le: "deque_size d \<le> cap" using unat_deque_size [OF assms] deque_holdsD(3) [OF assms] by (simp add: word_le_nat_alt)
  have av: "unat (cap - deque_size d) = unat cap - length xs" using unat_sub [OF le] unat_deque_size [OF assms] by simp
  let ?k = "min (length ys) (unat cap - length xs)"
  have "deque_holds cap (fold (put_back cap) (take ?k ys) d) (xs @ take ?k ys)"
    by (rule put_backs_ok [OF assms]) (use deque_holdsD(3) [OF assms] in auto)
  moreover have "take ?k ys = take (unat cap - length xs) ys" by (simp add: min_def)
  moreover have "(if length ys < unat cap - length xs then length ys else unat cap - length xs) = ?k" by simp
  ultimately show ?thesis unfolding push_back_bulk_def Let_def av by simp
qed

lemma take_fronts_ok:
  "deque_holds cap d xs \<Longrightarrow> k \<le> length xs \<Longrightarrow> \<exists>d'. take_fronts cap k d = Some (take k xs, d') \<and> deque_holds cap d' (drop k xs)"
proof (induction k arbitrary: d xs)
  case (Suc k)
  then obtain x ys where xs: "xs = x # ys" by (cases xs) auto
  obtain d1 where d1: "take_front cap d = Some (x, d1)" "deque_holds cap d1 ys"
    using take_front_ok [of cap d x ys] Suc.prems(1) xs by blast
  then show ?case using Suc.IH [OF d1(2)] Suc.prems(2) xs by auto
qed simp

lemma destroy_fronts_ok:
  "deque_holds cap d xs \<Longrightarrow> k \<le> length xs \<Longrightarrow> deque_holds cap (destroy_fronts cap k d) (drop k xs)"
proof (induction k arbitrary: d xs)
  case (Suc k)
  then obtain x ys where xs: "xs = x # ys" by (cases xs) auto
  obtain d1 where d1: "take_front cap d = Some (x, d1)" "deque_holds cap d1 ys"
    using take_front_ok [of cap d x ys] Suc.prems(1) xs by blast
  then have "d1 = d\<lparr>m_storage := (m_storage d)[slot_of cap (m_head d) := None], m_head := m_head d + 1\<rparr>"
    by (auto simp: take_front_def Let_def)
  then show ?case using Suc.IH [OF d1(2)] Suc.prems(2) xs by simp
qed simp

text \<open>C29:
  For every capacity that is a power of two, any sequence of pushes and pops at either end of a new
  deque returns what the same sequence returns on a list of bounded length, the errors for a full and
  an empty queue included, however often the indices wrap around.  The bulk operations transfer as
  much as fits, in order, and \<^verbatim>\<open>clear\<close> leaves no object behind.
\<close>

theorem deque_refines_list:
  assumes "has_single_bit cap"
  shows "(\<exists>rs d' xs'.
      run_with (step_with (emplace_back cap) (emplace_front cap) (deque_pop_back cap) (deque_pop_front cap)) ops (new_deque cap) = Some (rs, d') \<and>
      run_with (\<lambda>op xs. Some (list_step (unat cap) op xs)) ops [] = Some (rs, xs') \<and> deque_holds cap d' xs') \<and>
    (\<forall>d xs ys k. deque_holds cap d xs \<longrightarrow>
      (\<exists>d'. push_back_bulk cap ys d = (min (length ys) (unat cap - length xs), d') \<and>
         deque_holds cap d' (xs @ take (unat cap - length xs) ys)) \<and>
      (\<exists>d'. pop_front_bulk cap k d = Some (take k xs, d') \<and> deque_holds cap d' (drop k xs)) \<and>
      deque_holds cap (deque_clear cap d) [])"
proof -
  have "\<exists>d'. pop_front_bulk cap k d = Some (take k xs, d') \<and> deque_holds cap d' (drop k xs)"
    if "deque_holds cap d xs" for d xs k
    unfolding pop_front_bulk_def Let_def unat_deque_size [OF that]
    using take_fronts_ok [OF that, of k] take_fronts_ok [OF that, of "length xs"] by (cases "k < length xs") simp_all
  moreover have "deque_holds cap (deque_clear cap d) []" if "deque_holds cap d xs" for d xs
    using destroy_fronts_ok [OF that, of "length xs"] unat_deque_size [OF that] by (simp add: deque_clear_def)
  moreover note ring.run_refines [OF deque_holds_new [OF assms], of ops]
  ultimately show ?thesis using push_back_bulk_ok by blast
qed

theorem deque_refines_list_witness:
  "has_single_bit (4 :: u64) \<and>
   (\<exists>d'. run_with (step_with (emplace_back 4) (emplace_front 4) (deque_pop_back 4) (deque_pop_front 4))
      [Push_front 1, Push_back 2, Push_back 3, Push_front 0, Push_back 4, Pop_front, Pop_back, Pop_front]
      (new_deque 4 :: int ring_deque) =
      Some ([Done, Done, Done, Done, Failed Full, Got 0, Got 3, Got 1], d'))"
proof -
  have c: "has_single_bit (4 :: u64)" by (simp add: has_single_bit_iff) (rule exI [of _ 2], simp)
  from deque_refines_list [OF c, of "[Push_front 1, Push_back 2, Push_back 3, Push_front 0, Push_back 4, Pop_front, Pop_back, Pop_front :: int deque_op]"]
  show ?thesis using c by auto
qed

end
