(* ===== verification/RingBuffer.thy ===== *)
theory RingBuffer
  imports RingDeque
begin

text \<open>
  The lock-free ring of \<^verbatim>\<open>kernel/include/utils/ring_buffer.hpp\<close>.  Producers and consumers interleave:
  every access to a shared word is one step of its thread, which keeps the local variables of the
  source in its program counter.  A \<^verbatim>\<open>compare_exchange_weak\<close> may fail for no reason; whether it does is
  an argument of the step.  The result \<^const>\<open>None\<close> is a move out of a slot that holds no object.
\<close>

subsection \<open>Definitions\<close>

record 'a ring_slot =
  sequence :: u64
  slot_data :: "'a option"

record 'a ring =
  ring_head :: u64
  ring_tail :: u64
  ring_slots :: "'a ring_slot list"

definition new_ring :: "u64 \<Rightarrow> 'a ring" where
  "new_ring cap = \<lparr>ring_head = 0, ring_tail = 0,
     ring_slots = map (\<lambda>i. \<lparr>sequence = of_nat i, slot_data = None\<rparr>) [0..<unat cap]\<rparr>"

datatype 'a pc =
    Idle
  | P_load 'a | P_sequence 'a u64 | P_claim 'a u64 | P_construct 'a u64 | P_commit u64 | P_done bool
  | C_load | C_sequence u64 | C_claim u64 | C_move u64 | C_release 'a u64 | C_advance 'a u64 | C_done "'a option"

definition set_sequence :: "u64 \<Rightarrow> u64 \<Rightarrow> u64 \<Rightarrow> 'a ring \<Rightarrow> 'a ring" where
  "set_sequence cap i v r = (let k = slot_of cap i in
     r\<lparr>ring_slots := (ring_slots r)[k := (ring_slots r ! k)\<lparr>sequence := v\<rparr>]\<rparr>)"

definition set_data :: "u64 \<Rightarrow> u64 \<Rightarrow> 'a option \<Rightarrow> 'a ring \<Rightarrow> 'a ring" where
  "set_data cap i v r = (let k = slot_of cap i in
     r\<lparr>ring_slots := (ring_slots r)[k := (ring_slots r ! k)\<lparr>slot_data := v\<rparr>]\<rparr>)"

definition read_sequence :: "u64 \<Rightarrow> u64 \<Rightarrow> 'a ring \<Rightarrow> u64" where
  "read_sequence cap i r = sequence (ring_slots r ! slot_of cap i)"

definition read_data :: "u64 \<Rightarrow> u64 \<Rightarrow> 'a ring \<Rightarrow> 'a option" where
  "read_data cap i r = slot_data (ring_slots r ! slot_of cap i)"

definition commit :: "u64 \<Rightarrow> u64 \<Rightarrow> 'a ring \<Rightarrow> 'a ring" where
  "commit cap head r = set_sequence cap head (head + 1) r"

fun emplace_step :: "u64 \<Rightarrow> bool \<Rightarrow> 'a pc \<Rightarrow> 'a ring \<Rightarrow> 'a pc \<times> 'a ring" where
  "emplace_step cap spurious (P_load x) r = (P_sequence x (ring_head r), r)"
| "emplace_step cap spurious (P_sequence x head) r =
     (let diff = sint (read_sequence cap head r - head) in
      if diff = 0 then (P_claim x head, r)
      else if diff < 0 then (P_done False, r)
      else (P_load x, r))"
| "emplace_step cap spurious (P_claim x head) r =
     (if \<not> spurious \<and> ring_head r = head then (P_construct x head, r\<lparr>ring_head := head + 1\<rparr>)
      else (P_sequence x (ring_head r), r))"
| "emplace_step cap spurious (P_construct x head) r = (P_commit head, set_data cap head (Some x) r)"
| "emplace_step cap spurious (P_commit head) r = (P_done True, commit cap head r)"
| "emplace_step cap spurious pc r = (pc, r)"

fun dequeue_step :: "u64 \<Rightarrow> bool \<Rightarrow> bool \<Rightarrow> 'a pc \<Rightarrow> 'a ring \<Rightarrow> ('a pc \<times> 'a ring) option" where
  "dequeue_step cap multi spurious C_load r = Some (C_sequence (ring_tail r), r)"
| "dequeue_step cap multi spurious (C_sequence tail) r =
     (let diff = sint (read_sequence cap tail r - (tail + 1)) in
      Some (if diff = 0 then (if multi then C_claim tail else C_move tail, r)
        else if diff < 0 then (C_done None, r)
        else (C_load, r)))"
| "dequeue_step cap multi spurious (C_claim tail) r =
     Some (if \<not> spurious \<and> ring_tail r = tail then (C_move tail, r\<lparr>ring_tail := tail + 1\<rparr>)
      else (C_sequence (ring_tail r), r))"
| "dequeue_step cap multi spurious (C_move tail) r =
     map_option (\<lambda>v. (C_release v tail, set_data cap tail None r)) (read_data cap tail r)"
| "dequeue_step cap multi spurious (C_release v tail) r =
     Some (if multi then C_done (Some v) else C_advance v tail, set_sequence cap tail (tail + cap) r)"
| "dequeue_step cap multi spurious (C_advance v tail) r =
     Some (C_done (Some v), r\<lparr>ring_tail := tail + 1\<rparr>)"
| "dequeue_step cap multi spurious pc r = Some (pc, r)"

definition size_approx :: "'a ring \<Rightarrow> u64" where
  "size_approx r = (if ring_head r \<ge> ring_tail r then ring_head r - ring_tail r else 0)"

subsection \<open>Threads\<close>

text \<open>
  The threads that use a ring, with what has happened so far: the items in the order in which their
  tickets were taken, and the tickets that were served with the items that were handed out.
\<close>

record 'a ring_sys =
  the_ring :: "'a ring"
  pcs :: "nat \<Rightarrow> 'a pc"
  pushed :: "'a list"
  popped :: "(nat \<times> 'a) list"

fun consuming :: "'a pc \<Rightarrow> bool" where
  "consuming C_load = True"
| "consuming (C_sequence t) = True"
| "consuming (C_claim t) = True"
| "consuming (C_move t) = True"
| "consuming (C_release v t) = True"
| "consuming (C_advance v t) = True"
| "consuming pc = False"

inductive ring_sys_step :: "u64 \<Rightarrow> bool \<Rightarrow> 'a ring_sys \<Rightarrow> 'a ring_sys \<Rightarrow> bool" for cap multi where
  start_push: "pcs s i = Idle \<Longrightarrow> ring_sys_step cap multi s (s\<lparr>pcs := (pcs s)(i := P_load x)\<rparr>)"
| push: "emplace_step cap spurious (pcs s i) (the_ring s) = (pc, r) \<Longrightarrow>
    new = (case (pcs s i, pc) of (P_claim x h, P_construct y k) \<Rightarrow> [x] | _ \<Rightarrow> []) \<Longrightarrow>
    ring_sys_step cap multi s (s\<lparr>the_ring := r, pcs := (pcs s)(i := pc), pushed := pushed s @ new\<rparr>)"
| end_push: "pcs s i = P_done b \<Longrightarrow> ring_sys_step cap multi s (s\<lparr>pcs := (pcs s)(i := Idle)\<rparr>)"
| start_pop: "pcs s i = Idle \<Longrightarrow> multi \<or> (\<forall>j. \<not> consuming (pcs s j)) \<Longrightarrow>
    ring_sys_step cap multi s (s\<lparr>pcs := (pcs s)(i := C_load)\<rparr>)"
| pop: "dequeue_step cap multi spurious (pcs s i) (the_ring s) = Some (pc, r) \<Longrightarrow>
    got = (case (pcs s i, pc) of (C_move t, C_release v k) \<Rightarrow> [(unat t, v)] | _ \<Rightarrow> []) \<Longrightarrow>
    ring_sys_step cap multi s (s\<lparr>the_ring := r, pcs := (pcs s)(i := pc), popped := popped s @ got\<rparr>)"
| end_pop: "pcs s i = C_done v \<Longrightarrow> ring_sys_step cap multi s (s\<lparr>pcs := (pcs s)(i := Idle)\<rparr>)"

definition ring_start :: "u64 \<Rightarrow> 'a ring_sys" where
  "ring_start cap = \<lparr>the_ring = new_ring cap, pcs = (\<lambda>_. Idle), pushed = [], popped = []\<rparr>"

inductive ring_reachable :: "u64 \<Rightarrow> bool \<Rightarrow> 'a ring_sys \<Rightarrow> bool" for cap multi where
  at_start: "ring_reachable cap multi (ring_start cap)"
| after_step: "ring_reachable cap multi s \<Longrightarrow> ring_sys_step cap multi s s' \<Longrightarrow> ring_reachable cap multi s'"

end
