(* ===== verification/RingSlots.thy ===== *)
theory RingSlots
  imports RingBuffer
begin

text \<open>
  The slot protocol of the lock-free ring, over the tickets as natural numbers: \<open>H\<close> tickets are given
  to producers and \<open>L\<close> to consumers, \<open>W\<close> are those whose producer has not published, \<open>R\<close> those whose
  consumer has not released.  The lemmas are the six changes a thread can make.
\<close>

subsection \<open>Definitions\<close>

definition slots_ok :: "nat \<Rightarrow> nat \<Rightarrow> nat \<Rightarrow> nat set \<Rightarrow> nat set \<Rightarrow> (nat \<Rightarrow> u64) \<Rightarrow> (nat \<Rightarrow> 'a option) \<Rightarrow> 'a list \<Rightarrow> bool" where
  "slots_ok C H L W R q d xs \<longleftrightarrow>
     2 \<le> C \<and> length xs = H \<and> L \<le> H \<and> H \<le> L + C \<and> H + C < 2 ^ 63 \<and> W \<subseteq> {L..<H} \<and>
     (\<forall>i. L \<le> i \<and> i < H \<and> i \<notin> W \<longrightarrow> q (i mod C) = of_nat (i + 1) \<and> d (i mod C) = Some (xs ! i)) \<and>
     (\<forall>i\<in>W. q (i mod C) = of_nat i) \<and>
     (\<forall>i\<in>R. i < L \<and> H \<le> i + C \<and> q (i mod C) = of_nat (i + 1)) \<and>
     (\<forall>i. H \<le> i \<and> i < H + C \<and> (\<forall>k. k \<in> R \<or> L \<le> k \<and> k < H \<longrightarrow> i \<noteq> k + C) \<longrightarrow> q (i mod C) = of_nat i)"

subsection \<open>The changes\<close>

lemma unat_ticket: "i < 2 ^ 64 \<Longrightarrow> unat (of_nat i :: u64) = i"
  by (simp add: unat_of_nat take_bit_nat_eq_self)

lemma of_nat_ticket: "i < 2 ^ 64 \<Longrightarrow> j < 2 ^ 64 \<Longrightarrow> (of_nat i :: u64) = of_nat j \<longleftrightarrow> i = j"
  using unat_ticket [of i] unat_ticket [of j] by metis

lemma mod_distinct: "i < j \<Longrightarrow> j < i + n \<Longrightarrow> i mod n \<noteq> j mod n" for i j n :: nat
  using mod_add_inj [of 0 n "j - i" i] by auto

lemma slots_okD:
  assumes "slots_ok C H L W R q d xs"
  shows "2 \<le> C" "length xs = H" "L \<le> H" "H \<le> L + C" "H + C < 2 ^ 63"
    and "i \<in> W \<Longrightarrow> L \<le> i" "i \<in> W \<Longrightarrow> i < H" "i \<in> W \<Longrightarrow> q (i mod C) = of_nat i"
    and "L \<le> i \<Longrightarrow> i < H \<Longrightarrow> i \<notin> W \<Longrightarrow> q (i mod C) = of_nat (i + 1)"
    and "L \<le> i \<Longrightarrow> i < H \<Longrightarrow> i \<notin> W \<Longrightarrow> d (i mod C) = Some (xs ! i)"
    and "i \<in> R \<Longrightarrow> i < L" "i \<in> R \<Longrightarrow> H \<le> i + C" "i \<in> R \<Longrightarrow> q (i mod C) = of_nat (i + 1)"
    and "H \<le> i \<Longrightarrow> i < H + C \<Longrightarrow> (\<And>k. k \<in> R \<or> L \<le> k \<and> k < H \<Longrightarrow> i \<noteq> k + C) \<Longrightarrow> q (i mod C) = of_nat i"
  using assms unfolding slots_ok_def by auto

lemma slots_okI:
  assumes "2 \<le> C" "length xs = H" "L \<le> H" "H \<le> L + C" "H + C < 2 ^ 63"
    and "\<And>i. i \<in> W \<Longrightarrow> L \<le> i \<and> i < H \<and> q (i mod C) = of_nat i"
    and "\<And>i. L \<le> i \<Longrightarrow> i < H \<Longrightarrow> i \<notin> W \<Longrightarrow> q (i mod C) = of_nat (i + 1) \<and> d (i mod C) = Some (xs ! i)"
    and "\<And>i. i \<in> R \<Longrightarrow> i < L \<and> H \<le> i + C \<and> q (i mod C) = of_nat (i + 1)"
    and "\<And>i. H \<le> i \<Longrightarrow> i < H + C \<Longrightarrow> (\<And>k. k \<in> R \<or> L \<le> k \<and> k < H \<Longrightarrow> i \<noteq> k + C) \<Longrightarrow> q (i mod C) = of_nat i"
  shows "slots_ok C H L W R q d xs"
proof -
  have "\<forall>i. H \<le> i \<and> i < H + C \<and> (\<forall>k. k \<in> R \<or> L \<le> k \<and> k < H \<longrightarrow> i \<noteq> k + C) \<longrightarrow> q (i mod C) = of_nat i"
    using assms(9) by blast
  moreover have "W \<subseteq> {L..<H}" "\<forall>i\<in>W. q (i mod C) = of_nat i" using assms(6) by auto
  ultimately show ?thesis unfolding slots_ok_def using assms(1-5,7,8) by blast
qed

lemma live_distinct:
  assumes "slots_ok C H L W R q d xs" "i \<in> R \<or> L \<le> i \<and> i < H" "j \<in> R \<or> L \<le> j \<and> j < H" "i \<noteq> j"
  shows "i mod C \<noteq> j mod C"
proof -
  have "i < H" "j < H" "H \<le> i + C" "H \<le> j + C"
    using assms slots_okD(3,4,11,12) [OF assms(1)] by (fastforce simp: less_le_trans)+
  then show ?thesis using mod_distinct [of i j C] mod_distinct [of j i C] assms(4) by (cases "i < j") auto
qed

text \<open>What the sequence of the slot of a ticket can be.\<close>

lemma sequence_of_live:
  assumes "slots_ok C H L W R q d xs" "i \<in> R \<or> L \<le> i \<and> i < H"
  shows "q (i mod C) = of_nat (if i \<in> W then i else i + 1)"
  using assms(2) slots_okD(6,8,9,11,13) [OF assms(1), of i] by (cases "i \<in> W") auto

lemma head_slot:
  assumes "slots_ok C H L W R q d xs"
  shows "q (H mod C) = of_nat H \<or> (\<exists>k. (k \<in> R \<or> L \<le> k \<and> k < H) \<and> H = k + C)"
  using slots_okD(14) [OF assms, of H] slots_okD(1) [OF assms] by auto

lemma head_free:
  assumes "slots_ok C H L W R q d xs" "q (H mod C) = of_nat H" "k \<in> R \<or> L \<le> k \<and> k < H"
  shows "H < k + C"
proof (rule ccontr)
  note ok = slots_okD [OF assms(1)]
  assume "\<not> H < k + C"
  moreover have "H \<le> k + C" using assms(3) ok(4) ok(12) by auto
  ultimately have H: "H = k + C" by simp
  have "q (k mod C) = of_nat (if k \<in> W then k else k + 1)" using assms(1,3) by (rule sequence_of_live)
  then have "(of_nat H :: u64) = of_nat (if k \<in> W then k else k + 1)" using assms(2) H by simp
  then show False using of_nat_ticket [of H "if k \<in> W then k else k + 1"] H ok(1,5) by (auto split: if_splits)
qed

lemma push_claim:
  assumes "slots_ok C H L W R q d xs" "q (H mod C) = of_nat H" "H + 1 + C < 2 ^ 63"
  shows "slots_ok C (H + 1) L (insert H W) R q d (xs @ [x])"
proof -
  note ok = slots_okD [OF assms(1)]
  have free: "H < k + C" if "k \<in> R \<or> L \<le> k \<and> k < H" for k using assms(1,2) that by (rule head_free)
  have HL: "H < L + C" using free [of L] ok(1,3) by (cases "L < H") auto
  have app: "(xs @ [x]) ! i = xs ! i" if "i < H" for i using that ok(2) by (simp add: nth_append)
  show ?thesis
  proof (rule slots_okI)
    show "L \<le> i \<and> i < H + 1 \<and> q (i mod C) = of_nat i" if "i \<in> insert H W" for i
      using that ok(3) ok(6,7,8) [of i] assms(2) by fastforce
    show "q (i mod C) = of_nat (i + 1) \<and> d (i mod C) = Some ((xs @ [x]) ! i)"
      if "L \<le> i" "i < H + 1" "i \<notin> insert H W" for i
      using that ok(9,10) [of i] app [of i] by simp
    show "i < L \<and> H + 1 \<le> i + C \<and> q (i mod C) = of_nat (i + 1)" if "i \<in> R" for i
      using that ok(11,13) [of i] free [of i] by simp
    show "q (i mod C) = of_nat i"
      if "H + 1 \<le> i" "i < H + 1 + C" "\<And>k. k \<in> R \<or> L \<le> k \<and> k < H + 1 \<Longrightarrow> i \<noteq> k + C" for i
      using ok(14) [of i] that(1,2) that(3) [of H] that(3) ok(3) by force
  qed (use ok HL assms(3) in auto)
qed

lemma construct_data:
  assumes "slots_ok C H L W R q d xs" "i \<in> W"
  shows "slots_ok C H L W R q (d(i mod C := v)) xs"
proof -
  note ok = slots_okD [OF assms(1)]
  have "j mod C \<noteq> i mod C" if "L \<le> j" "j < H" "j \<notin> W" for j
    using live_distinct [OF assms(1), of j i] that assms(2) ok(6,7) [of i] by auto
  then show ?thesis using assms(1) unfolding slots_ok_def by simp
qed

lemma commit_ticket:
  assumes "slots_ok C H L W R q d xs" "i \<in> W" "d (i mod C) = Some (xs ! i)"
  shows "slots_ok C H L (W - {i}) R (q(i mod C := of_nat (i + 1))) d xs"
proof -
  note ok = slots_okD [OF assms(1)]
  have i: "L \<le> i" "i < H" using ok(6,7) assms(2) by auto
  have live: "j mod C \<noteq> i mod C" if "j \<in> R \<or> L \<le> j \<and> j < H" "j \<noteq> i" for j
    using live_distinct [OF assms(1), of j i] that i by auto
  have free: "j mod C \<noteq> i mod C"
    if "H \<le> j" "j < H + C" "\<And>k. k \<in> R \<or> L \<le> k \<and> k < H \<Longrightarrow> j \<noteq> k + C" for j
  proof -
    have "j \<noteq> i + C" using that(3) [of i] i by simp
    then show ?thesis
      using that(1,2) i ok(4) mod_distinct [of i j C] mod_distinct [of "i + C" j C] by (cases "j < i + C") (auto dest: le_neq_trans)
  qed
  show ?thesis
  proof (rule slots_okI)
    show "L \<le> j \<and> j < H \<and> (q(i mod C := of_nat (i + 1))) (j mod C) = of_nat j" if "j \<in> W - {i}" for j
      using that ok(6,7,8) [of j] live [of j] by simp
    show "(q(i mod C := of_nat (i + 1))) (j mod C) = of_nat (j + 1) \<and> d (j mod C) = Some (xs ! j)"
      if "L \<le> j" "j < H" "j \<notin> W - {i}" for j
      using that ok(9,10) [of j] live [of j] assms(3) by (cases "j = i") simp_all
    show "j < L \<and> H \<le> j + C \<and> (q(i mod C := of_nat (i + 1))) (j mod C) = of_nat (j + 1)" if "j \<in> R" for j
      using that ok(11,12,13) [of j] live [of j] by (cases "j = i") simp_all
    show "(q(i mod C := of_nat (i + 1))) (j mod C) = of_nat j"
      if "H \<le> j" "j < H + C" "\<And>k. k \<in> R \<or> L \<le> k \<and> k < H \<Longrightarrow> j \<noteq> k + C" for j
      using free [OF that] ok(14) [OF that] by simp
  qed (use ok in auto)
qed

lemma pop_claim:
  assumes "slots_ok C H L W R q d xs" "q (L mod C) = of_nat (L + 1)"
  shows "L < H" "L \<notin> W" "d (L mod C) = Some (xs ! L)" "slots_ok C H (L + 1) W (insert L R) q d xs"
proof -
  note ok = slots_okD [OF assms(1)]
  show LH: "L < H"
  proof (rule ccontr)
    assume "\<not> L < H"
    then have eq: "H = L" using ok(3) by simp
    then show False using head_slot [OF assms(1)]
    proof (elim disjE exE conjE)
      assume "q (H mod C) = of_nat H"
      then show False using assms(2) eq of_nat_ticket [of H "L + 1"] ok(5) by simp
    next
      fix k assume k: "k \<in> R" "H = k + C"
      then have "q (H mod C) = of_nat (k + 1)" using ok(13) [of k] by simp
      then show False using assms(2) eq of_nat_ticket [of "k + 1" "L + 1"] ok(1,5) k by simp
    qed (use eq in auto)
  qed
  show LW: "L \<notin> W" using ok(8) [of L] assms(2) of_nat_ticket [of L "L + 1"] LH ok(5) by auto
  show "d (L mod C) = Some (xs ! L)" using ok(10) [of L] LH LW by simp
  have "W \<subseteq> {L + 1..<H}" using ok(6,7) LW by (force simp: Suc_le_eq le_less)
  moreover have "q (i mod C) = of_nat i"
    if "H \<le> i" "i < H + C" "\<And>k. k \<in> insert L R \<or> L + 1 \<le> k \<and> k < H \<Longrightarrow> i \<noteq> k + C" for i
    by (rule ok(14) [OF that(1,2)], rule that(3)) (auto simp: le_less Suc_le_eq)
  ultimately show "slots_ok C H (L + 1) W (insert L R) q d xs"
    using LH assms(2) ok(1-5,8-13)
    by (intro slots_okI) (auto simp: less_Suc_eq)
qed

lemma move_data:
  assumes "slots_ok C H L W R q d xs" "i \<in> R"
  shows "slots_ok C H L W R q (d(i mod C := v)) xs"
proof -
  have "j mod C \<noteq> i mod C" if "L \<le> j" "j < H" for j
    using live_distinct [OF assms(1), of j i] that assms(2) slots_okD(11) [OF assms(1), of i] by auto
  then show ?thesis using assms(1) unfolding slots_ok_def by simp
qed

lemma release_ticket:
  assumes "slots_ok C H L W R q d xs" "i \<in> R"
  shows "slots_ok C H L W (R - {i}) (q(i mod C := of_nat (i + C))) d xs"
proof -
  note ok = slots_okD [OF assms(1)]
  have i: "i < L" "H \<le> i + C" using ok(11,12) assms(2) by auto
  have live: "j mod C \<noteq> i mod C" if "j \<in> R \<or> L \<le> j \<and> j < H" "j \<noteq> i" for j
    using live_distinct [OF assms(1), of j i] that assms(2) by auto
  have free: "(q(i mod C := of_nat (i + C))) (j mod C) = of_nat j"
    if "H \<le> j" "j < H + C" "\<And>k. k \<in> R - {i} \<or> L \<le> k \<and> k < H \<Longrightarrow> j \<noteq> k + C" for j
  proof (cases "j = i + C")
    case False
    then have "j mod C \<noteq> i mod C"
      using that(1,2) i ok(3) mod_distinct [of i j C] mod_distinct [of "i + C" j C] by (cases "j < i + C") auto
    moreover have "q (j mod C) = of_nat j" using ok(14) [of j] that False by blast
    ultimately show ?thesis by simp
  qed simp
  show ?thesis
  proof (rule slots_okI)
    show "L \<le> j \<and> j < H \<and> (q(i mod C := of_nat (i + C))) (j mod C) = of_nat j" if "j \<in> W" for j
      using that ok(6,7,8) [of j] live [of j] i by (cases "j = i") simp_all
    show "(q(i mod C := of_nat (i + C))) (j mod C) = of_nat (j + 1) \<and> d (j mod C) = Some (xs ! j)"
      if "L \<le> j" "j < H" "j \<notin> W" for j
      using that ok(9,10) [of j] live [of j] i by (cases "j = i") simp_all
    show "j < L \<and> H \<le> j + C \<and> (q(i mod C := of_nat (i + C))) (j mod C) = of_nat (j + 1)" if "j \<in> R - {i}" for j
      using that ok(11,12,13) [of j] live [of j] by simp
  qed (use ok free in auto)
qed

text \<open>A ticket that was given away never finds an older sequence in its slot.\<close>

lemma stale_sequence:
  assumes "slots_ok C H L W R q d xs" "h < H"
  shows "\<exists>n. q (h mod C) = of_nat n \<and> h \<le> n \<and> n < H + C \<and> (h < L \<longrightarrow> h < n)"
proof -
  note ok = slots_okD [OF assms(1)]
  define j where "j = H + (h + C * H - H) mod C"
  have C: "0 < C" using ok(1) by simp
  have j: "H \<le> j" "j < H + C" using C by (simp_all add: j_def)
  have "H \<le> C * H" using C by simp
  then have jm: "j mod C = h mod C" unfolding j_def by (metis (no_types) add.commute le_add_diff_inverse mod_add_right_eq mod_mult_self2 trans_le_add2)
  show ?thesis
  proof (cases "\<exists>k. (k \<in> R \<or> L \<le> k \<and> k < H) \<and> j = k + C")
    case True
    then obtain k where k: "k \<in> R \<or> L \<le> k \<and> k < H" "j = k + C" by blast
    then have "k mod C = h mod C" using jm by simp
    then have hk: "h \<le> k" using mod_distinct [of k h C] assms(2) j(1) k(2) by (cases "h \<le> k") auto
    have "q (h mod C) = of_nat (if k \<in> W then k else k + 1)"
      using sequence_of_live [OF assms(1) k(1)] \<open>k mod C = h mod C\<close> by simp
    moreover have "k < H" using k(1) ok(3,11) by (meson order_less_le_trans)
    moreover have "k \<in> W \<Longrightarrow> L \<le> k" by (rule ok(6))
    ultimately show ?thesis using hk ok(1) by (intro exI [of _ "if k \<in> W then k else k + 1"]) auto
  next
    case False
    then have "q (h mod C) = of_nat j" using ok(14) [of j] j jm by auto
    then show ?thesis using j assms(2) by (intro exI [of _ j]) auto
  qed
qed

end
