(* ===== verification/RingProps.thy ===== *)
theory RingProps
  imports RingSlots
begin

text \<open>
  The threads of the lock-free ring follow the slot protocol: no item is lost, none is handed out
  twice, and the items leave in the order of their tickets.
\<close>

subsection \<open>Definitions\<close>

definition sequences :: "'a ring \<Rightarrow> nat \<Rightarrow> u64" where
  "sequences r k = sequence (ring_slots r ! k)"

definition datas :: "'a ring \<Rightarrow> nat \<Rightarrow> 'a option" where
  "datas r k = slot_data (ring_slots r ! k)"

fun writes :: "'a pc \<Rightarrow> nat option" where
  "writes (P_construct x h) = Some (unat h)"
| "writes (P_commit h) = Some (unat h)"
| "writes pc = None"

fun moving :: "'a pc \<Rightarrow> nat option" where
  "moving (C_move t) = Some (unat t)"
| "moving pc = None"

fun reads :: "'a pc \<Rightarrow> nat option" where
  "reads (C_release v t) = Some (unat t)"
| "reads pc = moving pc"

fun taking :: "'a pc \<Rightarrow> bool" where
  "taking (C_advance v t) = True"
| "taking pc = (reads pc \<noteq> None)"

definition owners :: "('a pc \<Rightarrow> nat option) \<Rightarrow> (nat \<Rightarrow> 'a pc) \<Rightarrow> nat set" where
  "owners g f = {n. \<exists>j. g (f j) = Some n}"

definition sole :: "('a pc \<Rightarrow> nat option) \<Rightarrow> (nat \<Rightarrow> 'a pc) \<Rightarrow> bool" where
  "sole g f \<longleftrightarrow> (\<forall>i j. g (f i) \<noteq> None \<and> g (f i) = g (f j) \<longrightarrow> i = j)"

fun pc_ok :: "nat \<Rightarrow> bool \<Rightarrow> nat \<Rightarrow> nat \<Rightarrow> (nat \<Rightarrow> u64) \<Rightarrow> (nat \<Rightarrow> 'a option) \<Rightarrow> 'a list \<Rightarrow> 'a pc \<Rightarrow> bool" where
  "pc_ok C multi H L q d xs (P_sequence x h) = (unat h \<le> H)"
| "pc_ok C multi H L q d xs (P_claim x h) = (unat h \<le> H \<and> (unat h = H \<longrightarrow> q (H mod C) = of_nat H))"
| "pc_ok C multi H L q d xs (P_construct x h) = (xs ! unat h = x)"
| "pc_ok C multi H L q d xs (P_commit h) = (d (unat h mod C) = Some (xs ! unat h))"
| "pc_ok C multi H L q d xs (C_sequence t) = (unat t \<le> L \<and> (multi \<or> unat t = L))"
| "pc_ok C multi H L q d xs (C_claim t) = (multi \<and> unat t \<le> L \<and> (unat t = L \<longrightarrow> q (L mod C) = of_nat (L + 1)))"
| "pc_ok C multi H L q d xs (C_move t) = (d (unat t mod C) = Some (xs ! unat t) \<and> (multi \<or> unat t + 1 = L))"
| "pc_ok C multi H L q d xs (C_release v t) = (v = xs ! unat t \<and> (multi \<or> unat t + 1 = L))"
| "pc_ok C multi H L q d xs (C_advance v t) = (v = xs ! unat t \<and> \<not> multi \<and> unat t + 1 = L)"
| "pc_ok C multi H L q d xs pc = True"

definition tail_ok :: "bool \<Rightarrow> nat \<Rightarrow> u64 \<Rightarrow> (nat \<Rightarrow> 'a pc) \<Rightarrow> bool" where
  "tail_ok multi L t f \<longleftrightarrow>
     (if multi then t = of_nat L
      else (\<forall>i j. consuming (f i) \<and> consuming (f j) \<longrightarrow> i = j) \<and>
        t = of_nat (if \<exists>j. taking (f j) then L - 1 else L))"

definition log_ok :: "nat \<Rightarrow> nat set \<Rightarrow> 'a list \<Rightarrow> (nat \<times> 'a) list \<Rightarrow> bool" where
  "log_ok L M xs log \<longleftrightarrow>
     distinct (map fst log) \<and> fst ` set log \<union> M = {..<L} \<and> fst ` set log \<inter> M = {} \<and>
     (\<forall>(t, v) \<in> set log. v = xs ! t)"

definition ring_inv :: "u64 \<Rightarrow> bool \<Rightarrow> 'a ring_sys \<Rightarrow> nat \<Rightarrow> bool" where
  "ring_inv cap multi s L \<longleftrightarrow>
     (let C = unat cap; H = length (pushed s); r = the_ring s; q = sequences r; d = datas r in
      has_single_bit cap \<and> length (ring_slots r) = C \<and> ring_head r = of_nat H \<and>
      slots_ok C H L (owners writes (pcs s)) (owners reads (pcs s)) q d (pushed s) \<and>
      sole writes (pcs s) \<and> sole reads (pcs s) \<and>
      (\<forall>j. pc_ok C multi H L q d (pushed s) (pcs s j)) \<and>
      tail_ok multi L (ring_tail r) (pcs s) \<and>
      log_ok L (owners moving (pcs s)) (pushed s) (popped s))"

subsection \<open>Threads and tickets\<close>

lemma owners_same: "g pc = g (f i) \<Longrightarrow> owners g (f(i := pc)) = owners g f"
  unfolding owners_def by (metis fun_upd_apply)

lemma owners_gain: "g (f i) = None \<Longrightarrow> g pc = Some n \<Longrightarrow> owners g (f(i := pc)) = insert n (owners g f)"
  unfolding owners_def by (auto split: if_splits) (metis option.distinct(1))

lemma owners_lose:
  "sole g f \<Longrightarrow> g (f i) = Some n \<Longrightarrow> g pc = None \<Longrightarrow> owners g (f(i := pc)) = owners g f - {n}"
  unfolding owners_def sole_def by (auto split: if_splits) (metis option.inject)

lemma sole_same: "sole g f \<Longrightarrow> g pc = g (f i) \<Longrightarrow> sole g (f(i := pc))"
  unfolding sole_def by (metis fun_upd_apply)

lemma sole_lose: "sole g f \<Longrightarrow> g pc = None \<Longrightarrow> sole g (f(i := pc))"
  unfolding sole_def by (metis fun_upd_apply)

lemma sole_gain: "sole g f \<Longrightarrow> g pc = Some n \<Longrightarrow> n \<notin> owners g f \<Longrightarrow> sole g (f(i := pc))"
  unfolding sole_def owners_def by (auto split: if_splits)

lemma sole_other: "sole g f \<Longrightarrow> g (f i) = Some n \<Longrightarrow> g (f j) = Some m \<Longrightarrow> j \<noteq> i \<Longrightarrow> m \<noteq> n"
  unfolding sole_def by (metis option.distinct(1))

lemma ownersI: "g (f i) = Some n \<Longrightarrow> n \<in> owners g f"
  unfolding owners_def by blast

lemma sole_moving: "sole reads f \<Longrightarrow> sole moving f"
proof -
  assume a: "sole reads f"
  have "moving pc \<noteq> None \<Longrightarrow> reads pc = moving pc" for pc :: "'a pc" by (cases pc) auto
  then show ?thesis using a unfolding sole_def by metis
qed

subsection \<open>Ring accesses\<close>

lemma set_sequence_facts:
  assumes "has_single_bit cap" "length (ring_slots r) = unat cap"
  shows "sequences (set_sequence cap i v r) = (sequences r)(unat i mod unat cap := v)"
    and "datas (set_sequence cap i v r) = datas r"
    and "length (ring_slots (set_sequence cap i v r)) = unat cap"
    and "ring_head (set_sequence cap i v r) = ring_head r" "ring_tail (set_sequence cap i v r) = ring_tail r"
  using assms slot_of_mod [OF assms(1)]
  by (auto simp: set_sequence_def sequences_def datas_def Let_def nth_list_update fun_eq_iff)

lemma set_data_facts:
  assumes "has_single_bit cap" "length (ring_slots r) = unat cap"
  shows "datas (set_data cap i v r) = (datas r)(unat i mod unat cap := v)"
    and "sequences (set_data cap i v r) = sequences r"
    and "length (ring_slots (set_data cap i v r)) = unat cap"
    and "ring_head (set_data cap i v r) = ring_head r" "ring_tail (set_data cap i v r) = ring_tail r"
  using assms slot_of_mod [OF assms(1)]
  by (auto simp: set_data_def sequences_def datas_def Let_def nth_list_update fun_eq_iff)

lemma read_facts:
  assumes "has_single_bit cap"
  shows "read_sequence cap i r = sequences r (unat i mod unat cap)" "read_data cap i r = datas r (unat i mod unat cap)"
  using slot_of_mod [OF assms] by (simp_all add: read_sequence_def read_data_def sequences_def datas_def)

lemma index_updates [simp]:
  "sequences (r\<lparr>ring_head := v\<rparr>) = sequences r" "datas (r\<lparr>ring_head := v\<rparr>) = datas r"
  "sequences (r\<lparr>ring_tail := v\<rparr>) = sequences r" "datas (r\<lparr>ring_tail := v\<rparr>) = datas r"
  by (auto simp: sequences_def datas_def fun_eq_iff)

subsection \<open>What the other threads know stays true\<close>

lemma pc_ok_push_claim:
  assumes "pc_ok C multi H L q d xs pc" "length xs = H" "L \<le> H"
    and "\<And>n. writes pc = Some n \<Longrightarrow> n < H" "\<And>n. reads pc = Some n \<Longrightarrow> n < H"
  shows "pc_ok C multi (H + 1) L q d (xs @ [x]) pc"
  using assms by (cases pc) (auto simp: nth_append)

lemma pc_ok_set_data:
  assumes "slots_ok C H L W R q d xs" "pc_ok C multi H L q d xs pc" "i \<in> W \<or> i \<in> R"
    and "\<And>n. writes pc = Some n \<Longrightarrow> n \<in> W \<and> n \<noteq> i" "\<And>n. reads pc = Some n \<Longrightarrow> n \<in> R \<and> n \<noteq> i"
  shows "pc_ok C multi H L q (d(i mod C := v)) xs pc"
proof -
  have "n mod C \<noteq> i mod C" if "writes pc = Some n \<or> reads pc = Some n" for n
    using live_distinct [OF assms(1), of n i] that assms(3-5) slots_okD(6,7) [OF assms(1)] by blast
  then show ?thesis using assms(2) by (cases pc) auto
qed

lemma pc_ok_set_sequence:
  assumes "slots_ok C H L W R q d xs" "pc_ok C multi H L q d xs pc" "i \<in> W \<or> i \<in> R"
  shows "pc_ok C multi H L (q(i mod C := v)) d xs pc"
proof -
  note ok = slots_okD [OF assms(1)]
  have live: "i \<in> R \<or> L \<le> i \<and> i < H" using assms(3) ok(6,7) by auto
  have seq: "q (i mod C) = of_nat (if i \<in> W then i else i + 1)" using assms(1) live by (rule sequence_of_live)
  have iH: "i < H" using live ok(3) ok(11) [of i] by auto
  have "H mod C \<noteq> i mod C" if "q (H mod C) = of_nat H"
    using mod_distinct [of i H C] iH head_free [OF assms(1) that live] by simp
  moreover have "L mod C \<noteq> i mod C" if q: "q (L mod C) = of_nat (L + 1)"
  proof (cases "i = L")
    case True
    then have "i \<in> W" using assms(3) ok(11) [of i] by auto
    then show ?thesis using seq q pop_claim(2) [OF assms(1) q] True by simp
  next
    case False
    then show ?thesis using live_distinct [OF assms(1), of L i] live pop_claim(1) [OF assms(1) q] by auto
  qed
  ultimately show ?thesis using assms(2) by (cases pc) auto
qed

lemma pc_ok_pop_claim:
  assumes "pc_ok C multi H L q d xs pc" "multi \<or> \<not> consuming pc"
  shows "pc_ok C multi H (L + 1) q d xs pc"
  using assms by (cases pc) auto

subsection \<open>Steps\<close>

lemma tail_ok_same:
  assumes "tail_ok multi L t f" "taking pc = taking (f i)" "consuming pc \<Longrightarrow> consuming (f i)"
  shows "tail_ok multi L t (f(i := pc))"
proof -
  have "(\<exists>j. taking ((f(i := pc)) j)) = (\<exists>j. taking (f j))" using assms(2) by (metis fun_upd_apply)
  moreover have "consuming ((f(i := pc)) j) \<Longrightarrow> consuming (f j)" for j using assms(3) by (auto split: if_splits)
  ultimately show ?thesis using assms(1) unfolding tail_ok_def by presburger
qed

lemma log_ok_push: "log_ok L M xs log \<Longrightarrow> L \<le> length xs \<Longrightarrow> log_ok L M (xs @ ys) log"
proof -
  assume log: "log_ok L M xs log" and L: "L \<le> length xs"
  have "(xs @ ys) ! t = xs ! t" if "(t, v) \<in> set log" for t v
  proof -
    have "t \<in> {..<L}" using log that unfolding log_ok_def by (metis UnI1 fst_conv imageI)
    then show ?thesis using L by (simp add: nth_append)
  qed
  then show ?thesis using log unfolding log_ok_def by fastforce
qed

lemma log_ok_claim: "log_ok L M xs log \<Longrightarrow> log_ok (L + 1) (insert L M) xs log"
  unfolding log_ok_def by (auto simp: lessThan_Suc)

lemma log_ok_move: "log_ok L M xs log \<Longrightarrow> t \<in> M \<Longrightarrow> log_ok L (M - {t}) xs (log @ [(t, xs ! t)])"
  unfolding log_ok_def by auto

lemma log_okD:
  assumes "log_ok L M xs log"
  shows "distinct (map fst log)" "fst ` set log \<union> M = {..<L}" "fst ` set log \<inter> M = {}" "\<forall>(t, v) \<in> set log. v = xs ! t"
    and "t \<in> fst ` set log \<Longrightarrow> t < L \<and> t \<notin> M"
proof -
  show parts: "distinct (map fst log)" "fst ` set log \<union> M = {..<L}" "fst ` set log \<inter> M = {}" "\<forall>(t, v) \<in> set log. v = xs ! t"
    using assms unfolding log_ok_def by auto
  assume t: "t \<in> fst ` set log"
  then have "t \<in> {..<L}" unfolding parts(2) [symmetric] by (rule UnI1)
  moreover have "t \<notin> M" using t parts(3) by (meson disjoint_iff)
  ultimately show "t < L \<and> t \<notin> M" by simp
qed

text \<open>A step that changes no shared word and no ticket of its thread.\<close>

lemma quiet_step:
  assumes inv: "ring_inv cap multi s L"
    and same: "writes pc = writes (pcs s i)" "reads pc = reads (pcs s i)" "moving pc = moving (pcs s i)"
    and tail: "tail_ok multi L (ring_tail (the_ring s)) ((pcs s)(i := pc))"
    and ok: "pc_ok (unat cap) multi (length (pushed s)) L (sequences (the_ring s)) (datas (the_ring s)) (pushed s) pc"
  shows "ring_inv cap multi (s\<lparr>pcs := (pcs s)(i := pc)\<rparr>) L"
  using inv tail ok owners_same [of writes pc "pcs s" i] owners_same [of reads pc "pcs s" i] owners_same [of moving pc "pcs s" i]
    sole_same [of writes "pcs s" pc i] sole_same [of reads "pcs s" pc i] same
  unfolding ring_inv_def by (auto simp: Let_def)

lemma ring_invD:
  assumes "ring_inv cap multi s L"
  shows "has_single_bit cap" "length (ring_slots (the_ring s)) = unat cap"
    and "ring_head (the_ring s) = of_nat (length (pushed s))"
    and "slots_ok (unat cap) (length (pushed s)) L (owners writes (pcs s)) (owners reads (pcs s))
      (sequences (the_ring s)) (datas (the_ring s)) (pushed s)"
    and "sole writes (pcs s)" "sole reads (pcs s)"
    and "pc_ok (unat cap) multi (length (pushed s)) L (sequences (the_ring s)) (datas (the_ring s)) (pushed s) (pcs s j)"
    and "tail_ok multi L (ring_tail (the_ring s)) (pcs s)"
    and "log_ok L (owners moving (pcs s)) (pushed s) (popped s)"
  using assms unfolding ring_inv_def Let_def by auto

lemma ring_invI:
  assumes "has_single_bit cap" "length (ring_slots r) = unat cap" "ring_head r = of_nat (length xs)"
    and "slots_ok (unat cap) (length xs) L (owners writes f) (owners reads f) (sequences r) (datas r) xs"
    and "sole writes f" "sole reads f"
    and "\<And>j. pc_ok (unat cap) multi (length xs) L (sequences r) (datas r) xs (f j)"
    and "tail_ok multi L (ring_tail r) f" "log_ok L (owners moving f) xs log"
  shows "ring_inv cap multi \<lparr>the_ring = r, pcs = f, pushed = xs, popped = log\<rparr> L"
  using assms unfolding ring_inv_def Let_def by auto

lemma owned_tickets:
  assumes "ring_inv cap multi s L"
  shows "writes (pcs s j) = Some n \<Longrightarrow> L \<le> n \<and> n < length (pushed s)"
    and "reads (pcs s j) = Some n \<Longrightarrow> n < L"
    and "moving (pcs s j) = Some n \<Longrightarrow> reads (pcs s j) = Some n"
    and "L \<le> length (pushed s)" "length (pushed s) < 2 ^ 63"
proof -
  note ok = slots_okD [OF ring_invD(4) [OF assms]]
  show "writes (pcs s j) = Some n \<Longrightarrow> L \<le> n \<and> n < length (pushed s)" using ok(6,7) [of n] ownersI [of writes "pcs s" j n] by simp
  show "reads (pcs s j) = Some n \<Longrightarrow> n < L" using ok(11) [of n] ownersI [of reads "pcs s" j n] by simp
  show "moving (pcs s j) = Some n \<Longrightarrow> reads (pcs s j) = Some n" by (cases "pcs s j") auto
  show "L \<le> length (pushed s)" "length (pushed s) < 2 ^ 63" using ok(3,5) by auto
qed

lemma unat_word_ticket: "unat h = n \<Longrightarrow> h = of_nat n" for h :: u64
  by auto

lemma claim_push_step:
  assumes inv: "ring_inv cap multi s L" and pc: "pcs s i = P_claim x h"
    and h: "ring_head (the_ring s) = h" and bound: "length (pushed s) + 1 + unat cap < 2 ^ 63"
  shows "ring_inv cap multi (s\<lparr>the_ring := (the_ring s)\<lparr>ring_head := h + 1\<rparr>, pcs := (pcs s)(i := P_construct x h),
    pushed := pushed s @ [x]\<rparr>) L"
proof -
  note ok = ring_invD [OF inv] and own = owned_tickets [OF inv]
  define H where "H = length (pushed s)"
  have h: "h = of_nat H" "unat h = H" using h ok(3) own(5) unat_ticket [of H] by (auto simp: H_def)
  have free: "sequences (the_ring s) (H mod unat cap) = of_nat H" using ok(7) [of i] pc h by (simp add: H_def)
  have slots: "slots_ok (unat cap) (H + 1) L (insert H (owners writes (pcs s))) (owners reads (pcs s))
      (sequences (the_ring s)) (datas (the_ring s)) (pushed s @ [x])"
    using push_claim [OF ok(4) [folded H_def] free] bound by (simp add: H_def)
  have W: "owners writes ((pcs s)(i := P_construct x h)) = insert H (owners writes (pcs s))"
    using pc h by (intro owners_gain) auto
  have "H \<notin> owners writes (pcs s)" using own(1) by (auto simp: owners_def H_def)
  then have sole: "sole writes ((pcs s)(i := P_construct x h))" using ok(5) h by (intro sole_gain [of _ _ _ H]) auto
  have pcs: "pc_ok (unat cap) multi (H + 1) L (sequences (the_ring s)) (datas (the_ring s)) (pushed s @ [x])
      (((pcs s)(i := P_construct x h)) j)" for j
  proof (cases "j = i")
    case False
    then show ?thesis using pc_ok_push_claim [OF ok(7) [of j] refl own(4)] own(1,2) [of j] own(4)
      by (fastforce simp: H_def)
  qed (use h(2) in \<open>simp add: H_def nth_append\<close>)
  have same: "owners reads ((pcs s)(i := P_construct x h)) = owners reads (pcs s)"
    "owners moving ((pcs s)(i := P_construct x h)) = owners moving (pcs s)" "sole reads ((pcs s)(i := P_construct x h))"
    using pc ok(6) by (auto intro!: owners_same sole_same)
  let ?r = "(the_ring s)\<lparr>ring_head := h + 1\<rparr>"
  have "ring_inv cap multi \<lparr>the_ring = ?r, pcs = (pcs s)(i := P_construct x h), pushed = pushed s @ [x], popped = popped s\<rparr> L"
    by (rule ring_invI)
      (use ok slots W sole pcs h same
        tail_ok_same [OF ok(8), of "P_construct x h" i] pc log_ok_push [OF ok(9) own(4)] in \<open>auto simp: H_def\<close>)
  then show ?thesis by (cases s) simp
qed

lemma construct_step:
  assumes inv: "ring_inv cap multi s L" and pc: "pcs s i = P_construct x h"
  shows "ring_inv cap multi (s\<lparr>the_ring := set_data cap h (Some x) (the_ring s), pcs := (pcs s)(i := P_commit h)\<rparr>) L"
proof -
  note ok = ring_invD [OF inv]
  note facts = set_data_facts [OF ok(1,2), of h "Some x"]
  let ?f = "(pcs s)(i := P_commit h)"
  have hW: "unat h \<in> owners writes (pcs s)" using pc by (intro ownersI [of _ _ i]) simp
  have same: "owners writes ?f = owners writes (pcs s)" "owners reads ?f = owners reads (pcs s)"
    "owners moving ?f = owners moving (pcs s)" "sole writes ?f" "sole reads ?f"
    "tail_ok multi L (ring_tail (the_ring s)) ?f"
    using pc ok(5,6,8) by (auto intro!: owners_same sole_same tail_ok_same)
  have "pc_ok (unat cap) multi (length (pushed s)) L (sequences (the_ring s))
      ((datas (the_ring s))(unat h mod unat cap := Some x)) (pushed s) (?f j)" for j
  proof (cases "j = i")
    case False
    have "n \<in> owners writes (pcs s) \<and> n \<noteq> unat h" if "writes (pcs s j) = Some n" for n
      using that sole_other [OF ok(5), of i "unat h" j n] pc False ownersI [of writes "pcs s" j n] by simp
    moreover have "n \<in> owners reads (pcs s) \<and> n \<noteq> unat h" if "reads (pcs s j) = Some n" for n
      using ownersI [of reads "pcs s" j n] that owned_tickets(2) [OF inv that] slots_okD(6) [OF ok(4) hW] by auto
    ultimately show ?thesis using pc_ok_set_data [OF ok(4) ok(7) [of j], of "unat h"] hW False by simp
  next
    case True
    then show ?thesis using ok(7) [of i] pc by simp
  qed
  then have "ring_inv cap multi \<lparr>the_ring = set_data cap h (Some x) (the_ring s), pcs = ?f, pushed = pushed s, popped = popped s\<rparr> L"
    by (intro ring_invI) (use ok same construct_data [OF ok(4) hW] in \<open>simp_all add: facts\<close>)
  then show ?thesis by (cases s) simp
qed

lemma commit_step:
  assumes inv: "ring_inv cap multi s L" and pc: "pcs s i = P_commit h"
  shows "ring_inv cap multi (s\<lparr>the_ring := commit cap h (the_ring s), pcs := (pcs s)(i := P_done True)\<rparr>) L"
proof -
  note ok = ring_invD [OF inv]
  note facts = set_sequence_facts [OF ok(1,2), of h "h + 1"]
  let ?f = "(pcs s)(i := P_done True)"
  have hW: "unat h \<in> owners writes (pcs s)" using pc by (intro ownersI [of _ _ i]) simp
  have same: "owners writes ?f = owners writes (pcs s) - {unat h}" "owners reads ?f = owners reads (pcs s)"
    "owners moving ?f = owners moving (pcs s)" "sole writes ?f" "sole reads ?f"
    "tail_ok multi L (ring_tail (the_ring s)) ?f"
    using owners_lose [OF ok(5), of i "unat h" "P_done True"] tail_ok_same [OF ok(8), of "P_done True" i] pc ok(5,6)
    by (simp_all add: owners_same sole_same sole_lose)
  have "pc_ok (unat cap) multi (length (pushed s)) L ((sequences (the_ring s))(unat h mod unat cap := h + 1))
      (datas (the_ring s)) (pushed s) (?f j)" for j
    using pc_ok_set_sequence [OF ok(4) ok(7) [of j], of "unat h" "h + 1"] hW by (cases "j = i") auto
  moreover have "datas (the_ring s) (unat h mod unat cap) = Some (pushed s ! unat h)" using ok(7) [of i] pc by simp
  moreover from this have "slots_ok (unat cap) (length (pushed s)) L (owners writes (pcs s) - {unat h}) (owners reads (pcs s))
      ((sequences (the_ring s))(unat h mod unat cap := h + 1)) (datas (the_ring s)) (pushed s)"
    using commit_ticket [OF ok(4) hW] by (simp add: add.commute)
  ultimately have "ring_inv cap multi \<lparr>the_ring = commit cap h (the_ring s), pcs = ?f, pushed = pushed s, popped = popped s\<rparr> L"
    by (intro ring_invI) (use ok same in \<open>simp_all add: commit_def facts\<close>)
  then show ?thesis by (cases s) simp
qed

lemma claim_pop_step:
  assumes inv: "ring_inv cap multi s L" and not_taking: "\<not> taking (pcs s i)" "writes (pcs s i) = None" "consuming (pcs s i)"
    and t: "unat t = L" "sequences (the_ring s) (L mod unat cap) = of_nat (L + 1)"
    and tail: "new_tail = (if multi then t + 1 else ring_tail (the_ring s))"
  shows "ring_inv cap multi (s\<lparr>the_ring := (the_ring s)\<lparr>ring_tail := new_tail\<rparr>, pcs := (pcs s)(i := C_move t)\<rparr>) (L + 1)"
proof -
  note ok = ring_invD [OF inv] and own = owned_tickets [OF inv]
  note claim = pop_claim [OF ok(4) t(2)]
  let ?f = "(pcs s)(i := C_move t)"
  have none: "reads (pcs s i) = None" "moving (pcs s i) = None" using not_taking by (cases "pcs s i"; simp)+
  have "L \<notin> owners reads (pcs s)" using own(2) by (auto simp: owners_def)
  then have same: "owners writes ?f = owners writes (pcs s)" "owners reads ?f = insert L (owners reads (pcs s))"
    "owners moving ?f = insert L (owners moving (pcs s))" "sole writes ?f" "sole reads ?f"
    using none ok(5,6) not_taking t(1) owners_gain [of reads "pcs s" i "C_move t" L] owners_gain [of moving "pcs s" i "C_move t" L]
    by (simp_all add: owners_same sole_same sole_gain)
  have others: "multi \<or> \<not> consuming (pcs s j)" if "j \<noteq> i" for j
    using ok(8) not_taking(3) that unfolding tail_ok_def by (auto split: if_splits)
  have idle: "taking (pcs s j) \<Longrightarrow> consuming (pcs s j)" for j by (cases "pcs s j") auto
  have "tail_ok multi (L + 1) new_tail ?f"
  proof (cases multi)
    case True
    then show ?thesis using tail t(1) by (auto simp: tail_ok_def)
  next
    case False
    then have "\<not> taking (pcs s j)" for j using others [of j] idle [of j] not_taking(1) by (cases "j = i") auto
    then have "ring_tail (the_ring s) = of_nat L" using ok(8) False by (simp add: tail_ok_def)
    moreover have "taking (?f i)" by simp
    ultimately show ?thesis using False tail others unfolding tail_ok_def by (auto split: if_splits)
  qed
  moreover have "pc_ok (unat cap) multi (length (pushed s)) (L + 1) (sequences (the_ring s)) (datas (the_ring s)) (pushed s) (?f j)" for j
    using pc_ok_pop_claim [OF ok(7) [of j]] others [of j] claim(3) t(1) by (cases "j = i") auto
  ultimately have "ring_inv cap multi \<lparr>the_ring = (the_ring s)\<lparr>ring_tail := new_tail\<rparr>, pcs = ?f, pushed = pushed s, popped = popped s\<rparr> (L + 1)"
    by (intro ring_invI) (use ok same claim(4) log_ok_claim [OF ok(9)] in simp_all)
  then show ?thesis by (cases s) simp
qed

lemma move_step:
  assumes inv: "ring_inv cap multi s L" and pc: "pcs s i = C_move t"
  shows "read_data cap t (the_ring s) = Some (pushed s ! unat t)"
    and "ring_inv cap multi (s\<lparr>the_ring := set_data cap t None (the_ring s), pcs := (pcs s)(i := C_release (pushed s ! unat t) t),
      popped := popped s @ [(unat t, pushed s ! unat t)]\<rparr>) L"
proof -
  note ok = ring_invD [OF inv]
  note facts = set_data_facts [OF ok(1,2), of t None]
  let ?f = "(pcs s)(i := C_release (pushed s ! unat t) t)"
  show "read_data cap t (the_ring s) = Some (pushed s ! unat t)" using ok(7) [of i] pc by (simp add: read_facts [OF ok(1)])
  have tR: "unat t \<in> owners reads (pcs s)" "unat t \<in> owners moving (pcs s)" using pc by (auto intro: ownersI [of _ _ i])
  have same: "owners writes ?f = owners writes (pcs s)" "owners reads ?f = owners reads (pcs s)"
    "owners moving ?f = owners moving (pcs s) - {unat t}" "sole writes ?f" "sole reads ?f"
    "tail_ok multi L (ring_tail (the_ring s)) ?f"
    using owners_lose [OF sole_moving [OF ok(6)], of i "unat t" "C_release (pushed s ! unat t) t"]
      tail_ok_same [OF ok(8), of "C_release (pushed s ! unat t) t" i] pc ok(5,6)
    by (simp_all add: owners_same sole_same)
  have "pc_ok (unat cap) multi (length (pushed s)) L (sequences (the_ring s))
      ((datas (the_ring s))(unat t mod unat cap := None)) (pushed s) (?f j)" for j
  proof (cases "j = i")
    case False
    have "n \<in> owners reads (pcs s) \<and> n \<noteq> unat t" if "reads (pcs s j) = Some n" for n
      using that sole_other [OF ok(6), of i "unat t" j n] pc False ownersI [of reads "pcs s" j n] by simp
    moreover have "n \<in> owners writes (pcs s) \<and> n \<noteq> unat t" if "writes (pcs s j) = Some n" for n
      using ownersI [of writes "pcs s" j n] that owned_tickets(1) [OF inv that] slots_okD(11) [OF ok(4) tR(1)] by auto
    ultimately show ?thesis using pc_ok_set_data [OF ok(4) ok(7) [of j], of "unat t"] tR False by simp
  next
    case True
    then show ?thesis using ok(7) [of i] pc by simp
  qed
  then have "ring_inv cap multi \<lparr>the_ring = set_data cap t None (the_ring s), pcs = ?f, pushed = pushed s,
      popped = popped s @ [(unat t, pushed s ! unat t)]\<rparr> L"
    by (intro ring_invI) (use ok same move_data [OF ok(4) tR(1)] log_ok_move [OF ok(9) tR(2)] in \<open>simp_all add: facts\<close>)
  then show "ring_inv cap multi (s\<lparr>the_ring := set_data cap t None (the_ring s), pcs := ?f,
      popped := popped s @ [(unat t, pushed s ! unat t)]\<rparr>) L" by (cases s) simp
qed

lemma release_step:
  assumes inv: "ring_inv cap multi s L" and pc: "pcs s i = C_release v t"
    and pc': "pc' = (if multi then C_done (Some v) else C_advance v t)"
  shows "ring_inv cap multi (s\<lparr>the_ring := set_sequence cap t (t + cap) (the_ring s), pcs := (pcs s)(i := pc')\<rparr>) L"
proof -
  note ok = ring_invD [OF inv]
  note facts = set_sequence_facts [OF ok(1,2), of t "t + cap"]
  let ?f = "(pcs s)(i := pc')"
  have tR: "unat t \<in> owners reads (pcs s)" using pc by (intro ownersI [of _ _ i]) simp
  have none: "writes pc' = None" "moving pc' = None" "reads pc' = None" using pc' by auto
  have same: "owners writes ?f = owners writes (pcs s)" "owners reads ?f = owners reads (pcs s) - {unat t}"
    "owners moving ?f = owners moving (pcs s)" "sole writes ?f" "sole reads ?f"
    using owners_lose [OF ok(6), of i "unat t" pc'] none pc ok(5,6)
    by (simp_all add: owners_same sole_same sole_lose)
  have "tail_ok multi L (ring_tail (the_ring s)) ?f"
  proof (cases multi)
    case True
    then show ?thesis using ok(8) by (simp add: tail_ok_def)
  next
    case False
    then show ?thesis using pc pc' by (intro tail_ok_same [OF ok(8)]) simp_all
  qed
  moreover have "pc_ok (unat cap) multi (length (pushed s)) L ((sequences (the_ring s))(unat t mod unat cap := t + cap))
      (datas (the_ring s)) (pushed s) (?f j)" for j
    using pc_ok_set_sequence [OF ok(4) ok(7) [of j], of "unat t" "t + cap"] tR ok(7) [of i] pc pc' by (cases "j = i") auto
  moreover have "slots_ok (unat cap) (length (pushed s)) L (owners writes (pcs s)) (owners reads (pcs s) - {unat t})
      ((sequences (the_ring s))(unat t mod unat cap := t + cap)) (datas (the_ring s)) (pushed s)"
    using release_ticket [OF ok(4) tR] by simp
  ultimately have "ring_inv cap multi \<lparr>the_ring = set_sequence cap t (t + cap) (the_ring s), pcs = ?f,
      pushed = pushed s, popped = popped s\<rparr> L"
    by (intro ring_invI) (use ok same in \<open>simp_all add: facts\<close>)
  then show ?thesis by (cases s) simp
qed

lemma advance_step:
  assumes inv: "ring_inv cap multi s L" and pc: "pcs s i = C_advance v t"
  shows "ring_inv cap multi (s\<lparr>the_ring := (the_ring s)\<lparr>ring_tail := t + 1\<rparr>, pcs := (pcs s)(i := C_done (Some v))\<rparr>) L"
proof -
  note ok = ring_invD [OF inv]
  let ?f = "(pcs s)(i := C_done (Some v))"
  have same: "owners writes ?f = owners writes (pcs s)" "owners reads ?f = owners reads (pcs s)"
    "owners moving ?f = owners moving (pcs s)" "sole writes ?f" "sole reads ?f"
    using pc ok(5,6) by (simp_all add: owners_same sole_same)
  have single: "\<not> multi" "unat t + 1 = L" using ok(7) [of i] pc by auto
  have others: "\<not> consuming (pcs s j)" if "j \<noteq> i" for j
    using ok(8) single(1) that pc unfolding tail_ok_def by (metis consuming.simps(6))
  have "taking pc \<Longrightarrow> consuming pc" for pc :: "'a pc" by (cases pc) auto
  then have "\<not> consuming (?f j)" "\<not> taking (?f j)" for j using others [of j] by (cases "j = i"; force)+
  moreover have "t + 1 = of_nat L" using single(2) by (metis of_nat_1 of_nat_add of_nat_unat ucast_id)
  ultimately have "tail_ok multi L (t + 1) ?f" using single(1) by (simp add: tail_ok_def)
  moreover have "pc_ok (unat cap) multi (length (pushed s)) L (sequences (the_ring s)) (datas (the_ring s)) (pushed s) (?f j)" for j
    using ok(7) [of j] by simp
  ultimately have "ring_inv cap multi \<lparr>the_ring = (the_ring s)\<lparr>ring_tail := t + 1\<rparr>, pcs = ?f, pushed = pushed s, popped = popped s\<rparr> L"
    by (intro ring_invI) (use ok same in simp_all)
  then show ?thesis by (cases s) simp
qed

lemma ring_state_eta: "s\<lparr>the_ring := the_ring s, pcs := f, pushed := pushed s\<rparr> = s\<lparr>pcs := f\<rparr>"
    "s\<lparr>the_ring := the_ring s, pcs := f, popped := popped s\<rparr> = s\<lparr>pcs := f\<rparr>" for s :: "'a ring_sys"
  by (cases s; simp)+

lemma quiet_same:
  assumes "ring_inv cap multi s L" "writes pc = writes (pcs s i)" "taking pc = taking (pcs s i)"
    and "reads pc = reads (pcs s i)" "moving pc = moving (pcs s i)" "consuming pc \<Longrightarrow> consuming (pcs s i)"
    and "pc_ok (unat cap) multi (length (pushed s)) L (sequences (the_ring s)) (datas (the_ring s)) (pushed s) pc"
  shows "ring_inv cap multi (s\<lparr>pcs := (pcs s)(i := pc)\<rparr>) L"
  using assms(2-5) by (intro quiet_step [OF assms(1)] tail_ok_same [OF ring_invD(8) [OF assms(1)]] assms(6,7)) auto

lemma sint_diff_zero: "sint (a - b) = 0 \<longleftrightarrow> a = b" for a b :: u64
  by (metis right_minus_eq signed_0 signed_word_eqI)

lemma push_inv:
  assumes inv: "ring_inv cap multi s L" and step: "emplace_step cap spurious (pcs s i) (the_ring s) = (pc, r)"
    and new: "new = (case (pcs s i, pc) of (P_claim x h, P_construct y k) \<Rightarrow> [x] | _ \<Rightarrow> [])"
    and bound: "length (pushed s @ new) + unat cap < 2 ^ 63"
  shows "ring_inv cap multi (s\<lparr>the_ring := r, pcs := (pcs s)(i := pc), pushed := pushed s @ new\<rparr>) L"
proof -
  note ok = ring_invD [OF inv] and own = owned_tickets [OF inv]
  have head: "unat (ring_head (the_ring s)) = length (pushed s)" using ok(3) own(5) unat_ticket [of "length (pushed s)"] by simp
  have idle: ?thesis if "r = the_ring s" "new = []" "ring_inv cap multi (s\<lparr>pcs := (pcs s)(i := pc)\<rparr>) L"
    using that by (simp add: ring_state_eta)
  have still: ?thesis if "pc = pcs s i" "r = the_ring s" "new = []"
    using that inv by (intro idle) simp_all
  show ?thesis
  proof (cases "pcs s i")
    case (P_load x)
    then show ?thesis using step new head by (intro idle quiet_same [OF inv]) auto
  next
    case (P_sequence x h)
    then have pc: "r = the_ring s" "pc = P_claim x h \<and> sequences (the_ring s) (unat h mod unat cap) = h \<or> pc = P_done False \<or> pc = P_load x"
      using step by (auto simp: Let_def read_facts [OF ok(1)] sint_diff_zero split: if_splits)
    have "unat h = length (pushed s) \<Longrightarrow> h = of_nat (length (pushed s))" by (rule unat_word_ticket)
    then show ?thesis using pc new P_sequence ok(7) [of i] by (intro idle quiet_same [OF inv]) auto
  next
    case (P_claim x h)
    show ?thesis
    proof (cases "\<not> spurious \<and> ring_head (the_ring s) = h")
      case True
      then show ?thesis using claim_push_step [OF inv P_claim] step new bound P_claim by auto
    next
      case False
      then show ?thesis using step new head P_claim by (intro idle quiet_same [OF inv]) (auto split: if_splits)
    qed
  next
    case (P_construct x h)
    then show ?thesis using construct_step [OF inv P_construct] step new by (cases s) auto
  next
    case (P_commit h)
    then show ?thesis using commit_step [OF inv P_commit] step new by (cases s) auto
  qed (rule still; insert step new; auto split: pc.splits)+
qed

lemma pop_inv:
  assumes inv: "ring_inv cap multi s L" and step: "dequeue_step cap multi spurious (pcs s i) (the_ring s) = Some (pc, r)"
    and got: "got = (case (pcs s i, pc) of (C_move t, C_release v k) \<Rightarrow> [(unat t, v)] | _ \<Rightarrow> [])"
  shows "\<exists>L'. ring_inv cap multi (s\<lparr>the_ring := r, pcs := (pcs s)(i := pc), popped := popped s @ got\<rparr>) L'"
proof -
  note ok = ring_invD [OF inv] and own = owned_tickets [OF inv]
  have small: "unat (of_nat L :: u64) = L" using own(4,5) unat_ticket [of L] by simp
  have idle: ?thesis if "r = the_ring s" "got = []" "ring_inv cap multi (s\<lparr>pcs := (pcs s)(i := pc)\<rparr>) L"
    using that by (auto simp: ring_state_eta)
  have still: ?thesis if "pc = pcs s i" "r = the_ring s" "got = []"
    using that inv by (intro idle) simp_all
  have word: "unat t = L \<Longrightarrow> t + 1 = of_nat (L + 1)" for t :: u64 by auto
  show ?thesis
  proof (cases "pcs s i")
    case C_load
    have "\<not> multi \<Longrightarrow> \<not> taking (pcs s j)" for j
    proof
      assume "\<not> multi" "taking (pcs s j)"
      moreover then have "consuming (pcs s j)" by (cases "pcs s j") auto
      ultimately have "j = i" using ok(8) C_load unfolding tail_ok_def by (metis consuming.simps(1))
      then show False using \<open>taking (pcs s j)\<close> C_load by simp
    qed
    then have "ring_tail (the_ring s) = of_nat L" using ok(8) by (cases multi) (simp_all add: tail_ok_def)
    then show ?thesis using step got small C_load by (intro idle quiet_same [OF inv]) auto
  next
    case (C_sequence t)
    have t: "unat t \<le> L" "multi \<or> unat t = L" using ok(7) [of i] C_sequence by auto
    consider "sequences (the_ring s) (unat t mod unat cap) = t + 1" "\<not> multi" "pc = C_move t" "r = the_ring s" "got = []"
      | "sequences (the_ring s) (unat t mod unat cap) = t + 1" multi "pc = C_claim t" "r = the_ring s" "got = []"
      | "pc = C_done None \<or> pc = C_load" "r = the_ring s" "got = []"
      using step got C_sequence by (auto simp: Let_def read_facts [OF ok(1)] sint_diff_zero split: if_splits)
    then show ?thesis
    proof cases
      case 1
      then have "sequences (the_ring s) (L mod unat cap) = of_nat (L + 1)" using t(2) word [of t] by simp
      then have "ring_inv cap multi (s\<lparr>the_ring := (the_ring s)\<lparr>ring_tail := ring_tail (the_ring s)\<rparr>, pcs := (pcs s)(i := C_move t)\<rparr>) (L + 1)"
        using C_sequence t(2) 1(2) by (intro claim_pop_step [OF inv]) auto
      then show ?thesis using 1 by (intro exI [of _ "L + 1"]) (cases s; auto)
    next
      case 2
      then show ?thesis using C_sequence t word [of t] by (intro idle quiet_same [OF inv]) auto
    next
      case 3
      then show ?thesis using C_sequence by (intro idle quiet_same [OF inv]) auto
    qed
  next
    case (C_claim t)
    have t: multi "unat t \<le> L" "unat t = L \<Longrightarrow> sequences (the_ring s) (L mod unat cap) = of_nat (L + 1)" using ok(7) [of i] C_claim by auto
    have tail: "ring_tail (the_ring s) = of_nat L" using ok(8) t(1) by (simp add: tail_ok_def)
    show ?thesis
    proof (cases "\<not> spurious \<and> ring_tail (the_ring s) = t")
      case True
      then have "unat t = L" using tail small by simp
      then have "ring_inv cap multi (s\<lparr>the_ring := (the_ring s)\<lparr>ring_tail := t + 1\<rparr>, pcs := (pcs s)(i := C_move t)\<rparr>) (L + 1)"
        using C_claim t by (intro claim_pop_step [OF inv]) auto
      then show ?thesis using step got C_claim True by (intro exI [of _ "L + 1"]) (cases s; auto)
    next
      case False
      then show ?thesis using step got C_claim tail small t(1) by (intro idle quiet_same [OF inv]) (auto split: if_splits)
    qed
  next
    case (C_move t)
    then show ?thesis using move_step [OF inv C_move] step got by auto
  next
    case (C_release v t)
    then show ?thesis using release_step [OF inv C_release refl] step got by (intro exI [of _ L]) (cases s; auto)
  next
    case (C_advance v t)
    then show ?thesis using advance_step [OF inv C_advance] step got by (intro exI [of _ L]) (cases s; auto)
  qed (rule still; insert step got; auto split: pc.splits)+
qed

lemma ring_inv_start:
  assumes "has_single_bit cap" "2 \<le> unat cap" "unat cap < 2 ^ 63"
  shows "ring_inv cap multi (ring_start cap) 0"
proof -
  have "sequences (new_ring cap) (i mod unat cap) = of_nat i" if "i < unat cap" for i
    using that by (simp add: sequences_def new_ring_def)
  then have "slots_ok (unat cap) 0 0 {} {} (sequences (new_ring cap)) (datas (new_ring cap)) []"
    using assms by (intro slots_okI) auto
  then show ?thesis unfolding ring_start_def using assms(1)
    by (intro ring_invI) (auto simp: owners_def sole_def tail_ok_def log_ok_def new_ring_def)
qed

lemma ring_inv_step:
  assumes "ring_inv cap multi s L" "ring_sys_step cap multi s s'" "length (pushed s') + unat cap < 2 ^ 63"
  shows "\<exists>L'. ring_inv cap multi s' L'"
  using assms(2,3)
proof cases
  case (start_push i x)
  then show ?thesis by (auto intro!: exI [of _ L] quiet_same [OF assms(1)])
next
  case (push spurious i pc r new)
  then show ?thesis using assms(3) by (intro exI [of _ L]) (auto intro!: push_inv [OF assms(1)])
next
  case (end_push i b)
  then show ?thesis by (auto intro!: exI [of _ L] quiet_same [OF assms(1)])
next
  case (start_pop i)
  have "tail_ok multi L (ring_tail (the_ring s)) ((pcs s)(i := C_load))"
  proof (cases multi)
    case False
    then have "\<not> consuming (pcs s j)" for j using start_pop by blast
    moreover have "taking pc \<Longrightarrow> consuming pc" for pc :: "'a pc" by (cases pc) auto
    ultimately show ?thesis using ring_invD(8) [OF assms(1)] False by (auto simp: tail_ok_def)
  qed (use ring_invD(8) [OF assms(1)] in \<open>simp add: tail_ok_def\<close>)
  then show ?thesis using start_pop by (auto intro!: exI [of _ L] quiet_step [OF assms(1)])
next
  case (pop spurious i pc r got)
  then show ?thesis using pop_inv [OF assms(1)] by blast
next
  case (end_pop i v)
  then show ?thesis by (auto intro!: exI [of _ L] quiet_same [OF assms(1)])
qed

lemma pushed_grows: "ring_sys_step cap multi s s' \<Longrightarrow> length (pushed s) \<le> length (pushed s')"
  by (induction rule: ring_sys_step.induct) auto

lemma ring_inv_reachable:
  assumes "has_single_bit cap" "2 \<le> unat cap" "ring_reachable cap multi s" "length (pushed s) + unat cap < 2 ^ 63"
  shows "\<exists>L. ring_inv cap multi s L"
  using assms(3,4)
proof induction
  case at_start
  then show ?case using ring_inv_start [OF assms(1,2)] by (auto simp: ring_start_def)
next
  case (after_step s s')
  then show ?case using ring_inv_step [of cap multi s _ s'] pushed_grows [OF after_step.hyps(2)] by fastforce
qed

subsection \<open>Properties\<close>

lemma sint_ticket_diff:
  assumes "n < 2 ^ 63" "m < 2 ^ 63"
  shows "sint (of_nat n - of_nat m :: u64) = int n - int m"
proof -
  have "(of_nat n - of_nat m :: u64) = word_of_int (int n - int m)" by simp
  moreover have "signed_take_bit 63 (int n - int m) = int n - int m"
    using assms by (intro signed_take_bit_int_eq_self) auto
  ultimately show ?thesis by (simp add: signed_of_int del: of_int_diff of_int_of_nat_eq)
qed

lemma full_report:
  assumes inv: "ring_inv cap multi s L" and pc: "pcs s i = P_sequence x h"
    and full: "fst (emplace_step cap spurious (pcs s i) (the_ring s)) = P_done False"
  shows "\<exists>k. length (pushed s) = k + unat cap \<and> (k \<in> owners reads (pcs s) \<or> L \<le> k)"
proof -
  note ok = ring_invD [OF inv]
  note slots = slots_okD [OF ok(4)]
  define H where "H = length (pushed s)"
  have h: "unat h \<le> H" using ok(7) [of i] pc by (simp add: H_def)
  have neg: "sint (sequences (the_ring s) (unat h mod unat cap) - of_nat (unat h)) < 0"
    using full pc by (auto simp: Let_def read_facts [OF ok(1)] split: if_splits)
  have "unat h = H"
  proof (rule ccontr)
    assume "unat h \<noteq> H"
    then have "unat h < H" using h by simp
    then obtain n where n: "sequences (the_ring s) (unat h mod unat cap) = of_nat n" "unat h \<le> n" "n < H + unat cap"
      using stale_sequence [OF ok(4), of "unat h"] by (auto simp: H_def)
    then have "int n - int (unat h) < 0" using neg sint_ticket_diff [of n "unat h"] slots(5) by (simp only: H_def)
    then show False using n(2) by linarith
  qed
  then have "sequences (the_ring s) (H mod unat cap) \<noteq> of_nat H" using neg by auto
  then show ?thesis using head_slot [OF ok(4)] by (auto simp: H_def)
qed

lemma empty_report:
  assumes inv: "ring_inv cap multi s L" and pc: "pcs s i = C_sequence t"
    and empty: "map_option fst (dequeue_step cap multi spurious (pcs s i) (the_ring s)) = Some (C_done None)"
  shows "L = length (pushed s) \<or> L \<in> owners writes (pcs s)"
proof (rule ccontr)
  note ok = ring_invD [OF inv]
  note slots = slots_okD [OF ok(4)]
  assume "\<not> (L = length (pushed s) \<or> L \<in> owners writes (pcs s))"
  then have L: "L < length (pushed s)" "L \<notin> owners writes (pcs s)" using slots(3) by auto
  have neg: "sint (sequences (the_ring s) (unat t mod unat cap) - of_nat (unat t + 1)) < 0"
    using empty pc by (auto simp: Let_def read_facts [OF ok(1)] add.commute split: if_splits)
  have t: "unat t \<le> L" using ok(7) [of i] pc by simp
  have "\<exists>n. sequences (the_ring s) (unat t mod unat cap) = of_nat n \<and> unat t < n \<and> n < 2 ^ 63"
  proof (cases "unat t = L")
    case True
    then show ?thesis using slots(5) slots(9) [of L] L by (intro exI [of _ "L + 1"]) simp
  next
    case False
    then show ?thesis using stale_sequence [OF ok(4), of "unat t"] t L(1) slots(5) by fastforce
  qed
  then obtain n where "sequences (the_ring s) (unat t mod unat cap) = of_nat n" "unat t < n" "n < 2 ^ 63" by blast
  moreover from this have "int n - int (unat t + 1) < 0" using neg sint_ticket_diff [of n "unat t + 1"] by simp
  ultimately show False by linarith
qed

lemma owners_moving: "owners moving f = {unat t | t j. f j = C_move t}"
proof -
  have "moving pc = Some n \<longleftrightarrow> (\<exists>t. pc = C_move t \<and> n = unat t)" for pc :: "'a pc" and n by (cases pc) auto
  then show ?thesis unfolding owners_def by blast
qed

lemma owners_reads: "n \<in> owners reads f \<Longrightarrow> n \<in> owners moving f \<or> (\<exists>j v t. f j = C_release v t \<and> n = unat t)"
proof -
  have "reads pc = Some n \<Longrightarrow> moving pc = Some n \<or> (\<exists>v t. pc = C_release v t \<and> n = unat t)" for pc :: "'a pc" by (cases pc) auto
  then show "n \<in> owners reads f \<Longrightarrow> ?thesis" unfolding owners_def by blast
qed

lemma owners_writes: "n \<in> owners writes f \<Longrightarrow> \<exists>j h. n = unat h \<and> (f j = P_commit h \<or> (\<exists>x. f j = P_construct x h))"
proof -
  have "writes pc = Some n \<Longrightarrow> \<exists>h. n = unat h \<and> (pc = P_commit h \<or> (\<exists>x. pc = P_construct x h))" for pc :: "'a pc" by (cases pc) auto
  then show "n \<in> owners writes f \<Longrightarrow> ?thesis" unfolding owners_def by blast
qed

text \<open>C30: Producers and consumers may interleave in any way, and a weak compare-exchange may fail at any
  time: the ring never hands out an item twice, hands out for ticket \<open>t\<close> the item of the producer that
  took ticket \<open>t\<close>, has served or is serving the tickets of the consumers without a gap, and never moves
  out of an empty slot.  At most \<open>cap\<close> items wait.  With one consumer the same holds without its
  compare-exchange.  The bound is on the number of pushes since the ring was made.\<close>

theorem ring_delivers:
  assumes "has_single_bit cap" "2 \<le> unat cap" "ring_reachable cap multi s" "length (pushed s) + unat cap < 2 ^ 63"
  shows "distinct (map fst (popped s)) \<and>
    (\<forall>(t, v)\<in>set (popped s). t < length (pushed s) \<and> v = pushed s ! t) \<and>
    dequeue_step cap multi spurious (pcs s i) (the_ring s) \<noteq> None \<and>
    (\<exists>L. L \<le> length (pushed s) \<and> length (pushed s) \<le> L + unat cap \<and>
      {..<L} = fst ` set (popped s) \<union> {unat t | t j. pcs s j = C_move t} \<and>
      fst ` set (popped s) \<inter> {unat t | t j. pcs s j = C_move t} = {})"
proof -
  obtain L where inv: "ring_inv cap multi s L" using ring_inv_reachable [OF assms] by blast
  note parts = log_okD [OF ring_invD(9) [OF inv, unfolded owners_moving]]
  note slots = slots_okD [OF ring_invD(4) [OF inv]]
  have "t < L" if "(t, v) \<in> set (popped s)" for t v using parts(5) [of t] that by (simp add: image_iff rev_bexI)
  then have "\<forall>(t, v)\<in>set (popped s). t < length (pushed s) \<and> v = pushed s ! t" using parts(4) slots(3) by fastforce
  moreover have "dequeue_step cap multi spurious (pcs s i) (the_ring s) \<noteq> None"
    using move_step(1) [OF inv] by (cases "pcs s i") (auto simp: Let_def)
  ultimately show ?thesis using parts(1,3) parts(2) [symmetric] slots(3,4) by (intro conjI exI [of _ L])
qed

text \<open>C31: What the ring reports.  A push gives up only at a moment when the item \<open>cap\<close> tickets before the
  next one still occupies its slot; a pop gives up only when every ticket below some \<open>L\<close> is served or
  being served and the item of ticket \<open>L\<close> is not there: no producer took it, or its producer has not
  published yet.\<close>

theorem ring_reports:
  assumes "has_single_bit cap" "2 \<le> unat cap" "ring_reachable cap multi s" "length (pushed s) + unat cap < 2 ^ 63"
  shows "(\<forall>x h. pcs s i = P_sequence x h \<and> fst (emplace_step cap spurious (pcs s i) (the_ring s)) = P_done False \<longrightarrow>
      (\<exists>k. length (pushed s) = k + unat cap \<and>
        (k \<notin> fst ` set (popped s) \<or> (\<exists>j v t. pcs s j = C_release v t \<and> k = unat t)))) \<and>
    (\<forall>t. pcs s i = C_sequence t \<and>
        map_option fst (dequeue_step cap multi spurious (pcs s i) (the_ring s)) = Some (C_done None) \<longrightarrow>
      (\<exists>L. {..<L} = fst ` set (popped s) \<union> {unat t | t j. pcs s j = C_move t} \<and>
        (L = length (pushed s) \<or> (\<exists>j h. L = unat h \<and> (pcs s j = P_commit h \<or> (\<exists>x. pcs s j = P_construct x h))))))"
proof -
  obtain L where inv: "ring_inv cap multi s L" using ring_inv_reachable [OF assms] by blast
  note log = log_okD [OF ring_invD(9) [OF inv]]
  have "\<exists>k. length (pushed s) = k + unat cap \<and> (k \<notin> fst ` set (popped s) \<or> (\<exists>j v t. pcs s j = C_release v t \<and> k = unat t))"
    if full: "pcs s i = P_sequence x h" "fst (emplace_step cap spurious (pcs s i) (the_ring s)) = P_done False" for x h
  proof -
    obtain k where k: "length (pushed s) = k + unat cap" "k \<in> owners reads (pcs s) \<or> L \<le> k" using full_report [OF inv full] by blast
    have "k \<notin> fst ` set (popped s)" if "L \<le> k" using log(5) [of k] that by linarith
    moreover have "k \<notin> fst ` set (popped s)" if "k \<in> owners moving (pcs s)" using log(5) [of k] that by blast
    ultimately show ?thesis using k owners_reads [of k "pcs s"] by blast
  qed
  moreover have "\<exists>L. {..<L} = fst ` set (popped s) \<union> {unat t | t j. pcs s j = C_move t} \<and>
      (L = length (pushed s) \<or> (\<exists>j h. L = unat h \<and> (pcs s j = P_commit h \<or> (\<exists>x. pcs s j = P_construct x h))))"
    if empty: "pcs s i = C_sequence t" "map_option fst (dequeue_step cap multi spurious (pcs s i) (the_ring s)) = Some (C_done None)" for t
    using empty_report [OF inv empty] owners_writes [of L "pcs s"] log(2) [symmetric, unfolded owners_moving]
    by (intro exI [of _ L]) auto
  ultimately show ?thesis by blast
qed

subsection \<open>A concrete run\<close>

definition push_by :: "u64 \<Rightarrow> nat \<Rightarrow> 'a ring_sys \<Rightarrow> 'a ring_sys" where
  "push_by cap i s = (case emplace_step cap False (pcs s i) (the_ring s) of (pc, r) \<Rightarrow>
     s\<lparr>the_ring := r, pcs := (pcs s)(i := pc),
       pushed := pushed s @ (case (pcs s i, pc) of (P_claim x h, P_construct y k) \<Rightarrow> [x] | _ \<Rightarrow> [])\<rparr>)"

definition pop_by :: "u64 \<Rightarrow> bool \<Rightarrow> nat \<Rightarrow> 'a ring_sys \<Rightarrow> 'a ring_sys" where
  "pop_by cap multi i s = (case dequeue_step cap multi False (pcs s i) (the_ring s) of None \<Rightarrow> s | Some (pc, r) \<Rightarrow>
     s\<lparr>the_ring := r, pcs := (pcs s)(i := pc),
       popped := popped s @ (case (pcs s i, pc) of (C_move t, C_release v k) \<Rightarrow> [(unat t, v)] | _ \<Rightarrow> [])\<rparr>)"

lemma push_by_step: "ring_sys_step cap multi s (push_by cap i s)"
proof -
  obtain pc r where "emplace_step cap False (pcs s i) (the_ring s) = (pc, r)" by fastforce
  from ring_sys_step.push [OF this refl] this show ?thesis by (simp add: push_by_def)
qed

lemma pop_by_step: "pop_by cap multi i s = s \<or> ring_sys_step cap multi s (pop_by cap multi i s)"
proof (cases "dequeue_step cap multi False (pcs s i) (the_ring s)")
  case (Some a)
  obtain pc r where "a = (pc, r)" by fastforce
  with Some have "dequeue_step cap multi False (pcs s i) (the_ring s) = Some (pc, r)" by simp
  from ring_sys_step.pop [OF this refl] this show ?thesis by (simp add: pop_by_def)
qed (simp add: pop_by_def)

lemma push_by_reachable: "ring_reachable cap multi s \<Longrightarrow> ring_reachable cap multi ((push_by cap i ^^ n) s)"
  by (induction n) (auto intro: after_step push_by_step)

lemma pop_by_reachable: "ring_reachable cap multi s \<Longrightarrow> ring_reachable cap multi ((pop_by cap multi i ^^ n) s)"
proof (induction n)
  case (Suc n)
  then show ?case using pop_by_step [of cap multi i "(pop_by cap multi i ^^ n) s"] by (auto intro: after_step)
qed simp

text \<open>Thread 0 pushes 7, thread 1 has claimed a ticket for 8 and not published, thread 2 pops 7 and asks again.\<close>

definition ring_example :: "nat ring_sys" where
  "ring_example = (let
     s1 = (push_by 2 0 ^^ 5) ((ring_start 2)\<lparr>pcs := (\<lambda>_. Idle)(0 := P_load 7)\<rparr>);
     s2 = (push_by 2 1 ^^ 3) (s1\<lparr>pcs := (pcs s1)(1 := P_load 8)\<rparr>);
     s3 = (pop_by 2 True 2 ^^ 5) (s2\<lparr>pcs := (pcs s2)(2 := C_load)\<rparr>);
     s4 = s3\<lparr>pcs := (pcs s3)(2 := Idle)\<rparr>;
     s5 = s4\<lparr>pcs := (pcs s4)(2 := C_load)\<rparr>
   in pop_by 2 True 2 s5)"

lemma ring_example_reachable: "ring_reachable 2 True ring_example"
proof -
  define s0 :: "nat ring_sys" where "s0 = (ring_start 2)\<lparr>pcs := (\<lambda>_. Idle)(0 := P_load 7)\<rparr>"
  define s1 where "s1 = (push_by 2 0 ^^ 5) s0"
  define s2 where "s2 = (push_by 2 1 ^^ 3) (s1\<lparr>pcs := (pcs s1)(1 := P_load 8)\<rparr>)"
  define s3 where "s3 = (pop_by 2 True 2 ^^ 5) (s2\<lparr>pcs := (pcs s2)(2 := C_load)\<rparr>)"
  define s4 where "s4 = s3\<lparr>pcs := (pcs s3)(2 := Idle)\<rparr>"
  have "pcs (ring_start 2 :: nat ring_sys) 0 = Idle" by (simp add: ring_start_def)
  from after_step [OF at_start ring_sys_step.start_push [OF this, of _ _ 7]]
  have "ring_reachable 2 True s0" by (simp add: s0_def ring_start_def)
  then have 1: "ring_reachable 2 True s1" by (simp add: s1_def push_by_reachable)
  have "pcs s1 1 = Idle" unfolding s1_def s0_def by code_simp
  from after_step [OF 1 ring_sys_step.start_push [OF this, of _ _ 8]]
  have 2: "ring_reachable 2 True s2" by (simp add: s2_def push_by_reachable)
  have "pcs s2 2 = Idle" unfolding s2_def s1_def s0_def by code_simp
  from after_step [OF 2 ring_sys_step.start_pop [OF this]]
  have 3: "ring_reachable 2 True s3" by (simp add: s3_def pop_by_reachable)
  have "pcs s3 2 = C_done (Some 7)" unfolding s3_def s2_def s1_def s0_def by code_simp
  from after_step [OF 3 ring_sys_step.end_pop [OF this]]
  have 4: "ring_reachable 2 True s4" by (simp add: s4_def)
  have "pcs s4 2 = Idle" by (simp add: s4_def)
  from after_step [OF 4 ring_sys_step.start_pop [OF this]]
  have 5: "ring_reachable 2 True (s4\<lparr>pcs := (pcs s4)(2 := C_load)\<rparr>)" by simp
  have eq: "ring_example = (pop_by 2 True 2 ^^ 1) (s4\<lparr>pcs := (pcs s4)(2 := C_load)\<rparr>)"
    by (simp add: ring_example_def s4_def s3_def s2_def s1_def s0_def Let_def)
  show ?thesis unfolding eq by (rule pop_by_reachable [OF 5])
qed

definition ring_view :: "nat ring_sys \<Rightarrow> nat list \<times> (nat \<times> nat) list \<times> nat pc \<times> nat pc \<times> nat pc option" where
  "ring_view s = (pushed s, popped s, pcs s 2, pcs s 1,
     map_option fst (dequeue_step 2 True False (pcs s 2) (the_ring s)))"

lemma ring_example_view: "ring_view ring_example = ([7, 8], [(0, 7)], C_sequence 1, P_construct 8 1, Some (C_done None))"
  by code_simp

lemmas ring_example_state = ring_example_view [unfolded ring_view_def prod.inject, THEN conjunct1]
  ring_example_view [unfolded ring_view_def prod.inject, THEN conjunct2, THEN conjunct1]
  ring_example_view [unfolded ring_view_def prod.inject, THEN conjunct2, THEN conjunct2, THEN conjunct1]
  ring_example_view [unfolded ring_view_def prod.inject, THEN conjunct2, THEN conjunct2, THEN conjunct2, THEN conjunct2]

theorem ring_delivers_witness:
  "ring_reachable 2 True ring_example \<and> popped ring_example = [(0, 7)] \<and> distinct (map fst (popped ring_example)) \<and>
   dequeue_step 2 True False (pcs ring_example 2) (the_ring ring_example) \<noteq> None"
proof -
  have "has_single_bit (2 :: u64)" by code_simp
  from ring_delivers [OF this _ ring_example_reachable, of False 2] show ?thesis
    using ring_example_reachable ring_example_state by simp
qed

theorem ring_reports_witness:
  "\<exists>L. {..<L} = fst ` set (popped ring_example) \<union> {unat t | t j. pcs ring_example j = C_move t} \<and>
    (L = length (pushed ring_example) \<or>
      (\<exists>j h. L = unat h \<and> (pcs ring_example j = P_commit h \<or> (\<exists>x. pcs ring_example j = P_construct x h))))"
proof -
  have "has_single_bit (2 :: u64)" by code_simp
  moreover have "length (pushed ring_example) + unat (2 :: u64) < 2 ^ 63" by (simp add: ring_example_state)
  ultimately show ?thesis
    using ring_reports [OF _ _ ring_example_reachable, of 2 False] ring_example_state(3,4) by simp
qed

end
