(* ===== verification/ChaCha.thy ===== *)
theory ChaCha
  imports Prelude
begin

unbundle bit_operations_syntax

text \<open>
  The byte helpers (\<^verbatim>\<open>kernel/include/crypto/bytes.hpp\<close>), the ChaCha20 stream cipher and the random
  generator on top of it (\<^verbatim>\<open>kernel/include/crypto/chacha20.hpp\<close>, \<^verbatim>\<open>kernel/src/crypto/chacha20.cpp\<close>).
  A span or array of bytes is a list.  A function that fills a span returns what it writes.  Wiping a
  local variable that is about to go out of scope has no effect on the values and is not modelled;
  wiping a member is.
\<close>

subsection \<open>Bytes\<close>

type_synonym bytes = "u8 list"

definition load_le32 :: "bytes \<Rightarrow> nat \<Rightarrow> u32" where
  "load_le32 p i = ucast (p ! i) OR push_bit 8 (ucast (p ! (i + 1))) OR
     push_bit 16 (ucast (p ! (i + 2))) OR push_bit 24 (ucast (p ! (i + 3)))"

definition load_le64 :: "bytes \<Rightarrow> nat \<Rightarrow> u64" where
  "load_le64 p i = (let low = ucast (load_le32 p i); high = ucast (load_le32 p (i + 4)) in low OR push_bit 32 high)"

definition store_le32 :: "u32 \<Rightarrow> bytes" where
  "store_le32 v = map (\<lambda>i. ucast (drop_bit (8 * i) v)) [0..<4]"

definition store_le64 :: "u64 \<Rightarrow> bytes" where
  "store_le64 v = store_le32 (ucast v) @ store_le32 (ucast (drop_bit 32 v))"

definition secure_zero :: "bytes \<Rightarrow> bytes" where
  "secure_zero bs = replicate (length bs) 0"

definition equal_constant_time :: "bytes \<Rightarrow> bytes \<Rightarrow> bool" where
  "equal_constant_time a b =
     (if length a \<noteq> length b then False
      else fold (\<lambda>i diff. diff OR (a ! i XOR b ! i)) [0..<length a] 0 = 0)"

text \<open>\<^verbatim>\<open>std::ranges::copy\<close> into the middle of an array.\<close>

definition copy_into :: "'a list \<Rightarrow> nat \<Rightarrow> 'a list \<Rightarrow> 'a list" where
  "copy_into dst i xs = take i dst @ xs @ drop (i + length xs) dst"

subsection \<open>The cipher\<close>

definition CHACHA_SIGMA :: "u32 list" where
  "CHACHA_SIGMA = [0x61707865, 0x3320646e, 0x79622d32, 0x6b206574]"

definition quarter_round :: "nat \<Rightarrow> nat \<Rightarrow> nat \<Rightarrow> nat \<Rightarrow> u32 list \<Rightarrow> u32 list" where
  "quarter_round a b c d x =
     (let x = x[a := x ! a + x ! b];
          x = x[d := word_rotl 16 (x ! d XOR x ! a)];
          x = x[c := x ! c + x ! d];
          x = x[b := word_rotl 12 (x ! b XOR x ! c)];
          x = x[a := x ! a + x ! b];
          x = x[d := word_rotl 8 (x ! d XOR x ! a)];
          x = x[c := x ! c + x ! d];
          x = x[b := word_rotl 7 (x ! b XOR x ! c)]
      in x)"

definition initial_state :: "bytes \<Rightarrow> u32 \<Rightarrow> bytes \<Rightarrow> u32 list" where
  "initial_state key counter nonce =
     CHACHA_SIGMA @ map (\<lambda>i. load_le32 key (4 * i)) [0..<8] @ [counter] @ map (\<lambda>i. load_le32 nonce (4 * i)) [0..<3]"

definition double_round :: "u32 list \<Rightarrow> u32 list" where
  "double_round x =
     (let x = quarter_round 0 4 8 12 x;
          x = quarter_round 1 5 9 13 x;
          x = quarter_round 2 6 10 14 x;
          x = quarter_round 3 7 11 15 x;
          x = quarter_round 0 5 10 15 x;
          x = quarter_round 1 6 11 12 x;
          x = quarter_round 2 7 8 13 x;
          x = quarter_round 3 4 9 14 x
      in x)"

definition next_block :: "u32 list \<Rightarrow> bytes \<times> u32 list" where
  "next_block input =
     (let x = (double_round ^^ 10) input in
      (concat (map (\<lambda>i. store_le32 (x ! i + input ! i)) [0..<16]), input[12 := input ! 12 + 1]))"

function stream_loop :: "bool \<Rightarrow> u32 list \<Rightarrow> bytes \<Rightarrow> bytes" where
  "stream_loop Xor state data =
     (if data = [] then []
      else let n = min (length data) 64; (block_bytes, state') = next_block state in
        (if \<not> Xor \<and> n = 64 then block_bytes
         else map (\<lambda>i. if Xor then data ! i XOR block_bytes ! i else block_bytes ! i) [0..<n]) @
        stream_loop Xor state' (drop n data))"
  by auto
termination
  by (relation "measure (\<lambda>(_, _, data). length data)") auto

declare stream_loop.simps [simp del]

definition chacha_stream :: "bool \<Rightarrow> bytes \<Rightarrow> u32 \<Rightarrow> bytes \<Rightarrow> bytes \<Rightarrow> bytes" where
  "chacha_stream Xor key counter nonce data = stream_loop Xor (initial_state key counter nonce) data"

definition block :: "bytes \<Rightarrow> u32 \<Rightarrow> bytes \<Rightarrow> bytes" where
  "block key counter nonce = fst (next_block (initial_state key counter nonce))"

definition keystream :: "bytes \<Rightarrow> u32 \<Rightarrow> bytes \<Rightarrow> bytes \<Rightarrow> bytes" where
  "keystream key counter nonce out = chacha_stream False key counter nonce out"

definition xor_stream :: "bytes \<Rightarrow> u32 \<Rightarrow> bytes \<Rightarrow> bytes \<Rightarrow> bytes" where
  "xor_stream key counter nonce data = chacha_stream True key counter nonce data"

subsection \<open>The random generator\<close>

record chacha_rng =
  rng_key :: bytes
  rng_buffer :: bytes
  rng_available :: u32

definition RNG_NONCE :: bytes where
  "RNG_NONCE = replicate 12 0"

definition new_rng :: chacha_rng where
  "new_rng = \<lparr>rng_key = replicate 32 0, rng_buffer = replicate 32 0, rng_available = 0\<rparr>"

text \<open>The bytes taken for a request of the given size.\<close>

definition take_buffered :: "nat \<Rightarrow> chacha_rng \<Rightarrow> bytes \<times> chacha_rng" where
  "take_buffered wanted g =
     (let n = min wanted (unat (rng_available g)) in
      if n = 0 then ([], g)
      else let at = length (rng_buffer g) - unat (rng_available g); taken = take n (drop at (rng_buffer g)) in
        (taken, g\<lparr>rng_buffer := copy_into (rng_buffer g) at (secure_zero taken),
                  rng_available := rng_available g - of_nat n\<rparr>))"

definition reseed :: "bytes \<Rightarrow> chacha_rng \<Rightarrow> chacha_rng" where
  "reseed seed g = g\<lparr>rng_key := seed, rng_buffer := secure_zero (rng_buffer g), rng_available := 0\<rparr>"

definition fill :: "bytes \<Rightarrow> chacha_rng \<Rightarrow> bytes \<times> chacha_rng" where
  "fill out g =
     (let (taken, g) = take_buffered (length out) g; out = drop (length taken) out in
      if out = [] then (taken, g)
      else let key = rng_key g;
               first = block key 0 RNG_NONCE;
               g = g\<lparr>rng_key := take 32 first\<rparr>;
               output = drop 32 first
        in if length out \<le> length output
          then let available = of_nat (length output - length out) :: u32 in
            (taken @ take (length out) output,
             g\<lparr>rng_available := available,
               rng_buffer := copy_into (rng_buffer g) (length (rng_buffer g) - unat available)
                 (drop (length output - unat available) output)\<rparr>)
          else (taken @ output @ keystream key 1 RNG_NONCE (drop (length output) out), g))"

definition wipe_rng :: "chacha_rng \<Rightarrow> chacha_rng" where
  "wipe_rng g = g\<lparr>rng_key := secure_zero (rng_key g), rng_buffer := secure_zero (rng_buffer g), rng_available := 0\<rparr>"

end
