(* ===== verification/ChaChaProps.thy ===== *)
theory ChaChaProps
  imports ChaCha
begin

unbundle bit_operations_syntax

text \<open>
  The cipher against its keystream, byte by byte, and what the generator hands out and forgets.
\<close>

subsection \<open>Definitions\<close>

definition key_byte :: "bytes \<Rightarrow> u32 \<Rightarrow> bytes \<Rightarrow> nat \<Rightarrow> u8" where
  "key_byte key counter nonce j = block key (counter + of_nat (j div 64)) nonce ! (j mod 64)"

definition pending :: "chacha_rng \<Rightarrow> bytes" where
  "pending g = drop (32 - unat (rng_available g)) (rng_buffer g)"

definition rng_ok :: "chacha_rng \<Rightarrow> bool" where
  "rng_ok g \<longleftrightarrow> length (rng_key g) = 32 \<and> length (rng_buffer g) = 32 \<and> unat (rng_available g) \<le> 32 \<and>
     take (32 - unat (rng_available g)) (rng_buffer g) = replicate (32 - unat (rng_available g)) 0"

subsection \<open>Bytes\<close>

lemma store_le32_eq: "store_le32 v = [ucast v, ucast (drop_bit 8 v), ucast (drop_bit 16 v), ucast (drop_bit 24 v)]"
  by (simp add: store_le32_def upt_conv_Cons)

lemma length_store_le32 [simp]: "length (store_le32 v) = 4"
  by (simp add: store_le32_def)

lemma load_store_le32: "load_le32 (xs @ store_le32 v @ ys) (length xs) = v"
proof (rule bit_word_eqI)
  fix n assume n: "n < LENGTH(32)"
  have "load_le32 (xs @ store_le32 v @ ys) (length xs) = ucast (ucast v :: u8) OR push_bit 8 (ucast (ucast (drop_bit 8 v) :: u8)) OR
      push_bit 16 (ucast (ucast (drop_bit 16 v) :: u8)) OR push_bit 24 (ucast (ucast (drop_bit 24 v) :: u8))"
    by (simp add: load_le32_def store_le32_eq nth_append)
  then show "bit (load_le32 (xs @ store_le32 v @ ys) (length xs)) n = bit v n"
    using n by (cases "n < 8"; cases "n < 16"; cases "n < 24") (auto simp: bit_simps)
qed

lemma load_store_le64: "load_le64 (xs @ store_le64 v @ ys) (length xs) = v"
proof (rule bit_word_eqI)
  fix n assume n: "n < LENGTH(64)"
  have low: "load_le32 (xs @ store_le64 v @ ys) (length xs) = ucast v"
    using load_store_le32 [of xs "ucast v" "store_le32 (ucast (drop_bit 32 v)) @ ys"] by (simp add: store_le64_def)
  have high: "load_le32 (xs @ store_le64 v @ ys) (length xs + 4) = ucast (drop_bit 32 v)"
    using load_store_le32 [of "xs @ store_le32 (ucast v)" "ucast (drop_bit 32 v)" ys] by (simp add: store_le64_def)
  show "bit (load_le64 (xs @ store_le64 v @ ys) (length xs)) n = bit v n"
    using n by (cases "n < 32") (auto simp: load_le64_def Let_def low high bit_simps)
qed

lemma xor_zero: "x XOR y = 0 \<longleftrightarrow> x = y" for x y :: u8
  by (metis bit.xor_left_self bit.xor_self xor.right_neutral)

lemma equal_constant_time_iff: "equal_constant_time a b \<longleftrightarrow> a = b"
proof -
  have "x OR y = 0 \<longleftrightarrow> x = 0 \<and> y = 0" for x y :: u8 by (auto simp: bit_eq_iff bit_simps)
  then have "fold (\<lambda>i diff. diff OR f i) is d = 0 \<longleftrightarrow> d = 0 \<and> (\<forall>i\<in>set is. f i = 0)" for f :: "nat \<Rightarrow> u8" and "is" d
    by (induction "is" arbitrary: d) auto
  from this [of "\<lambda>i. a ! i XOR b ! i" "[0..<length a]" 0]
  have "fold (\<lambda>i diff. diff OR (a ! i XOR b ! i)) [0..<length a] 0 = 0 \<longleftrightarrow> (\<forall>i<length a. a ! i = b ! i)"
    by (simp add: Ball_def xor_zero)
  then show ?thesis unfolding equal_constant_time_def using list_eq_iff_nth_eq [of a b] by argo
qed

subsection \<open>The keystream\<close>

lemma length_initial_state: "length (initial_state key c nonce) = 16"
  by (simp add: initial_state_def CHACHA_SIGMA_def)

lemma initial_state_next: "(initial_state key c nonce)[12 := initial_state key c nonce ! 12 + 1] = initial_state key (c + 1) nonce"
proof -
  define pre post where "pre = CHACHA_SIGMA @ map (\<lambda>i. load_le32 key (4 * i)) [0..<8]"
    and "post = map (\<lambda>i. load_le32 nonce (4 * i)) [0..<3]"
  have st: "initial_state key c nonce = pre @ c # post" for c by (simp add: initial_state_def pre_def post_def)
  have "length pre = 12" by (simp add: pre_def CHACHA_SIGMA_def)
  then show ?thesis unfolding st by (simp add: nth_append list_update_append)
qed

lemma next_block_counter: "next_block (initial_state key c nonce) = (block key c nonce, initial_state key (c + 1) nonce)"
  by (simp add: block_def next_block_def Let_def initial_state_next)

lemma length_concat_words: "length (concat (map (\<lambda>i. store_le32 (f i)) ks)) = 4 * length ks"
  by (induction ks) auto

lemma length_block [simp]: "length (block key c nonce) = 64"
  using length_concat_words [where ks = "[0..<16]"] by (simp add: block_def next_block_def Let_def)

lemma key_byte_shift: "key_byte key (c + of_nat m) nonce j = key_byte key c nonce (64 * m + j)"
proof -
  have "(64 * m + j) div 64 = m + j div 64" "(64 * m + j) mod 64 = j mod 64" by simp_all
  then show ?thesis by (simp add: key_byte_def add.assoc)
qed

lemma stream_loop_keystream:
  "stream_loop Xor (initial_state key c nonce) data =
    map (\<lambda>j. (if Xor then data ! j else 0) XOR key_byte key c nonce j) [0..<length data]"
proof (induction "length data" arbitrary: c data rule: less_induct)
  case less
  show ?case
  proof (cases "data = []")
    case False
    define n where "n = min (length data) 64"
    let ?f = "\<lambda>j. (if Xor then data ! j else 0) XOR key_byte key c nonce j"
    have n: "0 < n" "n \<le> 64" "n \<le> length data" using False by (auto simp: n_def)
    have kb: "key_byte key c nonce j = block key c nonce ! j" if "j < n" for j
      using that n by (simp add: key_byte_def)
    have whole: "block key c nonce = map ((!) (block key c nonce)) [0..<n]" if "n = 64"
      using that map_nth [of "block key c nonce"] by simp
    have first: "(if \<not> Xor \<and> n = 64 then block key c nonce
        else map (\<lambda>i. if Xor then data ! i XOR block key c nonce ! i else block key c nonce ! i) [0..<n]) = map ?f [0..<n]"
      using whole by (auto simp: kb intro!: nth_equalityI)
    have IH: "stream_loop Xor (initial_state key (c + 1) nonce) (drop n data) =
        map (\<lambda>j. (if Xor then drop n data ! j else 0) XOR key_byte key (c + 1) nonce j) [0..<length data - n]"
      using less [of "drop n data" "c + 1"] n False by simp
    have "key_byte key (c + 1) nonce j = key_byte key c nonce (n + j)" if "j < length data - n" for j
    proof -
      have "n = 64" using that by (simp add: n_def)
      then show ?thesis using key_byte_shift [of key c 1 nonce j] by simp
    qed
    then have rest: "map (\<lambda>j. (if Xor then drop n data ! j else 0) XOR key_byte key (c + 1) nonce j) [0..<length data - n] =
        map ?f [n..<length data]"
      using n by (auto intro!: nth_equalityI simp: add.commute)
    have "[0..<length data] = [0..<n] @ [n..<length data]" using n(3) by (metis le_add_diff_inverse le0 upt_add_eq_append)
    then show ?thesis
      using False by (subst stream_loop.simps) (simp add: next_block_counter Let_def first IH rest flip: n_def)
  qed (simp add: stream_loop.simps)
qed

lemma length_chacha_stream [simp]: "length (chacha_stream Xor key c nonce data) = length data"
  by (simp add: chacha_stream_def stream_loop_keystream)

subsection \<open>The generator\<close>

lemma length_copy_into: "i + length xs \<le> length dst \<Longrightarrow> length (copy_into dst i xs) = length dst"
  by (simp add: copy_into_def)

lemma unat_sub_available: "n \<le> unat a \<Longrightarrow> unat (a - of_nat n) = unat a - n" for a :: u32
proof -
  assume n: "n \<le> unat a"
  have "unat a < 2 ^ 32" using unsigned_less [of a] by simp
  then have "unat (of_nat n :: u32) = n" using n by (simp add: unat_of_nat take_bit_nat_eq_self)
  then show ?thesis using n unat_sub [of "of_nat n" a] by (simp add: word_le_nat_alt)
qed

lemma take_buffered_ok:
  assumes "rng_ok g" "take_buffered n g = (taken, g')"
  shows "taken = take n (pending g)" "pending g' = drop n (pending g)" "rng_ok g'" "rng_key g' = rng_key g"
    "unat (rng_available g') = unat (rng_available g) - n" "length (pending g) = unat (rng_available g)"
proof -
  define a where "a = unat (rng_available g)"
  define m where "m = min n a"
  have ok: "length (rng_buffer g) = 32" "a \<le> 32" "take (32 - a) (rng_buffer g) = replicate (32 - a) 0" "length (rng_key g) = 32"
    using assms(1) by (auto simp: rng_ok_def a_def)
  have pend: "pending g = drop (32 - a) (rng_buffer g)" by (simp add: pending_def a_def)
  then show len: "length (pending g) = unat (rng_available g)" using ok by (simp add: a_def)
  have sub: "unat (rng_available g - of_nat m) = a - m" unfolding a_def
    by (rule unat_sub_available) (simp add: m_def a_def)
  have "taken = take m (pending g)" using assms(2) pend ok(1)
    by (auto simp: take_buffered_def Let_def a_def m_def split: if_splits)
  also have "\<dots> = take n (pending g)" using len by (simp add: m_def a_def min_def)
  finally show taken: "taken = take n (pending g)" .
  have g': "g' = (if m = 0 then g else g\<lparr>rng_buffer := copy_into (rng_buffer g) (32 - a) (replicate m 0),
      rng_available := rng_available g - of_nat m\<rparr>)"
    using assms(2) ok(1,2) by (auto simp: take_buffered_def Let_def a_def m_def secure_zero_def min_def split: if_splits)
  show "rng_key g' = rng_key g" by (simp add: g')
  show avail: "unat (rng_available g') = unat (rng_available g) - n"
    using sub by (auto simp: g' a_def m_def min_def)
  have m: "m \<le> a" by (simp add: m_def)
  have "32 - (a - m) = (32 - a) + m" using m ok(2) by simp
  moreover have "rng_buffer g' = replicate (32 - a + m) 0 @ drop (32 - a + m) (rng_buffer g)"
    using ok(3) append_take_drop_id [of "32 - a" "rng_buffer g"] by (cases "m = 0") (simp_all add: g' copy_into_def replicate_add)
  ultimately have buf: "rng_buffer g' = replicate (32 - (a - m)) 0 @ drop (32 - (a - m)) (rng_buffer g)" by simp
  have am: "unat (rng_available g') = a - m" using sub by (auto simp: g' a_def m_def)
  then show "rng_ok g'" using ok buf m unfolding rng_ok_def by (simp add: \<open>rng_key g' = rng_key g\<close>)
  have "pending g' = drop (32 - (a - m)) (rng_buffer g)" using am buf by (simp add: pending_def)
  also have "\<dots> = drop m (pending g)" using pend m ok(2) by (simp add: add.commute)
  also have "\<dots> = drop n (pending g)" using len by (simp add: m_def a_def min_def)
  finally show "pending g' = drop n (pending g)" .
qed

lemma keystream_bytes: "keystream key c nonce data = map (key_byte key c nonce) [0..<length data]"
  by (simp add: keystream_def chacha_stream_def stream_loop_keystream)

lemma keystream_first: "n \<le> 64 \<Longrightarrow> map (key_byte key c nonce) [0..<n] = take n (block key c nonce)"
  by (auto intro!: nth_equalityI simp: key_byte_def)

text \<open>What a key gives after its first half block became the next key.\<close>

lemma keystream_split:
  "drop 32 (map (key_byte key 0 nonce) [0..<32 + n]) =
    (if n \<le> 32 then take n (drop 32 (block key 0 nonce))
     else drop 32 (block key 0 nonce) @ keystream key 1 nonce (replicate (n - 32) b))"
proof (cases "n \<le> 32")
  case True
  then show ?thesis using keystream_first [of "32 + n" key 0 nonce] by (simp add: take_drop add.commute)
next
  case False
  then have "[0..<32 + n] = [0..<64] @ [64..<32 + n]" by (metis add.commute linorder_le_cases nat_add_left_cancel_le numeral_Bit0 upt_add_eq_append zero_le le_Suc_ex)
  moreover have "map (key_byte key 0 nonce) [64..<32 + n] = map (key_byte key 1 nonce) [0..<n - 32]"
    using False key_byte_shift [of key 0 1 nonce] by (auto intro!: nth_equalityI)
  ultimately show ?thesis using False keystream_first [of 64 key 0 nonce] by (simp add: keystream_bytes)
qed

lemma fill_ok:
  assumes "rng_ok g" "fill out g = (bytes, g')"
  defines "n \<equiv> length out" and "a \<equiv> length (pending g)"
  shows "rng_ok g'"
    and "n \<le> a \<Longrightarrow> bytes = take n (pending g) \<and> pending g' = drop n (pending g) \<and> rng_key g' = rng_key g"
    and "a < n \<Longrightarrow> bytes = pending g @ drop 32 (map (key_byte (rng_key g) 0 RNG_NONCE) [0..<32 + (n - a)]) \<and>
      pending g' = drop (n - a) (drop 32 (block (rng_key g) 0 RNG_NONCE)) \<and>
      rng_key g' = take 32 (block (rng_key g) 0 RNG_NONCE)"
proof -
  obtain taken g1 where t: "take_buffered n g = (taken, g1)" by fastforce
  note ok = take_buffered_ok [OF assms(1) t]
  have len: "length taken = min n a" using ok(1,6) by (simp add: a_def)
  have "rng_ok g' \<and> (n \<le> a \<longrightarrow> bytes = take n (pending g) \<and> pending g' = drop n (pending g) \<and> rng_key g' = rng_key g) \<and>
    (a < n \<longrightarrow> bytes = pending g @ drop 32 (map (key_byte (rng_key g) 0 RNG_NONCE) [0..<32 + (n - a)]) \<and>
      pending g' = drop (n - a) (drop 32 (block (rng_key g) 0 RNG_NONCE)) \<and>
      rng_key g' = take 32 (block (rng_key g) 0 RNG_NONCE))"
  proof (cases "n \<le> a")
    case True
    then have "fill out g = (taken, g1)" using t len by (simp add: fill_def n_def)
    then show ?thesis using assms(2) ok True by simp
  next
    case False
    define B where "B = block (rng_key g) 0 RNG_NONCE"
    define k where "k = n - a"
    define rest where "rest = drop a out"
    have out: "drop (length taken) out = rest" "rest \<noteq> []" "length rest = k" using len False by (auto simp: rest_def n_def k_def)
    have taken: "taken = pending g" using ok(1) False by (simp add: a_def)
    have g1: "unat (rng_available g1) = 0" "length (rng_buffer g1) = 32" "rng_buffer g1 = replicate 32 0" "rng_key g1 = rng_key g"
      using ok(3-6) False by (auto simp: a_def rng_ok_def)
    have avail: "unat (of_nat (32 - k) :: u32) = 32 - k" by (simp add: unat_of_nat take_bit_nat_eq_self)
    have B: "length B = 64" by (simp add: B_def)
    have fill: "fill out g = (if k \<le> 32
        then (taken @ take k (drop 32 B), g1\<lparr>rng_key := take 32 B, rng_available := of_nat (32 - k),
               rng_buffer := copy_into (rng_buffer g1) (32 - (32 - k)) (drop (32 - (32 - k)) (drop 32 B))\<rparr>)
        else (taken @ drop 32 B @ keystream (rng_key g) 1 RNG_NONCE (drop 32 rest), g1\<lparr>rng_key := take 32 B\<rparr>))"
      using out t B g1(2,4) by (simp add: fill_def Let_def avail n_def del: of_nat_diff drop_eq_Nil flip: B_def)
    have key: "keystream (rng_key g) 1 RNG_NONCE (drop 32 rest) = keystream (rng_key g) 1 RNG_NONCE (replicate (k - 32) 0)"
      using out by (simp add: keystream_bytes)
    have bytes: "bytes = pending g @ drop 32 (map (key_byte (rng_key g) 0 RNG_NONCE) [0..<32 + k])"
      using assms(2) fill keystream_split [of "rng_key g" RNG_NONCE k 0] key by (auto simp: taken simp flip: B_def)
    show ?thesis
    proof (cases "k \<le> 32")
      case True
      then have g': "g' = g1\<lparr>rng_key := take 32 B, rng_available := of_nat (32 - k),
          rng_buffer := replicate k 0 @ drop k (drop 32 B)\<rparr>"
        using assms(2) fill g1(3) B by (simp add: copy_into_def del: of_nat_diff)
      have "rng_ok g'" unfolding rng_ok_def g' using True B by (simp add: avail del: of_nat_diff)
      moreover have "pending g' = drop k (drop 32 B)" unfolding pending_def g' using True by (simp add: avail del: of_nat_diff)
      ultimately show ?thesis using bytes False by (simp add: g' del: of_nat_diff flip: k_def B_def)
    next
      case large: False
      then have g': "g' = g1\<lparr>rng_key := take 32 B\<rparr>" using assms(2) fill by simp
      have "rng_ok g'" using ok(3) B by (simp add: rng_ok_def g')
      moreover have "pending g' = []" using g1 by (simp add: pending_def g')
      ultimately show ?thesis using bytes False large B by (simp add: g' del: of_nat_diff flip: k_def B_def)
    qed
  qed
  then show "rng_ok g'"
    "n \<le> a \<Longrightarrow> bytes = take n (pending g) \<and> pending g' = drop n (pending g) \<and> rng_key g' = rng_key g"
    "a < n \<Longrightarrow> bytes = pending g @ drop 32 (map (key_byte (rng_key g) 0 RNG_NONCE) [0..<32 + (n - a)]) \<and>
      pending g' = drop (n - a) (drop 32 (block (rng_key g) 0 RNG_NONCE)) \<and>
      rng_key g' = take 32 (block (rng_key g) 0 RNG_NONCE)" by blast+
qed

subsection \<open>Properties\<close>

text \<open>C32: Encrypting twice gives the data back.  The stream is the blocks of the counter values in order, the
  counter wrapping at 32 bits: byte \<open>j\<close> of the output is byte \<open>j mod 64\<close> of block \<open>j div 64\<close>, combined with
  the data by exclusive or, whether the data comes in one piece or is cut at a block boundary.\<close>

theorem chacha_round_trip:
  "xor_stream key c nonce (xor_stream key c nonce data) = data \<and>
   xor_stream key c nonce data = map2 (XOR) data (keystream key c nonce data) \<and>
   keystream key c nonce data =
     map (\<lambda>j. block key (c + of_nat (j div 64)) nonce ! (j mod 64)) [0..<length data] \<and>
   xor_stream key c nonce data =
     xor_stream key c nonce (take (64 * m) data) @ xor_stream key (c + of_nat m) nonce (drop (64 * m) data)"
proof -
  have xor: "xor_stream key c nonce data = map (\<lambda>j. data ! j XOR key_byte key c nonce j) [0..<length data]" for c data
    by (simp add: xor_stream_def chacha_stream_def stream_loop_keystream)
  have "xor_stream key c nonce data =
      xor_stream key c nonce (take (64 * m) data) @ xor_stream key (c + of_nat m) nonce (drop (64 * m) data)"
  proof (cases "64 * m \<le> length data")
    case True
    then have "[0..<length data] = [0..<64 * m] @ [64 * m..<length data]" by (metis le_add_diff_inverse le0 upt_add_eq_append)
    moreover have "map (\<lambda>j. data ! j XOR key_byte key c nonce j) [64 * m..<length data] =
        map (\<lambda>j. drop (64 * m) data ! j XOR key_byte key (c + of_nat m) nonce j) [0..<length data - 64 * m]"
      using True by (auto intro!: nth_equalityI simp: key_byte_shift)
    ultimately show ?thesis using True by (simp add: xor)
  qed (simp add: xor)
  moreover have "xor_stream key c nonce (xor_stream key c nonce data) = data"
    unfolding xor by (auto intro!: nth_equalityI simp: xor.assoc)
  moreover have "xor_stream key c nonce data = map2 (XOR) data (keystream key c nonce data)"
    by (auto intro!: nth_equalityI simp: xor keystream_bytes)
  moreover have "keystream key c nonce data = map (\<lambda>j. block key (c + of_nat (j div 64)) nonce ! (j mod 64)) [0..<length data]"
    by (simp add: keystream_bytes key_byte_def)
  ultimately show ?thesis by blast
qed

text \<open>C33: The generator.  A request is served from the bytes that are left of the last block; when they do not
  suffice, the current key gives the rest: the first half block of its stream becomes the next key and
  the request gets the stream from there on.  What is left of the block is kept.  Every byte of the
  buffer that was handed out reads zero, and so does everything after a reseed or a wipe.\<close>

theorem rng_fill_erases:
  assumes "rng_ok g" "fill out g = (bytes, g')"
  shows "rng_ok g' \<and> length bytes = length out \<and>
    (length out \<le> length (pending g) \<longrightarrow>
      bytes = take (length out) (pending g) \<and> pending g' = drop (length out) (pending g) \<and> rng_key g' = rng_key g) \<and>
    (length (pending g) < length out \<longrightarrow>
      bytes = pending g @ drop 32 (keystream (rng_key g) 0 RNG_NONCE (replicate (32 + (length out - length (pending g))) 0)) \<and>
      rng_key g' = take 32 (block (rng_key g) 0 RNG_NONCE) \<and>
      pending g' = drop (length out - length (pending g)) (drop 32 (block (rng_key g) 0 RNG_NONCE))) \<and>
    (\<forall>seed. length seed = 32 \<longrightarrow> rng_ok (reseed seed g) \<and> pending (reseed seed g) = []) \<and>
    rng_ok (wipe_rng g) \<and> pending (wipe_rng g) = [] \<and> rng_key (wipe_rng g) = replicate 32 0"
proof -
  note ok = fill_ok [OF assms]
  have "length bytes = length out"
    using ok(2,3) by (cases "length out \<le> length (pending g)") auto
  moreover have "rng_ok (wipe_rng g) \<and> pending (wipe_rng g) = [] \<and> rng_key (wipe_rng g) = replicate 32 0"
    using assms(1) by (simp add: rng_ok_def wipe_rng_def pending_def secure_zero_def)
  moreover have "\<forall>seed. length seed = 32 \<longrightarrow> rng_ok (reseed seed g) \<and> pending (reseed seed g) = []"
    using assms(1) by (simp add: rng_ok_def reseed_def pending_def secure_zero_def)
  ultimately show ?thesis using ok by (simp add: keystream_bytes)
qed

theorem rng_fill_erases_witness:
  "let g = reseed (replicate 32 7) new_rng in
   rng_ok g \<and> rng_ok (snd (fill (replicate 100 0) g)) \<and> length (fst (fill (replicate 100 0) g)) = 100"
proof -
  have ok: "rng_ok (reseed (replicate 32 7) new_rng)" by (simp add: rng_ok_def reseed_def new_rng_def secure_zero_def)
  from rng_fill_erases [OF this, of "replicate 100 0" "fst (fill (replicate 100 0) (reseed (replicate 32 7) new_rng))"
      "snd (fill (replicate 100 0) (reseed (replicate 32 7) new_rng))"]
  show ?thesis using ok by (simp add: Let_def)
qed

text \<open>The byte helpers: what a store writes in little-endian order is loaded back from wherever it
  stands, and the constant-time comparison is equality.\<close>

theorem bytes_round_trip:
  "load_le32 (xs @ store_le32 v @ ys) (length xs) = v \<and> load_le64 (xs @ store_le64 w @ ys) (length xs) = w \<and>
   (equal_constant_time a b \<longleftrightarrow> a = b)"
  by (simp add: load_store_le32 load_store_le64 equal_constant_time_iff)

end
