(* ===== verification/Blake2b.thy ===== *)
theory Blake2b
  imports ChaCha
begin

unbundle bit_operations_syntax

text \<open>
  BLAKE2b (\<^verbatim>\<open>kernel/include/crypto/blake2b.hpp\<close>, \<^verbatim>\<open>kernel/src/crypto/blake2b.cpp\<close>): the incremental hash,
  statement by statement, and the one-pass description of RFC 7693 that it implements.
\<close>

subsection \<open>Definitions\<close>

record blake2b =
  m_h :: "u64 list"
  m_t0 :: u64
  m_t1 :: u64
  m_buf :: bytes
  m_buf_len :: u32
  m_digest_bytes :: u32

definition BLAKE_IV :: "u64 list" where
  "BLAKE_IV =
    [0x6a09e667f3bcc908, 0xbb67ae8584caa73b, 0x3c6ef372fe94f82b, 0xa54ff53a5f1d36f1,
     0x510e527fade682d1, 0x9b05688c2b3e6c1f, 0x1f83d9abfb41bd6b, 0x5be0cd19137e2179]"

definition BLAKE_SIGMA :: "nat list list" where
  "BLAKE_SIGMA =
    [[0, 1, 2, 3, 4, 5, 6, 7, 8, 9, 10, 11, 12, 13, 14, 15],
     [14, 10, 4, 8, 9, 15, 13, 6, 1, 12, 0, 2, 11, 7, 5, 3],
     [11, 8, 12, 0, 5, 2, 15, 13, 10, 14, 3, 6, 7, 1, 9, 4],
     [7, 9, 3, 1, 13, 12, 11, 14, 2, 6, 5, 10, 4, 0, 15, 8],
     [9, 0, 5, 7, 2, 4, 10, 15, 14, 1, 11, 12, 6, 8, 3, 13],
     [2, 12, 6, 10, 0, 11, 8, 3, 4, 13, 7, 5, 15, 14, 1, 9],
     [12, 5, 1, 15, 14, 13, 4, 10, 0, 7, 6, 3, 9, 2, 8, 11],
     [13, 11, 7, 14, 12, 1, 3, 9, 5, 0, 15, 4, 8, 6, 2, 10],
     [6, 15, 14, 9, 11, 3, 0, 8, 12, 2, 13, 7, 1, 4, 10, 5],
     [10, 2, 8, 4, 7, 6, 1, 5, 15, 11, 9, 14, 3, 12, 13, 0],
     [0, 1, 2, 3, 4, 5, 6, 7, 8, 9, 10, 11, 12, 13, 14, 15],
     [14, 10, 4, 8, 9, 15, 13, 6, 1, 12, 0, 2, 11, 7, 5, 3]]"

definition mix :: "nat \<Rightarrow> nat \<Rightarrow> nat \<Rightarrow> nat \<Rightarrow> u64 \<Rightarrow> u64 \<Rightarrow> u64 list \<Rightarrow> u64 list" where
  "mix a b c d x y v =
     (let v = v[a := v ! a + v ! b + x];
          v = v[d := word_rotr 32 (v ! d XOR v ! a)];
          v = v[c := v ! c + v ! d];
          v = v[b := word_rotr 24 (v ! b XOR v ! c)];
          v = v[a := v ! a + v ! b + y];
          v = v[d := word_rotr 16 (v ! d XOR v ! a)];
          v = v[c := v ! c + v ! d];
          v = v[b := word_rotr 63 (v ! b XOR v ! c)]
      in v)"

definition mix_round :: "u64 list \<Rightarrow> nat list \<Rightarrow> u64 list \<Rightarrow> u64 list" where
  "mix_round m s v =
     (let v = mix 0 4 8 12 (m ! (s ! 0)) (m ! (s ! 1)) v;
          v = mix 1 5 9 13 (m ! (s ! 2)) (m ! (s ! 3)) v;
          v = mix 2 6 10 14 (m ! (s ! 4)) (m ! (s ! 5)) v;
          v = mix 3 7 11 15 (m ! (s ! 6)) (m ! (s ! 7)) v;
          v = mix 0 5 10 15 (m ! (s ! 8)) (m ! (s ! 9)) v;
          v = mix 1 6 11 12 (m ! (s ! 10)) (m ! (s ! 11)) v;
          v = mix 2 7 8 13 (m ! (s ! 12)) (m ! (s ! 13)) v;
          v = mix 3 4 9 14 (m ! (s ! 14)) (m ! (s ! 15)) v
      in v)"

text \<open>The compression function on the values it reads: chaining words, block, counter and last flag.\<close>

definition compress_words :: "u64 list \<Rightarrow> bytes \<Rightarrow> u64 \<Rightarrow> u64 \<Rightarrow> bool \<Rightarrow> u64 list" where
  "compress_words h buf t0 t1 last_block =
     (let m = map (\<lambda>i. load_le64 buf (8 * i)) [0..<16];
          v = map ((!) h) [0..<8] @ BLAKE_IV;
          v = v[12 := v ! 12 XOR t0];
          v = v[13 := v ! 13 XOR t1];
          v = (if last_block then v[14 := NOT (v ! 14)] else v);
          v = fold (mix_round m) BLAKE_SIGMA v
      in map (\<lambda>i. h ! i XOR (v ! i XOR v ! (i + 8))) [0..<8])"

definition compress :: "bool \<Rightarrow> blake2b \<Rightarrow> blake2b" where
  "compress last_block s = s\<lparr>m_h := compress_words (m_h s) (m_buf s) (m_t0 s) (m_t1 s) last_block\<rparr>"

definition new_blake2b :: "nat \<Rightarrow> bytes \<Rightarrow> blake2b" where
  "new_blake2b digest_bytes key =
     (let digest_bytes = (if digest_bytes = 0 then 1 else digest_bytes);
          digest_bytes = (if digest_bytes > 64 then 64 else digest_bytes);
          key_bytes = (if length key > 64 then 64 else length key)
      in \<lparr>m_h = BLAKE_IV[0 := BLAKE_IV ! 0 XOR (0x01010000 XOR push_bit 8 (of_nat key_bytes) XOR of_nat digest_bytes)],
          m_t0 = 0, m_t1 = 0,
          m_buf = (if key_bytes \<noteq> 0 then copy_into (replicate 128 0) 0 (take key_bytes key) else replicate 128 0),
          m_buf_len = (if key_bytes \<noteq> 0 then 128 else 0), m_digest_bytes = of_nat digest_bytes\<rparr>)"

definition make_room :: "blake2b \<Rightarrow> blake2b" where
  "make_room s =
     (if m_buf_len s = 128
      then let s = s\<lparr>m_t0 := m_t0 s + 128\<rparr>;
               s = s\<lparr>m_t1 := m_t1 s + (if m_t0 s < 128 then 1 else 0)\<rparr>
        in (compress False s)\<lparr>m_buf_len := 0\<rparr>
      else s)"

lemma make_room_len: "m_buf_len (make_room s) \<noteq> 128"
  by (simp add: make_room_def Let_def)

lemma room_positive: "l \<noteq> 128 \<Longrightarrow> 0 < unat (128 - ucast (l :: u32) :: u64)"
proof -
  assume l: "l \<noteq> 128"
  have "(128 :: u64) \<noteq> ucast l"
  proof
    assume "(128 :: u64) = ucast l"
    then have "unat (ucast l :: u64) = 128" by simp
    then have "unat l = unat (128 :: u32)" using unat_ucast_up [where 'b = 64, of l] by simp
    then show False using l by (metis unsigned_word_eqI)
  qed
  then show ?thesis by (simp add: unat_gt_0)
qed

function blake_update :: "bytes \<Rightarrow> blake2b \<Rightarrow> blake2b" where
  "blake_update data s =
     (if data = [] then s
      else let s = make_room s;
               n = min (length data) (unat (128 - ucast (m_buf_len s) :: u64));
               s = s\<lparr>m_buf := copy_into (m_buf s) (unat (m_buf_len s)) (take n data),
                     m_buf_len := m_buf_len s + of_nat n\<rparr>
        in blake_update (drop n data) s)"
  by auto

termination
proof (relation "measure (\<lambda>(data, _). length data)")
  fix data :: bytes and s x n s'
  assume a: "data \<noteq> []" "x = make_room s" "n = min (length data) (unat (128 - ucast (m_buf_len x) :: u64))"
  have "0 < n" using a room_positive [OF make_room_len, of s] by simp
  then show "((drop n data, s'), (data, s)) \<in> measure (\<lambda>(data, _). length data)" using a(1) by simp
qed simp

declare blake_update.simps [simp del]

definition wipe_blake2b :: "blake2b \<Rightarrow> blake2b" where
  "wipe_blake2b s = s\<lparr>m_h := replicate (length (m_h s)) 0, m_buf := secure_zero (m_buf s), m_t0 := 0, m_t1 := 0, m_buf_len := 0\<rparr>"

text \<open>The bytes written to an output of the given size, and the object after it.\<close>

definition finalize :: "nat \<Rightarrow> blake2b \<Rightarrow> bytes \<times> blake2b" where
  "finalize size_out s =
     (let s = s\<lparr>m_t0 := m_t0 s + ucast (m_buf_len s)\<rparr>;
          s = s\<lparr>m_t1 := m_t1 s + (if m_t0 s < ucast (m_buf_len s) then 1 else 0)\<rparr>;
          s = s\<lparr>m_buf := take (unat (m_buf_len s)) (m_buf s) @ replicate (128 - unat (m_buf_len s)) 0\<rparr>;
          s = compress True s;
          digest = concat (map (\<lambda>i. store_le64 (m_h s ! i)) [0..<8]);
          n = min size_out (unat (m_digest_bytes s))
      in (take n digest, wipe_blake2b s))"

definition blake2b_hash :: "nat \<Rightarrow> bytes \<Rightarrow> bytes \<Rightarrow> bytes" where
  "blake2b_hash size_out data key = fst (finalize size_out (blake_update data (new_blake2b size_out key)))"

subsection \<open>The hash of RFC 7693\<close>

definition padded :: "bytes \<Rightarrow> bytes" where
  "padded xs = xs @ replicate (128 - length xs) 0"

definition rfc_F :: "u64 list \<Rightarrow> bytes \<Rightarrow> nat \<Rightarrow> bool \<Rightarrow> u64 list" where
  "rfc_F h d t f = compress_words h (padded d) (of_nat t) (of_nat (t div 2 ^ 64)) f"

text \<open>The blocks in order, each with the number of bytes up to its end; the last one with the final flag.\<close>

function rfc_blocks :: "u64 list \<Rightarrow> nat \<Rightarrow> bytes \<Rightarrow> u64 list" where
  "rfc_blocks h t data =
     (if length data \<le> 128 then rfc_F h data (t + length data) True
      else rfc_blocks (rfc_F h (take 128 data) (t + 128) False) (t + 128) (drop 128 data))"
  by auto
termination
  by (relation "measure (\<lambda>(_, _, data). length data)") auto

declare rfc_blocks.simps [simp del]

definition rfc_blake2b :: "nat \<Rightarrow> bytes \<Rightarrow> bytes \<Rightarrow> bytes" where
  "rfc_blake2b nn key data =
     (let h = BLAKE_IV[0 := BLAKE_IV ! 0 XOR 0x01010000 XOR push_bit 8 (of_nat (length key)) XOR of_nat nn];
          h = rfc_blocks h 0 ((if key = [] then [] else padded key) @ data)
      in take nn (concat (map (\<lambda>i. store_le64 (h ! i)) [0..<8])))"

end
