(* ===== verification/Blake2bProps.thy ===== *)
theory Blake2bProps
  imports Blake2b
begin

unbundle bit_operations_syntax

text \<open>
  The incremental hash computes the hash of RFC 7693 of everything it was fed, however the input is
  cut into pieces.
\<close>

subsection \<open>Definitions\<close>

definition fed :: "u64 list \<Rightarrow> (bytes \<Rightarrow> bool) \<Rightarrow> bytes \<Rightarrow> blake2b \<Rightarrow> bool" where
  "fed h P xs s \<longleftrightarrow> length (m_buf s) = 128 \<and> unat (m_buf_len s) \<le> 128 \<and> length (m_h s) = 8 \<and>
     (\<exists>t. m_t0 s = of_nat t \<and> m_t1 s = of_nat (t div 2 ^ 64) \<and>
       (\<forall>rest. P rest \<longrightarrow> rfc_blocks h 0 (xs @ rest) = rfc_blocks (m_h s) t (take (unat (m_buf_len s)) (m_buf s) @ rest)))"

subsection \<open>Counter and buffer\<close>

lemma nat_carry: "(t + c) div m = t div m + (if m \<le> t mod m + c then 1 else 0)" if "c < m" for t c m :: nat
proof -
  have "(t + c) div m = t div m + (t mod m + c) div m" by (metis add.commute add.left_commute div_mult_mod_eq div_mult_self3 gr_implies_not0 that)
  moreover have "(t mod m + c) div m = (if m \<le> t mod m + c then 1 else 0)"
  proof (cases "m \<le> t mod m + c")
    case True
    have "t mod m < m" using that by simp
    then have "t mod m + c < 2 * m" using that by linarith
    then show ?thesis using True that by (simp add: div_nat_eqI)
  qed simp
  ultimately show ?thesis by simp
qed

lemma mod_carry: "(a + c) mod m < c \<longleftrightarrow> m \<le> a + c" if "a < m" "c < m" for a c m :: nat
proof (cases "m \<le> a + c")
  case True
  then have "(a + c) mod m = a + c - m" using that by (simp add: le_mod_geq)
  then show ?thesis using True that by simp
qed simp

lemma counter_carry:
  assumes "c < 2 ^ 64"
  shows "(of_nat (t div 2 ^ 64) + (if of_nat t + of_nat c < (of_nat c :: u64) then 1 else 0) :: u64) = of_nat ((t + c) div 2 ^ 64)"
proof -
  have c: "unat (of_nat c :: u64) = c" using assms by (simp add: unat_of_nat take_bit_nat_eq_self)
  have "unat (of_nat t + of_nat c :: u64) = (t mod 2 ^ 64 + c) mod 2 ^ 64"
    using c by (simp add: unat_word_ariths unat_of_nat take_bit_eq_mod)
  moreover have "t mod 2 ^ 64 < (2 :: nat) ^ 64" by simp
  then have "(t mod 2 ^ 64 + c) mod 2 ^ 64 < c \<longleftrightarrow> 2 ^ 64 \<le> t mod 2 ^ 64 + c"
    using assms by (rule mod_carry)
  ultimately have "(of_nat t + of_nat c < (of_nat c :: u64)) \<longleftrightarrow> 2 ^ 64 \<le> t mod 2 ^ 64 + c"
    using c by (simp add: word_less_nat_alt)
  then show ?thesis using nat_carry [OF assms, of t] by simp
qed

lemma length_compress_words [simp]: "length (compress_words h buf t0 t1 f) = 8"
  by (simp add: compress_words_def Let_def)

lemma padded_full: "length xs = 128 \<Longrightarrow> padded xs = xs"
  by (simp add: padded_def)

lemma make_room_fed:
  assumes "fed h (\<lambda>_. True) xs s"
  shows "fed h (\<lambda>rest. rest \<noteq> []) xs (make_room s)" "unat (m_buf_len (make_room s)) < 128"
    "m_digest_bytes (make_room s) = m_digest_bytes s"
proof -
  obtain t where t: "m_t0 s = of_nat t" "m_t1 s = of_nat (t div 2 ^ 64)"
      "\<And>rest. rfc_blocks h 0 (xs @ rest) = rfc_blocks (m_h s) t (take (unat (m_buf_len s)) (m_buf s) @ rest)"
    and len: "length (m_buf s) = 128" "unat (m_buf_len s) \<le> 128" "length (m_h s) = 8"
    using assms by (auto simp: fed_def)
  have "fed h (\<lambda>rest. rest \<noteq> []) xs (make_room s) \<and> unat (m_buf_len (make_room s)) < 128 \<and> m_digest_bytes (make_room s) = m_digest_bytes s"
  proof (cases "m_buf_len s = 128")
    case True
    have t1: "m_t1 s + (if of_nat t + 128 < (128 :: u64) then 1 else 0) = of_nat ((t + 128) div 2 ^ 64)"
      using counter_carry [of 128 t] by (simp only: t(2)) simp
    have "rfc_blocks h 0 (xs @ rest) = rfc_blocks (rfc_F (m_h s) (m_buf s) (t + 128) False) (t + 128) rest" if "rest \<noteq> []" for rest
      using t(3) [of rest] len(1) that True by (subst (asm) (2) rfc_blocks.simps) simp
    moreover have "rfc_F (m_h s) (m_buf s) (t + 128) False = compress_words (m_h s) (m_buf s) (of_nat t + 128)
        (m_t1 s + (if of_nat t + 128 < (128 :: u64) then 1 else 0)) False"
      by (simp add: rfc_F_def padded_full [OF len(1)] t1)
    ultimately show ?thesis using True len t(1)
      by (auto simp: make_room_def fed_def compress_def Let_def t1 intro!: exI [of _ "t + 128"])
  next
    case False
    then have "unat (m_buf_len s) \<noteq> unat (128 :: u32)" by (metis unsigned_word_eqI)
    then show ?thesis using False len t by (auto simp: make_room_def fed_def)
  qed
  then show "fed h (\<lambda>rest. rest \<noteq> []) xs (make_room s)" "unat (m_buf_len (make_room s)) < 128"
    "m_digest_bytes (make_room s) = m_digest_bytes s" by auto
qed

lemma take_copy_into: "length dst = m \<Longrightarrow> i + length ys \<le> m \<Longrightarrow> take (i + length ys) (copy_into dst i ys) = take i dst @ ys"
  by (simp add: copy_into_def)

lemma copy_fed:
  assumes "fed h (\<lambda>rest. rest \<noteq> []) xs s" "ys \<noteq> []" "unat (m_buf_len s) + length ys \<le> 128"
  shows "fed h (\<lambda>_. True) (xs @ ys)
    (s\<lparr>m_buf := copy_into (m_buf s) (unat (m_buf_len s)) ys, m_buf_len := m_buf_len s + of_nat (length ys)\<rparr>)"
proof -
  have len: "unat (m_buf_len s + of_nat (length ys)) = unat (m_buf_len s) + length ys"
  proof -
    have "unat (of_nat (length ys) :: u32) = length ys" using assms(3) by (simp add: unat_of_nat take_bit_nat_eq_self)
    then show ?thesis using assms(3) by (subst unat_add_lem [THEN iffD1]) auto
  qed
  obtain t where t: "m_t0 s = of_nat t" "m_t1 s = of_nat (t div 2 ^ 64)"
      "\<And>rest. rest \<noteq> [] \<Longrightarrow> rfc_blocks h 0 (xs @ rest) = rfc_blocks (m_h s) t (take (unat (m_buf_len s)) (m_buf s) @ rest)"
    and s: "length (m_buf s) = 128" "length (m_h s) = 8"
    using assms(1) by (auto simp: fed_def)
  have "rfc_blocks h 0 ((xs @ ys) @ rest) = rfc_blocks (m_h s) t ((take (unat (m_buf_len s)) (m_buf s) @ ys) @ rest)" for rest
    using t(3) [of "ys @ rest"] assms(2) by simp
  then show ?thesis using t(1,2) s assms(3) len take_copy_into [OF s(1) assms(3)]
    by (auto simp: fed_def copy_into_def intro!: exI [of _ t])
qed

lemma update_fed:
  "fed h (\<lambda>_. True) xs s \<Longrightarrow> fed h (\<lambda>_. True) (xs @ data) (blake_update data s) \<and>
    m_digest_bytes (blake_update data s) = m_digest_bytes s"
proof (induction "length data" arbitrary: xs data s rule: less_induct)
  case less
  show ?case
  proof (cases "data = []")
    case False
    define r where "r = make_room s"
    define n where "n = min (length data) (unat (128 - ucast (m_buf_len r) :: u64))"
    define s' where "s' = r\<lparr>m_buf := copy_into (m_buf r) (unat (m_buf_len r)) (take n data), m_buf_len := m_buf_len r + of_nat n\<rparr>"
    note room = make_room_fed [OF less.prems, folded r_def]
    have "unat (ucast (m_buf_len r) :: u64) = unat (m_buf_len r)" by (simp add: unat_ucast_up)
    then have space: "unat (128 - ucast (m_buf_len r) :: u64) = 128 - unat (m_buf_len r)"
      using room(2) by (subst unat_sub) (simp_all add: word_le_nat_alt)
    then have n: "0 < n" "n \<le> length data" "unat (m_buf_len r) + n \<le> 128" using room(2) False by (auto simp: n_def)
    have "fed h (\<lambda>_. True) (xs @ take n data) s'"
      using copy_fed [OF room(1), of "take n data"] n False by (simp add: s'_def min_absorb2)
    then have "fed h (\<lambda>_. True) ((xs @ take n data) @ drop n data) (blake_update (drop n data) s') \<and>
        m_digest_bytes (blake_update (drop n data) s') = m_digest_bytes s'"
      using n by (intro less.hyps) auto
    moreover have "blake_update data s = blake_update (drop n data) s'"
      using False by (subst blake_update.simps) (simp add: Let_def s'_def flip: r_def n_def)
    ultimately show ?thesis using room(3) by (simp add: s'_def)
  qed (use less.prems in \<open>simp add: blake_update.simps\<close>)
qed

lemma updates_fed:
  "fed h (\<lambda>_. True) xs s \<Longrightarrow> fed h (\<lambda>_. True) (xs @ concat parts) (fold blake_update parts s) \<and>
    m_digest_bytes (fold blake_update parts s) = m_digest_bytes s"
proof (induction parts arbitrary: xs s)
  case (Cons p ps)
  then show ?case using update_fed [OF Cons.prems, of p] Cons.IH [of "xs @ p" "blake_update p s"] by simp
qed simp

lemma finalize_fed:
  assumes "fed h (\<lambda>_. True) xs s"
  shows "fst (finalize m s) = take (min m (unat (m_digest_bytes s))) (concat (map (\<lambda>i. store_le64 (rfc_blocks h 0 xs ! i)) [0..<8]))"
    and "snd (finalize m s) = s\<lparr>m_h := replicate 8 0, m_buf := replicate 128 0, m_t0 := 0, m_t1 := 0, m_buf_len := 0\<rparr>"
proof -
  define l where "l = unat (m_buf_len s)"
  obtain t where t: "m_t0 s = of_nat t" "m_t1 s = of_nat (t div 2 ^ 64)"
      "\<And>rest. rfc_blocks h 0 (xs @ rest) = rfc_blocks (m_h s) t (take l (m_buf s) @ rest)"
    and len: "length (m_buf s) = 128" "l \<le> 128" "length (m_h s) = 8"
    using assms by (auto simp: fed_def l_def)
  have w: "ucast (m_buf_len s) = (of_nat l :: u64)" by (simp add: l_def)
  have t1: "m_t1 s + (if of_nat t + of_nat l < (of_nat l :: u64) then 1 else 0) = of_nat ((t + l) div 2 ^ 64)"
    using counter_carry [of l t] len(2) by (simp only: t(2)) simp
  have "rfc_blocks h 0 xs = rfc_F (m_h s) (take l (m_buf s)) (t + l) True"
    using t(3) [of "[]"] len by (subst (asm) (2) rfc_blocks.simps) simp
  then have "rfc_blocks h 0 xs = compress_words (m_h s) (take l (m_buf s) @ replicate (128 - l) 0) (of_nat t + of_nat l)
      (m_t1 s + (if of_nat t + of_nat l < (of_nat l :: u64) then 1 else 0)) True"
    using len by (simp add: rfc_F_def padded_def t1)
  then show "fst (finalize m s) = take (min m (unat (m_digest_bytes s))) (concat (map (\<lambda>i. store_le64 (rfc_blocks h 0 xs ! i)) [0..<8]))"
    by (simp add: finalize_def Let_def compress_def w t(1) flip: l_def)
  show "snd (finalize m s) = s\<lparr>m_h := replicate 8 0, m_buf := replicate 128 0, m_t0 := 0, m_t1 := 0, m_buf_len := 0\<rparr>"
    using len by (simp add: finalize_def Let_def wipe_blake2b_def secure_zero_def compress_def flip: l_def)
qed

subsection \<open>Properties\<close>

definition clamp_digest :: "nat \<Rightarrow> nat" where
  "clamp_digest n = max 1 (min 64 n)"

lemma new_blake2b_fed:
  fixes key :: bytes
  defines "k \<equiv> take 64 key"
  shows "fed (BLAKE_IV[0 := BLAKE_IV ! 0 XOR 0x01010000 XOR push_bit 8 (of_nat (length k)) XOR of_nat (clamp_digest n)])
      (\<lambda>_. True) (if k = [] then [] else padded k) (new_blake2b n key)"
    and "unat (m_digest_bytes (new_blake2b n key)) = clamp_digest n"
proof -
  have d: "(if (if n = 0 then 1 else n) > 64 then 64 else (if n = 0 then 1 else n)) = clamp_digest n"
    by (simp add: clamp_digest_def)
  have k: "(if length key > 64 then 64 else length key) = length k" "take (length k) key = k" by (auto simp: k_def min_def)
  have buf: "copy_into (replicate 128 0) 0 k = padded k" by (simp add: copy_into_def padded_def)
  have new: "new_blake2b n key = \<lparr>m_h = BLAKE_IV[0 := BLAKE_IV ! 0 XOR 0x01010000 XOR push_bit 8 (of_nat (length k)) XOR of_nat (clamp_digest n)],
      m_t0 = 0, m_t1 = 0, m_buf = (if k = [] then replicate 128 0 else padded k), m_buf_len = (if k = [] then 0 else 128),
      m_digest_bytes = of_nat (clamp_digest n)\<rparr>"
    unfolding new_blake2b_def Let_def d k buf by (simp add: xor.assoc)
  have "length k \<le> 64" by (simp add: k_def)
  then have "length (padded k) = 128" by (simp add: padded_def)
  then show "fed (BLAKE_IV[0 := BLAKE_IV ! 0 XOR 0x01010000 XOR push_bit 8 (of_nat (length k)) XOR of_nat (clamp_digest n)])
      (\<lambda>_. True) (if k = [] then [] else padded k) (new_blake2b n key)"
    unfolding fed_def new by (auto simp: BLAKE_IV_def intro!: exI [of _ 0])
  have "clamp_digest n < 2 ^ 32" by (simp add: clamp_digest_def)
  then show "unat (m_digest_bytes (new_blake2b n key)) = clamp_digest n" unfolding new by (simp add: unat_of_nat take_bit_nat_eq_self)
qed

text \<open>C34: However the input is cut into pieces, the object gives the first bytes of the BLAKE2b hash of RFC 7693
  of the whole input, with the key as a zero-padded first block, the byte counter carried into its
  second word and the final flag on the last block only, an input that ends on a block boundary and an
  empty one included.  Digest and key lengths are clamped as documented, the one-shot function is the
  same hash, and the object is wiped afterwards.\<close>

theorem blake2b_is_rfc7693:
  "fst (finalize m (fold blake_update parts (new_blake2b n key))) =
     take m (rfc_blake2b (clamp_digest n) (take 64 key) (concat parts)) \<and>
   blake2b_hash n data key = take n (rfc_blake2b (clamp_digest n) (take 64 key) data) \<and>
   snd (finalize m (fold blake_update parts (new_blake2b n key))) =
     \<lparr>m_h = replicate 8 0, m_t0 = 0, m_t1 = 0, m_buf = replicate 128 0, m_buf_len = 0, m_digest_bytes = of_nat (clamp_digest n)\<rparr>"
proof -
  have parts: "fst (finalize m (fold blake_update parts (new_blake2b n key))) =
      take m (rfc_blake2b (clamp_digest n) (take 64 key) (concat parts))" for m parts
    using finalize_fed(1) [OF conjunct1 [OF updates_fed [OF new_blake2b_fed(1)]]]
      conjunct2 [OF updates_fed [OF new_blake2b_fed(1) [of key n], of parts]] new_blake2b_fed(2) [of n key]
    by (simp add: rfc_blake2b_def Let_def)
  moreover have "blake2b_hash n data key = take n (rfc_blake2b (clamp_digest n) (take 64 key) data)"
    using parts [of n "[data]"] by (simp add: blake2b_hash_def)
  moreover have "m_digest_bytes (new_blake2b n key) = of_nat (clamp_digest n)"
    using new_blake2b_fed(2) [of n key] by (metis of_nat_unat ucast_id)
  then have "snd (finalize m (fold blake_update parts (new_blake2b n key))) =
      \<lparr>m_h = replicate 8 0, m_t0 = 0, m_t1 = 0, m_buf = replicate 128 0, m_buf_len = 0, m_digest_bytes = of_nat (clamp_digest n)\<rparr>"
    using finalize_fed(2) [OF conjunct1 [OF updates_fed [OF new_blake2b_fed(1) [of key n], of parts]], of m]
      conjunct2 [OF updates_fed [OF new_blake2b_fed(1) [of key n], of parts]]
    by (cases "fold blake_update parts (new_blake2b n key)") simp
  ultimately show ?thesis by blast
qed

end
