(* ===== verification/TicketLock.thy ===== *)
theory TicketLock
  imports Prelude
begin

text \<open>
  The FIFO spinlock of \<^verbatim>\<open>kernel/src/utils/locks/ticket-spinlock.cpp\<close>: every access to one of the two counters
  is one step of its thread.  The wait functions only pass time and are no steps.
\<close>

subsection \<open>Definitions\<close>

record ticket_lock =
  m_now_serving :: u32
  m_next_ticket :: u32

definition new_ticket_lock :: ticket_lock where
  "new_ticket_lock = \<lparr>m_now_serving = 0, m_next_ticket = 0\<rparr>"

datatype ticket_pc = T_out | T_wait u32 | T_in | T_store u32 | T_try u32

fun lock_step :: "ticket_pc \<Rightarrow> ticket_lock \<Rightarrow> ticket_pc \<times> ticket_lock" where
  "lock_step T_out l = (T_wait (m_next_ticket l), l\<lparr>m_next_ticket := m_next_ticket l + 1\<rparr>)"
| "lock_step (T_wait my_ticket) l = (if m_now_serving l = my_ticket then T_in else T_wait my_ticket, l)"
| "lock_step pc l = (pc, l)"

fun unlock_step :: "ticket_pc \<Rightarrow> ticket_lock \<Rightarrow> ticket_pc \<times> ticket_lock" where
  "unlock_step T_in l = (T_store (m_now_serving l), l)"
| "unlock_step (T_store v) l = (T_out, l\<lparr>m_now_serving := v + 1\<rparr>)"
| "unlock_step pc l = (pc, l)"

fun try_lock_step :: "ticket_pc \<Rightarrow> ticket_lock \<Rightarrow> ticket_pc \<times> ticket_lock" where
  "try_lock_step T_out l = (T_try (m_now_serving l), l)"
| "try_lock_step (T_try v) l =
     (if m_next_ticket l = v then (T_in, l\<lparr>m_next_ticket := v + 1\<rparr>) else (T_out, l))"
| "try_lock_step pc l = (pc, l)"

subsection \<open>Threads\<close>

text \<open>
  A lock and its threads, with the tickets as natural numbers: how many were handed out, how many
  holders have left, and the ticket of every thread.  For a \<^verbatim>\<open>try_lock\<close> between its two accesses the
  ticket is the number of holders that had left at the load.
\<close>

record ticket_sys =
  tlock :: ticket_lock
  tpcs :: "nat \<Rightarrow> ticket_pc"
  issued :: nat
  served :: nat
  ticket :: "nat \<Rightarrow> nat"

definition ticket_start :: ticket_sys where
  "ticket_start = \<lparr>tlock = new_ticket_lock, tpcs = (\<lambda>_. T_out), issued = 0, served = 0, ticket = (\<lambda>_. 0)\<rparr>"

definition thread_does :: "nat \<Rightarrow> ticket_pc \<times> ticket_lock \<Rightarrow> ticket_sys \<Rightarrow> ticket_sys" where
  "thread_does i r s = s\<lparr>tlock := snd r, tpcs := (tpcs s)(i := fst r)\<rparr>"

definition lock_by :: "nat \<Rightarrow> ticket_sys \<Rightarrow> ticket_sys" where
  "lock_by i s = (let s' = thread_does i (lock_step (tpcs s i) (tlock s)) s in
     if tpcs s i = T_out then s'\<lparr>ticket := (ticket s)(i := issued s), issued := issued s + 1\<rparr> else s')"

definition unlock_by :: "nat \<Rightarrow> ticket_sys \<Rightarrow> ticket_sys" where
  "unlock_by i s = (let s' = thread_does i (unlock_step (tpcs s i) (tlock s)) s in
     if tpcs s' i = T_out \<and> tpcs s i \<noteq> T_out then s'\<lparr>served := served s + 1\<rparr> else s')"

definition try_lock_by :: "nat \<Rightarrow> ticket_sys \<Rightarrow> ticket_sys" where
  "try_lock_by i s = (let s' = thread_does i (try_lock_step (tpcs s i) (tlock s)) s in
     if tpcs s i = T_out then s'\<lparr>ticket := (ticket s)(i := served s)\<rparr>
     else if tpcs s' i = T_in then s'\<lparr>issued := issued s + 1\<rparr> else s')"

text \<open>
  A thread that waits goes on waiting, one that holds the lock may release it.  The compare-exchange
  of a \<^verbatim>\<open>try_lock\<close> comes before another \<open>2 ^ 32\<close> tickets are handed out.
\<close>

inductive ticket_step :: "nat \<Rightarrow> nat \<Rightarrow> ticket_sys \<Rightarrow> ticket_sys \<Rightarrow> bool" for n where
  lock: "i < n \<Longrightarrow> tpcs s i = T_out \<or> tpcs s i = T_wait k \<Longrightarrow> ticket_step n i s (lock_by i s)"
| unlock: "i < n \<Longrightarrow> tpcs s i = T_in \<or> tpcs s i = T_store v \<Longrightarrow> ticket_step n i s (unlock_by i s)"
| try_lock: "i < n \<Longrightarrow> tpcs s i = T_out \<or> tpcs s i = T_try v \<and> issued s - ticket s i < 2 ^ 32 \<Longrightarrow>
    ticket_step n i s (try_lock_by i s)"

inductive ticket_reachable :: "nat \<Rightarrow> ticket_sys \<Rightarrow> bool" for n where
  at_start: "ticket_reachable n ticket_start"
| after_step: "ticket_reachable n s \<Longrightarrow> ticket_step n i s s' \<Longrightarrow> ticket_reachable n s'"

fun waiting :: "ticket_pc \<Rightarrow> bool" where
  "waiting (T_wait k) = True" | "waiting pc = False"

fun holding :: "ticket_pc \<Rightarrow> bool" where
  "holding T_in = True" | "holding (T_store v) = True" | "holding pc = False"

definition active :: "ticket_sys \<Rightarrow> nat set" where
  "active s = {i. waiting (tpcs s i) \<or> holding (tpcs s i)}"

text \<open>The threads that come before a waiting one.\<close>

definition ahead :: "nat \<Rightarrow> ticket_sys \<Rightarrow> nat" where
  "ahead i s = card {j \<in> active s. ticket s j < ticket s i}"

fun pc_ticket_ok :: "nat \<Rightarrow> nat \<Rightarrow> nat \<Rightarrow> ticket_pc \<Rightarrow> bool" where
  "pc_ticket_ok S N k (T_wait w) \<longleftrightarrow> w = of_nat k \<and> S \<le> k \<and> k < N"
| "pc_ticket_ok S N k T_in \<longleftrightarrow> k = S \<and> S < N"
| "pc_ticket_ok S N k (T_store v) \<longleftrightarrow> k = S \<and> S < N \<and> v = of_nat S"
| "pc_ticket_ok S N k (T_try v) \<longleftrightarrow> v = of_nat k \<and> k \<le> S"
| "pc_ticket_ok S N k T_out \<longleftrightarrow> True"

definition ticket_inv :: "nat \<Rightarrow> ticket_sys \<Rightarrow> bool" where
  "ticket_inv n s \<longleftrightarrow>
     tlock s = \<lparr>m_now_serving = of_nat (served s), m_next_ticket = of_nat (issued s)\<rparr> \<and>
     served s \<le> issued s \<and> (\<forall>i. pc_ticket_ok (served s) (issued s) (ticket s i) (tpcs s i)) \<and>
     bij_betw (ticket s) (active s) {served s..<issued s} \<and> active s \<subseteq> {..<n}"

subsection \<open>The invariant\<close>

lemma u32_of_nat_eq: "a \<le> b \<Longrightarrow> b - a < 2 ^ 32 \<Longrightarrow> (of_nat b :: u32) = of_nat a \<longleftrightarrow> b = a"
proof
  assume le: "a \<le> b" "b - a < 2 ^ 32" and "(of_nat b :: u32) = of_nat a"
  then have "unat (of_nat (b - a) :: u32) = 0" by (simp add: of_nat_diff)
  then have "b - a = 0" using le(2) by (simp only: unat_of_nat take_bit_nat_eq_self len_of_numeral_defs) (simp add: take_bit_nat_eq_self)
  then show "b = a" using le(1) by simp
qed simp

lemma ticket_invD:
  assumes "ticket_inv n s"
  shows "m_now_serving (tlock s) = of_nat (served s)" "m_next_ticket (tlock s) = of_nat (issued s)"
    and "served s \<le> issued s" "pc_ticket_ok (served s) (issued s) (ticket s i) (tpcs s i)"
    and "bij_betw (ticket s) (active s) {served s..<issued s}" "active s \<subseteq> {..<n}" "issued s - served s \<le> n"
proof -
  show "m_now_serving (tlock s) = of_nat (served s)" "m_next_ticket (tlock s) = of_nat (issued s)"
    "served s \<le> issued s" "pc_ticket_ok (served s) (issued s) (ticket s i) (tpcs s i)"
    and bij: "bij_betw (ticket s) (active s) {served s..<issued s}" and sub: "active s \<subseteq> {..<n}"
    using assms by (auto simp: ticket_inv_def)
  show "issued s - served s \<le> n" using bij_betw_same_card [OF bij] card_mono [OF _ sub] by simp
qed

lemma same_ticket: "ticket_inv n s \<Longrightarrow> i \<in> active s \<Longrightarrow> j \<in> active s \<Longrightarrow> ticket s i = ticket s j \<Longrightarrow> i = j"
  using ticket_invD(5) [of n s] by (auto simp: bij_betw_def inj_on_def)

lemma active_upd: "active (s\<lparr>tlock := l, tpcs := (tpcs s)(i := pc)\<rparr>) =
    (if waiting pc \<or> holding pc then insert i (active s) else active s - {i})"
  by (auto simp: active_def)

lemma active_ghost [simp]: "active (s\<lparr>ticket := t\<rparr>) = active s" "active (s\<lparr>issued := k\<rparr>) = active s" "active (s\<lparr>served := k\<rparr>) = active s"
  by (auto simp: active_def)

lemma bij_betw_add:
  assumes "bij_betw (f :: nat \<Rightarrow> nat) A {a..<b}" "i \<notin> A" "a \<le> b"
  shows "bij_betw (f(i := b)) (insert i A) {a..<b + 1}"
proof -
  have "bij_betw (f(i := b)) A {a..<b}" using assms(1,2) by (subst bij_betw_cong [of A _ f]) auto
  moreover have "{a..<b + 1} = insert b {a..<b}" using assms(3) by auto
  ultimately show ?thesis using assms(2) bij_betw_combine [of "f(i := b)" A "{a..<b}" "{i}" "{b}"] by auto
qed

lemma bij_betw_drop:
  assumes "bij_betw (f :: nat \<Rightarrow> nat) A {a..<b}" "i \<in> A" "f i = a" "a < b"
  shows "bij_betw f (A - {i}) {a + 1..<b}"
proof -
  have "{a + 1..<b} = {a..<b} - {f i}" using assms(3,4) by auto
  then show ?thesis using bij_betw_DiffI [OF assms(1), of "{i}" "{f i}"] assms(2-4) by auto
qed

lemma pc_ticket_ok_mono: "pc_ticket_ok S N k pc \<Longrightarrow> pc_ticket_ok S (N + 1) k pc"
  by (cases pc) auto

lemma pc_ticket_ok_served:
  assumes "pc_ticket_ok S N k pc" "\<not> holding pc" "waiting pc \<Longrightarrow> k \<noteq> S"
  shows "pc_ticket_ok (S + 1) N k pc"
  using assms by (cases pc) auto

lemma inactive: "tpcs s i = T_out \<or> tpcs s i = T_try v \<Longrightarrow> i \<notin> active s"
  by (auto simp: active_def)

lemma ticket_invI:
  assumes "m_now_serving l = of_nat S" "m_next_ticket l = of_nat N" "S \<le> N" "\<And>j. pc_ticket_ok S N (t j) (f j)"
    and "bij_betw t A {S..<N}" "A \<subseteq> {..<n}" "A = {j. waiting (f j) \<or> holding (f j)}"
  shows "ticket_inv n \<lparr>tlock = l, tpcs = f, issued = N, served = S, ticket = t\<rparr>"
  using assms by (cases l) (simp add: ticket_inv_def active_def)

lemma quiet_pc:
  assumes inv: "ticket_inv n s" and same: "waiting pc \<or> holding pc \<longleftrightarrow> i \<in> active s"
    and ok: "pc_ticket_ok (served s) (issued s) (ticket s i) pc"
  shows "ticket_inv n (s\<lparr>tpcs := (tpcs s)(i := pc)\<rparr>)"
proof -
  have "active (s\<lparr>tpcs := (tpcs s)(i := pc)\<rparr>) = active s" using same by (auto simp: active_def)
  then show ?thesis using inv ok by (simp add: ticket_inv_def)
qed

lemma lock_by_inv:
  assumes inv: "ticket_inv n s" and n: "n < 2 ^ 32" and i: "i < n" "tpcs s i = T_out \<or> tpcs s i = T_wait k"
  shows "ticket_inv n (lock_by i s)"
proof -
  note ok = ticket_invD [OF inv]
  show ?thesis
  proof (cases "tpcs s i = T_out")
    case True
    let ?f = "(tpcs s)(i := T_wait (of_nat (issued s)))"
    have "ticket_inv n \<lparr>tlock = (tlock s)\<lparr>m_next_ticket := of_nat (issued s + 1)\<rparr>, tpcs = ?f, issued = issued s + 1,
        served = served s, ticket = (ticket s)(i := issued s)\<rparr>"
    proof (rule ticket_invI)
      show "bij_betw ((ticket s)(i := issued s)) (insert i (active s)) {served s..<issued s + 1}"
        using bij_betw_add [OF ok(5) _ ok(3)] inactive [of s i] True by simp
      show "pc_ticket_ok (served s) (issued s + 1) (((ticket s)(i := issued s)) j) (?f j)" for j
        using pc_ticket_ok_mono [OF ok(4) [of j]] ok(3) by simp
    qed (use ok i in \<open>auto simp: active_def\<close>)
    then show ?thesis using True ok(2) by (cases s) (simp add: lock_by_def thread_does_def add.commute)
  next
    case False
    then have k: "tpcs s i = T_wait k" using i by simp
    then have t: "k = of_nat (ticket s i)" "served s \<le> ticket s i" "ticket s i < issued s" using ok(4) [of i] by auto
    let ?pc = "if m_now_serving (tlock s) = k then T_in else T_wait k"
    have "m_now_serving (tlock s) = k \<Longrightarrow> ticket s i = served s"
      using u32_of_nat_eq [OF t(2)] t ok(1,7) n by auto
    then have "ticket_inv n (s\<lparr>tpcs := (tpcs s)(i := ?pc)\<rparr>)"
      using k t by (intro quiet_pc [OF inv]) (auto simp: active_def)
    then show ?thesis using k by (cases s) (simp add: lock_by_def thread_does_def)
  qed
qed

lemma unlock_by_inv:
  assumes inv: "ticket_inv n s" and i: "tpcs s i = T_in \<or> tpcs s i = T_store v"
  shows "ticket_inv n (unlock_by i s)"
proof -
  note ok = ticket_invD [OF inv]
  show ?thesis
  proof (cases "tpcs s i = T_in")
    case True
    then have "ticket_inv n (s\<lparr>tpcs := (tpcs s)(i := T_store (of_nat (served s)))\<rparr>)"
      using ok(4) [of i] by (intro quiet_pc [OF inv]) (auto simp: active_def)
    then show ?thesis using True ok(1) by (cases s) (simp add: unlock_by_def thread_does_def Let_def)
  next
    case False
    then have v: "tpcs s i = T_store v" using i by simp
    then have t: "ticket s i = served s" "served s < issued s" "v = of_nat (served s)" and act: "i \<in> active s"
      using ok(4) [of i] by (auto simp: active_def)
    let ?f = "(tpcs s)(i := T_out)"
    have "ticket_inv n \<lparr>tlock = (tlock s)\<lparr>m_now_serving := of_nat (served s + 1)\<rparr>, tpcs = ?f, issued = issued s,
        served = served s + 1, ticket = ticket s\<rparr>"
    proof (rule ticket_invI)
      show "bij_betw (ticket s) (active s - {i}) {served s + 1..<issued s}" using bij_betw_drop [OF ok(5) act t(1,2)] .
      show "pc_ticket_ok (served s + 1) (issued s) (ticket s j) (?f j)" for j
      proof (cases "j = i")
        case False
        have other: "ticket s j \<noteq> served s" if "j \<in> active s" using same_ticket [OF inv that act] t(1) False by auto
        moreover have "holding (tpcs s j) \<Longrightarrow> ticket s j = served s" using ok(4) [of j] by (cases "tpcs s j") auto
        ultimately show ?thesis using pc_ticket_ok_served [OF ok(4) [of j]] False by (auto simp: active_def)
      qed simp
    qed (use ok t in \<open>auto simp: active_def\<close>)
    then show ?thesis using v t(3) by (cases s) (simp add: unlock_by_def thread_does_def Let_def add.commute)
  qed
qed

lemma try_lock_by_inv:
  assumes inv: "ticket_inv n s" and i: "i < n" "tpcs s i = T_out \<or> tpcs s i = T_try v \<and> issued s - ticket s i < 2 ^ 32"
  shows "ticket_inv n (try_lock_by i s)"
proof -
  note ok = ticket_invD [OF inv]
  have out: "i \<notin> active s" using inactive [of s i v] i(2) by blast
  show ?thesis
  proof (cases "tpcs s i = T_out")
    case True
    have "bij_betw ((ticket s)(i := served s)) (active s) {served s..<issued s}"
      using ok(5) out by (subst bij_betw_cong [of "active s" _ "ticket s"]) auto
    then have "ticket_inv n (s\<lparr>ticket := (ticket s)(i := served s)\<rparr>)"
      using inv True by (auto simp: ticket_inv_def)
    then have "ticket_inv n (s\<lparr>ticket := (ticket s)(i := served s), tpcs := (tpcs s)(i := T_try (of_nat (served s)))\<rparr>)"
      using out quiet_pc [of n "s\<lparr>ticket := (ticket s)(i := served s)\<rparr>" "T_try (of_nat (served s))" i] by simp
    then show ?thesis using True ok(1) by (cases s) (simp add: try_lock_by_def thread_does_def Let_def)
  next
    case False
    then have v: "tpcs s i = T_try v" "issued s - ticket s i < 2 ^ 32" using i(2) by auto
    then have t: "v = of_nat (ticket s i)" "ticket s i \<le> served s" using ok(4) [of i] by auto
    show ?thesis
    proof (cases "m_next_ticket (tlock s) = v")
      case True
      then have eq: "ticket s i = issued s" "served s = issued s"
        using u32_of_nat_eq [of "ticket s i" "issued s"] t v(2) ok(2,3) by auto
      let ?f = "(tpcs s)(i := T_in)"
      have "ticket_inv n \<lparr>tlock = (tlock s)\<lparr>m_next_ticket := of_nat (issued s + 1)\<rparr>, tpcs = ?f, issued = issued s + 1,
          served = served s, ticket = ticket s\<rparr>"
      proof (rule ticket_invI)
        show "bij_betw (ticket s) (insert i (active s)) {served s..<issued s + 1}"
          using bij_betw_add [OF ok(5) out ok(3)] eq(1) by (metis fun_upd_triv)
        show "pc_ticket_ok (served s) (issued s + 1) (ticket s j) (?f j)" for j
          using pc_ticket_ok_mono [OF ok(4) [of j]] eq by simp
      qed (use ok i in \<open>auto simp: active_def\<close>)
      then show ?thesis using v True t(1) eq(1) by (cases s) (simp add: try_lock_by_def thread_does_def Let_def add.commute)
    next
      case False
      have "ticket_inv n (s\<lparr>tpcs := (tpcs s)(i := T_out)\<rparr>)" using out by (intro quiet_pc [OF inv]) auto
      then show ?thesis using v False by (cases s) (simp add: try_lock_by_def thread_does_def Let_def)
    qed
  qed
qed

lemma ticket_inv_step:
  assumes "ticket_step n i s s'" "ticket_inv n s" "n < 2 ^ 32"
  shows "ticket_inv n s'"
  using assms by cases (blast intro: lock_by_inv unlock_by_inv try_lock_by_inv)+

lemma ticket_inv_reachable: "ticket_reachable n s \<Longrightarrow> n < 2 ^ 32 \<Longrightarrow> ticket_inv n s"
proof (induction rule: ticket_reachable.induct)
  case at_start
  then show ?case by (simp add: ticket_inv_def ticket_start_def new_ticket_lock_def active_def bij_betw_def)
qed (blast intro: ticket_inv_step)

subsection \<open>Properties\<close>

lemma ahead_eq:
  assumes inv: "ticket_inv n s" and w: "waiting (tpcs s i)"
  shows "ahead i s = ticket s i - served s" "served s \<le> ticket s i" "ticket s i < issued s" "tpcs s i = T_wait (of_nat (ticket s i))"
proof -
  show le: "served s \<le> ticket s i" "ticket s i < issued s" "tpcs s i = T_wait (of_nat (ticket s i))"
    using ticket_invD(4) [OF inv, of i] w by (cases "tpcs s i"; auto)+
  let ?A = "{j \<in> active s. ticket s j < ticket s i}"
  have "ticket s ` ?A = {served s..<ticket s i}"
  proof
    show "ticket s ` ?A \<subseteq> {served s..<ticket s i}" using ticket_invD(5) [OF inv] by (auto simp: bij_betw_def)
    show "{served s..<ticket s i} \<subseteq> ticket s ` ?A"
    proof
      fix t assume t: "t \<in> {served s..<ticket s i}"
      then have "t \<in> ticket s ` active s" using ticket_invD(5) [OF inv] le(2) by (auto simp: bij_betw_def)
      then show "t \<in> ticket s ` ?A" using t by auto
    qed
  qed
  moreover have "inj_on (ticket s) ?A" using ticket_invD(5) [OF inv] by (auto simp: bij_betw_def inj_on_def)
  ultimately show "ahead i s = ticket s i - served s" unfolding ahead_def by (metis card_atLeastLessThan card_image)
qed

lemma holding_first: "ticket_inv n s \<Longrightarrow> holding (tpcs s i) \<Longrightarrow> ticket s i = served s \<and> i \<in> active s"
  using ticket_invD(4) [of n s i] by (cases "tpcs s i") (auto simp: active_def)

lemma ahead_step:
  assumes inv: "ticket_inv n s" "n < 2 ^ 32" and step: "ticket_step n j s s'" and w: "waiting (tpcs s i)" "waiting (tpcs s' i)"
  shows "ahead i s' = (if \<exists>v. tpcs s j = T_store v then ahead i s - 1 else ahead i s)"
    and "\<exists>v. tpcs s j = T_store v \<Longrightarrow> 0 < ahead i s"
proof -
  note inv' = ticket_inv_step [OF step inv]
  have "ticket s' i = ticket s i"
    using step w ahead_eq(4) [OF inv(1) w(1)]
    by cases (auto simp: lock_by_def unlock_by_def try_lock_by_def thread_does_def Let_def split: if_splits)
  moreover have "served s' = (if \<exists>v. tpcs s j = T_store v then served s + 1 else served s)"
    using step by cases (auto simp: lock_by_def unlock_by_def try_lock_by_def thread_does_def Let_def)
  ultimately show "ahead i s' = (if \<exists>v. tpcs s j = T_store v then ahead i s - 1 else ahead i s)"
    "\<exists>v. tpcs s j = T_store v \<Longrightarrow> 0 < ahead i s"
    using ahead_eq [OF inv(1) w(1)] ahead_eq [OF inv' w(2)] by auto
qed

text \<open>C35: The ticket lock.  Under any interleaving of fewer than \<open>2 ^ 32\<close> threads at most one holds the lock.
  The distance a waiter computes is the number of threads before it, even when the counters have
  wrapped; its next look at the counter lets it in exactly when that number is zero.  No step makes a
  waiter fall back, every release brings it one place forward, and while somebody waits there is a
  holder or a waiter whose turn it is: a waiter is served after exactly as many releases as there are
  threads before it.\<close>

theorem ticket_lock_fifo:
  assumes "ticket_reachable n s" "n < 2 ^ 32"
  shows "(\<forall>i j. holding (tpcs s i) \<and> holding (tpcs s j) \<longrightarrow> i = j) \<and>
    (\<forall>i k. tpcs s i = T_wait k \<longrightarrow>
      unat (k - m_now_serving (tlock s)) = ahead i s \<and>
      (tpcs (lock_by i s) i = T_in \<longleftrightarrow> ahead i s = 0) \<and>
      ((\<exists>j. holding (tpcs s j)) \<or> (\<exists>j. waiting (tpcs s j) \<and> ahead j s = 0)) \<and>
      (\<forall>j s'. ticket_step n j s s' \<and> waiting (tpcs s' i) \<longrightarrow>
        (if \<exists>v. tpcs s j = T_store v then ahead i s' + 1 = ahead i s else ahead i s' = ahead i s)))"
proof (intro conjI allI impI)
  note inv = ticket_inv_reachable [OF assms]
  note ok = ticket_invD [OF inv]
  show "i = j" if "holding (tpcs s i) \<and> holding (tpcs s j)" for i j
    using same_ticket [OF inv, of i j] holding_first [OF inv] that by simp
  fix i k assume k: "tpcs s i = T_wait k"
  then have w: "waiting (tpcs s i)" by simp
  note t = ahead_eq [OF inv w]
  have d: "ticket s i - served s < 2 ^ 32" using t(2,3) ok(7) assms(2) by linarith
  have kw: "k - m_now_serving (tlock s) = of_nat (ticket s i - served s)" using t(2,4) k ok(1) by (simp add: of_nat_diff)
  show dist: "unat (k - m_now_serving (tlock s)) = ahead i s"
    unfolding kw t(1) using d by (simp add: unat_of_nat take_bit_nat_eq_self del: of_nat_diff)
  have "m_now_serving (tlock s) = k \<longleftrightarrow> unat (k - m_now_serving (tlock s)) = 0" by (auto simp: unat_eq_0)
  then show "tpcs (lock_by i s) i = T_in \<longleftrightarrow> ahead i s = 0"
    using k dist by (auto simp: lock_by_def thread_does_def)
  have "served s \<in> ticket s ` active s" using ok(5) t(2,3) by (auto simp: bij_betw_def)
  then obtain j where "j \<in> active s" "ticket s j = served s" by auto
  then show "(\<exists>j. holding (tpcs s j)) \<or> (\<exists>j. waiting (tpcs s j) \<and> ahead j s = 0)"
    using ahead_eq(1) [OF inv, of j] by (auto simp: active_def)
  show "if \<exists>v. tpcs s j = T_store v then ahead i s' + 1 = ahead i s else ahead i s' = ahead i s"
    if "ticket_step n j s s' \<and> waiting (tpcs s' i)" for j s'
    using ahead_step [OF inv assms(2) conjunct1 [OF that] w conjunct2 [OF that]] by auto
qed

theorem ticket_lock_fifo_witness:
  "let s = lock_by 1 (lock_by 0 (lock_by 0 ticket_start)) in
   ticket_reachable 2 s \<and> tpcs s 0 = T_in \<and> tpcs s 1 = T_wait 1 \<and> ahead 1 s = 1"
proof -
  define s1 where "s1 = lock_by 0 ticket_start"
  define s2 where "s2 = lock_by 0 s1"
  define s where "s = lock_by 1 s2"
  have pc: "tpcs ticket_start 0 = T_out" "tpcs s1 0 = T_wait 0" "tpcs s2 1 = T_out" "tpcs s 0 = T_in" "tpcs s 1 = T_wait 1"
    "m_now_serving (tlock s) = 0"
    by (simp_all add: s_def s2_def s1_def lock_by_def thread_does_def ticket_start_def new_ticket_lock_def Let_def)
  have "ticket_reachable 2 s1" unfolding s1_def by (rule after_step [OF at_start lock]) (use pc in auto)
  then have "ticket_reachable 2 s2" unfolding s2_def by (rule after_step [OF _ lock]) (use pc in auto)
  then have r: "ticket_reachable 2 s" unfolding s_def by (rule after_step [OF _ lock]) (use pc in auto)
  have "unat (1 - m_now_serving (tlock s)) = ahead 1 s"
    using conjunct2 [OF ticket_lock_fifo [OF r], rule_format, OF _ pc(5)] by simp
  then have "ticket_reachable 2 s \<and> tpcs s 0 = T_in \<and> tpcs s 1 = T_wait 1 \<and> ahead 1 s = 1" using r pc by simp
  then show ?thesis unfolding s_def s2_def s1_def Let_def .
qed

end
