(* ===== verification/RwLock.thy ===== *)
theory RwLock
  imports TicketLock
begin

unbundle bit_operations_syntax

text \<open>
  The writer-preferring reader/writer lock of \<^verbatim>\<open>kernel/src/utils/locks/rwlock.cpp\<close>, with the ticket lock that
  queues the writers.  Every access to the state word is one step, and so is every access of the ticket
  lock's own code.
\<close>

subsection \<open>Definitions\<close>

definition WRITER_LOCKED :: u32 where "WRITER_LOCKED = 1"
definition WRITER_WAITING :: u32 where "WRITER_WAITING = push_bit 1 1"
definition WRITER_MASK :: u32 where "WRITER_MASK = WRITER_LOCKED OR WRITER_WAITING"
definition READER_INC :: u32 where "READER_INC = push_bit 8 1"

datatype rw_pc = R_out | R_retry | R_undo | R_spin | R_in | W_queue | W_announce | W_cas | W_in | W_unlock

fun read_lock_step :: "rw_pc \<Rightarrow> u32 \<Rightarrow> rw_pc \<times> u32" where
  "read_lock_step R_out state = (if state AND WRITER_MASK = 0 then R_in else R_undo, state + READER_INC)"
| "read_lock_step R_retry state = (if state AND WRITER_MASK = 0 then R_in else R_undo, state + READER_INC)"
| "read_lock_step R_undo state =
     (let state' = state - READER_INC in (if state' AND WRITER_MASK \<noteq> 0 then R_spin else R_retry, state'))"
| "read_lock_step R_spin state = (if state AND WRITER_MASK \<noteq> 0 then R_spin else R_retry, state)"
| "read_lock_step pc state = (pc, state)"

fun read_unlock_step :: "rw_pc \<Rightarrow> u32 \<Rightarrow> rw_pc \<times> u32" where
  "read_unlock_step R_in state = (R_out, state - READER_INC)"
| "read_unlock_step pc state = (pc, state)"

fun write_lock_step :: "rw_pc \<Rightarrow> u32 \<Rightarrow> rw_pc \<times> u32" where
  "write_lock_step W_announce state = (W_cas, state OR WRITER_WAITING)"
| "write_lock_step W_cas state = (if state = WRITER_WAITING then (W_in, WRITER_LOCKED) else (W_cas, state))"
| "write_lock_step pc state = (pc, state)"

fun write_unlock_step :: "rw_pc \<Rightarrow> u32 \<Rightarrow> rw_pc \<times> u32" where
  "write_unlock_step W_in state = (W_unlock, state AND NOT WRITER_LOCKED)"
| "write_unlock_step pc state = (pc, state)"

subsection \<open>Threads\<close>

text \<open>The state word, the write queue with its threads, and where every thread is.\<close>

record rw_sys =
  rw_state :: u32
  write_queue :: ticket_sys
  rw_pcs :: "nat \<Rightarrow> rw_pc"

definition rw_start :: rw_sys where
  "rw_start = \<lparr>rw_state = 0, write_queue = ticket_start, rw_pcs = (\<lambda>_. R_out)\<rparr>"

definition on_state :: "nat \<Rightarrow> rw_pc \<times> u32 \<Rightarrow> rw_sys \<Rightarrow> rw_sys" where
  "on_state i r s = s\<lparr>rw_state := snd r, rw_pcs := (rw_pcs s)(i := fst r)\<rparr>"

text \<open>
  A thread that does nothing starts to read or to write.  A writer goes through the ticket lock of the
  queue, announces itself, waits for the readers, and on its way out clears its bit before it leaves
  the queue.
\<close>

inductive rw_step :: "nat \<Rightarrow> rw_sys \<Rightarrow> rw_sys \<Rightarrow> bool" for n where
  read_lock: "i < n \<Longrightarrow> rw_pcs s i \<in> {R_out, R_retry, R_undo, R_spin} \<Longrightarrow>
    rw_step n s (on_state i (read_lock_step (rw_pcs s i) (rw_state s)) s)"
| read_unlock: "i < n \<Longrightarrow> rw_pcs s i = R_in \<Longrightarrow>
    rw_step n s (on_state i (read_unlock_step (rw_pcs s i) (rw_state s)) s)"
| write_start: "i < n \<Longrightarrow> rw_pcs s i = R_out \<Longrightarrow> rw_step n s (s\<lparr>rw_pcs := (rw_pcs s)(i := W_queue)\<rparr>)"
| write_queued: "i < n \<Longrightarrow> rw_pcs s i = W_queue \<Longrightarrow> q = lock_by i (write_queue s) \<Longrightarrow>
    rw_step n s (s\<lparr>write_queue := q, rw_pcs := (rw_pcs s)(i := if tpcs q i = T_in then W_announce else W_queue)\<rparr>)"
| write_lock: "i < n \<Longrightarrow> rw_pcs s i \<in> {W_announce, W_cas} \<Longrightarrow>
    rw_step n s (on_state i (write_lock_step (rw_pcs s i) (rw_state s)) s)"
| write_unlock: "i < n \<Longrightarrow> rw_pcs s i = W_in \<Longrightarrow>
    rw_step n s (on_state i (write_unlock_step (rw_pcs s i) (rw_state s)) s)"
| write_leave: "i < n \<Longrightarrow> rw_pcs s i = W_unlock \<Longrightarrow> q = unlock_by i (write_queue s) \<Longrightarrow>
    rw_step n s (s\<lparr>write_queue := q, rw_pcs := (rw_pcs s)(i := if tpcs q i = T_out then R_out else W_unlock)\<rparr>)"

inductive rw_reachable :: "nat \<Rightarrow> rw_sys \<Rightarrow> bool" for n where
  rw_at_start: "rw_reachable n rw_start"
| rw_after_step: "rw_reachable n s \<Longrightarrow> rw_step n s s' \<Longrightarrow> rw_reachable n s'"

definition counted :: "(nat \<Rightarrow> rw_pc) \<Rightarrow> nat set" where
  "counted f = {i. f i = R_in \<or> f i = R_undo}"

fun queue_ok :: "rw_pc \<Rightarrow> ticket_pc \<Rightarrow> bool" where
  "queue_ok W_queue q = (q = T_out \<or> waiting q)"
| "queue_ok W_announce q = (q = T_in)"
| "queue_ok W_cas q = (q = T_in)"
| "queue_ok W_in q = (q = T_in)"
| "queue_ok W_unlock q = holding q"
| "queue_ok pc q = (q = T_out)"

definition writer_bits :: "(nat \<Rightarrow> rw_pc) \<Rightarrow> u32" where
  "writer_bits f = (if \<exists>i. f i = W_in then 1 else if \<exists>i. f i = W_cas then 2 else 0)"

definition rw_inv :: "nat \<Rightarrow> rw_sys \<Rightarrow> bool" where
  "rw_inv n s \<longleftrightarrow> ticket_inv n (write_queue s) \<and> (\<forall>i. queue_ok (rw_pcs s i) (tpcs (write_queue s) i)) \<and>
     (\<forall>i. rw_pcs s i \<noteq> R_out \<longrightarrow> i < n) \<and>
     rw_state s = of_nat (card (counted (rw_pcs s))) * 256 + writer_bits (rw_pcs s) \<and>
     (\<forall>i j. rw_pcs s i = W_in \<longrightarrow> rw_pcs s j \<noteq> R_in)"

subsection \<open>The state word\<close>

lemma rw_constants: "WRITER_LOCKED = 1" "WRITER_WAITING = 2" "WRITER_MASK = 3" "READER_INC = 256"
  by (simp_all add: WRITER_LOCKED_def WRITER_WAITING_def WRITER_MASK_def READER_INC_def push_bit_eq_mult)

lemma word_low_bits: "(x * 256 + b) AND 3 = b AND 3" "(x * 256) OR 2 = x * 256 + 2" "(x * 256 + 1) AND NOT 1 = x * 256" for x b :: u32
proof -
  have x: "x * 256 = push_bit 8 x" by (simp add: push_bit_eq_mult mult.commute)
  have low: "unat (w AND 3) = unat w mod 4" for w :: u32
  proof -
    have "w AND 3 = w mod 4" using take_bit_eq_mask [of 2 w] take_bit_eq_mod [of 2 w] by (simp add: mask_eq_exp_minus_1)
    then show ?thesis by (simp add: unat_mod)
  qed
  have "unat (x * 256 + b) mod 4 = (unat x * 256 + unat b) mod 2 ^ 32 mod 4"
    by (simp add: unat_word_ariths mod_simps)
  also have "\<dots> = (unat x * 256 + unat b) mod 4" by (rule mod_mod_cancel) simp
  also have "\<dots> = (4 * (unat x * 64) + unat b) mod 4" by (simp add: mult.assoc mult.commute)
  also have "\<dots> = unat b mod 4" by (simp only: mod_mult_self4)
  finally show "(x * 256 + b) AND 3 = b AND 3" by (metis low unsigned_word_eqI)
  show "(x * 256) OR 2 = x * 256 + 2" unfolding x
    by (rule disjunctive_add [symmetric]) (auto simp: bit_simps)
  have or1: "push_bit 8 x + 1 = push_bit 8 x OR 1" by (rule disjunctive_add) (auto simp: bit_simps)
  show "(x * 256 + 1) AND NOT 1 = x * 256" unfolding x or1
    by (rule bit_word_eqI) (auto simp: bit_simps)
qed

lemma unat_state:
  assumes "c < 2 ^ 24" "b < 3"
  shows "unat (of_nat c * 256 + b :: u32) = c * 256 + unat b"
proof -
  have b: "unat b < 3" using assms(2) by (simp add: word_less_nat_alt)
  have "(of_nat c * 256 + b :: u32) = of_nat (c * 256 + unat b)" by simp
  moreover have "c * 256 + unat b < 2 ^ 32" using assms(1) b by simp
  ultimately show ?thesis by (simp only: unat_of_nat) (simp add: take_bit_nat_eq_self)
qed

subsection \<open>The invariant\<close>

lemma rw_invD:
  assumes "rw_inv n s"
  shows "ticket_inv n (write_queue s)" "queue_ok (rw_pcs s i) (tpcs (write_queue s) i)" "rw_pcs s i \<noteq> R_out \<Longrightarrow> i < n"
    and "rw_state s = of_nat (card (counted (rw_pcs s))) * 256 + writer_bits (rw_pcs s)"
    and "rw_pcs s i = W_in \<Longrightarrow> rw_pcs s j \<noteq> R_in" "finite (counted (rw_pcs s))" "card (counted (rw_pcs s)) \<le> n"
proof -
  show "ticket_inv n (write_queue s)" "queue_ok (rw_pcs s i) (tpcs (write_queue s) i)"
    "rw_state s = of_nat (card (counted (rw_pcs s))) * 256 + writer_bits (rw_pcs s)"
    "rw_pcs s i = W_in \<Longrightarrow> rw_pcs s j \<noteq> R_in" "rw_pcs s i \<noteq> R_out \<Longrightarrow> i < n"
    using assms by (auto simp: rw_inv_def)
  have sub: "counted (rw_pcs s) \<subseteq> {..<n}" using assms by (auto simp: rw_inv_def counted_def)
  then show "finite (counted (rw_pcs s))" using finite_subset by blast
  show "card (counted (rw_pcs s)) \<le> n" using card_mono [OF _ sub] by simp
qed

definition past_queue :: "rw_pc set" where
  "past_queue = {W_announce, W_cas, W_in, W_unlock}"

lemma one_writer:
  assumes inv: "rw_inv n s" and "rw_pcs s i \<in> past_queue" "rw_pcs s j \<in> past_queue"
  shows "i = j"
proof -
  have h: "holding (tpcs (write_queue s) k)" if "rw_pcs s k \<in> past_queue" for k
    using rw_invD(2) [OF inv, of k] that by (auto simp: past_queue_def)
  show ?thesis using same_ticket [OF rw_invD(1) [OF inv], of i j] holding_first [OF rw_invD(1) [OF inv]] h assms(2,3) by simp
qed

lemma writer_bits_range: "writer_bits f \<in> {0, 1, 2}" "writer_bits f < 3"
  by (auto simp: writer_bits_def)

lemma masked_state:
  assumes "rw_inv n s"
  shows "rw_state s AND WRITER_MASK = 0 \<longleftrightarrow> writer_bits (rw_pcs s) = 0"
  using writer_bits_range(1) [of "rw_pcs s"] rw_invD(4) [OF assms] by (auto simp: rw_constants word_low_bits)

lemma writer_bits_same: "f i \<notin> {W_in, W_cas} \<Longrightarrow> pc \<notin> {W_in, W_cas} \<Longrightarrow> writer_bits (f(i := pc)) = writer_bits f"
  unfolding writer_bits_def by (auto split: if_splits)

lemma counted_upd: "counted (f(i := pc)) = (if pc = R_in \<or> pc = R_undo then insert i (counted f) else counted f - {i})"
  by (auto simp: counted_def)

text \<open>A step that leaves the queue alone and does not touch the writer bits.\<close>

lemma reader_move:
  assumes inv: "rw_inv n s" and i: "i < n" "rw_pcs s i \<in> {R_out, R_retry, R_undo, R_spin, R_in}" "pc \<in> {R_out, R_retry, R_undo, R_spin, R_in}"
    and st: "st = of_nat (card (counted ((rw_pcs s)(i := pc)))) * 256 + writer_bits (rw_pcs s)"
    and enter: "pc = R_in \<Longrightarrow> writer_bits (rw_pcs s) = 0"
  shows "rw_inv n (s\<lparr>rw_state := st, rw_pcs := (rw_pcs s)(i := pc)\<rparr>)"
proof -
  note ok = rw_invD [OF inv]
  have "writer_bits ((rw_pcs s)(i := pc)) = writer_bits (rw_pcs s)" using i by (intro writer_bits_same) auto
  moreover have "tpcs (write_queue s) i = T_out" using ok(2) [of i] i(2) by auto
  then have "queue_ok (((rw_pcs s)(i := pc)) j) (tpcs (write_queue s) j)" for j using ok(2) [of j] i(3) by auto
  moreover have "((rw_pcs s)(i := pc)) k \<noteq> R_in" if w: "((rw_pcs s)(i := pc)) j = W_in" for j k
  proof -
    have "rw_pcs s j = W_in" using w i(3) by (auto split: if_splits)
    then have "writer_bits (rw_pcs s) \<noteq> 0" by (auto simp: writer_bits_def)
    then show ?thesis using ok(5) [OF \<open>rw_pcs s j = W_in\<close>, of k] enter by (auto split: if_splits)
  qed
  ultimately show ?thesis using ok(1,3) st i(1) unfolding rw_inv_def by auto
qed

lemma counted_enter:
  assumes "rw_inv n s" "rw_pcs s i \<notin> {R_in, R_undo}" "pc \<in> {R_in, R_undo}"
  shows "rw_state s + READER_INC = of_nat (card (counted ((rw_pcs s)(i := pc)))) * 256 + writer_bits (rw_pcs s)"
proof -
  have "i \<notin> counted (rw_pcs s)" using assms(2) by (auto simp: counted_def)
  then have "card (counted ((rw_pcs s)(i := pc))) = card (counted (rw_pcs s)) + 1"
    using assms(3) rw_invD(6) [OF assms(1)] by (auto simp: counted_upd)
  then show ?thesis using rw_invD(4) [OF assms(1)] by (simp add: rw_constants distrib_right)
qed

lemma counted_leave:
  assumes "rw_inv n s" "rw_pcs s i \<in> {R_in, R_undo}" "pc \<notin> {R_in, R_undo}"
  shows "rw_state s - READER_INC = of_nat (card (counted ((rw_pcs s)(i := pc)))) * 256 + writer_bits (rw_pcs s)"
proof -
  have "i \<in> counted (rw_pcs s)" using assms(2) by (auto simp: counted_def)
  then have "card (counted (rw_pcs s)) = card (counted ((rw_pcs s)(i := pc))) + 1"
    using assms(3) rw_invD(6) [OF assms(1)] card_Suc_Diff1 [of "counted (rw_pcs s)" i] by (simp add: counted_upd)
  then show ?thesis using rw_invD(4) [OF assms(1)] by (simp add: rw_constants distrib_right)
qed

lemma counted_same:
  assumes "rw_inv n s" "rw_pcs s i \<notin> {R_in, R_undo}" "pc \<notin> {R_in, R_undo}"
  shows "counted ((rw_pcs s)(i := pc)) = counted (rw_pcs s)"
  using assms(2,3) by (auto simp: counted_def)

lemma read_lock_inv:
  assumes inv: "rw_inv n s" and i: "i < n" "rw_pcs s i \<in> {R_out, R_retry, R_undo, R_spin}"
  shows "rw_inv n (on_state i (read_lock_step (rw_pcs s i) (rw_state s)) s)"
proof -
  consider "rw_pcs s i = R_out \<or> rw_pcs s i = R_retry" | "rw_pcs s i = R_undo" | "rw_pcs s i = R_spin" using i(2) by auto
  then show ?thesis
  proof cases
    case 1
    define pc where "pc = (if rw_state s AND WRITER_MASK = 0 then R_in else R_undo)"
    have "rw_inv n (s\<lparr>rw_state := rw_state s + READER_INC, rw_pcs := (rw_pcs s)(i := pc)\<rparr>)"
      using i 1 counted_enter [OF inv, of i pc] masked_state [OF inv] by (intro reader_move [OF inv]) (auto simp: pc_def split: if_splits)
    then show ?thesis using 1 by (auto simp: on_state_def pc_def)
  next
    case 2
    define pc where "pc = (if (rw_state s - READER_INC) AND WRITER_MASK \<noteq> 0 then R_spin else R_retry)"
    have "rw_inv n (s\<lparr>rw_state := rw_state s - READER_INC, rw_pcs := (rw_pcs s)(i := pc)\<rparr>)"
      using i 2 counted_leave [OF inv, of i pc] by (intro reader_move [OF inv]) (auto simp: pc_def split: if_splits)
    then show ?thesis using 2 by (simp add: on_state_def pc_def Let_def)
  next
    case 3
    define pc where "pc = (if rw_state s AND WRITER_MASK \<noteq> 0 then R_spin else R_retry)"
    have "rw_inv n (s\<lparr>rw_state := rw_state s, rw_pcs := (rw_pcs s)(i := pc)\<rparr>)"
      using i 3 counted_same [OF inv, of i pc] rw_invD(4) [OF inv] by (intro reader_move [OF inv]) (auto simp: pc_def split: if_splits)
    then show ?thesis using 3 by (simp add: on_state_def pc_def)
  qed
qed

text \<open>A step of the writer that is past the queue: it alone decides the writer bits.\<close>

lemma writer_move:
  assumes inv: "rw_inv n s" and i: "rw_pcs s i \<in> past_queue" "pc \<in> past_queue" "rw_pcs s i \<noteq> W_unlock"
    and st: "st = of_nat (card (counted (rw_pcs s))) * 256 + (if pc = W_in then 1 else if pc = W_cas then 2 else 0)"
    and enter: "pc = W_in \<Longrightarrow> rw_pcs s i = W_in \<or> counted (rw_pcs s) = {}"
  shows "rw_inv n (s\<lparr>rw_state := st, rw_pcs := (rw_pcs s)(i := pc)\<rparr>)"
proof -
  note ok = rw_invD [OF inv]
  let ?f = "(rw_pcs s)(i := pc)"
  have others: "rw_pcs s j \<notin> past_queue" if "j \<noteq> i" for j using one_writer [OF inv i(1), of j] that by auto
  have bits: "writer_bits ?f = (if pc = W_in then 1 else if pc = W_cas then 2 else 0)"
    using others by (auto simp: writer_bits_def past_queue_def)
  have "tpcs (write_queue s) i = T_in" using ok(2) [of i] i(1,3) by (auto simp: past_queue_def)
  then have "queue_ok (?f j) (tpcs (write_queue s) j)" for j using ok(2) [of j] i(2) by (auto simp: past_queue_def)
  moreover have "counted ?f = counted (rw_pcs s)" using i by (intro counted_same [OF inv]) (auto simp: past_queue_def)
  moreover have "?f k \<noteq> R_in" if w: "?f j = W_in" for j k
  proof -
    have "j = i" using w others [of j] by (auto simp: past_queue_def split: if_splits)
    then have "rw_pcs s i = W_in \<or> counted (rw_pcs s) = {}" using w enter by simp
    then show ?thesis using ok(5) [of i k] i(2) by (auto simp: counted_def past_queue_def split: if_splits)
  qed
  moreover have "i < n" using ok(3) [of i] i(1) by (auto simp: past_queue_def)
  ultimately show ?thesis using ok(1,3) st bits unfolding rw_inv_def by auto
qed

lemma write_lock_inv:
  assumes inv: "rw_inv n s" and n: "n < 2 ^ 24" and i: "rw_pcs s i \<in> {W_announce, W_cas}"
  shows "rw_inv n (on_state i (write_lock_step (rw_pcs s i) (rw_state s)) s)"
proof (cases "rw_pcs s i = W_announce")
  case True
  have "rw_pcs s j \<noteq> W_in" "rw_pcs s j \<noteq> W_cas" for j
    using one_writer [OF inv, of i j] True by (auto simp: past_queue_def)
  then have "rw_state s = of_nat (card (counted (rw_pcs s))) * 256" using rw_invD(4) [OF inv] by (simp add: writer_bits_def)
  then have "rw_state s OR WRITER_WAITING = of_nat (card (counted (rw_pcs s))) * 256 + 2" by (simp add: rw_constants word_low_bits)
  then show ?thesis using True writer_move [OF inv, of i W_cas] by (simp add: on_state_def past_queue_def)
next
  case False
  then have pc: "rw_pcs s i = W_cas" using i by simp
  have "rw_pcs s j \<noteq> W_in" for j using one_writer [OF inv, of i j] pc by (auto simp: past_queue_def)
  then have bits: "writer_bits (rw_pcs s) = 2" using pc by (auto simp: writer_bits_def)
  define c where "c = card (counted (rw_pcs s))"
  have st: "rw_state s = of_nat c * 256 + 2" using rw_invD(4) [OF inv] bits by (simp add: c_def)
  show ?thesis
  proof (cases "rw_state s = WRITER_WAITING")
    case True
    have "c < 2 ^ 24" using rw_invD(7) [OF inv] n by (simp add: c_def)
    then have "c * 256 + 2 = 2" using unat_state [of c 2] True st by (simp add: rw_constants)
    then have "counted (rw_pcs s) = {}" using rw_invD(6) [OF inv] by (simp add: c_def)
    then show ?thesis using True pc writer_move [OF inv, of i W_in] by (simp add: on_state_def past_queue_def rw_constants)
  next
    case False
    then show ?thesis using pc st writer_move [OF inv, of i W_cas "rw_state s"] by (simp add: on_state_def past_queue_def c_def)
  qed
qed

lemma write_unlock_inv:
  assumes inv: "rw_inv n s" and i: "rw_pcs s i = W_in"
  shows "rw_inv n (on_state i (write_unlock_step (rw_pcs s i) (rw_state s)) s)"
proof -
  have "rw_state s = of_nat (card (counted (rw_pcs s))) * 256 + 1" using rw_invD(4) [OF inv] i by (auto simp: writer_bits_def)
  then have "rw_state s AND NOT WRITER_LOCKED = of_nat (card (counted (rw_pcs s))) * 256" by (simp only: rw_constants word_low_bits)
  then show ?thesis using i writer_move [OF inv, of i W_unlock] by (simp add: on_state_def past_queue_def)
qed

text \<open>A step of the queue: its other threads stay where they are.\<close>

lemma queue_move:
  assumes inv: "rw_inv n s" and q: "ticket_inv n q" "\<And>j. j \<noteq> i \<Longrightarrow> tpcs q j = tpcs (write_queue s) j" "queue_ok pc (tpcs q i)"
    and pcs: "rw_pcs s i \<in> {R_out, W_queue, W_unlock}" "pc \<in> {R_out, W_queue, W_announce, W_unlock}" "i < n"
  shows "rw_inv n (s\<lparr>write_queue := q, rw_pcs := (rw_pcs s)(i := pc)\<rparr>)"
proof -
  note ok = rw_invD [OF inv]
  have "writer_bits ((rw_pcs s)(i := pc)) = writer_bits (rw_pcs s)" using pcs by (intro writer_bits_same) auto
  moreover have "counted ((rw_pcs s)(i := pc)) = counted (rw_pcs s)" using pcs by (intro counted_same [OF inv]) auto
  moreover have "queue_ok (((rw_pcs s)(i := pc)) j) (tpcs q j)" for j using ok(2) [of j] q(2) [of j] q(3) by simp
  moreover have "((rw_pcs s)(i := pc)) k \<noteq> R_in" if "((rw_pcs s)(i := pc)) j = W_in" for j k
    using that ok(5) [of j k] pcs(2) by (auto split: if_splits)
  ultimately show ?thesis using q(1) ok(3,4) pcs(3) unfolding rw_inv_def by auto
qed

lemma queue_others:
  "j \<noteq> i \<Longrightarrow> tpcs (lock_by i q) j = tpcs q j" "j \<noteq> i \<Longrightarrow> tpcs (unlock_by i q) j = tpcs q j"
  by (auto simp: lock_by_def unlock_by_def thread_does_def Let_def)

lemma rw_inv_step:
  assumes "rw_step n s s'" "rw_inv n s" "n < 2 ^ 24"
  shows "rw_inv n s'"
  using assms(1)
proof cases
  case (read_lock i)
  then show ?thesis using read_lock_inv [OF assms(2)] by blast
next
  case (read_unlock i)
  have "rw_inv n (s\<lparr>rw_state := rw_state s - READER_INC, rw_pcs := (rw_pcs s)(i := R_out)\<rparr>)"
    using read_unlock counted_leave [OF assms(2), of i R_out] by (intro reader_move [OF assms(2)]) auto
  then show ?thesis using read_unlock by (simp add: on_state_def)
next
  case (write_start i)
  have "rw_inv n (s\<lparr>write_queue := write_queue s, rw_pcs := (rw_pcs s)(i := W_queue)\<rparr>)"
    using write_start rw_invD(1,2) [OF assms(2)] rw_invD(2) [OF assms(2), of i] by (intro queue_move [OF assms(2)]) auto
  then show ?thesis using write_start by simp
next
  case (write_queued i q)
  have t: "tpcs (write_queue s) i = T_out \<or> waiting (tpcs (write_queue s) i)" using rw_invD(2) [OF assms(2), of i] write_queued by simp
  then obtain k where k: "tpcs (write_queue s) i = T_out \<or> tpcs (write_queue s) i = T_wait k" by (cases "tpcs (write_queue s) i") auto
  have "ticket_inv n q" using write_queued lock_by_inv [OF rw_invD(1) [OF assms(2)] _ _ k] assms(3) by simp
  moreover have "tpcs q i = T_in \<or> waiting (tpcs q i)" using k write_queued(4) by (auto simp: lock_by_def thread_does_def Let_def split: if_splits)
  ultimately show ?thesis using write_queued queue_others(1) by (auto intro!: queue_move [OF assms(2)])
next
  case (write_lock i)
  then show ?thesis using write_lock_inv [OF assms(2,3)] by blast
next
  case (write_unlock i)
  then show ?thesis using write_unlock_inv [OF assms(2)] by blast
next
  case (write_leave i q)
  have "holding (tpcs (write_queue s) i)" using rw_invD(2) [OF assms(2), of i] write_leave by simp
  then obtain v where v: "tpcs (write_queue s) i = T_in \<or> tpcs (write_queue s) i = T_store v" by (cases "tpcs (write_queue s) i") auto
  have "ticket_inv n q" using write_leave unlock_by_inv [OF rw_invD(1) [OF assms(2)] v] by simp
  moreover have "tpcs q i = T_out \<or> holding (tpcs q i)" using v write_leave(4) by (auto simp: unlock_by_def thread_does_def Let_def)
  ultimately show ?thesis using write_leave queue_others(2) by (auto intro!: queue_move [OF assms(2)])
qed

lemma rw_inv_reachable: "rw_reachable n s \<Longrightarrow> n < 2 ^ 24 \<Longrightarrow> rw_inv n s"
proof (induction rule: rw_reachable.induct)
  case rw_at_start
  have "ticket_inv n ticket_start" by (simp add: ticket_inv_def ticket_start_def new_ticket_lock_def active_def bij_betw_def)
  then show ?case by (auto simp: rw_inv_def rw_start_def ticket_start_def counted_def writer_bits_def)
qed (blast intro: rw_inv_step)

subsection \<open>Properties\<close>

text \<open>C36: The reader/writer lock.  Under any interleaving of fewer than \<open>2 ^ 24\<close> threads, a writer that is inside
  is alone: no reader and no other writer is inside.  The state word counts exactly the readers that
  are inside or about to step back, so no count is lost while readers bounce off a writer, and once a
  writer has announced itself no reader gets in before it.\<close>

theorem rwlock_excludes:
  assumes "rw_reachable n s" "n < 2 ^ 24"
  shows "(\<forall>i j. rw_pcs s i = W_in \<longrightarrow> rw_pcs s j \<noteq> R_in \<and> (rw_pcs s j = W_in \<longrightarrow> j = i)) \<and>
    unat (rw_state s) div 256 = card {i. rw_pcs s i = R_in \<or> rw_pcs s i = R_undo} \<and>
    (\<forall>i j. rw_pcs s i \<in> {W_cas, W_in} \<and> rw_pcs s j \<noteq> R_in \<longrightarrow> fst (read_lock_step (rw_pcs s j) (rw_state s)) \<noteq> R_in)"
proof (intro conjI allI impI)
  note inv = rw_inv_reachable [OF assms]
  show "rw_pcs s j \<noteq> R_in" if "rw_pcs s i = W_in" for i j using rw_invD(5) [OF inv that] .
  show "j = i" if "rw_pcs s i = W_in" "rw_pcs s j = W_in" for i j
    using one_writer [OF inv, of j i] that by (simp add: past_queue_def)
  have "unat (rw_state s) = card (counted (rw_pcs s)) * 256 + unat (writer_bits (rw_pcs s))"
    using unat_state [OF _ writer_bits_range(2)] rw_invD(4,7) [OF inv] assms(2) by simp
  moreover have "unat (writer_bits (rw_pcs s)) < 3" using writer_bits_range(2) by (simp add: word_less_nat_alt)
  ultimately show "unat (rw_state s) div 256 = card {i. rw_pcs s i = R_in \<or> rw_pcs s i = R_undo}" by (simp add: counted_def)
  show "fst (read_lock_step (rw_pcs s j) (rw_state s)) \<noteq> R_in" if "rw_pcs s i \<in> {W_cas, W_in} \<and> rw_pcs s j \<noteq> R_in" for i j
  proof -
    have "writer_bits (rw_pcs s) \<noteq> 0" using that by (auto simp: writer_bits_def)
    then have "rw_state s AND WRITER_MASK \<noteq> 0" using masked_state [OF inv] by simp
    then show ?thesis using that by (cases "rw_pcs s j") (auto simp: Let_def)
  qed
qed

text \<open>Thread 0 writes while thread 1 tries to read.\<close>

theorem rwlock_excludes_witness:
  "\<exists>s. rw_reachable 2 s \<and> rw_pcs s 0 = W_in \<and> rw_pcs s 1 = R_undo \<and> rw_pcs s 1 \<noteq> R_in \<and> unat (rw_state s) div 256 = 1"
proof -
  define q1 where "q1 = lock_by 0 ticket_start"
  define q2 where "q2 = lock_by 0 q1"
  have q: "tpcs q1 0 = T_wait 0" "tpcs q2 0 = T_in"
    by (simp_all add: q2_def q1_def lock_by_def thread_does_def ticket_start_def new_ticket_lock_def Let_def)
  define f where "f = (\<lambda>_ :: nat. R_out)"
  have 0: "rw_reachable 2 \<lparr>rw_state = 0, write_queue = ticket_start, rw_pcs = f\<rparr>"
    using rw_at_start by (simp add: rw_start_def f_def)
  have 1: "rw_reachable 2 \<lparr>rw_state = 0, write_queue = ticket_start, rw_pcs = f(0 := W_queue)\<rparr>"
    using rw_after_step [OF 0 write_start [of 0]] by (simp add: f_def)
  have 2: "rw_reachable 2 \<lparr>rw_state = 0, write_queue = q1, rw_pcs = f(0 := W_queue)\<rparr>"
    using rw_after_step [OF 1 write_queued [of 0, OF _ _ refl]] q by (simp flip: q1_def)
  have 3: "rw_reachable 2 \<lparr>rw_state = 0, write_queue = q2, rw_pcs = f(0 := W_announce)\<rparr>"
    using rw_after_step [OF 2 write_queued [of 0, OF _ _ refl]] q by (simp flip: q2_def)
  have 4: "rw_reachable 2 \<lparr>rw_state = 2, write_queue = q2, rw_pcs = f(0 := W_cas)\<rparr>"
    using rw_after_step [OF 3 write_lock [of 0]] by (simp add: on_state_def rw_constants)
  have 5: "rw_reachable 2 \<lparr>rw_state = 1, write_queue = q2, rw_pcs = f(0 := W_in)\<rparr>"
    using rw_after_step [OF 4 write_lock [of 0]] by (simp add: on_state_def rw_constants)
  have 6: "rw_reachable 2 \<lparr>rw_state = 257, write_queue = q2, rw_pcs = f(0 := W_in, 1 := R_undo)\<rparr>"
    using rw_after_step [OF 5 read_lock [of 1]] by (simp add: on_state_def rw_constants f_def)
  have "rw_pcs \<lparr>rw_state = 257, write_queue = q2, rw_pcs = f(0 := W_in, 1 := R_undo)\<rparr> 1 \<noteq> R_in"
    using conjunct1 [OF rwlock_excludes [OF 6], rule_format, of 0 1] by simp
  then show ?thesis using 6 by (intro exI [of _ "\<lparr>rw_state = 257, write_queue = q2, rw_pcs = f(0 := W_in, 1 := R_undo)\<rparr>"]) simp
qed

end
