(* ===== verification/FreeArea.thy ===== *)
theory FreeArea
  imports Maths
begin

unbundle bit_operations_syntax

text \<open>
  Page descriptors and the free list of one buddy order: \<^verbatim>\<open>klib/include/bitfield.hpp\<close>,
  \<^verbatim>\<open>kernel/include/memory/pmm/page.hpp\<close> and \<^verbatim>\<open>kernel/include/memory/pmm/free_area.hpp\<close>.  The descriptors form
  an array indexed by frame number, so a pointer to one is its index, and the array is a function.
\<close>

subsection \<open>Bit fields\<close>

definition make_mask :: "nat \<Rightarrow> 'w::len word" where
  "make_mask width = (if width \<ge> LENGTH('w) then NOT 0 else push_bit width 1 - 1)"

definition bf_get :: "nat \<Rightarrow> nat \<Rightarrow> 'w::len word \<Rightarrow> 'w word" where
  "bf_get offset width m_data = drop_bit offset m_data AND make_mask width"

definition bf_set :: "nat \<Rightarrow> nat \<Rightarrow> 'w::len word \<Rightarrow> 'w word \<Rightarrow> 'w word" where
  "bf_set offset width value m_data =
     (m_data AND NOT (push_bit offset (make_mask width))) OR push_bit offset (value AND make_mask width)"

subsection \<open>Page descriptors\<close>

datatype page_state = Active | Standby | Modified | Free | Zeroed | Bad

datatype page_mobility = Unmovable | Movable | Reclaimable

primrec state_code :: "page_state \<Rightarrow> u32" where
  "state_code Active = 0" | "state_code Standby = 1" | "state_code Modified = 2"
| "state_code Free = 3" | "state_code Zeroed = 4" | "state_code Bad = 5"

primrec mobility_code :: "page_mobility \<Rightarrow> u32" where
  "mobility_code Unmovable = 0" | "mobility_code Movable = 1" | "mobility_code Reclaimable = 2"

definition MAX_ORDER :: nat where "MAX_ORDER = 18"

type_synonym pfn = u64

record page =
  ref_count :: u32
  page_flags :: u32
  topology :: u64
  buddy_next :: "pfn option"
  buddy_prev :: "pfn option"

type_synonym vmemmap = "pfn \<Rightarrow> page"

definition flags_state :: "u32 \<Rightarrow> u32" where "flags_state f = bf_get 0 3 f"
definition flags_mobility :: "u32 \<Rightarrow> u32" where "flags_mobility f = bf_get 3 2 f"
definition flags_order :: "u32 \<Rightarrow> u32" where "flags_order f = bf_get 5 5 f"

definition get_order :: "page \<Rightarrow> nat" where
  "get_order p = unat (flags_order (page_flags p))"

definition set_order :: "nat \<Rightarrow> page \<Rightarrow> page" where
  "set_order order p = p\<lparr>page_flags := bf_set 5 5 (of_nat order) (page_flags p)\<rparr>"

definition set_state :: "page_state \<Rightarrow> page \<Rightarrow> page" where
  "set_state state p = p\<lparr>page_flags := bf_set 0 3 (state_code state) (page_flags p)\<rparr>"

definition get_numa_node :: "page \<Rightarrow> u32" where
  "get_numa_node p = ucast (bf_get 0 32 (topology p))"

definition set_numa_node :: "u32 \<Rightarrow> page \<Rightarrow> page" where
  "set_numa_node numa_id p = p\<lparr>topology := bf_set 0 32 (ucast numa_id) (topology p)\<rparr>"

definition setup_buddy_metadata :: "page_state \<Rightarrow> page_mobility \<Rightarrow> nat \<Rightarrow> u32 \<Rightarrow> page \<Rightarrow> page" where
  "setup_buddy_metadata state mobility order node p =
     set_numa_node node
       (p\<lparr>page_flags := bf_set 5 5 (of_nat order) (bf_set 3 2 (mobility_code mobility)
            (bf_set 0 3 (state_code state) (page_flags p)))\<rparr>)"

subsection \<open>The free list of an order\<close>

record free_area =
  m_hot_head :: "pfn option"
  m_cold_tail :: "pfn option"
  m_nr_free :: u32

definition new_area :: free_area where
  "new_area = \<lparr>m_hot_head = None, m_cold_tail = None, m_nr_free = 0\<rparr>"

definition area_is_empty :: "free_area \<Rightarrow> bool" where
  "area_is_empty a \<longleftrightarrow> m_nr_free a = 0"

definition set_next :: "pfn \<Rightarrow> pfn option \<Rightarrow> vmemmap \<Rightarrow> vmemmap" where
  "set_next p v st = st(p := (st p)\<lparr>buddy_next := v\<rparr>)"

definition set_prev :: "pfn \<Rightarrow> pfn option \<Rightarrow> vmemmap \<Rightarrow> vmemmap" where
  "set_prev p v st = st(p := (st p)\<lparr>buddy_prev := v\<rparr>)"

definition push_hot :: "pfn \<Rightarrow> free_area \<times> vmemmap \<Rightarrow> free_area \<times> vmemmap" where
  "push_hot page = (\<lambda>(a, st).
     let st = set_next page (m_hot_head a) st;
         st = set_prev page None st;
         (a, st) = (case m_hot_head a of Some h \<Rightarrow> (a, set_prev h (Some page) st)
           | None \<Rightarrow> (a\<lparr>m_cold_tail := Some page\<rparr>, st))
     in (a\<lparr>m_hot_head := Some page, m_nr_free := m_nr_free a + 1\<rparr>, st))"

definition push_cold :: "pfn \<Rightarrow> free_area \<times> vmemmap \<Rightarrow> free_area \<times> vmemmap" where
  "push_cold page = (\<lambda>(a, st).
     let st = set_next page None st;
         st = set_prev page (m_cold_tail a) st;
         (a, st) = (case m_cold_tail a of Some t \<Rightarrow> (a, set_next t (Some page) st)
           | None \<Rightarrow> (a\<lparr>m_hot_head := Some page\<rparr>, st))
     in (a\<lparr>m_cold_tail := Some page, m_nr_free := m_nr_free a + 1\<rparr>, st))"

definition pop_hot :: "free_area \<times> vmemmap \<Rightarrow> pfn option \<times> free_area \<times> vmemmap" where
  "pop_hot = (\<lambda>(a, st). case m_hot_head a of
       None \<Rightarrow> (None, a, st)
     | Some page \<Rightarrow>
         let a = a\<lparr>m_hot_head := buddy_next (st page)\<rparr>;
             (a, st) = (case m_hot_head a of Some h \<Rightarrow> (a, set_prev h None st)
               | None \<Rightarrow> (a\<lparr>m_cold_tail := None\<rparr>, st));
             st = set_next page None st;
             st = set_prev page None st
         in (Some page, a\<lparr>m_nr_free := m_nr_free a - 1\<rparr>, st))"

definition area_remove :: "pfn \<Rightarrow> free_area \<times> vmemmap \<Rightarrow> free_area \<times> vmemmap" where
  "area_remove page = (\<lambda>(a, st).
     let (a, st) = (case buddy_prev (st page) of Some q \<Rightarrow> (a, set_next q (buddy_next (st page)) st)
           | None \<Rightarrow> (a\<lparr>m_hot_head := buddy_next (st page)\<rparr>, st));
         (a, st) = (case buddy_next (st page) of Some q \<Rightarrow> (a, set_prev q (buddy_prev (st page)) st)
           | None \<Rightarrow> (a\<lparr>m_cold_tail := buddy_prev (st page)\<rparr>, st));
         st = set_next page None st;
         st = set_prev page None st
     in (a\<lparr>m_nr_free := m_nr_free a - 1\<rparr>, st))"

subsection \<open>Fields\<close>

lemma bit_make_mask: "bit (make_mask width :: 'w::len word) n \<longleftrightarrow> n < width \<and> n < LENGTH('w)"
proof -
  have "make_mask width = (mask width :: 'w word)"
    unfolding make_mask_def by (auto simp: mask_eq_exp_minus_1 push_bit_eq_mult not_eq_complement intro!: bit_word_eqI)
  then show ?thesis by (auto simp: bit_simps)
qed

lemma bit_bf_get: "bit (bf_get o1 w1 x) n \<longleftrightarrow> n < w1 \<and> bit x (o1 + n)" for x :: "'w::len word"
  unfolding bf_get_def by (auto simp: bit_simps bit_make_mask dest: bit_imp_le_length)

lemma bit_bf_set: "bit (bf_set o1 w1 v x) n \<longleftrightarrow>
    n < LENGTH('w) \<and> (if o1 \<le> n \<and> n < o1 + w1 then bit v (n - o1) else bit x n)" for x :: "'w::len word"
  unfolding bf_set_def by (auto simp: bit_simps bit_make_mask dest: bit_imp_le_length)

text \<open>A field reads back what was written, cut to its width, and keeps the others.\<close>

lemma bf_get_set: "o1 + w1 \<le> LENGTH('w) \<Longrightarrow> bf_get o1 w1 (bf_set o1 w1 v x) = take_bit w1 v" for x :: "'w::len word"
  by (rule bit_word_eqI) (auto simp: bit_bf_get bit_bf_set bit_simps)

lemma bf_get_set_other:
  "o1 + w1 \<le> o2 \<or> o2 + w2 \<le> o1 \<Longrightarrow> bf_get o1 w1 (bf_set o2 w2 v x) = bf_get o1 w1 x" for x :: "'w::len word"
  by (rule bit_word_eqI) (auto simp: bit_bf_get bit_bf_set dest: bit_imp_le_length)

subsection \<open>Linked lists\<close>

primrec links :: "vmemmap \<Rightarrow> pfn option \<Rightarrow> pfn list \<Rightarrow> pfn option \<Rightarrow> bool" where
  "links st pv [] nx \<longleftrightarrow> True"
| "links st pv (p # ps) nx \<longleftrightarrow> buddy_prev (st p) = pv \<and> buddy_next (st p) = (if ps = [] then nx else Some (hd ps)) \<and>
     links st (Some p) ps nx"

definition area_holds :: "vmemmap \<Rightarrow> free_area \<Rightarrow> pfn list \<Rightarrow> bool" where
  "area_holds st a ps \<longleftrightarrow> distinct ps \<and> links st None ps None \<and> m_nr_free a = of_nat (length ps) \<and>
     m_hot_head a = (if ps = [] then None else Some (hd ps)) \<and>
     m_cold_tail a = (if ps = [] then None else Some (last ps))"

lemma links_append:
  "links st pv (xs @ ys) nx \<longleftrightarrow> links st pv xs (if ys = [] then nx else Some (hd ys)) \<and>
    links st (if xs = [] then pv else Some (last xs)) ys nx"
  by (induction xs arbitrary: pv) auto

lemma links_cong: "(\<And>p. p \<in> set ps \<Longrightarrow> buddy_next (st' p) = buddy_next (st p) \<and> buddy_prev (st' p) = buddy_prev (st p)) \<Longrightarrow>
    links st' pv ps nx = links st pv ps nx"
  by (induction ps arbitrary: pv) auto

lemma set_next_apply [simp]: "set_next p v st q = (if q = p then (st p)\<lparr>buddy_next := v\<rparr> else st q)"
  by (simp add: set_next_def)

lemma set_prev_apply [simp]: "set_prev p v st q = (if q = p then (st p)\<lparr>buddy_prev := v\<rparr> else st q)"
  by (simp add: set_prev_def)

lemma links_set_prev_hd:
  assumes "links st pv (h # t) nx" "h \<notin> set t"
  shows "links (set_prev h v st) v (h # t) nx"
proof -
  have "links (set_prev h v st) (Some h) t nx = links st (Some h) t nx" using assms(2) by (intro links_cong) auto
  then show ?thesis using assms(1) by simp
qed

lemma links_set_next_last:
  assumes "links st pv (xs @ [x]) nx" "x \<notin> set xs"
  shows "links (set_next x v st) pv (xs @ [x]) v"
proof -
  have "links (set_next x v st) pv xs (Some x) = links st pv xs (Some x)" using assms(2) by (intro links_cong) auto
  then show ?thesis using assms(1) by (simp add: links_append)
qed

lemma area_holds_cong:
  assumes "area_holds st a ps" "\<And>p. p \<in> set ps \<Longrightarrow> buddy_next (st' p) = buddy_next (st p) \<and> buddy_prev (st' p) = buddy_prev (st p)"
  shows "area_holds st' a ps"
  using assms links_cong [OF assms(2)] by (simp add: area_holds_def)

text \<open>Only the descriptors of the list and the page itself are written, and only their links.\<close>

definition links_only :: "pfn set \<Rightarrow> vmemmap \<Rightarrow> vmemmap \<Rightarrow> bool" where
  "links_only A st st' \<longleftrightarrow> (\<forall>q. page_flags (st' q) = page_flags (st q) \<and> topology (st' q) = topology (st q) \<and> ref_count (st' q) = ref_count (st q)) \<and>
     (\<forall>q. q \<notin> A \<longrightarrow> st' q = st q)"

lemma push_hot_ok:
  assumes "area_holds st a ps" "p \<notin> set ps" "push_hot p (a, st) = (a', st')"
  shows "area_holds st' a' (p # ps)" "links_only (insert p (set ps)) st st'"
proof -
  define st1 where "st1 = set_prev p None (set_next p (m_hot_head a) st)"
  have "links st1 None ps None = links st None ps None" using assms(2) by (intro links_cong) (auto simp: st1_def)
  then have l: "links st1 None ps None" using assms(1) by (simp add: area_holds_def)
  have "area_holds st' a' (p # ps) \<and> links_only (insert p (set ps)) st st'"
  proof (cases ps)
    case Nil
    then show ?thesis using assms by (auto simp: push_hot_def area_holds_def links_only_def Let_def)
  next
    case (Cons h t)
    have h: "m_hot_head a = Some h" "m_cold_tail a = Some (last ps)" using assms(1) Cons by (auto simp: area_holds_def)
    then have st': "st' = set_prev h (Some p) st1" "a' = a\<lparr>m_hot_head := Some p, m_nr_free := m_nr_free a + 1\<rparr>"
      using assms(3) by (auto simp: push_hot_def st1_def Let_def)
    have "links st' (Some p) ps None" unfolding st' Cons using l Cons assms(1) by (intro links_set_prev_hd) (auto simp: area_holds_def)
    moreover have "buddy_next (st' p) = Some h" "buddy_prev (st' p) = None" using assms(2) Cons h by (auto simp: st' st1_def)
    moreover have "links_only (insert p (set ps)) st st'" using Cons by (auto simp: links_only_def st' st1_def)
    ultimately show ?thesis using assms(1,2) Cons h by (simp add: area_holds_def st')
  qed
  then show "area_holds st' a' (p # ps)" "links_only (insert p (set ps)) st st'" by auto
qed

lemma push_cold_ok:
  assumes "area_holds st a ps" "p \<notin> set ps" "push_cold p (a, st) = (a', st')"
  shows "area_holds st' a' (ps @ [p])" "links_only (insert p (set ps)) st st'"
proof -
  define st1 where "st1 = set_prev p (m_cold_tail a) (set_next p None st)"
  have "links st1 None ps None = links st None ps None" using assms(2) by (intro links_cong) (auto simp: st1_def)
  then have l: "links st1 None ps None" using assms(1) by (simp add: area_holds_def)
  have "area_holds st' a' (ps @ [p]) \<and> links_only (insert p (set ps)) st st'"
  proof (cases ps rule: rev_cases)
    case Nil
    then show ?thesis using assms by (auto simp: push_cold_def area_holds_def links_only_def Let_def)
  next
    case (snoc xs t)
    have t: "m_cold_tail a = Some t" "m_hot_head a = Some (hd ps)" using assms(1) snoc by (auto simp: area_holds_def)
    then have st': "st' = set_next t (Some p) st1" "a' = a\<lparr>m_cold_tail := Some p, m_nr_free := m_nr_free a + 1\<rparr>"
      using assms(3) by (auto simp: push_cold_def st1_def Let_def)
    have "links st' None ps (Some p)" unfolding st' snoc using l snoc assms(1) by (intro links_set_next_last) (auto simp: area_holds_def)
    moreover have "buddy_prev (st' p) = Some t" "buddy_next (st' p) = None" using assms(2) snoc t by (auto simp: st' st1_def)
    moreover have "links_only (insert p (set ps)) st st'" using snoc by (auto simp: links_only_def st' st1_def)
    ultimately show ?thesis using assms(1,2) snoc t by (auto simp: area_holds_def st' links_append hd_append)
  qed
  then show "area_holds st' a' (ps @ [p])" "links_only (insert p (set ps)) st st'" by auto
qed

lemma pop_hot_ok:
  assumes "area_holds st a ps"
  shows "ps = [] \<Longrightarrow> pop_hot (a, st) = (None, a, st)"
    and "ps = p # t \<Longrightarrow> pop_hot (a, st) = (r, a', st') \<Longrightarrow> r = Some p \<and> area_holds st' a' t \<and> links_only (set ps) st st'"
proof -
  show "ps = [] \<Longrightarrow> pop_hot (a, st) = (None, a, st)" using assms by (simp add: pop_hot_def area_holds_def)
  assume ps: "ps = p # t" and pop: "pop_hot (a, st) = (r, a', st')"
  have head: "m_hot_head a = Some p" "buddy_next (st p) = (if t = [] then None else Some (hd t))" and d: "distinct ps"
    and l: "links st (Some p) t None" and n: "m_nr_free a = of_nat (length ps)" "m_cold_tail a = Some (last ps)"
    using assms ps by (auto simp: area_holds_def)
  show "r = Some p \<and> area_holds st' a' t \<and> links_only (set ps) st st'"
  proof (cases t)
    case Nil
    then show ?thesis using pop head n ps by (auto simp: pop_hot_def area_holds_def links_only_def Let_def)
  next
    case (Cons h u)
    have st': "st' = set_prev p None (set_next p None (set_prev h None st))" "a' = a\<lparr>m_hot_head := Some h, m_nr_free := m_nr_free a - 1\<rparr>" "r = Some p"
      using pop head Cons by (auto simp: pop_hot_def Let_def)
    have "links (set_prev h None st) None t None" unfolding Cons
      by (rule links_set_prev_hd [of _ "Some p"]) (use l d ps Cons in simp_all)
    then have "links st' None t None" unfolding st' using d ps Cons
      by (subst links_cong [of t _ "set_prev h None st"]) auto
    then show ?thesis using d ps n Cons by (auto simp: area_holds_def st' links_only_def)
  qed
qed

lemma area_remove_ok:
  assumes hold: "area_holds st a (xs @ p # ys)" and rem: "area_remove p (a, st) = (a', st')"
  shows "area_holds st' a' (xs @ ys)" "links_only (set (xs @ p # ys)) st st'"
proof -
  have d: "distinct (xs @ p # ys)" and n: "m_nr_free a = of_nat (length (xs @ ys) + 1)"
    and hd: "m_hot_head a = Some (hd (xs @ [p]))" and tl: "m_cold_tail a = Some (last (p # ys))"
    using hold by (auto simp: area_holds_def hd_append)
  have l: "links st None xs (Some p)" "links st (Some p) ys None"
    and pp: "buddy_prev (st p) = (if xs = [] then None else Some (last xs))" "buddy_next (st p) = (if ys = [] then None else Some (hd ys))"
    using hold by (auto simp: area_holds_def links_append)
  define st1 where "st1 = (if xs = [] then st else set_next (last xs) (buddy_next (st p)) st)"
  define a1 where "a1 = (if xs = [] then a\<lparr>m_hot_head := buddy_next (st p)\<rparr> else a)"
  define st2 where "st2 = (if ys = [] then st1 else set_prev (hd ys) (buddy_prev (st p)) st1)"
  define a2 where "a2 = (if ys = [] then a1\<lparr>m_cold_tail := buddy_prev (st p)\<rparr> else a1)"
  have p1: "st1 p = st p" using d last_in_set [of xs] by (auto simp: st1_def)
  have res: "a' = a2\<lparr>m_nr_free := m_nr_free a2 - 1\<rparr>" "st' = set_prev p None (set_next p None st2)"
  proof -
    have "area_remove p (a, st) = (a2\<lparr>m_nr_free := m_nr_free a2 - 1\<rparr>, set_prev p None (set_next p None st2))"
      unfolding area_remove_def using pp p1 by (cases "xs = []"; cases "ys = []") (auto simp: Let_def a2_def a1_def st2_def st1_def)
    then show "a' = a2\<lparr>m_nr_free := m_nr_free a2 - 1\<rparr>" "st' = set_prev p None (set_next p None st2)" using rem by auto
  qed
  have "links st2 None xs (buddy_next (st p))"
  proof (cases xs rule: rev_cases)
    case (snoc zs z)
    have "links (set_next z (buddy_next (st p)) st) None xs (buddy_next (st p))"
      using l(1) d unfolding snoc by (intro links_set_next_last) auto
    moreover have "hd ys \<notin> set xs" if "ys \<noteq> []" using d hd_in_set [OF that] by auto
    ultimately show ?thesis using snoc by (subst links_cong [of xs _ st1]) (auto simp: st2_def st1_def)
  qed simp
  moreover have "links st2 (buddy_prev (st p)) ys None"
  proof (cases ys)
    case (Cons h t)
    have "last xs \<notin> set ys" if "xs \<noteq> []" using d last_in_set [OF that] by auto
    then have "links st1 (Some p) ys None" using l(2) by (subst links_cong [of ys _ st]) (auto simp: st1_def)
    then have "links (set_prev h (buddy_prev (st p)) st1) (buddy_prev (st p)) ys None" unfolding Cons
      by (rule links_set_prev_hd) (use d Cons in simp)
    then show ?thesis by (simp add: st2_def Cons)
  qed simp
  ultimately have "links st2 None (xs @ ys) None" using pp by (simp add: links_append)
  then have "links st' None (xs @ ys) None" unfolding res(2) using d by (subst links_cong [of _ _ st2]) auto
  then show "area_holds st' a' (xs @ ys)"
    using d n hd tl pp by (auto simp: area_holds_def res(1) a2_def a1_def hd_append last_append split: if_splits)
  show "links_only (set (xs @ p # ys)) st st'"
    using last_in_set [of xs] hd_in_set [of ys] by (auto simp: links_only_def res(2) st2_def st1_def)
qed

end
