(* ===== verification/Buddy.thy ===== *)
theory Buddy
  imports FreeArea
begin

unbundle bit_operations_syntax

text \<open>
  The buddy allocator of one zone (\<^verbatim>\<open>kernel/include/memory/pmm/mobility-zone.hpp\<close>,
  \<^verbatim>\<open>kernel/src/memory/pmm/mobility-zone.cpp\<close>): what runs under the zone's lock.  The zone carries the array of
  page descriptors it shares with the other zones; the ring of deferred frees is the list of its
  entries.  The outer \<^const>\<open>None\<close> of a result is the dereference of a null page.
\<close>

subsection \<open>The zone\<close>

record zone_watermarks =
  wm_min :: u64
  wm_low :: u64
  wm_high :: u64

record zone =
  active_orders :: u32
  areas :: "free_area list"
  total_free_pages :: u64
  zone_mobility :: page_mobility
  node_id :: u32
  watermarks :: zone_watermarks
  deferred_frees :: "pfn list"
  frames :: vmemmap

definition is_order_active :: "nat \<Rightarrow> zone \<Rightarrow> bool" where
  "is_order_active order z \<longleftrightarrow> active_orders z AND push_bit order 1 \<noteq> 0"

definition set_order_active :: "nat \<Rightarrow> zone \<Rightarrow> zone" where
  "set_order_active order z = z\<lparr>active_orders := active_orders z OR push_bit order 1\<rparr>"

definition clear_order_active :: "nat \<Rightarrow> zone \<Rightarrow> zone" where
  "clear_order_active order z = z\<lparr>active_orders := active_orders z AND NOT (push_bit order 1)\<rparr>"

definition add_free_pages :: "u64 \<Rightarrow> zone \<Rightarrow> zone" where
  "add_free_pages n z = z\<lparr>total_free_pages := total_free_pages z + n\<rparr>"

definition sub_free_pages :: "u64 \<Rightarrow> zone \<Rightarrow> zone" where
  "sub_free_pages n z = z\<lparr>total_free_pages := total_free_pages z - n\<rparr>"

definition set_watermarks :: "u64 \<Rightarrow> zone \<Rightarrow> zone" where
  "set_watermarks present_pages z = z\<lparr>watermarks :=
     \<lparr>wm_min = present_pages div 100, wm_low = (present_pages * 3) div 100, wm_high = (present_pages * 5) div 100\<rparr>\<rparr>"

text \<open>An operation of the free list of an order, and a change of one descriptor.\<close>

definition on_area :: "nat \<Rightarrow> (free_area \<times> vmemmap \<Rightarrow> free_area \<times> vmemmap) \<Rightarrow> zone \<Rightarrow> zone" where
  "on_area order f z = (let (a, st) = f (areas z ! order, frames z) in z\<lparr>areas := (areas z)[order := a], frames := st\<rparr>)"

definition on_page :: "pfn \<Rightarrow> (page \<Rightarrow> page) \<Rightarrow> zone \<Rightarrow> zone" where
  "on_page p f z = z\<lparr>frames := (frames z)(p := f (frames z p))\<rparr>"

definition clear_if_empty :: "nat \<Rightarrow> zone \<Rightarrow> zone" where
  "clear_if_empty order z = (if area_is_empty (areas z ! order) then clear_order_active order z else z)"

definition inject_free_page_cold :: "pfn \<Rightarrow> nat \<Rightarrow> zone \<Rightarrow> zone" where
  "inject_free_page_cold page order z =
     add_free_pages (push_bit order 1) (set_order_active order (on_area order (push_cold page) z))"

datatype wake = Wake_compaction u32 | Wake_reclaim u32

definition evaluate_watermarks :: "bool \<Rightarrow> u64 \<Rightarrow> nat \<Rightarrow> bool \<Rightarrow> zone \<Rightarrow> wake option" where
  "evaluate_watermarks daemons_active curr_free requested_order alloc_failed z =
     (if \<not> daemons_active then None
      else if alloc_failed then
        Some (if curr_free \<ge> push_bit requested_order 1 then Wake_compaction (node_id z) else Wake_reclaim (node_id z))
      else if curr_free < wm_low (watermarks z) then Some (Wake_reclaim (node_id z))
      else None)"

subsection \<open>Merging\<close>

definition is_free_buddy :: "nat \<Rightarrow> page \<Rightarrow> zone \<Rightarrow> bool" where
  "is_free_buddy order b z \<longleftrightarrow>
     \<not> (flags_state (page_flags b) \<noteq> state_code Free \<or> flags_order (page_flags b) \<noteq> of_nat order \<or>
        flags_mobility (page_flags b) \<noteq> mobility_code (zone_mobility z) \<or> get_numa_node b \<noteq> node_id z)"

function merge_loop :: "pfn \<Rightarrow> pfn \<Rightarrow> nat \<Rightarrow> zone \<Rightarrow> pfn \<times> nat \<times> zone" where
  "merge_loop max_pfn pfn order z =
     (if order < MAX_ORDER then
        let buddy_pfn = pfn XOR push_bit order 1 in
        if buddy_pfn \<ge> max_pfn then (pfn, order, z)
        else if \<not> is_free_buddy order (frames z buddy_pfn) z then (pfn, order, z)
        else
          let z = clear_if_empty order (on_area order (area_remove buddy_pfn) z);
              z = on_page buddy_pfn (set_state Active) z
          in merge_loop max_pfn (if buddy_pfn < pfn then buddy_pfn else pfn) (order + 1) z
      else (pfn, order, z))"
  by auto
termination
  by (relation "measure (\<lambda>(_, _, order, _). MAX_ORDER - order)") auto

declare merge_loop.simps [simp del]

definition buddy_merge_internal :: "pfn \<Rightarrow> pfn \<Rightarrow> nat \<Rightarrow> zone \<Rightarrow> zone" where
  "buddy_merge_internal max_pfn page order z =
     (let (page, order, z) = merge_loop max_pfn page order z;
          z = on_page page (setup_buddy_metadata Free (zone_mobility z) order (node_id z)) z;
          z = on_area order (push_hot page) z
      in set_order_active order z)"

fun flush_loop :: "pfn \<Rightarrow> pfn list \<Rightarrow> u64 \<Rightarrow> zone \<Rightarrow> u64 \<times> zone" where
  "flush_loop max_pfn [] pages_freed z = (pages_freed, z)"
| "flush_loop max_pfn (p # ps) pages_freed z =
     (let order = get_order (frames z p) in
      flush_loop max_pfn ps (pages_freed + push_bit order 1) (buddy_merge_internal max_pfn p order z))"

definition flush_deferred_frees_internal :: "pfn \<Rightarrow> zone \<Rightarrow> zone" where
  "flush_deferred_frees_internal max_pfn z =
     (if deferred_frees z = [] then z
      else let (pages_freed, z) = flush_loop max_pfn (deferred_frees z) 0 (z\<lparr>deferred_frees := []\<rparr>)
        in add_free_pages pages_freed z)"

subsection \<open>Splitting\<close>

fun split_loop :: "pfn \<Rightarrow> nat \<Rightarrow> nat \<Rightarrow> zone \<Rightarrow> zone" where
  "split_loop pfn 0 requested_order z = z"
| "split_loop pfn (Suc curr_order) requested_order z =
     (if Suc curr_order > requested_order then
        let upper = pfn + push_bit curr_order 1;
            z = on_page upper (setup_buddy_metadata Free (zone_mobility z) curr_order (node_id z)) z;
            z = on_area curr_order (push_hot upper) z;
            z = set_order_active curr_order z
        in split_loop pfn curr_order requested_order z
      else z)"

definition available_orders :: "nat \<Rightarrow> zone \<Rightarrow> u32" where
  "available_orders min_order z = active_orders z AND NOT (push_bit min_order 1 - 1)"

text \<open>The hottest block of an order.\<close>

definition pop_area :: "nat \<Rightarrow> zone \<Rightarrow> pfn option \<times> zone" where
  "pop_area order z = (let (page, a, st) = pop_hot (areas z ! order, frames z) in
     (page, clear_if_empty order (z\<lparr>areas := (areas z)[order := a], frames := st\<rparr>)))"

definition extract_block_internal :: "nat \<Rightarrow> zone \<Rightarrow> (pfn option \<times> zone) option" where
  "extract_block_internal requested_order z =
     (let available = available_orders requested_order z in
      if available = 0 then Some (None, z)
      else let curr_order = countr_zero available in
        case pop_area curr_order z of
          (None, z) \<Rightarrow> None
        | (Some page, z) \<Rightarrow>
            let z = split_loop page curr_order requested_order z
            in Some (Some page, on_page page (setup_buddy_metadata Active (zone_mobility z) requested_order (node_id z)) z))"

definition calculate_fragmentation_index :: "zone \<Rightarrow> u32" where
  "calculate_fragmentation_index z =
     (let free = total_free_pages z in
      if free = 0 then 0
      else let superpage_pages = push_bit MAX_ORDER (ucast (m_nr_free (areas z ! MAX_ORDER))) in
        if superpage_pages \<ge> free then 0 else ucast (100 - (superpage_pages * 100) div free))"

subsection \<open>Under the lock\<close>

definition alloc_pages_locked :: "pfn \<Rightarrow> bool \<Rightarrow> nat \<Rightarrow> zone \<Rightarrow> (pfn option \<times> wake option \<times> zone) option" where
  "alloc_pages_locked max_pfn daemons_active requested_order z =
     (let z = flush_deferred_frees_internal max_pfn z in
      case extract_block_internal requested_order z of
        None \<Rightarrow> None
      | Some (Some page, z) \<Rightarrow>
          let z = sub_free_pages (push_bit requested_order 1) z
          in Some (Some page, evaluate_watermarks daemons_active (total_free_pages z) requested_order False z, z)
      | Some (None, z) \<Rightarrow>
          Some (None, evaluate_watermarks daemons_active (total_free_pages z) requested_order True z, z))"

definition free_page_locked :: "pfn \<Rightarrow> pfn \<Rightarrow> nat \<Rightarrow> zone \<Rightarrow> zone" where
  "free_page_locked max_pfn page order z =
     (let z = flush_deferred_frees_internal max_pfn z;
          z = buddy_merge_internal max_pfn page order z
      in add_free_pages (push_bit order 1) z)"

definition extract_largest_block_for_steal :: "pfn \<Rightarrow> nat \<Rightarrow> zone \<Rightarrow> (pfn option \<times> zone) option" where
  "extract_largest_block_for_steal max_pfn min_order z =
     (let z = flush_deferred_frees_internal max_pfn z; available = available_orders min_order z in
      if available = 0 then Some (None, z)
      else let order = bit_width available - 1 in
        case pop_area order z of
          (None, z) \<Rightarrow> None
        | (Some page, z) \<Rightarrow>
            Some (Some page, sub_free_pages (push_bit order 1) (on_page page (set_state Active) z)))"

definition adopt_stolen_block :: "pfn \<Rightarrow> nat \<Rightarrow> nat \<Rightarrow> zone \<Rightarrow> pfn \<times> zone" where
  "adopt_stolen_block block_pfn block_order requested_order z =
     (let z = split_loop block_pfn block_order requested_order z;
          z = on_page block_pfn (setup_buddy_metadata Active (zone_mobility z) requested_order (node_id z)) z
      in (block_pfn, add_free_pages (push_bit block_order 1 - push_bit requested_order 1) z))"

end
