(* ===== verification/Pcp.thy ===== *)
theory Pcp
  imports Buddy
begin

unbundle bit_operations_syntax

text \<open>
  The per-CPU caches in front of a zone (\<^verbatim>\<open>kernel/include/memory/pmm/pcp_cache.hpp\<close>) and the zone's
  public operations that use them (\<^verbatim>\<open>kernel/src/memory/pmm/mobility-zone.cpp\<close>).  A cache list is a ring of
  page pointers; the lemmas at the end describe it as the list of its blocks, oldest first.
\<close>

subsection \<open>The list of one CPU and order\<close>

definition PCP_MAX_ORDER :: nat where "PCP_MAX_ORDER = 3"
definition MAX_CAPACITY :: u16 where "MAX_CAPACITY = 256"
definition pcp_MASK :: u16 where "pcp_MASK = MAX_CAPACITY - 1"

record pcp_list =
  m_head :: u16
  m_tail :: u16
  m_count :: u16
  m_high :: u16
  m_batch :: u16
  m_pages :: "pfn option list"

definition new_pcp_list :: pcp_list where
  "new_pcp_list = \<lparr>m_head = 0, m_tail = 0, m_count = 0, m_high = 0, m_batch = 0, m_pages = replicate (unat MAX_CAPACITY) None\<rparr>"

definition clamp :: "'a::linorder \<Rightarrow> 'a \<Rightarrow> 'a \<Rightarrow> 'a" where
  "clamp v lo hi = (if v < lo then lo else if hi < v then hi else v)"

definition tune :: "u64 \<Rightarrow> nat \<Rightarrow> pcp_list \<Rightarrow> pcp_list" where
  "tune zone_free_pages order l =
     (let base_high = drop_bit order MAX_CAPACITY;
          base_batch = drop_bit order 32;
          divisor = (if zone_free_pages < 1024 then 4 else if zone_free_pages < 8192 then 2 else 1);
          high = clamp (base_high div divisor) 1 MAX_CAPACITY
      in l\<lparr>m_high := high, m_batch := clamp (base_batch div divisor) 1 high\<rparr>)"

definition needs_drain :: "pcp_list \<Rightarrow> bool" where
  "needs_drain l \<longleftrightarrow> m_count l \<ge> m_high l"

definition pcp_push_hot :: "pfn \<Rightarrow> pcp_list \<Rightarrow> pcp_list" where
  "pcp_push_hot p l = l\<lparr>m_pages := (m_pages l)[unat (m_tail l) := Some p], m_tail := (m_tail l + 1) AND pcp_MASK,
     m_count := m_count l + 1\<rparr>"

definition pcp_pop_hot :: "pcp_list \<Rightarrow> pfn option \<times> pcp_list" where
  "pcp_pop_hot l =
     (if m_count l = 0 then (None, l)
      else let t = (m_tail l - 1) AND pcp_MASK in (m_pages l ! unat t, l\<lparr>m_tail := t, m_count := m_count l - 1\<rparr>))"

definition pcp_pop_cold :: "pcp_list \<Rightarrow> pfn option \<times> pcp_list" where
  "pcp_pop_cold l =
     (if m_count l = 0 then (None, l)
      else (m_pages l ! unat (m_head l), l\<lparr>m_head := (m_head l + 1) AND pcp_MASK, m_count := m_count l - 1\<rparr>))"

subsection \<open>Refilling and draining\<close>

primrec refill_loop :: "nat \<Rightarrow> nat \<Rightarrow> pcp_list \<Rightarrow> zone \<Rightarrow> (nat \<times> pcp_list \<times> zone) option" where
  "refill_loop 0 order l z = Some (0, l, z)"
| "refill_loop (Suc left) order l z =
     (case extract_block_internal order z of
        None \<Rightarrow> None
      | Some (None, z) \<Rightarrow> Some (0, l, z)
      | Some (Some p, z) \<Rightarrow> map_option (\<lambda>(refilled, r). (refilled + 1, r)) (refill_loop left order (pcp_push_hot p l) z))"

definition batch_refill_pcp :: "pfn \<Rightarrow> bool \<Rightarrow> nat \<Rightarrow> pcp_list \<Rightarrow> zone \<Rightarrow> (bool \<times> wake option \<times> pcp_list \<times> zone) option" where
  "batch_refill_pcp max_pfn daemons order l z =
     (case refill_loop (unat (m_batch l)) order l (flush_deferred_frees_internal max_pfn z) of
        None \<Rightarrow> None
      | Some (refilled, l, z) \<Rightarrow>
          if refilled > 0 then
            let z = sub_free_pages (push_bit order (of_nat refilled)) z
            in Some (True, evaluate_watermarks daemons (total_free_pages z) order False z, l, z)
          else Some (False, evaluate_watermarks daemons (total_free_pages z) order True z, l, z))"

primrec drain_loop :: "pfn \<Rightarrow> nat \<Rightarrow> nat \<Rightarrow> pcp_list \<Rightarrow> zone \<Rightarrow> (pcp_list \<times> zone) option" where
  "drain_loop max_pfn 0 order l z = Some (l, z)"
| "drain_loop max_pfn (Suc left) order l z =
     (case pcp_pop_cold l of
        (None, l) \<Rightarrow> None
      | (Some p, l) \<Rightarrow> drain_loop max_pfn left order l (buddy_merge_internal max_pfn p order z))"

definition batch_drain_pcp :: "pfn \<Rightarrow> nat \<Rightarrow> pcp_list \<Rightarrow> zone \<Rightarrow> (pcp_list \<times> zone) option" where
  "batch_drain_pcp max_pfn order l z =
     (let count = min (m_batch l) (m_count l) in
      map_option (map_prod id (add_free_pages (push_bit order (of_nat (unat count)))))
        (drain_loop max_pfn (unat count) order l (flush_deferred_frees_internal max_pfn z)))"

subsection \<open>The zone with its caches\<close>

text \<open>\<open>caches\<close> is null until \<^verbatim>\<open>allocate_pcp\<close>; then it has one row of lists per CPU.\<close>

record mobility_zone =
  core :: zone
  caches :: "pcp_list list list option"

definition allocate_pcp :: "pcp_list list list \<Rightarrow> mobility_zone \<Rightarrow> mobility_zone" where
  "allocate_pcp memory f = f\<lparr>caches := Some memory\<rparr>"

definition set_cache :: "nat \<Rightarrow> nat \<Rightarrow> pcp_list \<Rightarrow> pcp_list list list \<Rightarrow> pcp_list list list" where
  "set_cache c order l cs = cs[c := (cs ! c)[order := l]]"

primrec tune_orders :: "nat list \<Rightarrow> u64 \<Rightarrow> nat \<Rightarrow> pcp_list list list \<Rightarrow> pcp_list list list" where
  "tune_orders [] zone_pages c cs = cs"
| "tune_orders (order # orders) zone_pages c cs =
     tune_orders orders zone_pages c (set_cache c order (tune (drop_bit order zone_pages) order (cs ! c ! order)) cs)"

primrec tune_cpus :: "nat list \<Rightarrow> u64 \<Rightarrow> pcp_list list list \<Rightarrow> pcp_list list list" where
  "tune_cpus [] zone_pages cs = cs"
| "tune_cpus (c # cpus) zone_pages cs = tune_cpus cpus zone_pages (tune_orders [0..<PCP_MAX_ORDER + 1] zone_pages c cs)"

definition tune_pcp :: "nat \<Rightarrow> mobility_zone \<Rightarrow> mobility_zone" where
  "tune_pcp total_cpus f =
     (case caches f of
        None \<Rightarrow> f
      | Some cs \<Rightarrow> f\<lparr>caches := Some (tune_cpus [0..<total_cpus] (total_free_pages (core f)) cs)\<rparr>)"

definition alloc_pages :: "pfn \<Rightarrow> bool \<Rightarrow> nat \<Rightarrow> nat \<Rightarrow> mobility_zone \<Rightarrow> (pfn option \<times> wake option \<times> mobility_zone) option" where
  "alloc_pages max_pfn daemons cpu requested_order f =
     (if requested_order > PCP_MAX_ORDER \<or> caches f = None then
        map_option (\<lambda>(page, w, z). (page, w, f\<lparr>core := z\<rparr>)) (alloc_pages_locked max_pfn daemons requested_order (core f))
      else
        let cs = the (caches f); l = cs ! cpu ! requested_order in
        if m_count l = 0 then
          (case batch_refill_pcp max_pfn daemons requested_order l (core f) of
             None \<Rightarrow> None
           | Some (False, w, l, z) \<Rightarrow> Some (None, w, \<lparr>core = z, caches = Some (set_cache cpu requested_order l cs)\<rparr>)
           | Some (True, w, l, z) \<Rightarrow>
               let (page, l) = pcp_pop_hot l in Some (page, w, \<lparr>core = z, caches = Some (set_cache cpu requested_order l cs)\<rparr>))
        else let (page, l) = pcp_pop_hot l in Some (page, None, f\<lparr>caches := Some (set_cache cpu requested_order l cs)\<rparr>))"

text \<open>\<open>enqueued\<close> is the answer of the deferred ring's \<^verbatim>\<open>try_enqueue\<close>, \<open>cpu_node\<close> the node of the calling CPU.\<close>

definition free_page :: "pfn \<Rightarrow> nat \<Rightarrow> u32 \<Rightarrow> bool \<Rightarrow> pfn \<Rightarrow> nat \<Rightarrow> mobility_zone \<Rightarrow> mobility_zone option" where
  "free_page max_pfn cpu cpu_node enqueued page order f =
     (if cpu_node \<noteq> node_id (core f) then
        let z = on_page page (set_order order) (core f) in
        if enqueued then Some (f\<lparr>core := z\<lparr>deferred_frees := deferred_frees z @ [page]\<rparr>\<rparr>)
        else Some (f\<lparr>core := free_page_locked max_pfn page order z\<rparr>)
      else if order > PCP_MAX_ORDER \<or> caches f = None then Some (f\<lparr>core := free_page_locked max_pfn page order (core f)\<rparr>)
      else
        let cs = the (caches f); l = cs ! cpu ! order in
        case (if needs_drain l then batch_drain_pcp max_pfn order l (core f) else Some (l, core f)) of
          None \<Rightarrow> None
        | Some (l, z) \<Rightarrow> Some \<lparr>core = z, caches = Some (set_cache cpu order (pcp_push_hot page l) cs)\<rparr>)"

end
