(* ===== verification/BuddyInv.thy ===== *)
theory BuddyInv
  imports Buddy
begin

unbundle bit_operations_syntax

text \<open>
  The invariant of a zone, over the lists of free blocks of every order, and what the elementary changes
  of the allocator do to it: unlinking a buddy, linking a block, taking the hottest block.
\<close>

subsection \<open>Definitions\<close>

definition block_frames :: "pfn \<Rightarrow> nat \<Rightarrow> nat set" where
  "block_frames p k = {unat p..<unat p + 2 ^ k}"

definition free_frames :: "(nat \<Rightarrow> pfn list) \<Rightarrow> nat set" where
  "free_frames L = (\<Union>k\<le>MAX_ORDER. \<Union>p\<in>set (L k). block_frames p k)"

definition block_ok :: "pfn \<Rightarrow> pfn \<Rightarrow> nat \<Rightarrow> bool" where
  "block_ok max_pfn p k \<longleftrightarrow> k \<le> MAX_ORDER \<and> 2 ^ k dvd unat p \<and> unat p + 2 ^ k \<le> unat max_pfn"

text \<open>
  The pages in \<open>X\<close> are in the hands of a running operation: whatever their descriptors say, they are in no
  list.  For every other page the descriptor tells whether it heads a free block of this zone.
\<close>

definition zone_inv :: "pfn \<Rightarrow> pfn set \<Rightarrow> zone \<Rightarrow> (nat \<Rightarrow> pfn list) \<Rightarrow> bool" where
  "zone_inv max_pfn X z L \<longleftrightarrow>
     length (areas z) = MAX_ORDER + 1 \<and> unat max_pfn < 2 ^ 32 \<and>
     (\<forall>k\<le>MAX_ORDER. area_holds (frames z) (areas z ! k) (L k)) \<and>
     (\<forall>k. bit (active_orders z) k \<longleftrightarrow> k \<le> MAX_ORDER \<and> L k \<noteq> []) \<and>
     (\<forall>k\<le>MAX_ORDER. \<forall>p\<in>set (L k). block_ok max_pfn p k) \<and>
     (\<forall>k\<le>MAX_ORDER. \<forall>p. p \<notin> X \<longrightarrow> (p \<in> set (L k) \<longleftrightarrow> is_free_buddy k (frames z p) z)) \<and>
     (\<forall>k\<le>MAX_ORDER. \<forall>p\<in>X. p \<notin> set (L k)) \<and>
     (\<forall>k\<le>MAX_ORDER. \<forall>j\<le>MAX_ORDER. \<forall>p\<in>set (L k). \<forall>q\<in>set (L j).
        (p, k) \<noteq> (q, j) \<longrightarrow> block_frames p k \<inter> block_frames q j = {}) \<and>
     (\<forall>k<MAX_ORDER. \<forall>p\<in>set (L k). p XOR push_bit k 1 \<notin> set (L k))"

text \<open>What the elementary changes leave alone: the zone's other members, and the flags of other pages.\<close>

definition keeps :: "nat set \<Rightarrow> zone \<Rightarrow> zone \<Rightarrow> bool" where
  "keeps A z z' \<longleftrightarrow> zone_mobility z' = zone_mobility z \<and> node_id z' = node_id z \<and> total_free_pages z' = total_free_pages z \<and>
     watermarks z' = watermarks z \<and> deferred_frees z' = deferred_frees z \<and>
     (\<forall>q. unat q \<notin> A \<longrightarrow> page_flags (frames z' q) = page_flags (frames z q))"

lemma keeps_trans: "keeps A z z' \<Longrightarrow> keeps B z' z'' \<Longrightarrow> keeps (A \<union> B) z z''"
  by (simp add: keeps_def)

lemma keeps_mono: "keeps A z z' \<Longrightarrow> A \<subseteq> B \<Longrightarrow> keeps B z z'"
  by (auto simp: keeps_def)

lemma keeps_refl [simp]: "keeps A z z"
  by (simp add: keeps_def)

subsection \<open>Labels\<close>

lemma MAX_ORDER_less: "k \<le> MAX_ORDER \<Longrightarrow> k < 32" "k \<le> MAX_ORDER \<Longrightarrow> k < 64" "k \<le> MAX_ORDER \<Longrightarrow> k < 19"
  by (simp_all add: MAX_ORDER_def)

lemma order_code: "k \<le> MAX_ORDER \<Longrightarrow> take_bit 5 (of_nat k :: u32) = of_nat k"
proof -
  assume "k \<le> MAX_ORDER"
  then have "take_bit 5 k = k" by (simp add: take_bit_nat_eq_self MAX_ORDER_def)
  then show ?thesis by (metis take_bit_of_nat)
qed

lemma order_code_inj: "j \<le> MAX_ORDER \<Longrightarrow> k \<le> MAX_ORDER \<Longrightarrow> (of_nat j :: u32) = of_nat k \<longleftrightarrow> j = k"
proof -
  assume "j \<le> MAX_ORDER" "k \<le> MAX_ORDER"
  then have "unat (of_nat j :: u32) = j" "unat (of_nat k :: u32) = k" by (simp_all add: unat_of_nat take_bit_nat_eq_self MAX_ORDER_def)
  then show ?thesis by metis
qed

lemma mobility_bits: "take_bit 2 (mobility_code m) = mobility_code m"
  by (cases m) (auto simp: take_bit_eq_mod)

lemma state_bits: "take_bit 3 (state_code s) = state_code s"
  by (cases s) (auto simp: take_bit_eq_mod)

lemma setup_flags:
  assumes "k \<le> MAX_ORDER"
  shows "flags_state (page_flags (setup_buddy_metadata s m k n p)) = state_code s"
    "flags_order (page_flags (setup_buddy_metadata s m k n p)) = of_nat k"
    "flags_mobility (page_flags (setup_buddy_metadata s m k n p)) = mobility_code m"
    "get_numa_node (setup_buddy_metadata s m k n p) = n"
    "buddy_next (setup_buddy_metadata s m k n p) = buddy_next p" "buddy_prev (setup_buddy_metadata s m k n p) = buddy_prev p"
proof -
  have "(ucast (take_bit 32 (ucast n :: u64)) :: u32) = n" by (rule bit_word_eqI) (simp add: bit_simps)
  then show "get_numa_node (setup_buddy_metadata s m k n p) = n"
    by (simp add: get_numa_node_def setup_buddy_metadata_def set_numa_node_def bf_get_set)
qed (simp_all add: setup_buddy_metadata_def set_numa_node_def flags_state_def flags_order_def flags_mobility_def
    bf_get_set bf_get_set_other mobility_bits state_bits order_code [OF assms])

lemma labelled_setup_free: "j \<le> MAX_ORDER \<Longrightarrow> k \<le> MAX_ORDER \<Longrightarrow>
    is_free_buddy j (setup_buddy_metadata Free (zone_mobility z) k (node_id z) p) z \<longleftrightarrow> j = k"
  by (simp add: is_free_buddy_def setup_flags order_code_inj) blast

lemma labelled_setup_active: "k \<le> MAX_ORDER \<Longrightarrow> \<not> is_free_buddy j (setup_buddy_metadata Active m k n p) z"
  by (simp add: is_free_buddy_def setup_flags)

lemma labelled_set_active: "\<not> is_free_buddy j (set_state Active p) z"
  by (simp add: is_free_buddy_def set_state_def flags_state_def bf_get_set)

lemma get_order_setup: "k \<le> MAX_ORDER \<Longrightarrow> get_order (setup_buddy_metadata s m k n p) = k"
  by (simp add: get_order_def setup_flags unat_of_nat take_bit_nat_eq_self MAX_ORDER_def)

lemma labelled_cong: "page_flags p' = page_flags p \<Longrightarrow> topology p' = topology p \<Longrightarrow> zone_mobility z' = zone_mobility z \<Longrightarrow>
    node_id z' = node_id z \<Longrightarrow> is_free_buddy k p' z' = is_free_buddy k p z"
  by (simp add: is_free_buddy_def get_numa_node_def)

subsection \<open>Blocks\<close>

lemma unat_set_bit: "\<not> bit q k \<Longrightarrow> k < 64 \<Longrightarrow> unat (q OR push_bit k 1) = unat q + 2 ^ k" for q :: u64
proof -
  assume a: "\<not> bit q k" "k < 64"
  have "unat (push_bit k 1 :: u64) = push_bit k 1" using a(2) by (simp add: push_bit_eq_mult)
  then have "unat (q OR push_bit k 1) = unat q OR push_bit k 1" by (simp add: unsigned_or_eq)
  also have "\<dots> = unat q + push_bit k 1" using a(1) by (intro disjunctive_add [symmetric]) (auto simp: bit_simps)
  finally show ?thesis by (simp add: push_bit_eq_mult)
qed

lemma unat_buddy:
  fixes p :: pfn assumes "k < 64"
  shows "bit p k \<Longrightarrow> unat (p XOR push_bit k 1) + 2 ^ k = unat p" "\<not> bit p k \<Longrightarrow> unat (p XOR push_bit k 1) = unat p + 2 ^ k"
proof -
  assume b: "bit p k"
  have "\<not> bit (p XOR push_bit k 1) k" using b assms by (simp add: bit_simps)
  moreover have "(p XOR push_bit k 1) OR push_bit k 1 = p" using b by (intro bit_word_eqI) (auto simp: bit_simps)
  ultimately show "unat (p XOR push_bit k 1) + 2 ^ k = unat p" using unat_set_bit [OF _ assms] by metis
next
  assume b: "\<not> bit p k"
  have "p XOR push_bit k 1 = p OR push_bit k 1" using b by (intro bit_word_eqI) (auto simp: bit_simps)
  then show "unat (p XOR push_bit k 1) = unat p + 2 ^ k" using unat_set_bit [OF b assms] by simp
qed

lemma align_next: "2 ^ k dvd unat w \<Longrightarrow> \<not> bit w k \<Longrightarrow> 2 ^ (k + 1) dvd unat w" for w :: u64
proof -
  assume d: "2 ^ k dvd unat w" and b: "\<not> bit w k"
  from d obtain c where c: "unat w = 2 ^ k * c" by (rule dvdE)
  have "\<not> bit (unat w) k" using b by (simp add: bit_simps)
  then have "even (unat w div 2 ^ k)" by (simp add: bit_iff_odd)
  then have "even c" using c by simp
  then show ?thesis using c by auto
qed

lemma xor_twice: "(p XOR m) XOR m = p" for p m :: u64
  by (simp add: xor.assoc)

text \<open>The lower of two buddies heads the block of the next order, which is both of them.\<close>

lemma merged_block:
  fixes p :: pfn assumes al: "2 ^ k dvd unat p" and k: "k < MAX_ORDER"
  defines "b \<equiv> p XOR push_bit k 1"
  defines "l \<equiv> if b < p then b else p"
  shows "2 ^ (k + 1) dvd unat l" "block_frames l (k + 1) = block_frames p k \<union> block_frames b k" "b \<noteq> p"
    "unat l + 2 ^ (k + 1) = max (unat p) (unat b) + 2 ^ k"
proof -
  have k64: "k < 64" using k by (simp add: MAX_ORDER_def)
  have pos: "(0 :: nat) < 2 ^ k" by simp
  have l: "2 ^ (k + 1) dvd unat l \<and> l = (if bit p k then b else p) \<and> unat b \<noteq> unat p"
  proof (cases "bit p k")
    case True
    note u = unat_buddy(1) [OF k64 True, folded b_def]
    have "\<not> bit b k" using True k64 by (simp add: b_def bit_simps)
    moreover have "2 ^ k dvd unat b" using al u by (metis dvd_add_left_iff dvd_refl)
    ultimately have "2 ^ (k + 1) dvd unat b" by (rule align_next [rotated])
    moreover have "unat b < unat p" using u pos by linarith
    ultimately show ?thesis using True by (simp add: l_def word_less_nat_alt)
  next
    case False
    note u = unat_buddy(2) [OF k64 False, folded b_def]
    have "unat p < unat b" using u pos by linarith
    then show ?thesis using align_next [OF al False] False by (simp add: l_def word_less_nat_alt)
  qed
  then show "2 ^ (k + 1) dvd unat l" "b \<noteq> p" by auto
  show "block_frames l (k + 1) = block_frames p k \<union> block_frames b k" "unat l + 2 ^ (k + 1) = max (unat p) (unat b) + 2 ^ k"
    using l unat_buddy [OF k64, of p, folded b_def] by (cases "bit p k"; auto simp: block_frames_def)+
qed

lemma block_frames_self: "unat p \<in> block_frames p k"
  by (simp add: block_frames_def)

subsection \<open>The invariant\<close>

lemma zone_invD:
  assumes "zone_inv M X z L"
  shows "length (areas z) = MAX_ORDER + 1" "unat M < 2 ^ 32"
    and "k \<le> MAX_ORDER \<Longrightarrow> area_holds (frames z) (areas z ! k) (L k)"
    and "bit (active_orders z) k \<longleftrightarrow> k \<le> MAX_ORDER \<and> L k \<noteq> []"
    and "k \<le> MAX_ORDER \<Longrightarrow> p \<in> set (L k) \<Longrightarrow> block_ok M p k"
    and "k \<le> MAX_ORDER \<Longrightarrow> p \<notin> X \<Longrightarrow> p \<in> set (L k) \<longleftrightarrow> is_free_buddy k (frames z p) z"
    and "k \<le> MAX_ORDER \<Longrightarrow> p \<in> X \<Longrightarrow> p \<notin> set (L k)"
    and "k \<le> MAX_ORDER \<Longrightarrow> j \<le> MAX_ORDER \<Longrightarrow> p \<in> set (L k) \<Longrightarrow> q \<in> set (L j) \<Longrightarrow> (p, k) \<noteq> (q, j) \<Longrightarrow>
      block_frames p k \<inter> block_frames q j = {}"
    and "k < MAX_ORDER \<Longrightarrow> p \<in> set (L k) \<Longrightarrow> p XOR push_bit k 1 \<notin> set (L k)"
proof -
  show "length (areas z) = MAX_ORDER + 1"
    using assms [unfolded zone_inv_def, THEN conjunct1] by simp
  show "unat M < 2 ^ 32"
    using assms [unfolded zone_inv_def, THEN conjunct2, THEN conjunct1] by simp
  show "k \<le> MAX_ORDER \<Longrightarrow> area_holds (frames z) (areas z ! k) (L k)"
    using assms [unfolded zone_inv_def, THEN conjunct2, THEN conjunct2, THEN conjunct1] by blast
  show "bit (active_orders z) k \<longleftrightarrow> k \<le> MAX_ORDER \<and> L k \<noteq> []"
    using assms [unfolded zone_inv_def, THEN conjunct2, THEN conjunct2, THEN conjunct2, THEN conjunct1] by blast
  show "k \<le> MAX_ORDER \<Longrightarrow> p \<in> set (L k) \<Longrightarrow> block_ok M p k"
    using assms [unfolded zone_inv_def, THEN conjunct2, THEN conjunct2, THEN conjunct2, THEN conjunct2, THEN conjunct1] by blast
  show "k \<le> MAX_ORDER \<Longrightarrow> p \<notin> X \<Longrightarrow> p \<in> set (L k) \<longleftrightarrow> is_free_buddy k (frames z p) z"
    using assms [unfolded zone_inv_def, THEN conjunct2, THEN conjunct2, THEN conjunct2, THEN conjunct2, THEN conjunct2, THEN conjunct1] by blast
  show "k \<le> MAX_ORDER \<Longrightarrow> p \<in> X \<Longrightarrow> p \<notin> set (L k)"
    using assms [unfolded zone_inv_def, THEN conjunct2, THEN conjunct2, THEN conjunct2, THEN conjunct2, THEN conjunct2, THEN conjunct2, THEN conjunct1] by blast
  show "k \<le> MAX_ORDER \<Longrightarrow> j \<le> MAX_ORDER \<Longrightarrow> p \<in> set (L k) \<Longrightarrow> q \<in> set (L j) \<Longrightarrow> (p, k) \<noteq> (q, j) \<Longrightarrow>
      block_frames p k \<inter> block_frames q j = {}"
    using assms [unfolded zone_inv_def, THEN conjunct2, THEN conjunct2, THEN conjunct2, THEN conjunct2, THEN conjunct2, THEN conjunct2, THEN conjunct2, THEN conjunct1] by blast
  show "k < MAX_ORDER \<Longrightarrow> p \<in> set (L k) \<Longrightarrow> p XOR push_bit k 1 \<notin> set (L k)"
    using assms [unfolded zone_inv_def, THEN conjunct2, THEN conjunct2, THEN conjunct2, THEN conjunct2, THEN conjunct2, THEN conjunct2, THEN conjunct2, THEN conjunct2] by blast
qed

lemma zone_invI:
  assumes "length (areas z) = MAX_ORDER + 1" "unat M < 2 ^ 32"
    and "\<And>k. k \<le> MAX_ORDER \<Longrightarrow> area_holds (frames z) (areas z ! k) (L k)"
    and "\<And>k. bit (active_orders z) k \<longleftrightarrow> k \<le> MAX_ORDER \<and> L k \<noteq> []"
    and "\<And>k p. k \<le> MAX_ORDER \<Longrightarrow> p \<in> set (L k) \<Longrightarrow> block_ok M p k"
    and "\<And>k p. k \<le> MAX_ORDER \<Longrightarrow> p \<notin> X \<Longrightarrow> p \<in> set (L k) \<longleftrightarrow> is_free_buddy k (frames z p) z"
    and "\<And>k p. k \<le> MAX_ORDER \<Longrightarrow> p \<in> X \<Longrightarrow> p \<notin> set (L k)"
    and "\<And>k j p q. k \<le> MAX_ORDER \<Longrightarrow> j \<le> MAX_ORDER \<Longrightarrow> p \<in> set (L k) \<Longrightarrow> q \<in> set (L j) \<Longrightarrow> (p, k) \<noteq> (q, j) \<Longrightarrow>
      block_frames p k \<inter> block_frames q j = {}"
    and "\<And>k p. k < MAX_ORDER \<Longrightarrow> p \<in> set (L k) \<Longrightarrow> p XOR push_bit k 1 \<notin> set (L k)"
  shows "zone_inv M X z L"
  unfolding zone_inv_def by (intro conjI allI ballI impI; (rule assms)?; assumption?)

lemma one_order: "zone_inv M X z L \<Longrightarrow> j \<le> MAX_ORDER \<Longrightarrow> k \<le> MAX_ORDER \<Longrightarrow> p \<in> set (L j) \<Longrightarrow> p \<in> set (L k) \<Longrightarrow> j = k"
  using zone_invD(8) [of M X z L j k p p] block_frames_self [of p j] block_frames_self [of p k] by auto

lemma list_length_bound: "zone_inv M X z L \<Longrightarrow> k \<le> MAX_ORDER \<Longrightarrow> length (L k) < 2 ^ 32"
proof -
  assume inv: "zone_inv M X z L" and k: "k \<le> MAX_ORDER"
  have d: "distinct (L k)" using zone_invD(3) [OF inv k] by (simp add: area_holds_def)
  have "unat p < unat M" if p: "p \<in> set (L k)" for p
  proof -
    have "unat p + 2 ^ k \<le> unat M" using zone_invD(5) [OF inv k p] by (simp add: block_ok_def)
    moreover have "(0 :: nat) < 2 ^ k" by simp
    ultimately show ?thesis by linarith
  qed
  then have "unat ` set (L k) \<subseteq> {..<unat M}" by auto
  then have "card (unat ` set (L k)) \<le> unat M" using card_mono [of "{..<unat M}" "unat ` set (L k)"] by simp
  moreover have "inj_on unat (set (L k))" by (auto simp: inj_on_def intro: unsigned_word_eqI)
  ultimately have "length (L k) \<le> unat M" using d by (simp add: card_image distinct_card)
  then show ?thesis using zone_invD(2) [OF inv] by simp
qed

lemma area_empty_iff: "area_holds st a ps \<Longrightarrow> length ps < 2 ^ 32 \<Longrightarrow> area_is_empty a \<longleftrightarrow> ps = []"
proof -
  assume a: "area_holds st a ps" "length ps < 2 ^ 32"
  then have "unat (m_nr_free a) = length ps" by (simp add: area_holds_def unat_of_nat take_bit_nat_eq_self)
  then show ?thesis unfolding area_is_empty_def by (metis length_0_conv unat_eq_0)
qed

text \<open>The bitmap after a list has become empty, and after one has got an element.\<close>

lemma clear_if_empty_fields [simp]:
  "areas (clear_if_empty k z) = areas z" "frames (clear_if_empty k z) = frames z" "zone_mobility (clear_if_empty k z) = zone_mobility z"
  "node_id (clear_if_empty k z) = node_id z" "total_free_pages (clear_if_empty k z) = total_free_pages z"
  "watermarks (clear_if_empty k z) = watermarks z" "deferred_frees (clear_if_empty k z) = deferred_frees z"
  by (simp_all add: clear_if_empty_def clear_order_active_def)

lemma bit_clear_if_empty: "bit (active_orders (clear_if_empty k z)) j \<longleftrightarrow> bit (active_orders z) j \<and> \<not> (area_is_empty (areas z ! k) \<and> j = k)"
  by (auto simp: clear_if_empty_def clear_order_active_def bit_simps dest: bit_imp_le_length)

lemma bit_set_order: "k \<le> MAX_ORDER \<Longrightarrow> bit (active_orders (set_order_active k z)) j \<longleftrightarrow> bit (active_orders z) j \<or> j = k"
  by (auto simp: set_order_active_def bit_simps MAX_ORDER_def dest: bit_imp_le_length)

text \<open>A list loses an element: the links of the other lists and the labels of the other pages stay.\<close>

lemma shrink_inv:
  assumes inv: "zone_inv M X z L" and k: "k \<le> MAX_ORDER" and p: "p \<in> set (L k)" and ps: "set ps = set (L k) - {p}" "length ps < length (L k)"
    and a: "area_holds st a ps" and only: "links_only (set (L k)) (frames z) st"
    and z': "z' = clear_if_empty k (z\<lparr>areas := (areas z)[k := a], frames := st\<rparr>)"
  shows "zone_inv M (insert p X) z' (L(k := ps))"
proof (rule zone_invI)
  note ok = zone_invD [OF inv]
  show "length (areas z') = MAX_ORDER + 1" "unat M < 2 ^ 32" using ok(1,2) by (simp_all add: z')
  have same: "frames z' q = frames z q" if "q \<notin> set (L k)" for q using only that by (simp add: z' links_only_def)
  have fl: "page_flags (frames z' q) = page_flags (frames z q)" "topology (frames z' q) = topology (frames z q)" for q
    using only by (simp_all add: z' links_only_def)
  have other: "q \<notin> set (L k)" if "j \<le> MAX_ORDER" "q \<in> set (L j)" "j \<noteq> k" for j q using one_order [OF inv that(1) k that(2)] that(3) by blast
  show "area_holds (frames z') (areas z' ! j) ((L(k := ps)) j)" if j: "j \<le> MAX_ORDER" for j
  proof (cases "j = k")
    case True
    then show ?thesis using a ok(1) k by (simp add: z')
  next
    case False
    have "area_holds (frames z') (areas z ! j) (L j)"
      using ok(3) [OF j] by (rule area_holds_cong) (use same other [OF j] False in auto)
    then show ?thesis using False by (simp add: z')
  qed
  have "length ps < 2 ^ 32" using ps(2) list_length_bound [OF inv k] by simp
  then have "area_is_empty a \<longleftrightarrow> ps = []" by (rule area_empty_iff [OF a])
  then show "bit (active_orders z') j \<longleftrightarrow> j \<le> MAX_ORDER \<and> (L(k := ps)) j \<noteq> []" for j
    using ok(4) [of j] ok(1) k p by (auto simp: z' bit_clear_if_empty)
  have sub: "set ((L(k := ps)) j) \<subseteq> set (L j)" for j using ps by auto
  show "block_ok M q j" if "j \<le> MAX_ORDER" "q \<in> set ((L(k := ps)) j)" for j q using ok(5) [OF that(1)] sub that(2) by blast
  have lab: "is_free_buddy j (frames z' q) z' = is_free_buddy j (frames z q) z" for j q
    by (rule labelled_cong) (simp_all add: fl, simp_all add: z')
  show "q \<in> set ((L(k := ps)) j) \<longleftrightarrow> is_free_buddy j (frames z' q) z'" if "j \<le> MAX_ORDER" "q \<notin> insert p X" for j q
    using ok(6) [OF that(1), of q] that(2) ps(1) by (auto simp: lab)
  show "q \<notin> set ((L(k := ps)) j)" if "j \<le> MAX_ORDER" "q \<in> insert p X" for j q
  proof (cases "q = p")
    case True
    then show ?thesis using ps(1) one_order [OF inv that(1) k _ p] by (cases "j = k") auto
  next
    case False
    then have "q \<notin> set (L j)" using ok(7) [OF that(1)] that(2) by simp
    then show ?thesis using sub by blast
  qed
  show "block_frames q i \<inter> block_frames r j = {}"
    if "i \<le> MAX_ORDER" "j \<le> MAX_ORDER" "q \<in> set ((L(k := ps)) i)" "r \<in> set ((L(k := ps)) j)" "(q, i) \<noteq> (r, j)" for i j q r
    using ok(8) [OF that(1,2)] sub that(3-5) by blast
  show "q XOR push_bit j 1 \<notin> set ((L(k := ps)) j)" if "j < MAX_ORDER" "q \<in> set ((L(k := ps)) j)" for j q
    using ok(9) [OF that(1)] sub that(2) by blast
qed

text \<open>A page in hand is no longer in hand once its descriptor says it is not free.\<close>

lemma release_inv:
  assumes inv: "zone_inv M (insert p X) z L" and f: "\<And>j. \<not> is_free_buddy j (f (frames z p)) z" "buddy_next (f (frames z p)) = buddy_next (frames z p)"
    "buddy_prev (f (frames z p)) = buddy_prev (frames z p)"
  shows "zone_inv M (X - {p}) (on_page p f z) L"
proof (rule zone_invI)
  note ok = zone_invD [OF inv]
  show "length (areas (on_page p f z)) = MAX_ORDER + 1" "unat M < 2 ^ 32" using ok(1,2) by (simp_all add: on_page_def)
  show "area_holds (frames (on_page p f z)) (areas (on_page p f z) ! j) (L j)" if "j \<le> MAX_ORDER" for j
    using ok(3) [OF that] f(2,3) unfolding on_page_def by (auto intro: area_holds_cong)
  show "q \<in> set (L j) \<longleftrightarrow> is_free_buddy j (frames (on_page p f z) q) (on_page p f z)" if "j \<le> MAX_ORDER" "q \<notin> X - {p}" for j q
  proof -
    have "is_free_buddy j (frames (on_page p f z) q) (on_page p f z) = is_free_buddy j (if q = p then f (frames z p) else frames z q) z"
      by (simp add: is_free_buddy_def on_page_def)
    then show ?thesis using ok(6) [OF that(1), of q] ok(7) [OF that(1), of p] that(2) f(1) by auto
  qed
  show "q \<notin> set (L j)" if "j \<le> MAX_ORDER" "q \<in> X - {p}" for j q using ok(7) [OF that(1)] that(2) by auto
  show "bit (active_orders (on_page p f z)) k \<longleftrightarrow> k \<le> MAX_ORDER \<and> L k \<noteq> []" for k using ok(4) by (simp add: on_page_def)
qed (fact zone_invD(5) [OF inv] zone_invD(8) [OF inv] zone_invD(9) [OF inv])+

lemma free_frames_member: "k \<le> MAX_ORDER \<Longrightarrow> p \<in> set (L k) \<Longrightarrow> block_frames p k \<subseteq> free_frames L"
  by (auto simp: free_frames_def)

lemma not_listed: "j \<le> MAX_ORDER \<Longrightarrow> block_frames p k \<inter> free_frames L = {} \<Longrightarrow> p \<notin> set (L j)"
  using free_frames_member [of j p L] block_frames_self [of p k] block_frames_self [of p j] by blast

lemma free_frames_add: "k \<le> MAX_ORDER \<Longrightarrow> free_frames (L(k := p # L k)) = free_frames L \<union> block_frames p k"
proof (intro set_eqI iffI)
  fix x assume "x \<in> free_frames (L(k := p # L k))"
  then obtain j q where q: "j \<le> MAX_ORDER" "q \<in> set ((L(k := p # L k)) j)" "x \<in> block_frames q j" by (auto simp: free_frames_def)
  then have "(q, j) = (p, k) \<or> q \<in> set (L j)" by (auto split: if_splits)
  then show "x \<in> free_frames L \<union> block_frames p k" using q free_frames_member [OF q(1), of q L] by blast
next
  fix x assume k: "k \<le> MAX_ORDER" and "x \<in> free_frames L \<union> block_frames p k"
  then consider "x \<in> block_frames p k" | j q where "j \<le> MAX_ORDER" "q \<in> set (L j)" "x \<in> block_frames q j"
    by (auto simp: free_frames_def)
  then show "x \<in> free_frames (L(k := p # L k))"
  proof cases
    case 1
    then show ?thesis using free_frames_member [OF k, of p "L(k := p # L k)"] by auto
  next
    case (2 j q)
    then have "q \<in> set ((L(k := p # L k)) j)" by auto
    then show ?thesis using free_frames_member [OF 2(1), of q "L(k := p # L k)"] 2(3) by blast
  qed
qed

lemma free_frames_remove:
  assumes inv: "zone_inv M X z L" and k: "k \<le> MAX_ORDER" and p: "p \<in> set (L k)" and ps: "set ps = set (L k) - {p}"
  shows "free_frames (L(k := ps)) = free_frames L - block_frames p k"
proof
  show "free_frames (L(k := ps)) \<subseteq> free_frames L - block_frames p k"
  proof
    fix x assume "x \<in> free_frames (L(k := ps))"
    then obtain j q where q: "j \<le> MAX_ORDER" "q \<in> set ((L(k := ps)) j)" "x \<in> block_frames q j" by (auto simp: free_frames_def)
    then have qj: "q \<in> set (L j)" "(q, j) \<noteq> (p, k)" using ps by (auto split: if_splits)
    then have "x \<notin> block_frames p k" using zone_invD(8) [OF inv q(1) k qj(1) p qj(2)] q(3) by blast
    then show "x \<in> free_frames L - block_frames p k" using free_frames_member [OF q(1), of q L] qj(1) q(3) by blast
  qed
  show "free_frames L - block_frames p k \<subseteq> free_frames (L(k := ps))"
  proof
    fix x assume "x \<in> free_frames L - block_frames p k"
    then obtain j q where q: "j \<le> MAX_ORDER" "q \<in> set (L j)" "x \<in> block_frames q j" "x \<notin> block_frames p k" by (auto simp: free_frames_def)
    then have "(q, j) \<noteq> (p, k)" by blast
    then have "q \<in> set ((L(k := ps)) j)" using q(2) ps by auto
    then show "x \<in> free_frames (L(k := ps))" using free_frames_member [OF q(1), of q "L(k := ps)"] q(3) by blast
  qed
qed

lemma put_inv:
  assumes inv: "zone_inv M X z L" and blk: "block_ok M p k" and free: "block_frames p k \<inter> free_frames L = {}"
    and alone: "k < MAX_ORDER \<Longrightarrow> p XOR push_bit k 1 \<notin> set (L k)"
    and pushes: "\<And>a st a' st'. area_holds st a (L k) \<Longrightarrow> p \<notin> set (L k) \<Longrightarrow> push p (a, st) = (a', st') \<Longrightarrow>
      area_holds st' a' ps \<and> links_only (insert p (set (L k))) st st'"
    and ps [simp]: "set ps = insert p (set (L k))"
    and z': "z' = set_order_active k (on_area k (push p) (on_page p (setup_buddy_metadata Free (zone_mobility z) k (node_id z)) z))"
  shows "zone_inv M (X - {p}) z' (L(k := ps))" "keeps (block_frames p k) z z'"
proof -
  note ok = zone_invD [OF inv]
  have k: "k \<le> MAX_ORDER" using blk by (simp add: block_ok_def)
  define pg where "pg = setup_buddy_metadata Free (zone_mobility z) k (node_id z) (frames z p)"
  define st where "st = (frames z)(p := pg)"
  have out: "p \<notin> set (L j)" if "j \<le> MAX_ORDER" for j by (rule not_listed [OF that free])
  have hold: "area_holds st (areas z ! j) (L j)" if "j \<le> MAX_ORDER" for j
    using ok(3) [OF that] by (rule area_holds_cong) (use out [OF that] in \<open>auto simp: st_def\<close>)
  obtain a st' where push: "push p (areas z ! k, st) = (a, st')" by fastforce
  have new: "area_holds st' a ps" "links_only (insert p (set (L k))) st st'" using pushes [OF hold [OF k] out [OF k] push] by blast+
  have fields: "areas z' = (areas z)[k := a]" "frames z' = st'" "zone_mobility z' = zone_mobility z" "node_id z' = node_id z"
    "total_free_pages z' = total_free_pages z" "watermarks z' = watermarks z" "deferred_frees z' = deferred_frees z"
    using push by (simp_all add: z' set_order_active_def on_area_def on_page_def Let_def flip: pg_def st_def)
  have fl: "page_flags (frames z' q) = page_flags (st q)" "topology (frames z' q) = topology (st q)" for q
    using new(2) by (simp_all add: fields links_only_def)
  have lab: "is_free_buddy j (frames z' q) z' = (if q = p then j = k else is_free_buddy j (frames z q) z)" if j: "j \<le> MAX_ORDER" for j q
  proof -
    have "is_free_buddy j (frames z' q) z' = is_free_buddy j (st q) z" using fl fields by (intro labelled_cong) auto
    then show ?thesis using labelled_setup_free [OF j k] by (simp add: st_def pg_def)
  qed
  show "keeps (block_frames p k) z z'"
    using block_frames_self [of p k] by (auto simp: keeps_def fields fl[unfolded fields] st_def)
  show "zone_inv M (X - {p}) z' (L(k := ps))"
  proof (rule zone_invI)
    show "length (areas z') = MAX_ORDER + 1" "unat M < 2 ^ 32" using ok(1,2) by (simp_all add: fields)
    show "area_holds (frames z') (areas z' ! j) ((L(k := ps)) j)" if j: "j \<le> MAX_ORDER" for j
    proof (cases "j = k")
      case True
      then show ?thesis using new(1) ok(1) k by (simp add: fields)
    next
      case False
      have "q \<notin> insert p (set (L k))" if "q \<in> set (L j)" for q
        using out [OF j] one_order [OF inv j k that] False that by blast
      then have "frames z' q = st q" if "q \<in> set (L j)" for q using new(2) that by (simp add: fields links_only_def)
      then have "area_holds (frames z') (areas z ! j) (L j)" using hold [OF j] by (auto intro: area_holds_cong)
      then show ?thesis using False by (simp add: fields)
    qed
    have act: "active_orders z' = active_orders (set_order_active k z)"
      by (simp add: z' set_order_active_def on_area_def on_page_def Let_def split: prod.split)
    have "ps \<noteq> []" using ps by (metis empty_set insert_not_empty)
    then show "bit (active_orders z') j \<longleftrightarrow> j \<le> MAX_ORDER \<and> (L(k := ps)) j \<noteq> []" for j
      using ok(4) [of j] k by (auto simp: act bit_set_order)
    show "block_ok M q j" if "j \<le> MAX_ORDER" "q \<in> set ((L(k := ps)) j)" for j q
      using that ok(5) [OF that(1), of q] blk by (auto split: if_splits)
    show "q \<in> set ((L(k := ps)) j) \<longleftrightarrow> is_free_buddy j (frames z' q) z'" if "j \<le> MAX_ORDER" "q \<notin> X - {p}" for j q
      using ok(6) [OF that(1), of q] out [OF that(1)] that(2) by (auto simp: lab [OF that(1)] split: if_splits)
    show "q \<notin> set ((L(k := ps)) j)" if "j \<le> MAX_ORDER" "q \<in> X - {p}" for j q
      using ok(7) [OF that(1), of q] that(2) by (auto split: if_splits)
    have new_disj: "block_frames p k \<inter> block_frames q j = {}" if "j \<le> MAX_ORDER" "q \<in> set (L j)" for j q
      using free free_frames_member [OF that(1), of q L] that(2) by blast
    show "block_frames q i \<inter> block_frames r j = {}"
      if h: "i \<le> MAX_ORDER" "j \<le> MAX_ORDER" "q \<in> set ((L(k := ps)) i)" "r \<in> set ((L(k := ps)) j)" "(q, i) \<noteq> (r, j)" for i j q r
    proof -
      have "(q, i) = (p, k) \<or> q \<in> set (L i)" "(r, j) = (p, k) \<or> r \<in> set (L j)" using h(3,4) by (auto split: if_splits)
      then show ?thesis using ok(8) [OF h(1,2) _ _ h(5)] new_disj [OF h(1)] new_disj [OF h(2)] h(5) by blast
    qed
    show "q XOR push_bit j 1 \<notin> set ((L(k := ps)) j)" if h: "j < MAX_ORDER" "q \<in> set ((L(k := ps)) j)" for j q
    proof (cases "j = k")
      case True
      have ne: "p XOR push_bit k 1 \<noteq> p" using merged_block(3) [of k p] blk h(1) True by (simp add: block_ok_def)
      show ?thesis
      proof (cases "q = p")
        case True
        then show ?thesis using \<open>j = k\<close> alone h(1) ne by simp
      next
        case False
        then have q: "q \<in> set (L k)" using h(2) True by simp
        have "q XOR push_bit k 1 \<noteq> p" using alone xor_twice [of q "push_bit k 1"] q h(1) True by auto
        then show ?thesis using True ok(9) [OF _ q] h(1) by simp
      qed
    next
      case False
      then show ?thesis using ok(9) [OF h(1), of q] h(2) by simp
    qed
  qed
qed

lemma link_inv:
  assumes inv: "zone_inv M X z L" and blk: "block_ok M p k" and free: "block_frames p k \<inter> free_frames L = {}"
    and alone: "k < MAX_ORDER \<Longrightarrow> p XOR push_bit k 1 \<notin> set (L k)"
    and z': "z' = set_order_active k (on_area k (push_hot p) (on_page p (setup_buddy_metadata Free (zone_mobility z) k (node_id z)) z))"
  shows "zone_inv M (X - {p}) z' (L(k := p # L k))" "keeps (block_frames p k) z z'"
proof -
  have "area_holds st' a' (p # L k) \<and> links_only (insert p (set (L k))) st st'"
    if "area_holds st a (L k)" "p \<notin> set (L k)" "push_hot p (a, st) = (a', st')" for a st a' st'
    using push_hot_ok [OF that] by blast
  note put = put_inv [where push = push_hot and ps = "p # L k", OF inv blk free alone this _ z']
  show "zone_inv M (X - {p}) z' (L(k := p # L k))" "keeps (block_frames p k) z z'" by (rule put; simp)+
qed

lemma unlink_inv:
  assumes inv: "zone_inv M {} z L" and k: "k \<le> MAX_ORDER" and p: "p \<in> set (L k)"
    and z': "z' = on_page p (set_state Active) (clear_if_empty k (on_area k (area_remove p) z))"
  shows "\<exists>ps. set ps = set (L k) - {p} \<and> zone_inv M {} z' (L(k := ps)) \<and> keeps (block_frames p k) z z'"
proof -
  obtain xs ys where L: "L k = xs @ p # ys" using p by (meson split_list)
  obtain a st where rem: "area_remove p (areas z ! k, frames z) = (a, st)" by fastforce
  have hold: "area_holds (frames z) (areas z ! k) (xs @ p # ys)" using zone_invD(3) [OF inv k] L by simp
  note r = area_remove_ok [OF hold rem]
  have ps: "set (xs @ ys) = set (L k) - {p}" using hold L by (auto simp: area_holds_def)
  define z1 where "z1 = clear_if_empty k (z\<lparr>areas := (areas z)[k := a], frames := st\<rparr>)"
  have z1: "z1 = clear_if_empty k (on_area k (area_remove p) z)" using rem by (simp add: z1_def on_area_def)
  have "zone_inv M {p} z1 (L(k := xs @ ys))"
    using shrink_inv [OF inv k p ps _ r(1) r(2) [folded L] z1_def] L by simp
  then have "zone_inv M ({} - {p}) (on_page p (set_state Active) z1) (L(k := xs @ ys))"
    by (rule release_inv) (simp_all add: labelled_set_active, simp_all add: set_state_def)
  moreover have "keeps (block_frames p k) z z'"
    using r(2) block_frames_self [of p k] by (auto simp: keeps_def z' on_page_def z1_def links_only_def simp flip: z1)
  moreover have "z' = on_page p (set_state Active) z1" by (simp only: z' z1)
  ultimately show ?thesis using ps by (intro exI [of _ "xs @ ys"]) simp
qed

lemma pop_area_inv:
  assumes inv: "zone_inv M {} z L" and k: "k \<le> MAX_ORDER" "L k = p # t"
  shows "\<exists>z'. pop_area k z = (Some p, z') \<and> zone_inv M {p} z' (L(k := t)) \<and> keeps (block_frames p k) z z'"
proof -
  obtain r a st where pop: "pop_hot (areas z ! k, frames z) = (r, a, st)" by (metis prod_cases3)
  note popped = pop_hot_ok(2) [OF zone_invD(3) [OF inv k(1)] k(2) pop]
  have "distinct (p # t)" using zone_invD(3) [OF inv k(1)] k(2) by (simp add: area_holds_def)
  then have "set t = set (L k) - {p}" using k(2) by auto
  then have "zone_inv M {p} (clear_if_empty k (z\<lparr>areas := (areas z)[k := a], frames := st\<rparr>)) (L(k := t))"
    using popped k(2) by (intro shrink_inv [OF inv k(1), of p t st a]) auto
  moreover have "keeps (block_frames p k) z (clear_if_empty k (z\<lparr>areas := (areas z)[k := a], frames := st\<rparr>))"
    using popped by (simp add: keeps_def links_only_def)
  moreover have "pop_area k z = (Some p, clear_if_empty k (z\<lparr>areas := (areas z)[k := a], frames := st\<rparr>))"
    using pop popped by (simp add: pop_area_def)
  ultimately show ?thesis by blast
qed

end
