(* ===== verification/BuddyProps.thy ===== *)
theory BuddyProps
  imports BuddyInv
begin

unbundle bit_operations_syntax

text \<open>
  What the buddy allocator does to the set of free frames, and that it keeps its invariant.
\<close>

subsection \<open>Definitions\<close>

definition deferred_order :: "zone \<Rightarrow> pfn \<Rightarrow> nat" where
  "deferred_order z p = get_order (frames z p)"

primrec deferred_ok :: "pfn \<Rightarrow> zone \<Rightarrow> nat set \<Rightarrow> pfn list \<Rightarrow> bool" where
  "deferred_ok M z F [] \<longleftrightarrow> True"
| "deferred_ok M z F (p # ps) \<longleftrightarrow> block_ok M p (deferred_order z p) \<and> block_frames p (deferred_order z p) \<inter> F = {} \<and>
     deferred_ok M z (F \<union> block_frames p (deferred_order z p)) ps"

definition deferred_frames :: "zone \<Rightarrow> pfn list \<Rightarrow> nat set" where
  "deferred_frames z ps = (\<Union>p\<in>set ps. block_frames p (deferred_order z p))"

text \<open>
  A zone between two operations: the invariant, the count of the pages in its lists, and blocks in the
  deferred ring that are apart from each other and from the free ones.
\<close>

definition zone_ok :: "pfn \<Rightarrow> zone \<Rightarrow> (nat \<Rightarrow> pfn list) \<Rightarrow> bool" where
  "zone_ok M z L \<longleftrightarrow> zone_inv M {} z L \<and> total_free_pages z = of_nat (card (free_frames L)) \<and>
     deferred_ok M z (free_frames L) (deferred_frees z)"

text \<open>What a locked operation leaves alone: like \<^const>\<open>keeps\<close>, but the count and the deferred ring may change.\<close>

definition calm :: "nat set \<Rightarrow> zone \<Rightarrow> zone \<Rightarrow> bool" where
  "calm A z z' \<longleftrightarrow> zone_mobility z' = zone_mobility z \<and> node_id z' = node_id z \<and> watermarks z' = watermarks z \<and>
     (\<forall>q. unat q \<notin> A \<longrightarrow> page_flags (frames z' q) = page_flags (frames z q))"

lemma calm_keeps: "keeps A z z' \<Longrightarrow> calm A z z'"
  by (simp add: calm_def keeps_def)

lemma calm_trans: "calm A z z' \<Longrightarrow> calm A z' z'' \<Longrightarrow> calm A z z''"
  by (simp add: calm_def)

lemma calm_mono: "calm A z z' \<Longrightarrow> A \<subseteq> B \<Longrightarrow> calm B z z'"
  by (auto simp: calm_def)

lemma calm_counters [simp]: "calm A z (add_free_pages n z') = calm A z z'" "calm A z (sub_free_pages n z') = calm A z z'" "calm A z z"
  by (simp_all add: calm_def add_free_pages_def sub_free_pages_def)

lemma zone_inv_cong:
  assumes "areas z' = areas z" "active_orders z' = active_orders z" "frames z' = frames z" "zone_mobility z' = zone_mobility z" "node_id z' = node_id z"
  shows "zone_inv M X z' L = zone_inv M X z L"
proof -
  have "is_free_buddy k p z' = is_free_buddy k p z" for k p by (simp add: is_free_buddy_def assms)
  then show ?thesis unfolding zone_inv_def assms by (simp only:)
qed

lemma zone_inv_counters [simp]:
  "zone_inv M X (z\<lparr>deferred_frees := ps\<rparr>) L = zone_inv M X z L" "zone_inv M X (add_free_pages n z) L = zone_inv M X z L"
  "zone_inv M X (sub_free_pages n z) L = zone_inv M X z L" "zone_inv M X (z\<lparr>total_free_pages := n\<rparr>) L = zone_inv M X z L"
  by (rule zone_inv_cong; simp add: add_free_pages_def sub_free_pages_def)+

subsection \<open>Merging\<close>

lemma merge_loop_ok:
  assumes "zone_inv M {} z L" "block_ok M p k" "block_frames p k \<inter> free_frames L = {}"
  shows "\<exists>p' k' z' L'. merge_loop M p k z = (p', k', z') \<and> zone_inv M {} z' L' \<and> block_ok M p' k' \<and>
    block_frames p' k' \<inter> free_frames L' = {} \<and> free_frames L' \<union> block_frames p' k' = free_frames L \<union> block_frames p k \<and>
    (k' < MAX_ORDER \<longrightarrow> p' XOR push_bit k' 1 \<notin> set (L' k')) \<and> keeps (free_frames L \<union> block_frames p k) z z'"
  using assms
proof (induction "MAX_ORDER - k" arbitrary: p k z L)
  case 0
  then have "k = MAX_ORDER" by (simp add: block_ok_def)
  then have "merge_loop M p k z = (p, k, z)" by (simp add: merge_loop.simps)
  then show ?case using 0 \<open>k = MAX_ORDER\<close> by (intro exI [of _ p] exI [of _ k] exI [of _ z] exI [of _ L]) simp
next
  case (Suc m)
  define b where "b = p XOR push_bit k 1"
  have k: "k < MAX_ORDER" "k \<le> MAX_ORDER" using Suc(2) by simp_all
  have al: "2 ^ k dvd unat p" "unat p + 2 ^ k \<le> unat M" using Suc(4) by (auto simp: block_ok_def)
  note merged = merged_block [OF al(1) k(1), folded b_def]
  show ?case
  proof (cases "b \<ge> M \<or> \<not> is_free_buddy k (frames z b) z")
    case True
    then have "merge_loop M p k z = (p, k, z)" using k by (subst merge_loop.simps) (auto simp: Let_def b_def)
    moreover have "b \<notin> set (L k)"
    proof
      assume b: "b \<in> set (L k)"
      then have "unat b + 2 ^ k \<le> unat M" using zone_invD(5) [OF Suc(3) k(2)] by (simp add: block_ok_def)
      moreover have "(0 :: nat) < 2 ^ k" by simp
      ultimately have "unat b < unat M" by linarith
      then show False using True zone_invD(6) [OF Suc(3) k(2), of b] b by (simp add: word_le_nat_alt)
    qed
    ultimately show ?thesis using Suc(3-5) by (intro exI [of _ p] exI [of _ k] exI [of _ z] exI [of _ L]) (simp add: b_def)
  next
    case False
    then have b: "b \<in> set (L k)" using zone_invD(6) [OF Suc(3) k(2), of b] by simp
    define z1 where "z1 = on_page b (set_state Active) (clear_if_empty k (on_area k (area_remove b) z))"
    define l where "l = (if b < p then b else p)"
    obtain ps where ps: "set ps = set (L k) - {b}" "zone_inv M {} z1 (L(k := ps))" "keeps (block_frames b k) z z1"
      using unlink_inv [OF Suc(3) k(2) b z1_def] by blast
    have free: "free_frames (L(k := ps)) = free_frames L - block_frames b k" using free_frames_remove [of M "{}" z L k b ps, OF Suc(3) k(2) b ps(1)] .
    have sub: "block_frames b k \<subseteq> free_frames L" using free_frames_member [of k b L, OF k(2) b] .
    have blk: "block_frames l (k + 1) = block_frames p k \<union> block_frames b k" using merged(2) by (simp add: l_def)
    have "unat b + 2 ^ k \<le> unat M" using zone_invD(5) [OF Suc(3) k(2) b] by (simp add: block_ok_def)
    then have "block_ok M l (k + 1)" using merged(1,4) al(2) k(1) by (simp add: block_ok_def l_def)
    moreover have "block_frames l (k + 1) \<inter> free_frames (L(k := ps)) = {}" using Suc(5) unfolding blk free by blast
    moreover have "m = MAX_ORDER - (k + 1)" using Suc(2) by simp
    ultimately obtain p' k' z' L' where r: "merge_loop M l (k + 1) z1 = (p', k', z')" "zone_inv M {} z' L'" "block_ok M p' k'"
        "block_frames p' k' \<inter> free_frames L' = {}"
        "free_frames L' \<union> block_frames p' k' = free_frames (L(k := ps)) \<union> block_frames l (k + 1)"
        "k' < MAX_ORDER \<longrightarrow> p' XOR push_bit k' 1 \<notin> set (L' k')" "keeps (free_frames (L(k := ps)) \<union> block_frames l (k + 1)) z1 z'"
      using Suc(1) [OF _ ps(2)] by blast
    have un: "free_frames (L(k := ps)) \<union> block_frames l (k + 1) = free_frames L \<union> block_frames p k" unfolding blk free using sub by blast
    have "merge_loop M p k z = merge_loop M l (k + 1) z1"
      using False k by (subst merge_loop.simps) (simp add: Let_def l_def z1_def b_def)
    moreover have "keeps (block_frames b k \<union> (free_frames L \<union> block_frames p k)) z z'" using keeps_trans [OF ps(3) r(7)] by (simp only: un)
    then have "keeps (free_frames L \<union> block_frames p k) z z'" using sub by (metis Un_assoc Un_absorb1)
    ultimately show ?thesis using r(1-6) unfolding un by (intro exI [of _ p'] exI [of _ k'] exI [of _ z'] exI [of _ L']) simp
  qed
qed

lemma merge_ok:
  assumes "zone_inv M {} z L" "block_ok M p k" "block_frames p k \<inter> free_frames L = {}"
  shows "\<exists>L'. zone_inv M {} (buddy_merge_internal M p k z) L' \<and> free_frames L' = free_frames L \<union> block_frames p k \<and>
    keeps (free_frames L \<union> block_frames p k) z (buddy_merge_internal M p k z)"
proof -
  obtain p' k' z' L' where r: "merge_loop M p k z = (p', k', z')" "zone_inv M {} z' L'" "block_ok M p' k'"
      "block_frames p' k' \<inter> free_frames L' = {}" "free_frames L' \<union> block_frames p' k' = free_frames L \<union> block_frames p k"
      "k' < MAX_ORDER \<longrightarrow> p' XOR push_bit k' 1 \<notin> set (L' k')" "keeps (free_frames L \<union> block_frames p k) z z'"
    using merge_loop_ok [OF assms] by blast
  note l = link_inv [OF r(2,3,4) _ refl]
  have eq: "buddy_merge_internal M p k z =
      set_order_active k' (on_area k' (push_hot p') (on_page p' (setup_buddy_metadata Free (zone_mobility z') k' (node_id z')) z'))"
    using r(1) by (simp add: buddy_merge_internal_def on_page_def)
  have k': "k' \<le> MAX_ORDER" using r(3) by (simp add: block_ok_def)
  have "free_frames (L'(k' := p' # L' k')) = free_frames L \<union> block_frames p k" using free_frames_add [OF k'] r(5) by simp
  moreover have "keeps ((free_frames L \<union> block_frames p k) \<union> block_frames p' k') z (buddy_merge_internal M p k z)"
    unfolding eq by (rule keeps_trans [OF r(7) l(2)]) (use r(6) in blast)
  then have "keeps (free_frames L \<union> block_frames p k) z (buddy_merge_internal M p k z)" using r(5) by (metis Un_assoc Un_absorb sup_commute)
  ultimately show ?thesis using l(1) r(6) unfolding eq by (intro exI [of _ "L'(k' := p' # L' k')"]) simp
qed

subsection \<open>The deferred ring\<close>

lemma card_block: "card (block_frames p k) = 2 ^ k" "finite (block_frames p k)"
  by (simp_all add: block_frames_def)

lemma finite_free_frames: "finite (free_frames L)"
  by (simp add: free_frames_def card_block)

lemma card_without:
  assumes "block_frames p k \<subseteq> free_frames L"
  shows "card (free_frames L) = card (free_frames L - block_frames p k) + 2 ^ k"
  using card_Diff_subset [OF card_block(2) assms] card_mono [OF finite_free_frames assms] by (simp add: card_block)

lemma deferred_cong:
  assumes "\<And>q. unat q \<notin> F \<Longrightarrow> deferred_order z' q = deferred_order z q"
  shows "deferred_ok M z' F ps = deferred_ok M z F ps" "deferred_ok M z F ps \<Longrightarrow> deferred_frames z' ps = deferred_frames z ps"
proof -
  have "deferred_ok M z' F ps = deferred_ok M z F ps \<and> (deferred_ok M z F ps \<longrightarrow> deferred_frames z' ps = deferred_frames z ps)"
    using assms
  proof (induction ps arbitrary: F)
    case (Cons p ps)
    have IH: "deferred_ok M z' (F \<union> B) ps = deferred_ok M z (F \<union> B) ps \<and>
        (deferred_ok M z (F \<union> B) ps \<longrightarrow> deferred_frames z' ps = deferred_frames z ps)" for B
      using Cons.prems by (intro Cons.IH) auto
    show ?case
    proof (cases "unat p \<in> F")
      case True
      then have "block_frames p k \<inter> F \<noteq> {}" for k using block_frames_self [of p k] by blast
      then show ?thesis by simp
    next
      case False
      then have "deferred_order z' p = deferred_order z p" by (rule Cons.prems)
      moreover have "deferred_frames x (p # ps) = block_frames p (deferred_order x p) \<union> deferred_frames x ps" for x
        by (simp add: deferred_frames_def)
      ultimately show ?thesis using IH [of "block_frames p (deferred_order z p)"] by auto
    qed
  qed (simp add: deferred_frames_def)
  then show "deferred_ok M z' F ps = deferred_ok M z F ps" "deferred_ok M z F ps \<Longrightarrow> deferred_frames z' ps = deferred_frames z ps" by auto
qed

lemma deferred_apart: "deferred_ok M z F ps \<Longrightarrow> deferred_frames z ps \<inter> F = {}"
  by (induction ps arbitrary: F) (auto simp: deferred_frames_def)

lemma keeps_order: "keeps F z z' \<Longrightarrow> unat q \<notin> F \<Longrightarrow> deferred_order z' q = deferred_order z q"
  by (simp add: keeps_def deferred_order_def get_order_def)

lemma flush_loop_ok:
  assumes "zone_inv M {} z L" "deferred_ok M z (free_frames L) ps"
  shows "\<exists>L' z'. flush_loop M ps n z = (n + of_nat (card (deferred_frames z ps)), z') \<and> zone_inv M {} z' L' \<and>
    free_frames L' = free_frames L \<union> deferred_frames z ps \<and> keeps (free_frames L \<union> deferred_frames z ps) z z'"
  using assms
proof (induction ps arbitrary: z L n)
  case Nil
  then show ?case by (intro exI [of _ L]) (simp add: deferred_frames_def)
next
  case (Cons p ps)
  define k where "k = deferred_order z p"
  define z1 where "z1 = buddy_merge_internal M p k z"
  have blk: "block_ok M p k" "block_frames p k \<inter> free_frames L = {}" and rest: "deferred_ok M z (free_frames L \<union> block_frames p k) ps"
    using Cons.prems(2) by (simp_all add: k_def)
  obtain L1 where m: "zone_inv M {} z1 L1" "free_frames L1 = free_frames L \<union> block_frames p k" "keeps (free_frames L \<union> block_frames p k) z z1"
    using merge_ok [OF Cons.prems(1) blk] unfolding z1_def by blast
  note c = deferred_cong [where F = "free_frames L \<union> block_frames p k" and z = z and z' = z1, OF keeps_order [OF m(3)]]
  have rest1: "deferred_ok M z1 (free_frames L1) ps" using rest c(1) m(2) by simp
  have same: "deferred_frames z1 ps = deferred_frames z ps" using c(2) rest by simp
  obtain L' z' where r: "flush_loop M ps (n + push_bit k 1) z1 = (n + push_bit k 1 + of_nat (card (deferred_frames z1 ps)), z')"
      "zone_inv M {} z' L'" "free_frames L' = free_frames L1 \<union> deferred_frames z1 ps" "keeps (free_frames L1 \<union> deferred_frames z1 ps) z1 z'"
    using Cons.IH [OF m(1) rest1] by blast
  have all: "deferred_frames z (p # ps) = block_frames p k \<union> deferred_frames z ps" by (simp add: deferred_frames_def k_def)
  have "block_frames p k \<inter> deferred_frames z ps = {}" using deferred_apart [OF rest] by blast
  moreover have "finite (deferred_frames z ps)" by (simp add: deferred_frames_def card_block)
  ultimately have "card (deferred_frames z (p # ps)) = 2 ^ k + card (deferred_frames z ps)"
    unfolding all by (simp add: card_Un_disjoint card_block)
  then have count: "n + push_bit k 1 + of_nat (card (deferred_frames z1 ps)) = n + of_nat (card (deferred_frames z (p # ps)))"
    by (simp add: same push_bit_eq_mult add.assoc)
  have loop: "flush_loop M (p # ps) n z = flush_loop M ps (n + push_bit k 1) z1"
    by (simp add: Let_def z1_def k_def deferred_order_def)
  have fr: "free_frames L1 \<union> deferred_frames z1 ps = free_frames L \<union> deferred_frames z (p # ps)" using m(2) all same by blast
  have "keeps ((free_frames L \<union> block_frames p k) \<union> (free_frames L \<union> deferred_frames z (p # ps))) z z'"
    using keeps_trans [OF m(3) r(4)] by (simp only: fr)
  then have "keeps (free_frames L \<union> deferred_frames z (p # ps)) z z'" by (rule keeps_mono) (use all in blast)
  then show ?case using r(1-3) unfolding loop count fr by (intro exI [of _ L'] exI [of _ z']) simp
qed

lemma flush_ok:
  assumes "zone_ok M z L"
  shows "\<exists>L'. zone_ok M (flush_deferred_frees_internal M z) L' \<and> deferred_frees (flush_deferred_frees_internal M z) = [] \<and>
    free_frames L' = free_frames L \<union> deferred_frames z (deferred_frees z) \<and>
    calm (free_frames L \<union> deferred_frames z (deferred_frees z)) z (flush_deferred_frees_internal M z)"
proof (cases "deferred_frees z = []")
  case True
  then show ?thesis using assms by (intro exI [of _ L]) (simp add: flush_deferred_frees_internal_def deferred_frames_def)
next
  case False
  define z0 where "z0 = z\<lparr>deferred_frees := []\<rparr>"
  have inv: "zone_inv M {} z L" "total_free_pages z = of_nat (card (free_frames L))" "deferred_ok M z (free_frames L) (deferred_frees z)"
    using assms by (auto simp: zone_ok_def)
  have inv0: "zone_inv M {} z0 L" using inv(1) by (simp add: z0_def)
  have eq: "deferred_order z0 q = deferred_order z q" for q by (simp add: deferred_order_def z0_def)
  note c = deferred_cong [of "free_frames L" z0 z, OF eq]
  obtain L' z' where r: "flush_loop M (deferred_frees z) 0 z0 = (0 + of_nat (card (deferred_frames z0 (deferred_frees z))), z')" "zone_inv M {} z' L'"
      "free_frames L' = free_frames L \<union> deferred_frames z0 (deferred_frees z)" "keeps (free_frames L \<union> deferred_frames z0 (deferred_frees z)) z0 z'"
    using flush_loop_ok [OF inv0] inv(3) c(1) by blast
  have df: "deferred_frames z0 (deferred_frees z) = deferred_frames z (deferred_frees z)" using c(2) inv(3) by simp
  have fl: "flush_deferred_frees_internal M z = add_free_pages (of_nat (card (deferred_frames z (deferred_frees z)))) z'"
    using False r(1) by (simp add: flush_deferred_frees_internal_def df flip: z0_def)
  have "finite (deferred_frames z (deferred_frees z))" by (simp add: deferred_frames_def card_block)
  then have "card (free_frames L') = card (free_frames L) + card (deferred_frames z (deferred_frees z))"
    unfolding r(3) df using deferred_apart [OF inv(3)] finite_free_frames [of L] by (subst card_Un_disjoint) auto
  then have "total_free_pages z' + of_nat (card (deferred_frames z (deferred_frees z))) = of_nat (card (free_frames L'))"
    using r(4) inv(2) by (simp add: keeps_def z0_def)
  then show ?thesis using r(2-4) unfolding fl df
    by (intro exI [of _ L']) (simp add: zone_ok_def add_free_pages_def keeps_def calm_def z0_def)
qed

subsection \<open>Splitting\<close>

lemma upper_half:
  fixes p :: pfn assumes "2 ^ Suc k dvd unat p" "k < MAX_ORDER"
  shows "p + push_bit k 1 = p XOR push_bit k 1" "unat (p + push_bit k 1) = unat p + 2 ^ k" "2 ^ k dvd unat (p + push_bit k 1)"
proof -
  have k: "k < 64" using assms(2) by (simp add: MAX_ORDER_def)
  have "even (unat p div 2 ^ k)" using assms(1) by (auto elim!: dvdE)
  then have "\<not> bit (unat p) k" by (simp add: bit_iff_odd)
  then have b: "\<not> bit p k" using k by (simp add: bit_simps)
  have "p + push_bit k 1 = p OR push_bit k 1" using b by (intro disjunctive_add) (auto simp: bit_simps)
  moreover have "p OR push_bit k 1 = p XOR push_bit k 1" using b by (intro bit_word_eqI) (auto simp: bit_simps)
  ultimately show eq: "p + push_bit k 1 = p XOR push_bit k 1" by simp
  show u: "unat (p + push_bit k 1) = unat p + 2 ^ k" unfolding eq by (rule unat_buddy(2) [OF k b])
  have "2 ^ k dvd unat p" using assms(1) by (rule dvd_trans [rotated]) simp
  then show "2 ^ k dvd unat (p + push_bit k 1)" unfolding u by simp
qed

lemma block_ok_smaller:
  assumes "block_ok M p k" "r \<le> k"
  shows "block_ok M p r"
proof -
  have "(2 :: nat) ^ r \<le> 2 ^ k" using assms(2) by (rule power_increasing) simp
  then have "unat p + 2 ^ r \<le> unat M" using assms(1) unfolding block_ok_def by linarith
  moreover have "2 ^ r dvd unat p" using assms by (auto simp: block_ok_def intro: dvd_trans [OF le_imp_power_dvd])
  ultimately show ?thesis using assms by (simp add: block_ok_def)
qed

lemma split_loop_ok:
  assumes "zone_inv M {p} z L" "block_ok M p c" "r \<le> c" "block_frames p c \<inter> free_frames L = {}"
  shows "\<exists>L'. zone_inv M {p} (split_loop p c r z) L' \<and> free_frames L' = free_frames L \<union> (block_frames p c - block_frames p r) \<and>
    keeps (block_frames p c) z (split_loop p c r z)"
  using assms
proof (induction c arbitrary: z L)
  case 0
  then show ?case by (intro exI [of _ L]) simp
next
  case (Suc c)
  show ?case
  proof (cases "r \<le> c")
    case False
    then have "r = Suc c" using Suc.prems(3) by simp
    then show ?thesis using Suc.prems by (intro exI [of _ L]) simp
  next
    case True
    define u where "u = p + push_bit c 1"
    have al: "2 ^ Suc c dvd unat p" "c < MAX_ORDER" "unat p + 2 ^ Suc c \<le> unat M" using Suc.prems(2) by (auto simp: block_ok_def)
    note up = upper_half [OF al(1,2), folded u_def]
    define z1 where "z1 = set_order_active c (on_area c (push_hot u) (on_page u (setup_buddy_metadata Free (zone_mobility z) c (node_id z)) z))"
    have halves: "block_frames p (Suc c) = block_frames p c \<union> block_frames u c" "block_frames p c \<inter> block_frames u c = {}"
      using up(2) by (auto simp: block_frames_def)
    have blk: "block_ok M u c" "block_ok M p c" using al up(2,3) dvd_trans [OF _ al(1), of "2 ^ c"] by (auto simp: block_ok_def)
    have free: "block_frames u c \<inter> free_frames L = {}" "block_frames p c \<inter> free_frames L = {}" using Suc.prems(4) halves(1) by blast+
    have "u XOR push_bit c 1 = p" using up(1) xor_twice by simp
    then have alone: "c < MAX_ORDER \<Longrightarrow> u XOR push_bit c 1 \<notin> set (L c)" using zone_invD(7) [OF Suc.prems(1), of c p] by simp
    note l = link_inv [OF Suc.prems(1) blk(1) free(1) alone z1_def]
    have "u \<noteq> p" using block_frames_self [of u c] block_frames_self [of p c] halves(2) by blast
    then have inv1: "zone_inv M {p} z1 (L(c := u # L c))" using l(1) by simp
    have fr1: "free_frames (L(c := u # L c)) = free_frames L \<union> block_frames u c" using free_frames_add [of c L u] al(2) by simp
    have "block_frames p c \<inter> free_frames (L(c := u # L c)) = {}" unfolding fr1 using free(2) halves(2) by blast
    then obtain L' where r: "zone_inv M {p} (split_loop p c r z1) L'" "free_frames L' = free_frames (L(c := u # L c)) \<union> (block_frames p c - block_frames p r)"
        "keeps (block_frames p c) z1 (split_loop p c r z1)"
      using Suc.IH [OF inv1 blk(2) True] by blast
    have "block_frames p r \<subseteq> block_frames p c" using True power_increasing [OF True, of "2 :: nat"] by (auto simp: block_frames_def)
    then have "free_frames L' = free_frames L \<union> (block_frames p (Suc c) - block_frames p r)"
      unfolding r(2) fr1 halves(1) using halves(2) by blast
    moreover have "split_loop p (Suc c) r z = split_loop p c r z1" using True by (simp add: Let_def z1_def u_def)
    moreover have "keeps (block_frames u c \<union> block_frames p c) z (split_loop p c r z1)" by (rule keeps_trans [OF l(2) r(3)])
    then have "keeps (block_frames p (Suc c)) z (split_loop p c r z1)" unfolding halves(1) by (simp add: Un_commute)
    ultimately show ?thesis using r(1) by (intro exI [of _ L']) simp
  qed
qed

lemma bit_available: "bit (available_orders r z) j \<longleftrightarrow> bit (active_orders z) j \<and> r \<le> j" if "r \<le> MAX_ORDER"
proof -
  have "(push_bit r 1 - 1 :: u32) = mask r" by (simp add: mask_eq_exp_minus_1)
  then show ?thesis unfolding available_orders_def by (auto simp: bit_simps dest: bit_imp_le_length)
qed

text \<open>Taking a block of at least the requested order out of its list and splitting it.\<close>

lemma take_and_split:
  assumes inv: "zone_inv M {} z L" and k: "k \<le> MAX_ORDER" "L k = p # t" "r \<le> k"
  shows "\<exists>z' z'' L'. pop_area k z = (Some p, z') \<and> z'' = on_page p (setup_buddy_metadata Active (zone_mobility z') r (node_id z')) (split_loop p k r z') \<and>
    zone_mobility (split_loop p k r z') = zone_mobility z' \<and> node_id (split_loop p k r z') = node_id z' \<and>
    zone_inv M {} z'' L' \<and> block_ok M p r \<and> block_frames p r \<subseteq> free_frames L \<and> free_frames L' = free_frames L - block_frames p r \<and>
    keeps (free_frames L) z z'' \<and> get_order (frames z'' p) = r \<and> flags_state (page_flags (frames z'' p)) = state_code Active"
proof -
  have p: "p \<in> set (L k)" using k(2) by simp
  obtain z' where z': "pop_area k z = (Some p, z')" "zone_inv M {p} z' (L(k := t))" "keeps (block_frames p k) z z'"
    using pop_area_inv [OF inv k(1,2)] by blast
  have "distinct (p # t)" using zone_invD(3) [OF inv k(1)] k(2) by (simp add: area_holds_def)
  then have "set t = set (L k) - {p}" using k(2) by auto
  then have fr: "free_frames (L(k := t)) = free_frames L - block_frames p k" using free_frames_remove [of M "{}" z L k p t, OF inv k(1) p] by simp
  have blk: "block_ok M p k" using zone_invD(5) [OF inv k(1) p] .
  have sub: "block_frames p r \<subseteq> block_frames p k" "block_frames p k \<subseteq> free_frames L"
    using k(3) power_increasing [OF k(3), of "2 :: nat"] free_frames_member [of k p L, OF k(1) p] by (auto simp: block_frames_def)
  obtain L' where s: "zone_inv M {p} (split_loop p k r z') L'" "free_frames L' = free_frames (L(k := t)) \<union> (block_frames p k - block_frames p r)"
      "keeps (block_frames p k) z' (split_loop p k r z')"
    using split_loop_ok [OF z'(2) blk k(3)] fr by blast
  define z'' where "z'' = on_page p (setup_buddy_metadata Active (zone_mobility z') r (node_id z')) (split_loop p k r z')"
  have rm: "r \<le> MAX_ORDER" using k by simp
  have "zone_inv M ({} - {p}) z'' L'" unfolding z''_def
    by (rule release_inv) (use s(1) in \<open>simp_all add: labelled_setup_active [OF rm] setup_flags [OF rm]\<close>)
  moreover have "block_ok M p r" using block_ok_smaller [OF blk k(3)] .
  moreover have "free_frames L' = free_frames L - block_frames p r" unfolding s(2) fr using sub by blast
  moreover have "keeps (block_frames p k) (split_loop p k r z') z''"
    using block_frames_self [of p k] by (auto simp: keeps_def z''_def on_page_def)
  then have "keeps (block_frames p k \<union> (block_frames p k \<union> block_frames p k)) z z''" using keeps_trans [OF z'(3) keeps_trans [OF s(3)]] by blast
  then have "keeps (free_frames L) z z''" by (rule keeps_mono) (use sub in blast)
  moreover have "get_order (frames z'' p) = r" "flags_state (page_flags (frames z'' p)) = state_code Active"
    by (simp_all add: z''_def on_page_def get_order_setup [OF rm] setup_flags [OF rm])
  moreover have "zone_mobility (split_loop p k r z') = zone_mobility z'" "node_id (split_loop p k r z') = node_id z'" using s(3) by (auto simp: keeps_def)
  ultimately show ?thesis using z'(1) sub z''_def by (intro exI [of _ z'] exI [of _ z''] exI [of _ L']) auto
qed

lemma extract_ok:
  assumes inv: "zone_inv M {} z L" and r: "r \<le> MAX_ORDER"
  shows "(\<forall>k. r \<le> k \<and> k \<le> MAX_ORDER \<longrightarrow> L k = []) \<Longrightarrow> extract_block_internal r z = Some (None, z)"
    and "\<exists>k. r \<le> k \<and> k \<le> MAX_ORDER \<and> L k \<noteq> [] \<Longrightarrow> \<exists>p z' L'. extract_block_internal r z = Some (Some p, z') \<and> zone_inv M {} z' L' \<and>
      block_ok M p r \<and> block_frames p r \<subseteq> free_frames L \<and> free_frames L' = free_frames L - block_frames p r \<and>
      keeps (free_frames L) z z' \<and> get_order (frames z' p) = r \<and> flags_state (page_flags (frames z' p)) = state_code Active"
proof -
  have av: "available_orders r z = 0 \<longleftrightarrow> (\<forall>k. r \<le> k \<and> k \<le> MAX_ORDER \<longrightarrow> L k = [])"
  proof -
    have "available_orders r z = 0 \<longleftrightarrow> (\<forall>j. \<not> bit (available_orders r z) j)" by (metis bit_0_eq bit_eq_iff bot_apply bot_bool_def)
    then show ?thesis using zone_invD(4) [OF inv] by (auto simp: bit_available [OF r])
  qed
  then show "(\<forall>k. r \<le> k \<and> k \<le> MAX_ORDER \<longrightarrow> L k = []) \<Longrightarrow> extract_block_internal r z = Some (None, z)"
    by (simp add: extract_block_internal_def)
  assume "\<exists>k. r \<le> k \<and> k \<le> MAX_ORDER \<and> L k \<noteq> []"
  then have ne: "available_orders r z \<noteq> 0" using av by blast
  define k where "k = countr_zero (available_orders r z)"
  have "bit (available_orders r z) k" unfolding k_def using ne by (rule countr_zero_char(2))
  then have k: "k \<le> MAX_ORDER" "r \<le> k" "L k \<noteq> []" using zone_invD(4) [OF inv, of k] by (auto simp: bit_available [OF r])
  then obtain p t where "L k = p # t" by (cases "L k") auto
  then obtain z' z'' L' where t: "pop_area k z = (Some p, z')"
      "z'' = on_page p (setup_buddy_metadata Active (zone_mobility z') r (node_id z')) (split_loop p k r z')"
      "zone_mobility (split_loop p k r z') = zone_mobility z'" "node_id (split_loop p k r z') = node_id z'"
      "zone_inv M {} z'' L'" "block_ok M p r" "block_frames p r \<subseteq> free_frames L" "free_frames L' = free_frames L - block_frames p r"
      "keeps (free_frames L) z z''" "get_order (frames z'' p) = r" "flags_state (page_flags (frames z'' p)) = state_code Active"
    using take_and_split [OF inv k(1) _ k(2)] by blast
  have "extract_block_internal r z = Some (Some p, z'')"
    using ne t(1-4) by (simp add: extract_block_internal_def Let_def flip: k_def)
  then show "\<exists>p z' L'. extract_block_internal r z = Some (Some p, z') \<and> zone_inv M {} z' L' \<and>
      block_ok M p r \<and> block_frames p r \<subseteq> free_frames L \<and> free_frames L' = free_frames L - block_frames p r \<and>
      keeps (free_frames L) z z' \<and> get_order (frames z' p) = r \<and> flags_state (page_flags (frames z' p)) = state_code Active" using t(5-11) by blast
qed

subsection \<open>Completeness\<close>

lemma in_aligned_block: "2 ^ k dvd b \<Longrightarrow> y \<in> {b..<b + 2 ^ k} \<longleftrightarrow> y div 2 ^ k = b div 2 ^ k" for b y k :: nat
proof -
  assume "2 ^ k dvd b"
  then obtain c where c: "b = 2 ^ k * c" by (rule dvdE)
  have "y div 2 ^ k = c \<longleftrightarrow> 2 ^ k * c \<le> y \<and> y < 2 ^ k * c + 2 ^ k" by (auto simp: div_nat_eqI dividend_less_times_div mult.commute add.commute)
  then show ?thesis by (simp add: c)
qed

lemma nested_blocks:
  fixes a b x :: nat
  assumes "2 ^ j dvd a" "2 ^ k dvd b" "j \<le> k" "x \<in> {a..<a + 2 ^ j}" "x \<in> {b..<b + 2 ^ k}"
  shows "{a..<a + 2 ^ j} \<subseteq> {b..<b + 2 ^ k}"
proof
  fix y assume y: "y \<in> {a..<a + 2 ^ j}"
  have "y div 2 ^ j = x div 2 ^ j" using y assms(4) in_aligned_block [OF assms(1)] by simp
  moreover have "w div 2 ^ k = w div 2 ^ j div 2 ^ (k - j)" for w :: nat
    using assms(3) by (metis div_mult2_eq le_add_diff_inverse power_add)
  ultimately have "y div 2 ^ k = x div 2 ^ k" by simp
  then show "y \<in> {b..<b + 2 ^ k}" using assms(5) in_aligned_block [OF assms(2)] by simp
qed

text \<open>Buddies never stay apart: an aligned run of free frames lies in one block.\<close>

lemma run_in_block:
  assumes inv: "zone_inv M {} z L" and r: "r \<le> MAX_ORDER" and run: "2 ^ r dvd a" "{a..<a + 2 ^ r} \<subseteq> free_frames L"
  shows "\<exists>k. r \<le> k \<and> k \<le> MAX_ORDER \<and> L k \<noteq> []"
proof (rule ccontr)
  assume none: "\<not> ?thesis"
  let ?P = "\<lambda>j. j \<le> MAX_ORDER \<and> (\<exists>q\<in>set (L j). block_frames q j \<inter> {a..<a + 2 ^ r} \<noteq> {})"
  have cover: "\<exists>j q. j \<le> MAX_ORDER \<and> q \<in> set (L j) \<and> x \<in> block_frames q j" if "x \<in> {a..<a + 2 ^ r}" for x
  proof -
    have "x \<in> free_frames L" using run(2) that by blast
    then show ?thesis by (auto simp: free_frames_def)
  qed
  have "a \<in> {a..<a + 2 ^ r}" by simp
  then have "\<exists>j. ?P j" using cover [of a] by blast
  define j where "j = (LEAST j. ?P j)"
  have "?P j" unfolding j_def using \<open>\<exists>j. ?P j\<close> by (rule LeastI_ex)
  then obtain q x where q: "j \<le> MAX_ORDER" "q \<in> set (L j)" "x \<in> block_frames q j" "x \<in> {a..<a + 2 ^ r}" by blast
  have jr: "j < r" using none q(1,2) by force
  have al: "2 ^ j dvd unat q" using zone_invD(5) [OF inv q(1,2)] by (simp add: block_ok_def)
  define b where "b = q XOR push_bit j 1"
  define l where "l = (if b < q then b else q)"
  have jm: "j < MAX_ORDER" using jr r by simp
  note m = merged_block [OF al jm, folded b_def, folded l_def]
  have "x \<in> block_frames l (j + 1)" using q(3) m(2) by blast
  then have "block_frames l (j + 1) \<subseteq> {a..<a + 2 ^ r}"
    unfolding block_frames_def using nested_blocks [OF m(1) run(1)] jr q(4) by simp
  moreover have ub: "unat b \<in> block_frames l (j + 1)" using m(2) block_frames_self [of b j] by blast
  ultimately obtain j2 q2 where q2: "j2 \<le> MAX_ORDER" "q2 \<in> set (L j2)" "unat b \<in> block_frames q2 j2" using cover [of "unat b"] by blast
  have al2: "2 ^ j2 dvd unat q2" using zone_invD(5) [OF inv q2(1,2)] by (simp add: block_ok_def)
  have "?P j2" using q2 ub \<open>block_frames l (j + 1) \<subseteq> {a..<a + 2 ^ r}\<close> by blast
  then have "j \<le> j2" unfolding j_def by (rule Least_le)
  show False
  proof (cases "j = j2")
    case True
    have "unat b div 2 ^ j = unat q2 div 2 ^ j" using q2(3) in_aligned_block [OF al2] True by (simp add: block_frames_def)
    moreover have "2 ^ j dvd unat b" using al unat_buddy [of j q, folded b_def] jm
      by (cases "bit q j") (simp add: MAX_ORDER_def, metis dvd_add_left_iff dvd_refl, simp add: MAX_ORDER_def)
    ultimately have "unat b = unat q2" using al2 True by (metis dvd_div_mult_self)
    then have "b = q2" by (rule unsigned_word_eqI)
    then show False using zone_invD(9) [OF inv jm q(2)] q2(2) True by (simp add: b_def)
  next
    case False
    then have "j + 1 \<le> j2" using \<open>j \<le> j2\<close> by simp
    then have "block_frames l (j + 1) \<subseteq> block_frames q2 j2"
      using nested_blocks [OF m(1) al2 _ ub [unfolded block_frames_def] q2(3) [unfolded block_frames_def]] by (simp add: block_frames_def)
    then have "x \<in> block_frames q2 j2" using q(3) m(2) by blast
    then show False using zone_invD(8) [OF inv q(1) q2(1) q(2) q2(2)] q(3) False by blast
  qed
qed

subsection \<open>Under the lock\<close>

abbreviation all_free :: "zone \<Rightarrow> (nat \<Rightarrow> pfn list) \<Rightarrow> nat set" where
  "all_free z L \<equiv> free_frames L \<union> deferred_frames z (deferred_frees z)"

lemma alloc_ok:
  assumes "zone_ok M z L" "r \<le> MAX_ORDER"
  shows "\<exists>page w z' L'. alloc_pages_locked M daemons r z = Some (page, w, z') \<and> zone_ok M z' L' \<and> deferred_frees z' = [] \<and> calm (all_free z L) z z' \<and>
    (case page of
      Some p \<Rightarrow> block_ok M p r \<and> block_frames p r \<subseteq> all_free z L \<and> free_frames L' = all_free z L - block_frames p r \<and>
        get_order (frames z' p) = r \<and> flags_state (page_flags (frames z' p)) = state_code Active
    | None \<Rightarrow> free_frames L' = all_free z L \<and> \<not> (\<exists>a. 2 ^ r dvd a \<and> {a..<a + 2 ^ r} \<subseteq> all_free z L))"
proof -
  define y where "y = flush_deferred_frees_internal M z"
  obtain K where K: "zone_ok M y K" "deferred_frees y = []" "free_frames K = all_free z L" "calm (all_free z L) z y"
    using flush_ok [OF assms(1)] by (auto simp: y_def)
  have inv: "zone_inv M {} y K" "total_free_pages y = of_nat (card (free_frames K))" using K(1) by (auto simp: zone_ok_def)
  show ?thesis
  proof (cases "\<exists>k. r \<le> k \<and> k \<le> MAX_ORDER \<and> K k \<noteq> []")
    case False
    then have "extract_block_internal r y = Some (None, y)" using extract_ok(1) [OF inv(1) assms(2)] by blast
    then have "alloc_pages_locked M daemons r z = Some (None, evaluate_watermarks daemons (total_free_pages y) r True y, y)"
      by (simp add: alloc_pages_locked_def Let_def flip: y_def)
    moreover have "\<not> (\<exists>a. 2 ^ r dvd a \<and> {a..<a + 2 ^ r} \<subseteq> all_free z L)"
      using run_in_block [OF inv(1) assms(2)] False K(3) by metis
    ultimately show ?thesis using K by - (rule exI [of _ None], rule exI, rule exI [of _ y], rule exI [of _ K], auto)
  next
    case True
    then obtain p z' L' where e: "extract_block_internal r y = Some (Some p, z')" "zone_inv M {} z' L'" "block_ok M p r"
        "block_frames p r \<subseteq> free_frames K" "free_frames L' = free_frames K - block_frames p r" "keeps (free_frames K) y z'" "get_order (frames z' p) = r"
        "flags_state (page_flags (frames z' p)) = state_code Active"
      using extract_ok(2) [OF inv(1) assms(2)] by blast
    define x where "x = sub_free_pages (push_bit r 1) z'"
    have "card (free_frames K) = card (free_frames L') + 2 ^ r"
      using card_without [OF e(4)] e(5) by simp
    then have "total_free_pages x = of_nat (card (free_frames L'))"
      using e(6) inv(2) by (simp add: x_def sub_free_pages_def keeps_def push_bit_eq_mult)
    moreover have "deferred_frees x = []" using e(6) K(2) by (simp add: x_def sub_free_pages_def keeps_def)
    ultimately have "zone_ok M x L'" using e(2) by (simp add: zone_ok_def x_def)
    moreover have "alloc_pages_locked M daemons r z = Some (Some p, evaluate_watermarks daemons (total_free_pages x) r False x, x)"
      using e(1) by (simp add: alloc_pages_locked_def Let_def x_def flip: y_def)
    moreover have "get_order (frames x p) = r" "flags_state (page_flags (frames x p)) = state_code Active"
      using e(7,8) by (simp_all add: x_def sub_free_pages_def)
    moreover have "calm (all_free z L) z x" using calm_trans [OF K(4)] calm_keeps [OF e(6)] unfolding K(3) x_def calm_counters by blast
    ultimately show ?thesis using e(3-5) K(3) \<open>deferred_frees x = []\<close> by - (rule exI [of _ "Some p"], rule exI, rule exI [of _ x], rule exI [of _ L'], auto)
  qed
qed

lemma free_ok:
  assumes "zone_ok M z L" "block_ok M p k" "block_frames p k \<inter> all_free z L = {}"
  shows "\<exists>L'. zone_ok M (free_page_locked M p k z) L' \<and> deferred_frees (free_page_locked M p k z) = [] \<and>
    free_frames L' = all_free z L \<union> block_frames p k \<and> calm (all_free z L \<union> block_frames p k) z (free_page_locked M p k z)"
proof -
  define y where "y = flush_deferred_frees_internal M z"
  obtain K where K: "zone_ok M y K" "deferred_frees y = []" "free_frames K = all_free z L" "calm (all_free z L) z y"
    using flush_ok [OF assms(1)] by (auto simp: y_def)
  have inv: "zone_inv M {} y K" "total_free_pages y = of_nat (card (free_frames K))" using K(1) by (auto simp: zone_ok_def)
  define x where "x = buddy_merge_internal M p k y"
  obtain L' where m: "zone_inv M {} x L'" "free_frames L' = free_frames K \<union> block_frames p k" "keeps (free_frames K \<union> block_frames p k) y x"
    using merge_ok [OF inv(1) assms(2)] assms(3) K(3) unfolding x_def by auto
  have "card (free_frames L') = card (free_frames K) + 2 ^ k"
    unfolding m(2) using assms(3) K(3) card_block [of p k] finite_free_frames [of K] by (subst card_Un_disjoint) auto
  then have "total_free_pages (add_free_pages (push_bit k 1) x) = of_nat (card (free_frames L'))"
    using m(3) inv(2) by (simp add: add_free_pages_def keeps_def push_bit_eq_mult)
  moreover have "deferred_frees (add_free_pages (push_bit k 1) x) = []" using m(3) K(2) by (simp add: add_free_pages_def keeps_def)
  moreover have "free_page_locked M p k z = add_free_pages (push_bit k 1) x"
    by (simp add: free_page_locked_def Let_def x_def y_def)
  moreover have "calm (all_free z L \<union> block_frames p k) z x"
    using calm_trans [OF calm_mono [OF K(4)], of "all_free z L \<union> block_frames p k"] calm_keeps [OF m(3)] unfolding K(3) by blast
  ultimately show ?thesis using m(1,2) K(3) by (intro exI [of _ L']) (simp add: zone_ok_def)
qed

lemma steal_ok:
  assumes "zone_ok M z L" "r \<le> MAX_ORDER"
  shows "\<exists>page z' L'. extract_largest_block_for_steal M r z = Some (page, z') \<and> zone_ok M z' L' \<and> deferred_frees z' = [] \<and>
    (case page of
      Some p \<Rightarrow> \<exists>k. r \<le> k \<and> block_ok M p k \<and> block_frames p k \<subseteq> all_free z L \<and> free_frames L' = all_free z L - block_frames p k \<and>
        (\<forall>j a. k < j \<and> j \<le> MAX_ORDER \<and> 2 ^ j dvd a \<longrightarrow> \<not> {a..<a + 2 ^ j} \<subseteq> all_free z L)
    | None \<Rightarrow> free_frames L' = all_free z L \<and> \<not> (\<exists>a. 2 ^ r dvd a \<and> {a..<a + 2 ^ r} \<subseteq> all_free z L))"
proof -
  define y where "y = flush_deferred_frees_internal M z"
  obtain K where K: "zone_ok M y K" "deferred_frees y = []" "free_frames K = all_free z L"
    using flush_ok [OF assms(1)] by (auto simp: y_def)
  have inv: "zone_inv M {} y K" "total_free_pages y = of_nat (card (free_frames K))" using K(1) by (auto simp: zone_ok_def)
  define av where "av = available_orders r y"
  have bits: "bit av j \<longleftrightarrow> r \<le> j \<and> j \<le> MAX_ORDER \<and> K j \<noteq> []" for j
    using zone_invD(4) [OF inv(1), of j] by (auto simp: av_def bit_available [OF assms(2)])
  show ?thesis
  proof (cases "av = 0")
    case True
    then have "\<not> (\<exists>k. r \<le> k \<and> k \<le> MAX_ORDER \<and> K k \<noteq> [])" using bits by auto
    then have "\<not> (\<exists>a. 2 ^ r dvd a \<and> {a..<a + 2 ^ r} \<subseteq> all_free z L)" using run_in_block [OF inv(1) assms(2)] K(3) by metis
    moreover have "extract_largest_block_for_steal M r z = Some (None, y)"
      using True by (simp add: extract_largest_block_for_steal_def Let_def av_def flip: y_def)
    ultimately show ?thesis using K by (intro exI [of _ None] exI [of _ y] exI [of _ K]) auto
  next
    case False
    define k where "k = bit_width av - 1"
    have k: "r \<le> k" "k \<le> MAX_ORDER" "K k \<noteq> []" using bit_width_char(3) [OF False] bits [of k] by (auto simp: k_def)
    have top: "\<not> {a..<a + 2 ^ j} \<subseteq> all_free z L" if j: "k < j" "j \<le> MAX_ORDER" "2 ^ j dvd a" for j a
    proof
      assume "{a..<a + 2 ^ j} \<subseteq> all_free z L"
      then obtain i where "j \<le> i" "i \<le> MAX_ORDER" "K i \<noteq> []" using run_in_block [OF inv(1) j(2,3)] K(3) by auto
      then have "bit av i" "bit_width av \<le> i" using bits k(1) j(1) by (auto simp: k_def)
      then show False using bit_width_char(4) [OF False] by blast
    qed
    obtain p t where pt: "K k = p # t" using k(3) by (cases "K k") auto
    obtain z' where z': "pop_area k y = (Some p, z')" "zone_inv M {p} z' (K(k := t))" "keeps (block_frames p k) y z'"
      using pop_area_inv [OF inv(1) k(2) pt] by blast
    define x where "x = sub_free_pages (push_bit k 1) (on_page p (set_state Active) z')"
    have pK: "p \<in> set (K k)" using pt by simp
    have "distinct (p # t)" using zone_invD(3) [OF inv(1) k(2)] pt by (simp add: area_holds_def)
    then have "set t = set (K k) - {p}" using pt by auto
    then have fr: "free_frames (K(k := t)) = free_frames K - block_frames p k" using free_frames_remove [of M "{}" y K k p t, OF inv(1) k(2) pK] by simp
    have "zone_inv M ({} - {p}) (on_page p (set_state Active) z') (K(k := t))"
      by (rule release_inv) (use z'(2) in \<open>simp_all add: labelled_set_active, simp_all add: set_state_def\<close>)
    then have "zone_inv M {} x (K(k := t))" by (simp add: x_def)
    moreover have sub: "block_frames p k \<subseteq> free_frames K" using free_frames_member [of k p K, OF k(2) pK] .
    then have "card (free_frames K) = card (free_frames (K(k := t))) + 2 ^ k"
      unfolding fr by (rule card_without)
    then have "total_free_pages x = of_nat (card (free_frames (K(k := t))))"
      using z'(3) inv(2) by (simp add: x_def sub_free_pages_def on_page_def keeps_def push_bit_eq_mult)
    moreover have "deferred_frees x = []" using z'(3) K(2) by (simp add: x_def sub_free_pages_def on_page_def keeps_def)
    ultimately have "zone_ok M x (K(k := t))" by (simp add: zone_ok_def)
    moreover have "extract_largest_block_for_steal M r z = Some (Some p, x)"
      using False z'(1) by (simp add: extract_largest_block_for_steal_def Let_def av_def k_def x_def flip: y_def)
    ultimately show ?thesis
      using zone_invD(5) [OF inv(1) k(2) pK] sub fr K(3) k(1) top \<open>deferred_frees x = []\<close>
      by (intro exI [of _ "Some p"] exI [of _ x] exI [of _ "K(k := t)"]) auto
  qed
qed

lemma deferred_grow: "deferred_ok M z F ps \<Longrightarrow> B \<inter> deferred_frames z ps = {} \<Longrightarrow> deferred_ok M z (F \<union> B) ps"
proof (induction ps arbitrary: F)
  case (Cons p ps)
  have "deferred_ok M z ((F \<union> block_frames p (deferred_order z p)) \<union> B) ps"
    using Cons.prems by (intro Cons.IH) (auto simp: deferred_frames_def)
  then have "deferred_ok M z ((F \<union> B) \<union> block_frames p (deferred_order z p)) ps" by (simp add: Un_ac)
  then show ?case using Cons.prems by (auto simp: deferred_frames_def)
qed simp

lemma deferred_anti: "deferred_ok M z F ps \<Longrightarrow> G \<subseteq> F \<Longrightarrow> deferred_ok M z G ps"
proof (induction ps arbitrary: F G)
  case (Cons p ps)
  have "deferred_ok M z (F \<union> block_frames p (deferred_order z p)) ps" using Cons.prems(1) by simp
  moreover have "G \<union> block_frames p (deferred_order z p) \<subseteq> F \<union> block_frames p (deferred_order z p)" using Cons.prems(2) by blast
  ultimately have "deferred_ok M z (G \<union> block_frames p (deferred_order z p)) ps" by (rule Cons.IH)
  then show ?case using Cons.prems by auto
qed simp

lemma take_in_hand:
  assumes "zone_inv M {} z L" "unat p \<notin> free_frames L"
  shows "zone_inv M {p} z L"
proof -
  note ok = zone_invD [OF assms(1)]
  have none: "p \<notin> set (L k)" if "k \<le> MAX_ORDER" for k
    using free_frames_member [of k p L, OF that] block_frames_self [of p k] assms(2) by blast
  show ?thesis
  proof (rule zone_invI [OF ok(1,2)])
    show "area_holds (frames z) (areas z ! k) (L k)" if "k \<le> MAX_ORDER" for k using ok(3) [OF that] .
    show "bit (active_orders z) k \<longleftrightarrow> k \<le> MAX_ORDER \<and> L k \<noteq> []" for k using ok(4) .
    show "block_ok M q k" if "k \<le> MAX_ORDER" "q \<in> set (L k)" for k q using ok(5) [OF that] .
    show "q \<in> set (L k) \<longleftrightarrow> is_free_buddy k (frames z q) z" if "k \<le> MAX_ORDER" for k q using ok(6) [OF that] by simp
    show "q \<notin> set (L k)" if "k \<le> MAX_ORDER" "q \<in> {p}" for k q using none [OF that(1)] that(2) by simp
    show "block_frames q k \<inter> block_frames q' j = {}"
      if "k \<le> MAX_ORDER" "j \<le> MAX_ORDER" "q \<in> set (L k)" "q' \<in> set (L j)" "(q, k) \<noteq> (q', j)" for k j q q' using ok(8) [OF that] .
    show "q XOR push_bit k 1 \<notin> set (L k)" if "k < MAX_ORDER" "q \<in> set (L k)" for k q using ok(9) [OF that] .
  qed
qed

lemma adopt_ok:
  assumes ok: "zone_ok M z L" and p: "block_ok M p k" "r \<le> k" "block_frames p k \<inter> all_free z L = {}"
  shows "\<exists>z' L'. adopt_stolen_block p k r z = (p, z') \<and> zone_ok M z' L' \<and> get_order (frames z' p) = r \<and>
    all_free z' L' = all_free z L \<union> (block_frames p k - block_frames p r)"
proof -
  have inv: "zone_inv M {} z L" "total_free_pages z = of_nat (card (free_frames L))" "deferred_ok M z (free_frames L) (deferred_frees z)"
    using ok by (auto simp: zone_ok_def)
  define B where "B = block_frames p k - block_frames p r"
  define z1 where "z1 = split_loop p k r z"
  define z2 where "z2 = on_page p (setup_buddy_metadata Active (zone_mobility z1) r (node_id z1)) z1"
  define z3 where "z3 = add_free_pages (push_bit k 1 - push_bit r 1) z2"
  have rm: "r \<le> MAX_ORDER" using p by (simp add: block_ok_def)
  have "zone_inv M {p} z L" using take_in_hand [OF inv(1)] p(3) block_frames_self [of p k] by blast
  then obtain L' where s: "zone_inv M {p} z1 L'" "free_frames L' = free_frames L \<union> B" "keeps (block_frames p k) z z1"
    using split_loop_ok [OF _ p(1,2)] p(3) unfolding z1_def B_def by blast
  have "zone_inv M ({} - {p}) z2 L'" unfolding z2_def
    by (rule release_inv) (use s(1) in \<open>simp_all add: labelled_setup_active [OF rm] setup_flags [OF rm]\<close>)
  then have inv3: "zone_inv M {} z3 L'" by (simp add: z3_def)
  have k2: "keeps (block_frames p k) z1 z2" using block_frames_self [of p k] by (auto simp: keeps_def z2_def on_page_def)
  have "keeps (block_frames p k \<union> block_frames p k) z z2" using keeps_trans [OF s(3) k2] .
  then have kp: "keeps (block_frames p k) z z2" by simp
  have sub: "block_frames p r \<subseteq> block_frames p k" using power_increasing [OF p(2), of "2 :: nat"] by (auto simp: block_frames_def)
  have "card (free_frames L') = card (free_frames L) + card B"
    unfolding s(2) using p(3) finite_free_frames [of L] card_block [of p k] by (subst card_Un_disjoint) (auto simp: B_def)
  moreover have "card B = 2 ^ k - 2 ^ r" using sub card_block [of p k] card_block [of p r] by (simp add: B_def card_Diff_subset)
  moreover have "(of_nat (2 ^ k - 2 ^ r) :: u64) = push_bit k 1 - push_bit r 1"
    using power_increasing [OF p(2), of "2 :: nat"] by (subst of_nat_diff) (simp_all add: push_bit_eq_mult)
  ultimately have tot: "total_free_pages z3 = of_nat (card (free_frames L'))"
    using kp inv(2) by (simp add: z3_def add_free_pages_def keeps_def del: of_nat_diff)
  have same: "deferred_order z3 q = deferred_order z q" if "unat q \<notin> free_frames L \<union> block_frames p k" for q
    using kp that by (simp add: deferred_order_def keeps_def z3_def add_free_pages_def get_order_def)
  have dB: "deferred_ok M z (free_frames L \<union> block_frames p k) (deferred_frees z)" using inv(3) p(3) by (intro deferred_grow) auto
  note d3 = deferred_cong [of "free_frames L \<union> block_frames p k" z3 z M "deferred_frees z", OF same]
  have df: "deferred_frees z3 = deferred_frees z" using kp by (simp add: z3_def add_free_pages_def keeps_def)
  have fr3: "deferred_frames z3 (deferred_frees z3) = deferred_frames z (deferred_frees z)" using d3(2) dB df by simp
  have "deferred_ok M z3 (free_frames L') (deferred_frees z3)"
    unfolding df s(2) by (rule deferred_anti [of M z3 "free_frames L \<union> block_frames p k"]) (use d3(1) dB in simp, auto simp: B_def)
  then have "zone_ok M z3 L'" using inv3 tot by (simp add: zone_ok_def)
  moreover have "get_order (frames z3 p) = r" by (simp add: z3_def add_free_pages_def z2_def on_page_def get_order_setup [OF rm])
  moreover have "adopt_stolen_block p k r z = (p, z3)" by (simp add: adopt_stolen_block_def Let_def z1_def z2_def z3_def)
  moreover have "all_free z3 L' = all_free z L \<union> B" using fr3 s(2) by auto
  ultimately show ?thesis unfolding B_def by blast
qed

text \<open>
  Boot hands its blocks to the zone one by one, without merging.  A block that arrives while its buddy of the same
  order is not in the zone leaves the zone as the other operations expect it.
\<close>

lemma inject_ok:
  assumes ok: "zone_ok M z L" and p: "block_ok M p k" "block_frames p k \<inter> all_free z L = {}"
    and alone: "k < MAX_ORDER \<Longrightarrow> p XOR push_bit k 1 \<notin> set (L k)"
    and z': "z' = inject_free_page_cold p k (on_page p (setup_buddy_metadata Free (zone_mobility z) k (node_id z)) z)"
  shows "\<exists>L'. zone_ok M z' L' \<and> all_free z' L' = all_free z L \<union> block_frames p k"
proof -
  have inv: "zone_inv M {} z L" "total_free_pages z = of_nat (card (free_frames L))" "deferred_ok M z (free_frames L) (deferred_frees z)"
    using ok by (auto simp: zone_ok_def)
  define x where "x = set_order_active k (on_area k (push_cold p) (on_page p (setup_buddy_metadata Free (zone_mobility z) k (node_id z)) z))"
  define L' where "L' = L(k := L k @ [p])"
  have zx: "z' = add_free_pages (push_bit k 1) x" by (simp add: z' inject_free_page_cold_def x_def)
  have k: "k \<le> MAX_ORDER" using p(1) by (simp add: block_ok_def)
  have free: "block_frames p k \<inter> free_frames L = {}" using p(2) by blast
  have push: "area_holds st' a' (L k @ [p]) \<and> links_only (insert p (set (L k))) st st'"
    if "area_holds st a (L k)" "p \<notin> set (L k)" "push_cold p (a, st) = (a', st')" for a st a' st'
    using push_cold_ok [OF that] by blast
  note put = put_inv [where push = push_cold and ps = "L k @ [p]", OF inv(1) p(1) free alone push _ x_def]
  have put: "zone_inv M ({} - {p}) x L'" "keeps (block_frames p k) z x" unfolding L'_def by (rule put; simp)+
  have "free_frames L' = free_frames (L(k := p # L k))" unfolding free_frames_def L'_def by (intro SUP_cong) auto
  then have fr: "free_frames L' = free_frames L \<union> block_frames p k" using free_frames_add [OF k] by simp
  have "card (free_frames L') = card (free_frames L) + 2 ^ k"
    unfolding fr using free card_block [of p k] finite_free_frames [of L] by (subst card_Un_disjoint) auto
  then have tot: "total_free_pages z' = of_nat (card (free_frames L'))"
    using put(2) inv(2) by (simp add: zx add_free_pages_def keeps_def push_bit_eq_mult)
  have same: "deferred_order z' q = deferred_order z q" if "unat q \<notin> free_frames L \<union> block_frames p k" for q
    using put(2) that by (simp add: deferred_order_def keeps_def zx add_free_pages_def get_order_def)
  have dB: "deferred_ok M z (free_frames L \<union> block_frames p k) (deferred_frees z)" using inv(3) p(2) by (intro deferred_grow) auto
  note d = deferred_cong [of "free_frames L \<union> block_frames p k" z' z M "deferred_frees z", OF same]
  have df: "deferred_frees z' = deferred_frees z" using put(2) by (simp add: zx add_free_pages_def keeps_def)
  have "deferred_ok M z' (free_frames L') (deferred_frees z')" using d(1) dB unfolding df fr by simp
  then have "zone_ok M z' L'" using put(1) tot by (simp add: zone_ok_def zx)
  moreover have "deferred_frames z' (deferred_frees z') = deferred_frames z (deferred_frees z)" using d(2) dB df by simp
  then have "all_free z' L' = all_free z L \<union> block_frames p k" using fr by auto
  ultimately show ?thesis by blast
qed

end
