(* ===== verification/PcpProps.thy ===== *)
theory PcpProps
  imports Pcp BuddyProps "HOL-Library.Multiset"
begin

unbundle bit_operations_syntax

text \<open>
  The cache lists hold lists of blocks, and the zone with its caches neither loses a frame nor hands
  one out twice.
\<close>

subsection \<open>The ring of a cache list\<close>

definition pcp_holds :: "pcp_list \<Rightarrow> pfn list \<Rightarrow> bool" where
  "pcp_holds l xs \<longleftrightarrow> length (m_pages l) = 256 \<and> length xs \<le> 256 \<and> m_count l = of_nat (length xs) \<and> unat (m_head l) < 256 \<and>
     unat (m_tail l) = (unat (m_head l) + length xs) mod 256 \<and>
     (\<forall>i<length xs. m_pages l ! ((unat (m_head l) + i) mod 256) = Some (xs ! i))"

definition tuned :: "pcp_list \<Rightarrow> bool" where
  "tuned l \<longleftrightarrow> 1 \<le> m_batch l \<and> m_batch l \<le> m_high l \<and> m_high l \<le> MAX_CAPACITY"

lemma unat_pcp_MASK: "unat (w AND pcp_MASK) = unat w mod 256"
proof -
  have "pcp_MASK = mask 8" by (simp add: pcp_MASK_def MAX_CAPACITY_def mask_eq_exp_minus_1)
  then have "w AND pcp_MASK = take_bit 8 w" by (simp add: take_bit_eq_mask)
  then have "unat (w AND pcp_MASK) = take_bit 8 (unat w)" by (simp add: unsigned_take_bit_eq del: take_bit_eq_mod)
  then show ?thesis by (simp add: take_bit_eq_mod)
qed

lemma unat_next: "unat t < 256 \<Longrightarrow> unat ((t + 1) AND pcp_MASK) = (unat t + 1) mod 256" for t :: u16
  by (simp add: unat_pcp_MASK unat_word_ariths)

lemma unat_prev: "unat ((t - 1) AND pcp_MASK) = (unat t + 255) mod 256" for t :: u16
proof -
  have "t - 1 = t + 65535" by simp
  then have "unat (t - 1) = (unat t + 65535) mod 65536" by (simp only: unat_word_ariths) simp
  then have "unat (t - 1) mod 256 = (unat t + 65535) mod 256" using mod_mod_cancel [of 256 65536 "unat t + 65535"] by simp
  also have "\<dots> = (unat t + 255 + 255 * 256) mod 256" by (simp add: add.commute)
  also have "\<dots> = (unat t + 255) mod 256" by (rule mod_mult_self1)
  finally show "unat ((t - 1) AND pcp_MASK) = (unat t + 255) mod 256" by (simp only: unat_pcp_MASK)
qed

lemma unat_count: "pcp_holds l xs \<Longrightarrow> unat (m_count l) = length xs"
  by (simp add: pcp_holds_def unat_of_nat take_bit_nat_eq_self)

lemma count_zero: "pcp_holds l xs \<Longrightarrow> m_count l = 0 \<longleftrightarrow> xs = []"
  using unat_count [of l xs] by (auto simp: unat_eq_0 simp flip: length_0_conv)

lemma new_pcp_list_holds: "pcp_holds new_pcp_list []"
  by (simp add: pcp_holds_def new_pcp_list_def MAX_CAPACITY_def)

lemma push_holds:
  assumes "pcp_holds l xs" "length xs < 256"
  shows "pcp_holds (pcp_push_hot p l) (xs @ [p])"
proof -
  let ?h = "unat (m_head l)" and ?n = "length xs"
  have ok: "length (m_pages l) = 256" "m_count l = of_nat ?n" "?h < 256" "unat (m_tail l) = (?h + ?n) mod 256"
      "\<And>i. i < ?n \<Longrightarrow> m_pages l ! ((?h + i) mod 256) = Some (xs ! i)"
    using assms(1) by (auto simp: pcp_holds_def)
  have apart: "(?h + ?n) mod 256 \<noteq> (?h + i) mod 256" if "i < ?n" for i
  proof
    assume "(?h + ?n) mod 256 = (?h + i) mod 256"
    then have "256 dvd ?n - i" using mod_eq_dvd_iff_nat [of "?h + i" "?h + ?n" 256] that by simp
    then show False using that assms(2) nat_dvd_not_less [of "?n - i" 256] by simp
  qed
  have "unat (m_tail (pcp_push_hot p l)) = (?h + (?n + 1)) mod 256"
    using unat_next [of "m_tail l"] ok(4) by (simp add: pcp_push_hot_def mod_simps)
  moreover have "m_pages (pcp_push_hot p l) ! ((?h + i) mod 256) = Some ((xs @ [p]) ! i)" if "i < ?n + 1" for i
  proof (cases "i = ?n")
    case True
    then show ?thesis using ok(1,4) by (simp add: pcp_push_hot_def nth_append)
  next
    case False
    then have "i < ?n" using that by simp
    then show ?thesis using ok(1,4,5) apart by (simp add: pcp_push_hot_def nth_append)
  qed
  ultimately show ?thesis using ok(1-3) assms(2) by (simp add: pcp_holds_def pcp_push_hot_def)
qed

lemma pop_hot_holds:
  assumes "pcp_holds l (xs @ [p])"
  shows "\<exists>l'. pcp_pop_hot l = (Some p, l') \<and> pcp_holds l' xs \<and> m_batch l' = m_batch l \<and> m_high l' = m_high l"
proof -
  let ?h = "unat (m_head l)" and ?n = "length xs" and ?t = "(m_tail l - 1) AND pcp_MASK"
  have ok: "length (m_pages l) = 256" "?n < 256" "m_count l = of_nat (?n + 1)" "?h < 256" "unat (m_tail l) = (?h + ?n + 1) mod 256"
      "\<And>i. i < ?n + 1 \<Longrightarrow> m_pages l ! ((?h + i) mod 256) = Some ((xs @ [p]) ! i)"
    using assms by (auto simp: pcp_holds_def)
  have t: "unat ?t = (?h + ?n) mod 256" using unat_prev [of "m_tail l"] ok(5) by (simp add: mod_simps)
  have "pcp_pop_hot l = (Some p, l\<lparr>m_tail := ?t, m_count := m_count l - 1\<rparr>)"
    using count_zero [OF assms] ok(6) [of ?n] t by (simp add: pcp_pop_hot_def)
  moreover have "pcp_holds (l\<lparr>m_tail := ?t, m_count := m_count l - 1\<rparr>) xs"
    using ok(1-4) ok(6) t by (simp add: pcp_holds_def nth_append)
  ultimately show ?thesis by simp
qed

lemma pop_cold_holds:
  assumes "pcp_holds l (p # xs)"
  shows "\<exists>l'. pcp_pop_cold l = (Some p, l') \<and> pcp_holds l' xs \<and> m_batch l' = m_batch l \<and> m_high l' = m_high l"
proof -
  let ?h = "unat (m_head l)" and ?n = "length xs" and ?g = "(m_head l + 1) AND pcp_MASK"
  have ok: "length (m_pages l) = 256" "?n < 256" "m_count l = of_nat (?n + 1)" "?h < 256" "unat (m_tail l) = (?h + ?n + 1) mod 256"
      "\<And>i. i < ?n + 1 \<Longrightarrow> m_pages l ! ((?h + i) mod 256) = Some ((p # xs) ! i)"
    using assms by (auto simp: pcp_holds_def)
  have g: "unat ?g = (?h + 1) mod 256" using unat_next ok(4) .
  have "pcp_pop_cold l = (Some p, l\<lparr>m_head := ?g, m_count := m_count l - 1\<rparr>)"
    using count_zero [OF assms] ok(4) ok(6) [of 0] by (simp add: pcp_pop_cold_def)
  moreover have "m_pages l ! (((?h + 1) mod 256 + i) mod 256) = Some (xs ! i)" if "i < ?n" for i
    using ok(6) [of "i + 1"] that by (simp add: mod_simps)
  then have "pcp_holds (l\<lparr>m_head := ?g, m_count := m_count l - 1\<rparr>) xs"
    using ok(1-5) g by (simp add: pcp_holds_def mod_simps)
  ultimately show ?thesis by simp
qed

lemma push_pop_tuned [simp]: "tuned (pcp_push_hot p l) = tuned l" "m_batch (pcp_push_hot p l) = m_batch l"
  by (simp_all add: tuned_def pcp_push_hot_def)

lemma clamp_bounds: "lo \<le> hi \<Longrightarrow> lo \<le> clamp v lo hi \<and> clamp v lo hi \<le> hi"
  by (auto simp: clamp_def)

lemma tune_ok: "tuned (tune pages order l)" "pcp_holds (tune pages order l) xs = pcp_holds l xs"
proof -
  have "\<exists>u v. m_high (tune pages order l) = clamp u 1 MAX_CAPACITY \<and> m_batch (tune pages order l) = clamp v 1 (clamp u 1 MAX_CAPACITY)"
    unfolding tune_def Let_def by (intro exI conjI) simp_all
  then obtain u v where "m_high (tune pages order l) = clamp u 1 MAX_CAPACITY" "m_batch (tune pages order l) = clamp v 1 (clamp u 1 MAX_CAPACITY)"
    by blast
  moreover have "1 \<le> MAX_CAPACITY" by (simp add: MAX_CAPACITY_def)
  ultimately show "tuned (tune pages order l)" by (simp add: tuned_def clamp_bounds)
  show "pcp_holds (tune pages order l) xs = pcp_holds l xs" by (simp add: tune_def Let_def pcp_holds_def)
qed

subsection \<open>Blocks and frames\<close>

definition frames_of :: "(pfn \<times> nat) multiset \<Rightarrow> nat multiset" where
  "frames_of B = (\<Sum>(p, k)\<in>#B. mset_set (block_frames p k))"

definition held :: "pfn \<Rightarrow> zone \<Rightarrow> pfn \<times> nat \<Rightarrow> bool" where
  "held M z b \<longleftrightarrow> block_ok M (fst b) (snd b) \<and> get_order (frames z (fst b)) = snd b \<and>
     flags_state (page_flags (frames z (fst b))) = state_code Active"

definition balanced :: "pfn \<Rightarrow> nat set \<Rightarrow> zone \<Rightarrow> (nat \<Rightarrow> pfn list) \<Rightarrow> (pfn \<times> nat) multiset \<Rightarrow> bool" where
  "balanced M U z L B \<longleftrightarrow> zone_ok M z L \<and> mset_set (all_free z L) + frames_of B = mset_set U \<and> (\<forall>b\<in>#B. held M z b)"

lemma frames_of_simps [simp]: "frames_of {#} = {#}" "frames_of (B + X) = frames_of B + frames_of X"
    "frames_of (add_mset (p, k) B) = mset_set (block_frames p k) + frames_of B"
  by (simp_all add: frames_of_def)

lemma in_frames_of: "(p, k) \<in># B \<Longrightarrow> unat p \<in># frames_of B"
  using block_frames_self [of p k] by (auto simp: card_block dest!: multi_member_split)

lemma finite_all_free: "finite (all_free z L)"
  using finite_free_frames [of L] by (simp add: deferred_frames_def card_block)

lemma held_calm: "held M z b \<Longrightarrow> calm A z z' \<Longrightarrow> unat (fst b) \<notin> A \<Longrightarrow> held M z' b"
  by (simp add: held_def calm_def get_order_def)

lemma twice_mset: "mset_set C = X + Y + R \<Longrightarrow> x \<in># X \<Longrightarrow> x \<in># Y \<Longrightarrow> False"
proof -
  assume a: "mset_set C = X + Y + R" "x \<in># X" "x \<in># Y"
  have "1 \<le> count X x" "1 \<le> count Y x" using a(2,3) by simp_all
  then have "2 \<le> count (X + Y + R) x" unfolding count_union by linarith
  moreover have "count (mset_set C) x \<le> 1" by (cases "finite C \<and> x \<in> C") auto
  ultimately show False unfolding a(1) by simp
qed

lemma balanced_step:
  assumes bal: "balanced M U z L (B + X)" and ok: "zone_ok M z' L'" and calm: "calm (all_free z L \<union> set_mset (frames_of X)) z z'"
    and sum: "mset_set (all_free z' L') + frames_of X' = mset_set (all_free z L) + frames_of X" and X': "\<forall>b\<in>#X'. held M z' b"
  shows "balanced M U z' L' (B + X')"
proof -
  have eq: "mset_set U = mset_set (all_free z L) + frames_of B + frames_of X" using bal by (simp add: balanced_def add.assoc)
  have "held M z' b" if "b \<in># B" for b
  proof (rule held_calm [OF _ calm])
    show "held M z b" using bal that by (simp add: balanced_def)
    have b: "unat (fst b) \<in># frames_of B" using in_frames_of [of "fst b" "snd b" B] that by simp
    show "unat (fst b) \<notin> all_free z L \<union> set_mset (frames_of X)"
    proof
      assume "unat (fst b) \<in> all_free z L \<union> set_mset (frames_of X)"
      then show False
      proof
        assume "unat (fst b) \<in> all_free z L"
        then have "unat (fst b) \<in># mset_set (all_free z L)" using finite_all_free by (simp only: elem_mset_set)
        then show False using twice_mset [OF eq _ b] by blast
      next
        assume "unat (fst b) \<in># frames_of X"
        then show False using twice_mset [of U "frames_of B" "frames_of X" "mset_set (all_free z L)", OF _ b] eq by (simp add: ac_simps)
      qed
    qed
  qed
  moreover have "mset_set (all_free z' L') + frames_of (B + X') = mset_set U"
    using sum eq by (simp add: ac_simps)
  ultimately show ?thesis using ok X' by (auto simp: balanced_def)
qed

end
