(* ===== verification/ZoneProps.thy ===== *)
theory ZoneProps
  imports PcpProps
begin

unbundle bit_operations_syntax

text \<open>
  The zone's public operations against its caches and its callers: the frames of the free lists, of the
  deferred ring, of the caches and of the blocks callers hold always add up to the zone's memory, each frame
  once.
\<close>

subsection \<open>Locked operations\<close>

lemma mset_without: "B \<subseteq> A \<Longrightarrow> finite A \<Longrightarrow> mset_set (A - B) + mset_set B = mset_set A"
  by (metis Diff_disjoint Un_Diff_cancel2 finite_Diff finite_subset inf_commute mset_set_Union sup.absorb1)

lemma all_free_flushed: "deferred_frees z = [] \<Longrightarrow> all_free z L = free_frames L"
  by (simp add: deferred_frames_def)

definition no_run :: "nat \<Rightarrow> nat set \<Rightarrow> bool" where
  "no_run r F \<longleftrightarrow> \<not> (\<exists>a. 2 ^ r dvd a \<and> {a..<a + 2 ^ r} \<subseteq> F)"

lemma balanced_alloc:
  assumes bal: "balanced M U z L B" and r: "r \<le> MAX_ORDER"
  shows "\<exists>page w z' L'. alloc_pages_locked M daemons r z = Some (page, w, z') \<and>
    balanced M U z' L' (B + (case page of None \<Rightarrow> {#} | Some p \<Rightarrow> {#(p, r)#})) \<and> (page = None \<longrightarrow> no_run r (all_free z L))"
proof -
  have "zone_ok M z L" using bal by (simp add: balanced_def)
  from alloc_ok [OF this r, of daemons] obtain page w z' L' where
    a: "alloc_pages_locked M daemons r z = Some (page, w, z')" "zone_ok M z' L'" "deferred_frees z' = []" "calm (all_free z L) z z'"
      and c: "case page of
      Some p \<Rightarrow> block_ok M p r \<and> block_frames p r \<subseteq> all_free z L \<and> free_frames L' = all_free z L - block_frames p r \<and>
        get_order (frames z' p) = r \<and> flags_state (page_flags (frames z' p)) = state_code Active
    | None \<Rightarrow> free_frames L' = all_free z L \<and> \<not> (\<exists>a. 2 ^ r dvd a \<and> {a..<a + 2 ^ r} \<subseteq> all_free z L)" by blast
  note fl = all_free_flushed [OF a(3)]
  have "balanced M U z' L' (B + (case page of None \<Rightarrow> {#} | Some p \<Rightarrow> {#(p, r)#}))"
  proof (rule balanced_step [of M U z L B "{#}"])
    show "balanced M U z L (B + {#})" using bal by simp
    show "calm (all_free z L \<union> set_mset (frames_of {#})) z z'" using a(4) by simp
    show "mset_set (all_free z' L') + frames_of (case page of None \<Rightarrow> {#} | Some p \<Rightarrow> {#(p, r)#}) = mset_set (all_free z L) + frames_of {#}"
      unfolding fl using c mset_without [OF _ finite_all_free [of L z]] by (cases page) auto
    show "\<forall>b\<in>#(case page of None \<Rightarrow> {#} | Some p \<Rightarrow> {#(p, r)#}). held M z' b" using c by (cases page) (auto simp: held_def)
  qed (rule a(2))
  moreover have "page = None \<longrightarrow> no_run r (all_free z L)" using c by (auto simp: no_run_def)
  ultimately show ?thesis using a(1) by blast
qed

lemma held_apart:
  assumes "balanced M U z L (B + {#(p, k)#})"
  shows "block_ok M p k" "block_frames p k \<inter> all_free z L = {}"
proof -
  show "block_ok M p k" using assms by (simp add: balanced_def held_def)
  have eq: "mset_set U = mset_set (all_free z L) + mset_set (block_frames p k) + frames_of B"
    using assms by (simp add: balanced_def add.assoc)
  show "block_frames p k \<inter> all_free z L = {}"
    using twice_mset [OF eq] finite_all_free [of L z] card_block(2) [of p k] by (auto simp only: elem_mset_set)
qed

lemma balanced_free:
  assumes bal: "balanced M U z L (B + {#(p, k)#})"
  shows "\<exists>L'. balanced M U (free_page_locked M p k z) L' B"
proof -
  note ap = held_apart [OF bal]
  have "zone_ok M z L" using bal by (simp add: balanced_def)
  from free_ok [OF this ap] obtain L' where f: "zone_ok M (free_page_locked M p k z) L'" "deferred_frees (free_page_locked M p k z) = []"
    "free_frames L' = all_free z L \<union> block_frames p k" "calm (all_free z L \<union> block_frames p k) z (free_page_locked M p k z)" by blast
  have fr: "all_free (free_page_locked M p k z) L' = all_free z L \<union> block_frames p k" by (rule trans [OF all_free_flushed [OF f(2)] f(3)])
  have "balanced M U (free_page_locked M p k z) L' (B + {#})"
  proof (rule balanced_step [OF bal f(1)])
    show "calm (all_free z L \<union> set_mset (frames_of {#(p, k)#})) z (free_page_locked M p k z)" using f(4) card_block(2) [of p k] by simp
    show "mset_set (all_free (free_page_locked M p k z) L') + frames_of {#} = mset_set (all_free z L) + frames_of {#(p, k)#}"
      unfolding fr using ap(2) finite_all_free [of L z] card_block(2) [of p k]
      by (subst mset_set_Union) auto
  qed simp
  then show ?thesis by auto
qed

subsection \<open>Refilling and draining\<close>

abbreviation of_order :: "nat \<Rightarrow> pfn list \<Rightarrow> (pfn \<times> nat) multiset" where
  "of_order k ps \<equiv> image_mset (\<lambda>p. (p, k)) (mset ps)"

lemma size_frames_of: "size (frames_of (of_order k ps)) = length ps * 2 ^ k"
  by (induction ps) (simp_all add: card_block)

lemma mset_card: "mset_set A + X = mset_set B \<Longrightarrow> card A + size X = card B"
  by (metis size_mset_set size_union)

lemma refill_loop_ok:
  assumes "zone_inv M {} z L" "r \<le> MAX_ORDER" "pcp_holds l xs" "length xs + n \<le> 256"
  shows "\<exists>ys l' z' L'. refill_loop n r l z = Some (length ys, l', z') \<and> pcp_holds l' (xs @ ys) \<and> m_batch l' = m_batch l \<and> m_high l' = m_high l \<and>
    zone_inv M {} z' L' \<and> mset_set (free_frames L') + frames_of (of_order r ys) = mset_set (free_frames L) \<and>
    keeps (free_frames L) z z' \<and> (\<forall>p\<in>set ys. held M z' (p, r)) \<and> (ys = [] \<and> 0 < n \<longrightarrow> no_run r (free_frames L))"
  using assms
proof (induction n arbitrary: z L l xs)
  case 0
  then show ?case by (intro exI [of _ "[]"] exI [of _ l] exI [of _ z] exI [of _ L]) (simp add: keeps_def)
next
  case (Suc n)
  show ?case
  proof (cases "\<exists>k. r \<le> k \<and> k \<le> MAX_ORDER \<and> L k \<noteq> []")
    case False
    then have "extract_block_internal r z = Some (None, z)" using extract_ok(1) [OF Suc.prems(1,2)] by blast
    moreover have "no_run r (free_frames L)" unfolding no_run_def using run_in_block [OF Suc.prems(1,2)] False by metis
    ultimately show ?thesis using Suc.prems by (intro exI [of _ "[]"] exI [of _ l] exI [of _ z] exI [of _ L]) (simp add: keeps_def)
  next
    case True
    then obtain p z1 L1 where e: "extract_block_internal r z = Some (Some p, z1)" "zone_inv M {} z1 L1" "block_ok M p r"
        "block_frames p r \<subseteq> free_frames L" "free_frames L1 = free_frames L - block_frames p r" "keeps (free_frames L) z z1" "get_order (frames z1 p) = r"
        "flags_state (page_flags (frames z1 p)) = state_code Active"
      using extract_ok(2) [OF Suc.prems(1,2)] by blast
    have "pcp_holds (pcp_push_hot p l) (xs @ [p])" using push_holds [OF Suc.prems(3)] Suc.prems(4) by simp
    from Suc.IH [OF e(2) Suc.prems(2) this] Suc.prems(4)
    obtain ys l' z' L' where i: "refill_loop n r (pcp_push_hot p l) z1 = Some (length ys, l', z')" "pcp_holds l' ((xs @ [p]) @ ys)"
        "m_batch l' = m_batch (pcp_push_hot p l)" "m_high l' = m_high (pcp_push_hot p l)" "zone_inv M {} z' L'"
        "mset_set (free_frames L') + frames_of (of_order r ys) = mset_set (free_frames L1)" "keeps (free_frames L1) z1 z'" "\<forall>p\<in>set ys. held M z' (p, r)"
      by auto
    have "held M z1 (p, r)" using e(3,7,8) by (simp add: held_def)
    moreover have "unat p \<notin> free_frames L1" using e(5) block_frames_self [of p r] by simp
    ultimately have hp: "held M z' (p, r)" using held_calm [OF _ calm_keeps [OF i(7)]] by simp
    have "mset_set (free_frames L') + frames_of (of_order r (p # ys)) = mset_set (free_frames L - block_frames p r) + mset_set (block_frames p r)"
      using i(6) e(5) by (simp add: ac_simps)
    then have sum: "mset_set (free_frames L') + frames_of (of_order r (p # ys)) = mset_set (free_frames L)"
      using mset_without [OF e(4) finite_free_frames] by simp
    have "free_frames L1 \<subseteq> free_frames L" using e(5) by blast
    then have kp: "keeps (free_frames L) z z'" using keeps_mono [OF keeps_trans [OF e(6) i(7)], of "free_frames L"] by blast
    have "refill_loop (Suc n) r l z = Some (length (p # ys), l', z')" using e(1) i(1) by simp
    moreover have "m_high l' = m_high l" "m_batch l' = m_batch l" "pcp_holds l' (xs @ p # ys)" using i(2-4) by (simp_all add: pcp_push_hot_def)
    ultimately show ?thesis using i(5,8) hp sum kp by (intro exI [of _ "p # ys"] exI [of _ l'] exI [of _ z'] exI [of _ L']) simp
  qed
qed

lemma drain_loop_ok:
  assumes "zone_inv M {} z L" "pcp_holds l (ys @ xs)" "\<forall>p\<in>set ys. block_ok M p r"
    "mset_set (free_frames L) + frames_of (of_order r ys) + R = mset_set U"
  shows "\<exists>l' z' L'. drain_loop M (length ys) r l z = Some (l', z') \<and> pcp_holds l' xs \<and> m_batch l' = m_batch l \<and> m_high l' = m_high l \<and>
    zone_inv M {} z' L' \<and> mset_set (free_frames L') = mset_set (free_frames L) + frames_of (of_order r ys) \<and>
    keeps (free_frames L \<union> set_mset (frames_of (of_order r ys))) z z'"
  using assms
proof (induction ys arbitrary: z L l)
  case Nil
  then show ?case by (intro exI [of _ l] exI [of _ z] exI [of _ L]) (simp add: keeps_def)
next
  case (Cons p ys)
  let ?z = "buddy_merge_internal M p r z"
  have "pcp_holds l (p # (ys @ xs))" using Cons.prems(2) by simp
  from pop_cold_holds [OF this] obtain l1 where l1: "pcp_pop_cold l = (Some p, l1)" "pcp_holds l1 (ys @ xs)" "m_batch l1 = m_batch l" "m_high l1 = m_high l" by blast
  have eq: "mset_set U = mset_set (free_frames L) + mset_set (block_frames p r) + (frames_of (of_order r ys) + R)"
    using Cons.prems(4) by (simp add: add.assoc)
  have ap: "block_frames p r \<inter> free_frames L = {}"
    using twice_mset [OF eq] finite_free_frames [of L] card_block(2) [of p r] by (auto simp only: elem_mset_set)
  have "block_ok M p r" using Cons.prems(3) by simp
  from merge_ok [OF Cons.prems(1) this ap] obtain L1 where m: "zone_inv M {} ?z L1" "free_frames L1 = free_frames L \<union> block_frames p r"
    "keeps (free_frames L \<union> block_frames p r) z ?z" by blast
  have s1: "mset_set (free_frames L1) = mset_set (free_frames L) + mset_set (block_frames p r)"
    unfolding m(2) using ap finite_free_frames [of L] card_block(2) [of p r] by (subst mset_set_Union) auto
  have "mset_set (free_frames L1) + frames_of (of_order r ys) + R = mset_set U" using eq s1 by (simp add: add.assoc)
  from Cons.IH [OF m(1) l1(2) _ this] Cons.prems(3) obtain l' z' L' where i: "drain_loop M (length ys) r l1 ?z = Some (l', z')" "pcp_holds l' xs"
    "m_batch l' = m_batch l1" "m_high l' = m_high l1" "zone_inv M {} z' L'" "mset_set (free_frames L') = mset_set (free_frames L1) + frames_of (of_order r ys)"
    "keeps (free_frames L1 \<union> set_mset (frames_of (of_order r ys))) ?z z'" by auto
  have "keeps (free_frames L \<union> set_mset (frames_of (of_order r (p # ys)))) z z'"
    by (rule keeps_mono [OF keeps_trans [OF m(3) i(7)]]) (auto simp: m(2) card_block)
  moreover have "mset_set (free_frames L') = mset_set (free_frames L) + frames_of (of_order r (p # ys))" using i(6) s1 by (simp add: ac_simps)
  ultimately show ?case using i(1-5) l1 by (intro exI [of _ l'] exI [of _ z'] exI [of _ L']) simp
qed

lemma balanced_flush:
  assumes "balanced M U z L B"
  shows "\<exists>L'. balanced M U (flush_deferred_frees_internal M z) L' B \<and> deferred_frees (flush_deferred_frees_internal M z) = [] \<and>
    free_frames L' = all_free z L"
proof -
  have "zone_ok M z L" using assms by (simp add: balanced_def)
  from flush_ok [OF this] obtain L' where f: "zone_ok M (flush_deferred_frees_internal M z) L'" "deferred_frees (flush_deferred_frees_internal M z) = []"
    "free_frames L' = all_free z L" "calm (all_free z L) z (flush_deferred_frees_internal M z)" by blast
  have "balanced M U (flush_deferred_frees_internal M z) L' (B + {#})"
    by (rule balanced_step [OF _ f(1), of U z L B "{#}"]) (use assms f(2-4) in \<open>simp_all add: deferred_frames_def\<close>)
  then show ?thesis using f(2,3) by auto
qed

text \<open>A zone whose lists changed under the lock, and whose count is brought up to date at the end.\<close>

lemma balanced_locked:
  assumes bal: "balanced M U z L (B + X)" and z: "deferred_frees z = []" and inv: "zone_inv M {} z' L'"
    and kp: "keeps (free_frames L \<union> set_mset (frames_of X)) z z'"
    and sum: "mset_set (free_frames L') + frames_of X' = mset_set (free_frames L) + frames_of X" and X': "\<forall>b\<in>#X'. held M z' b"
  shows "balanced M U (z'\<lparr>total_free_pages := of_nat (card (free_frames L'))\<rparr>) L' (B + X')"
proof (rule balanced_step [OF bal])
  let ?z = "z'\<lparr>total_free_pages := of_nat (card (free_frames L'))\<rparr>"
  have d: "deferred_frees ?z = []" using kp z by (simp add: keeps_def)
  then show "zone_ok M ?z L'" using inv by (simp add: zone_ok_def)
  show "calm (all_free z L \<union> set_mset (frames_of X)) z ?z" using kp unfolding all_free_flushed [OF z] by (simp add: calm_def keeps_def)
  show "mset_set (all_free ?z L') + frames_of X' = mset_set (all_free z L) + frames_of X"
    using sum unfolding all_free_flushed [OF z] all_free_flushed [OF d] .
  show "\<forall>b\<in>#X'. held M ?z b" using X' by (simp add: held_def)
qed

lemma balanced_total: "balanced M U z L B \<Longrightarrow> total_free_pages z = of_nat (card (free_frames L))"
  by (simp add: balanced_def zone_ok_def)

lemma balanced_refill:
  assumes bal: "balanced M U z L B" and r: "r \<le> MAX_ORDER" and l: "pcp_holds l []" "tuned l"
  shows "\<exists>w l' z' L' ys. batch_refill_pcp M daemons r l z = Some (ys \<noteq> [], w, l', z') \<and> pcp_holds l' ys \<and> tuned l' \<and>
    balanced M U z' L' (B + of_order r ys) \<and> (ys = [] \<longrightarrow> no_run r (all_free z L))"
proof -
  define y where "y = flush_deferred_frees_internal M z"
  obtain K where K: "balanced M U y K B" "deferred_frees y = []" "free_frames K = all_free z L" using balanced_flush [OF bal] unfolding y_def by blast
  have invK: "zone_inv M {} y K" using K(1) by (simp add: balanced_def zone_ok_def)
  have "unat (m_batch l) \<le> 256" using l(2) unfolding tuned_def MAX_CAPACITY_def word_le_nat_alt by simp
  then obtain ys l' z' L' where i: "refill_loop (unat (m_batch l)) r l y = Some (length ys, l', z')" "pcp_holds l' ys" "m_batch l' = m_batch l" "m_high l' = m_high l"
      "zone_inv M {} z' L'" "mset_set (free_frames L') + frames_of (of_order r ys) = mset_set (free_frames K)" "keeps (free_frames K) y z'"
      "\<forall>p\<in>set ys. held M z' (p, r)" "ys = [] \<and> 0 < unat (m_batch l) \<longrightarrow> no_run r (free_frames K)"
    using refill_loop_ok [OF invK r l(1), of "unat (m_batch l)"] by auto
  define x where "x = sub_free_pages (push_bit r (of_nat (length ys))) z'"
  have "card (free_frames K) = card (free_frames L') + length ys * 2 ^ r" using mset_card [OF i(6)] by (simp add: size_frames_of)
  then have tot: "total_free_pages z' - push_bit r (of_nat (length ys)) = of_nat (card (free_frames L'))"
    using i(7) balanced_total [OF K(1)] by (simp add: keeps_def push_bit_eq_mult)
  then have x: "x = z'\<lparr>total_free_pages := of_nat (card (free_frames L'))\<rparr>" by (simp add: x_def sub_free_pages_def)
  have "balanced M U x L' (B + of_order r ys)" unfolding x
    by (rule balanced_locked [of M U y K B "{#}"]) (use K i in auto)
  moreover have "tuned l'" using l(2) i(3,4) by (simp add: tuned_def)
  moreover have "\<exists>w. batch_refill_pcp M daemons r l z = Some (ys \<noteq> [], w, l', x)"
    using i(1) unfolding batch_refill_pcp_def y_def x_def by (cases ys) (simp_all add: Let_def sub_free_pages_def)
  moreover have "0 < unat (m_batch l)" using l(2) by (simp add: tuned_def word_le_nat_alt)
  ultimately show ?thesis using i(2,9) unfolding K(3) by blast
qed

lemma balanced_drain:
  assumes bal: "balanced M U z L (B + of_order r xs)" and l: "pcp_holds l xs" "tuned l"
  shows "\<exists>l' z' L' ys. batch_drain_pcp M r l z = Some (l', z') \<and> pcp_holds l' ys \<and> tuned l' \<and> length ys < 256 \<and>
    balanced M U z' L' (B + of_order r ys)"
proof -
  define y where "y = flush_deferred_frees_internal M z"
  obtain K where K: "balanced M U y K (B + of_order r xs)" "deferred_frees y = []" using balanced_flush [OF bal] unfolding y_def by blast
  have invK: "zone_inv M {} y K" using K(1) by (simp add: balanced_def zone_ok_def)
  define c where "c = min (m_batch l) (m_count l)"
  define ds ys where "ds = take (unat c) xs" and "ys = drop (unat c) xs"
  have split: "xs = ds @ ys" by (simp add: ds_def ys_def)
  have "c \<le> m_count l" by (simp add: c_def)
  then have c: "unat c \<le> length xs" using unat_count [OF l(1)] by (simp add: word_le_nat_alt)
  have len: "length ds = unat c" using c by (simp add: ds_def)
  have "\<forall>b\<in>#of_order r xs. held M y b" using K(1) by (simp add: balanced_def)
  then have ok: "\<forall>p\<in>set ds. block_ok M p r" by (simp add: split held_def ball_Un)
  have sum: "mset_set (free_frames K) + frames_of (of_order r ds) + (frames_of B + frames_of (of_order r ys)) = mset_set U"
    using K(1) all_free_flushed [OF K(2), of K] by (simp add: balanced_def split ac_simps)
  obtain l' z' L' where i: "drain_loop M (length ds) r l y = Some (l', z')" "pcp_holds l' ys" "m_batch l' = m_batch l" "m_high l' = m_high l"
      "zone_inv M {} z' L'" "mset_set (free_frames L') = mset_set (free_frames K) + frames_of (of_order r ds)"
      "keeps (free_frames K \<union> set_mset (frames_of (of_order r ds))) y z'"
    using drain_loop_ok [OF invK _ ok sum, of l ys] l(1) split by blast
  define x where "x = add_free_pages (push_bit r (of_nat (unat c))) z'"
  have "card (free_frames L') = card (free_frames K) + unat c * 2 ^ r" using mset_card [OF i(6) [symmetric]] len by (simp add: size_frames_of)
  then have "total_free_pages z' + push_bit r (of_nat (unat c)) = of_nat (card (free_frames L'))"
    using i(7) balanced_total [OF K(1)] by (simp add: keeps_def push_bit_eq_mult)
  then have x: "x = z'\<lparr>total_free_pages := of_nat (card (free_frames L'))\<rparr>" by (simp add: x_def add_free_pages_def)
  have "balanced M U y K ((B + of_order r ys) + of_order r ds)" using K(1) by (simp add: split ac_simps)
  then have "balanced M U x L' ((B + of_order r ys) + {#})" unfolding x
    by (rule balanced_locked) (use K(2) i in auto)
  moreover have "tuned l'" using l(2) i(3,4) by (simp add: tuned_def)
  moreover have "batch_drain_pcp M r l z = Some (l', x)"
    using i(1) len by (simp add: batch_drain_pcp_def Let_def x_def y_def flip: c_def)
  moreover have "length ys < 256"
  proof (cases "xs = []")
    case False
    then have "1 \<le> m_count l" using unat_count [OF l(1)] by (cases xs) (simp_all add: word_le_nat_alt)
    then have "1 \<le> unat c" using l(2) by (simp add: c_def tuned_def word_le_nat_alt min_def)
    moreover have "length xs \<le> 256" using l(1) by (simp add: pcp_holds_def)
    ultimately show ?thesis using c by (simp add: ys_def)
  qed (simp add: ys_def)
  ultimately show ?thesis using i(2) by auto
qed

end
