(* ===== verification/ZoneCaches.thy ===== *)
theory ZoneCaches
  imports ZoneProps
begin

unbundle bit_operations_syntax

text \<open>
  The zone with its per-CPU caches as its callers see it: \<open>alloc_pages\<close> and \<open>free_page\<close> in any order, from any
  CPU, conserve the zone's frames.
\<close>

subsection \<open>What the caches hold\<close>

definition cached :: "nat \<Rightarrow> (nat \<Rightarrow> nat \<Rightarrow> pfn list) \<Rightarrow> (pfn \<times> nat) multiset" where
  "cached n C = (\<Sum>c<n. \<Sum>k\<le>PCP_MAX_ORDER. of_order k (C c k))"

definition caches_ok :: "nat \<Rightarrow> (nat \<Rightarrow> nat \<Rightarrow> pfn list) \<Rightarrow> pcp_list list list option \<Rightarrow> bool" where
  "caches_ok n C cs \<longleftrightarrow> (case cs of
     None \<Rightarrow> C = (\<lambda>_ _. [])
   | Some cs \<Rightarrow> length cs = n \<and> (\<forall>c<n. length (cs ! c) = PCP_MAX_ORDER + 1 \<and>
       (\<forall>k\<le>PCP_MAX_ORDER. pcp_holds (cs ! c ! k) (C c k) \<and> tuned (cs ! c ! k))))"

text \<open>
  The zone is ready for its next operation: the frames in its lists (\<open>L\<close>), in the deferred ring, in the caches
  (\<open>C\<close>) and in the blocks that callers hold (\<open>A\<close>) are exactly those of \<open>U\<close>, each once.
\<close>

definition zone_ready :: "pfn \<Rightarrow> nat \<Rightarrow> nat set \<Rightarrow> (nat \<Rightarrow> pfn list) \<Rightarrow> (nat \<Rightarrow> nat \<Rightarrow> pfn list) \<Rightarrow> (pfn \<times> nat) multiset \<Rightarrow> mobility_zone \<Rightarrow> bool" where
  "zone_ready M n U L C A f \<longleftrightarrow> balanced M U (core f) L (cached n C + A) \<and> caches_ok n C (caches f)"

definition put :: "(nat \<Rightarrow> nat \<Rightarrow> pfn list) \<Rightarrow> nat \<Rightarrow> nat \<Rightarrow> pfn list \<Rightarrow> nat \<Rightarrow> nat \<Rightarrow> pfn list" where
  "put C c k xs = C(c := (C c)(k := xs))"

lemma put_same [simp]: "put C c k (C c k) = C" "put (put C c k xs) c k ys = put C c k ys" "put C c k xs c k = xs"
  by (simp_all add: put_def)

lemma cached_put:
  assumes "c < n" "k \<le> PCP_MAX_ORDER"
  shows "cached n (put C c k xs) = cached n (put C c k []) + of_order k xs"
proof -
  have row: "(\<Sum>j\<le>PCP_MAX_ORDER. of_order j (put C c k ys c j)) = of_order k ys + (\<Sum>j\<in>{..PCP_MAX_ORDER} - {k}. of_order j (C c j))" for ys
    using assms(2) by (subst sum.remove [of _ k]) (auto simp: put_def intro!: sum.cong)
  have all: "cached n (put C c k ys) = (\<Sum>j\<le>PCP_MAX_ORDER. of_order j (put C c k ys c j)) +
      (\<Sum>b\<in>{..<n} - {c}. \<Sum>j\<le>PCP_MAX_ORDER. of_order j (C b j))" for ys
    unfolding cached_def using assms(1) by (subst sum.remove [of _ c]) (auto simp: put_def intro!: sum.cong)
  show ?thesis unfolding all row by (simp add: ac_simps)
qed

lemma caches_ok_put:
  assumes "caches_ok n C (Some cs)" "c < n" "k \<le> PCP_MAX_ORDER" "pcp_holds l xs" "tuned l"
  shows "caches_ok n (put C c k xs) (Some (set_cache c k l cs))"
  using assms by (auto simp: caches_ok_def put_def set_cache_def nth_list_update)

lemma caches_okD:
  assumes "caches_ok n C (Some cs)" "c < n" "k \<le> PCP_MAX_ORDER"
  shows "pcp_holds (cs ! c ! k) (C c k)" "tuned (cs ! c ! k)"
  using assms by (auto simp: caches_ok_def)

subsection \<open>Retuning\<close>

lemma tune_orders_ok:
  assumes "caches_ok n C (Some cs)" "c < n" "\<forall>k\<in>set ks. k \<le> PCP_MAX_ORDER"
  shows "caches_ok n C (Some (tune_orders ks pages c cs))"
  using assms
proof (induction ks arbitrary: cs)
  case (Cons k ks)
  have k: "k \<le> PCP_MAX_ORDER" using Cons.prems(3) by simp
  have "caches_ok n (put C c k (C c k)) (Some (set_cache c k (tune (drop_bit k pages) k (cs ! c ! k)) cs))"
    by (rule caches_ok_put [OF Cons.prems(1,2) k]) (use caches_okD [OF Cons.prems(1,2) k] in \<open>simp_all add: tune_ok\<close>)
  then show ?case using Cons by simp
qed simp

lemma tune_cpus_ok:
  assumes "caches_ok n C (Some cs)" "\<forall>c\<in>set cpus. c < n"
  shows "caches_ok n C (Some (tune_cpus cpus pages cs))"
  using assms
proof (induction cpus arbitrary: cs)
  case (Cons c cpus)
  have "caches_ok n C (Some (tune_orders [0..<PCP_MAX_ORDER + 1] pages c cs))" using Cons.prems by (intro tune_orders_ok) auto
  then show ?case using Cons by simp
qed simp

lemma tune_pcp_ready: "zone_ready M n U L C A f \<Longrightarrow> zone_ready M n U L C A (tune_pcp n f)"
  by (auto simp: zone_ready_def tune_pcp_def split: option.splits intro!: tune_cpus_ok)

subsection \<open>Allocating\<close>

lemma alloc_from_list:
  assumes bal: "balanced M U z L (cached n (put C cpu r (ys @ [p])) + A)" and cs: "caches_ok n C (Some cs)" "cpu < n" "r \<le> PCP_MAX_ORDER"
    and l: "pcp_holds l (ys @ [p])" "tuned l"
  shows "\<exists>l'. pcp_pop_hot l = (Some p, l') \<and>
    zone_ready M n U L (put C cpu r ys) (A + {#(p, r)#}) \<lparr>core = z, caches = Some (set_cache cpu r l' cs)\<rparr>"
proof -
  from pop_hot_holds [OF l(1)] obtain l' where l': "pcp_pop_hot l = (Some p, l')" "pcp_holds l' ys" "m_batch l' = m_batch l" "m_high l' = m_high l" by blast
  have "cached n (put C cpu r (ys @ [p])) + A = cached n (put C cpu r ys) + (A + {#(p, r)#})"
    using cached_put [OF cs(2,3), of C "ys @ [p]"] cached_put [OF cs(2,3), of C ys] by (simp add: ac_simps)
  then show ?thesis using bal l' l(2) caches_ok_put [OF cs l'(2)] by (simp add: zone_ready_def tuned_def)
qed

lemma alloc_pages_ready:
  assumes ready: "zone_ready M n U L C A f" and cpu: "cpu < n" and r: "r \<le> MAX_ORDER"
  shows "\<exists>page w f' L' C'. alloc_pages M daemons cpu r f = Some (page, w, f') \<and>
    zone_ready M n U L' C' (A + (case page of None \<Rightarrow> {#} | Some p \<Rightarrow> {#(p, r)#})) f' \<and> (page = None \<longrightarrow> no_run r (all_free (core f) L))"
proof (cases "r > PCP_MAX_ORDER \<or> caches f = None")
  case True
  have bal: "balanced M U (core f) L (cached n C + A)" using ready by (simp add: zone_ready_def)
  from balanced_alloc [OF bal r, of daemons] obtain page w z' L' where a: "alloc_pages_locked M daemons r (core f) = Some (page, w, z')"
    "balanced M U z' L' (cached n C + A + (case page of None \<Rightarrow> {#} | Some p \<Rightarrow> {#(p, r)#}))" "page = None \<longrightarrow> no_run r (all_free (core f) L)" by blast
  then have "zone_ready M n U L' C (A + (case page of None \<Rightarrow> {#} | Some p \<Rightarrow> {#(p, r)#})) (f\<lparr>core := z'\<rparr>)"
    using ready by (simp add: zone_ready_def add.assoc)
  moreover have "alloc_pages M daemons cpu r f = Some (page, w, f\<lparr>core := z'\<rparr>)" using True a(1) by (simp add: alloc_pages_def)
  ultimately show ?thesis using a(3) by blast
next
  case False
  then obtain cs where k: "r \<le> PCP_MAX_ORDER" and c: "caches f = Some cs" by auto
  let ?l = "cs ! cpu ! r"
  have bal: "balanced M U (core f) L (cached n C + A)" and cs: "caches_ok n C (Some cs)" using ready c by (auto simp: zone_ready_def)
  note l = caches_okD [OF cs cpu k]
  show ?thesis
  proof (cases "C cpu r = []")
    case False
    then obtain ys p where e: "C cpu r = ys @ [p]" by (metis append_butlast_last_id)
    from alloc_from_list [of M U "core f" L n C cpu r ys p A cs ?l] bal cs cpu k l e put_same(1) [of C cpu r]
    obtain l' where l': "pcp_pop_hot ?l = (Some p, l')"
      "zone_ready M n U L (put C cpu r ys) (A + {#(p, r)#}) \<lparr>core = core f, caches = Some (set_cache cpu r l' cs)\<rparr>" by auto
    have "alloc_pages M daemons cpu r f = Some (Some p, None, \<lparr>core = core f, caches = Some (set_cache cpu r l' cs)\<rparr>)"
      using count_zero [OF l(1)] False k c l'(1) by (simp add: alloc_pages_def Let_def)
    then show ?thesis using l'(2) by fastforce
  next
    case True
    have l0: "pcp_holds ?l []" using l(1) True by simp
    from balanced_refill [OF bal r l0 l(2), of daemons] obtain w l' z' L' ys where b: "batch_refill_pcp M daemons r ?l (core f) = Some (ys \<noteq> [], w, l', z')"
      "pcp_holds l' ys" "tuned l'" "balanced M U z' L' (cached n C + A + of_order r ys)" "ys = [] \<longrightarrow> no_run r (all_free (core f) L)" by blast
    have bal': "balanced M U z' L' (cached n (put C cpu r ys) + A)"
      using b(4) cached_put [OF cpu k, of C ys] put_same(1) [of C cpu r] True by (simp add: ac_simps)
    have z: "m_count ?l = 0" using count_zero [OF l0] by simp
    show ?thesis
    proof (cases "ys = []")
      case True
      have "zone_ready M n U L' (put C cpu r ys) A \<lparr>core = z', caches = Some (set_cache cpu r l' cs)\<rparr>"
        using bal' caches_ok_put [OF cs cpu k b(2,3)] by (simp add: zone_ready_def)
      moreover have "alloc_pages M daemons cpu r f = Some (None, w, \<lparr>core = z', caches = Some (set_cache cpu r l' cs)\<rparr>)"
        using True b(1) z k c by (simp add: alloc_pages_def Let_def)
      ultimately show ?thesis using b(5) True by fastforce
    next
      case False
      then obtain us p where e: "ys = us @ [p]" by (metis append_butlast_last_id)
      from alloc_from_list [OF _ cs cpu k, of M U z' L' us p A l'] bal' b(2,3) e
      obtain l'' where l'': "pcp_pop_hot l' = (Some p, l'')"
        "zone_ready M n U L' (put C cpu r us) (A + {#(p, r)#}) \<lparr>core = z', caches = Some (set_cache cpu r l'' cs)\<rparr>" by auto
      have "alloc_pages M daemons cpu r f = Some (Some p, w, \<lparr>core = z', caches = Some (set_cache cpu r l'' cs)\<rparr>)"
        using False b(1) z k c l''(1) by (simp add: alloc_pages_def Let_def)
      then show ?thesis using l''(2) by fastforce
    qed
  qed
qed

subsection \<open>Freeing\<close>

lemma set_order_held: "k \<le> MAX_ORDER \<Longrightarrow> get_order (set_order k p) = k \<and> flags_state (page_flags (set_order k p)) = flags_state (page_flags p)"
  by (simp add: get_order_def set_order_def flags_order_def flags_state_def bf_get_set bf_get_set_other MAX_ORDER_def
      unsigned_take_bit_eq unat_of_nat take_bit_nat_eq_self)

lemma balanced_set_order:
  assumes bal: "balanced M U z L (B + {#(p, k)#})"
  shows "balanced M U (on_page p (set_order k) z) L (B + {#(p, k)#})"
proof -
  let ?z = "on_page p (set_order k) z"
  note ap = held_apart [OF bal]
  have ok: "zone_ok M z L" and h: "held M z (p, k)" using bal by (auto simp: balanced_def)
  have k: "k \<le> MAX_ORDER" using ap(1) by (simp add: block_ok_def)
  note so = set_order_held [OF k, of "frames z p"]
  have "unat p \<notin> free_frames L" using ap(2) block_frames_self [of p k] by blast
  then have "zone_inv M {p} z L" using take_in_hand ok by (simp add: zone_ok_def)
  then have "zone_inv M ({} - {p}) ?z L"
    by (rule release_inv) (use so h in \<open>simp_all add: is_free_buddy_def held_def, simp_all add: set_order_def\<close>)
  moreover have ord: "deferred_order ?z q = deferred_order z q" for q using so h by (simp add: deferred_order_def on_page_def held_def)
  note c = deferred_cong [of "free_frames L" ?z z M "deferred_frees z", OF ord]
  have "deferred_ok M z (free_frames L) (deferred_frees z)" using ok by (simp add: zone_ok_def)
  note d = c(1) [THEN iffD2, OF this] c(2) [OF this]
  have "deferred_frees ?z = deferred_frees z" "total_free_pages ?z = total_free_pages z" by (simp_all add: on_page_def)
  ultimately have zok: "zone_ok M ?z L" and fr: "all_free ?z L = all_free z L" using ok d by (auto simp: zone_ok_def)
  show ?thesis
  proof (rule balanced_step [OF bal zok])
    show "calm (all_free z L \<union> set_mset (frames_of {#(p, k)#})) z ?z"
      using block_frames_self [of p k] card_block(2) [of p k] by (auto simp: calm_def on_page_def)
    show "mset_set (all_free ?z L) + frames_of {#(p, k)#} = mset_set (all_free z L) + frames_of {#(p, k)#}" unfolding fr ..
    show "\<forall>b\<in>#{#(p, k)#}. held M ?z b" using h so by (simp add: held_def on_page_def)
  qed
qed

lemma deferred_append:
  "deferred_ok M z F (ps @ [p]) \<longleftrightarrow> deferred_ok M z F ps \<and> block_ok M p (deferred_order z p) \<and>
     block_frames p (deferred_order z p) \<inter> (F \<union> deferred_frames z ps) = {}"
  by (induction ps arbitrary: F) (auto simp: deferred_frames_def)

lemma balanced_enqueue:
  assumes bal: "balanced M U z L (B + {#(p, k)#})"
  shows "balanced M U (z\<lparr>deferred_frees := deferred_frees z @ [p]\<rparr>) L B"
proof -
  let ?z = "z\<lparr>deferred_frees := deferred_frees z @ [p]\<rparr>"
  note ap = held_apart [OF bal]
  have ok: "zone_ok M z L" and o: "deferred_order z p = k" using bal by (auto simp: balanced_def held_def deferred_order_def)
  have ord: "deferred_order ?z q = deferred_order z q" for q by (simp add: deferred_order_def)
  note c = deferred_cong [of "free_frames L" ?z z M "deferred_frees z @ [p]", OF ord]
  have d: "deferred_ok M z (free_frames L) (deferred_frees z @ [p])" using ok ap o by (simp add: deferred_append zone_ok_def)
  have "deferred_frames z (deferred_frees z @ [p]) = deferred_frames z (deferred_frees z) \<union> block_frames p k" by (auto simp: deferred_frames_def o)
  then have fr: "all_free ?z L = all_free z L \<union> block_frames p k" using c(2) [OF d] by (simp add: Un_assoc)
  have "balanced M U ?z L (B + {#})"
  proof (rule balanced_step [OF bal])
    show "zone_ok M ?z L" using ok c(1) d by (simp add: zone_ok_def)
    show "calm (all_free z L \<union> set_mset (frames_of {#(p, k)#})) z ?z" by (simp add: calm_def)
    show "mset_set (all_free ?z L) + frames_of {#} = mset_set (all_free z L) + frames_of {#(p, k)#}"
      unfolding fr using ap(2) finite_all_free [of L z] card_block(2) [of p k] by (subst mset_set_Union) auto
  qed simp
  then show ?thesis by simp
qed

lemma free_page_ready:
  assumes ready: "zone_ready M n U L C (A + {#(p, k)#}) f" and cpu: "cpu < n"
  shows "\<exists>f' L' C'. free_page M cpu cpu_node enqueued p k f = Some f' \<and> zone_ready M n U L' C' A f' \<and>
    (cpu_node \<noteq> node_id (core f) \<or> PCP_MAX_ORDER < k \<longrightarrow> C' = C)"
proof -
  have bal: "balanced M U (core f) L ((cached n C + A) + {#(p, k)#})" and ok: "caches_ok n C (caches f)"
    using ready by (auto simp: zone_ready_def add.assoc)
  have locked: "\<exists>L'. zone_ready M n U L' C A (f\<lparr>core := z\<rparr>)" if "balanced M U z L' (cached n C + A)" for z L'
    using that ok by (auto simp: zone_ready_def)
  consider "cpu_node \<noteq> node_id (core f)" | "cpu_node = node_id (core f)" "k > PCP_MAX_ORDER \<or> caches f = None"
    | cs where "cpu_node = node_id (core f)" "k \<le> PCP_MAX_ORDER" "caches f = Some cs" by force
  then show ?thesis
  proof cases
    case 1
    let ?z = "on_page p (set_order k) (core f)"
    note b = balanced_set_order [OF bal]
    obtain K where "balanced M U (free_page_locked M p k ?z) K (cached n C + A)" using balanced_free [OF b] by blast
    then obtain K' where "balanced M U (if enqueued then ?z\<lparr>deferred_frees := deferred_frees ?z @ [p]\<rparr> else free_page_locked M p k ?z) K' (cached n C + A)"
      using balanced_enqueue [OF b] by (cases enqueued) auto
    note locked [OF this]
    moreover have "free_page M cpu cpu_node enqueued p k f =
        Some (f\<lparr>core := if enqueued then ?z\<lparr>deferred_frees := deferred_frees ?z @ [p]\<rparr> else free_page_locked M p k ?z\<rparr>)"
      using 1 by (simp add: free_page_def Let_def)
    ultimately show ?thesis by blast
  next
    case 2
    obtain K where "balanced M U (free_page_locked M p k (core f)) K (cached n C + A)" using balanced_free [OF bal] by blast
    note locked [OF this]
    moreover have "free_page M cpu cpu_node enqueued p k f = Some (f\<lparr>core := free_page_locked M p k (core f)\<rparr>)"
      using 2 by (simp add: free_page_def)
    ultimately show ?thesis by blast
  next
    case (3 cs)
    let ?l = "cs ! cpu ! k" and ?B = "cached n (put C cpu k []) + A + {#(p, k)#}"
    have cs: "caches_ok n C (Some cs)" using ok 3(3) by simp
    note l = caches_okD [OF cs cpu 3(2)]
    have b: "balanced M U (core f) L (?B + of_order k (C cpu k))"
      using bal cached_put [OF cpu 3(2), of C "C cpu k"] by (simp add: ac_simps)
    have "\<exists>l' z' L' ys. (if needs_drain ?l then batch_drain_pcp M k ?l (core f) else Some (?l, core f)) = Some (l', z') \<and>
        pcp_holds l' ys \<and> tuned l' \<and> length ys < 256 \<and> balanced M U z' L' (?B + of_order k ys)"
    proof (cases "needs_drain ?l")
      case True
      then show ?thesis using balanced_drain [OF b l] by simp
    next
      case False
      then have "unat (m_count ?l) < 256" using l(2) by (simp add: needs_drain_def tuned_def MAX_CAPACITY_def word_le_nat_alt)
      then show ?thesis using False l b unat_count [OF l(1)] by auto
    qed
    then obtain l' z' L' ys where d: "(if needs_drain ?l then batch_drain_pcp M k ?l (core f) else Some (?l, core f)) = Some (l', z')"
        "pcp_holds l' ys" "tuned l'" "length ys < 256" "balanced M U z' L' (?B + of_order k ys)" by blast
    have "free_page M cpu cpu_node enqueued p k f = Some \<lparr>core = z', caches = Some (set_cache cpu k (pcp_push_hot p l') cs)\<rparr>"
      using 3 d(1) by (simp add: free_page_def Let_def)
    moreover have "balanced M U z' L' (cached n (put C cpu k (ys @ [p])) + A)"
      using d(5) cached_put [OF cpu 3(2), of C "ys @ [p]"] by (simp add: ac_simps)
    then have "zone_ready M n U L' (put C cpu k (ys @ [p])) A \<lparr>core = z', caches = Some (set_cache cpu k (pcp_push_hot p l') cs)\<rparr>"
      using caches_ok_put [OF cs cpu 3(2) push_holds [OF d(2,4)], of p] d(3) by (simp add: zone_ready_def)
    moreover have "\<not> (cpu_node \<noteq> node_id (core f) \<or> PCP_MAX_ORDER < k)" using 3 by simp
    ultimately show ?thesis by blast
  qed
qed

lemma freed_frames:
  assumes "zone_ready M n U L C (A + {#(p, k)#}) f" "zone_ready M n U L' C A f'"
  shows "all_free (core f') L' = all_free (core f) L \<union> block_frames p k"
proof -
  have bal: "balanced M U (core f) L ((cached n C + A) + {#(p, k)#})" using assms(1) by (simp add: zone_ready_def add.assoc)
  have "mset_set (all_free (core f') L') + frames_of (cached n C + A) =
      mset_set (all_free (core f) L) + mset_set (block_frames p k) + frames_of (cached n C + A)"
    using bal assms(2) by (simp add: zone_ready_def balanced_def ac_simps)
  then have "mset_set (all_free (core f') L') = mset_set (all_free (core f) L) + mset_set (block_frames p k)" by simp
  also have "\<dots> = mset_set (all_free (core f) L \<union> block_frames p k)"
    by (rule mset_set_Union [symmetric, OF finite_all_free card_block(2)]) (use held_apart(2) [OF bal] in blast)
  finally show ?thesis using finite_all_free card_block(2) by (metis finite_UnI finite_set_mset_mset_set)
qed

end
