(* ===== verification/ZoneFrames.thy ===== *)
theory ZoneFrames
  imports ZoneCaches
begin

unbundle bit_operations_syntax

text \<open>
  The properties of the page allocator of a zone, over its public operations.
\<close>

subsection \<open>Callers\<close>

text \<open>
  One call of a CPU into the zone.  The second component is the multiset of blocks the callers hold: an
  allocation adds the block it returned, and a caller frees only a block it holds, with its order.
\<close>

inductive zone_step :: "pfn \<Rightarrow> nat \<Rightarrow> mobility_zone \<times> (pfn \<times> nat) multiset \<Rightarrow> mobility_zone \<times> (pfn \<times> nat) multiset \<Rightarrow> bool"
  for max_pfn :: pfn and cpus :: nat where
  step_alloc: "cpu < cpus \<Longrightarrow> r \<le> MAX_ORDER \<Longrightarrow> alloc_pages max_pfn daemons cpu r f = Some (Some p, w, f') \<Longrightarrow>
    zone_step max_pfn cpus (f, A) (f', A + {#(p, r)#})"
| step_alloc_fails: "cpu < cpus \<Longrightarrow> r \<le> MAX_ORDER \<Longrightarrow> alloc_pages max_pfn daemons cpu r f = Some (None, w, f') \<Longrightarrow>
    zone_step max_pfn cpus (f, A) (f', A)"
| step_free: "cpu < cpus \<Longrightarrow> free_page max_pfn cpu cpu_node enqueued p k f = Some f' \<Longrightarrow>
    zone_step max_pfn cpus (f, A + {#(p, k)#}) (f', A)"
| step_tune: "zone_step max_pfn cpus (f, A) (tune_pcp cpus f, A)"

lemma step_ready:
  assumes "zone_step M n s s'" "zone_ready M n U L C (snd s) (fst s)"
  shows "\<exists>L' C'. zone_ready M n U L' C' (snd s') (fst s')"
  using assms
proof cases
  case (step_alloc cpu r daemons f p w f' A)
  then have "zone_ready M n U L C A f" using assms(2) by simp
  from alloc_pages_ready [OF this step_alloc(3,4), of daemons] show ?thesis using step_alloc by auto
next
  case (step_alloc_fails cpu r daemons f w f' A)
  then have "zone_ready M n U L C A f" using assms(2) by simp
  from alloc_pages_ready [OF this step_alloc_fails(3,4), of daemons] show ?thesis using step_alloc_fails by auto
next
  case (step_free cpu cpu_node enqueued p k f f' A)
  then have "zone_ready M n U L C (A + {#(p, k)#}) f" using assms(2) by simp
  from free_page_ready [OF this step_free(3), of cpu_node enqueued] show ?thesis using step_free by auto
next
  case (step_tune f A)
  then have "zone_ready M n U L C A f" using assms(2) by simp
  from tune_pcp_ready [OF this] show ?thesis using step_tune by auto
qed

lemma steps_ready:
  assumes "(zone_step M n)\<^sup>*\<^sup>* s s'" "zone_ready M n U L C (snd s) (fst s)"
  shows "\<exists>L' C'. zone_ready M n U L' C' (snd s') (fst s')"
  using assms(1) by (induction rule: rtranclp_induct) (use assms(2) step_ready in blast)+

lemma ready_frames: "zone_ready M n U L C A f \<Longrightarrow> frames_of A \<subseteq># mset_set U"
proof -
  assume "zone_ready M n U L C A f"
  then have "mset_set (all_free (core f) L) + frames_of (cached n C) + frames_of A = mset_set U"
    by (simp add: zone_ready_def balanced_def add.assoc)
  then show ?thesis using mset_subset_eq_add_right by metis
qed

subsection \<open>A small zone\<close>

definition small_zone :: zone where
  "small_zone = \<lparr>active_orders = 0, areas = replicate (MAX_ORDER + 1) new_area, total_free_pages = 0, zone_mobility = Movable, node_id = 0,
     watermarks = \<lparr>wm_min = 0, wm_low = 0, wm_high = 0\<rparr>, deferred_frees = [],
     frames = (\<lambda>p. set_order (if p = 8 then 3 else 0) \<lparr>ref_count = 0, page_flags = 0, topology = 0, buddy_next = None, buddy_prev = None\<rparr>)\<rparr>"

definition small_mobility_zone :: mobility_zone where
  "small_mobility_zone = tune_pcp 1 (allocate_pcp [replicate (PCP_MAX_ORDER + 1) (tune 0 0 new_pcp_list)] \<lparr>core = small_zone, caches = None\<rparr>)"

lemma free_frames_none: "free_frames (\<lambda>_. []) = {}"
  by (simp add: free_frames_def)

lemma small_flags: "flags_state (page_flags (frames small_zone p)) = 0" "get_order (frames small_zone 8) = 3"
  using set_order_held [of "if p = 8 then 3 else 0"] set_order_held [of 3]
  by (auto simp: small_zone_def flags_state_def bf_get_def MAX_ORDER_def)

lemma small_zone_ok: "zone_ok 4096 small_zone (\<lambda>_. [])"
proof -
  have "\<not> is_free_buddy k (frames small_zone p) small_zone" for k p using small_flags(1) by (simp add: is_free_buddy_def)
  moreover have "areas small_zone ! k = new_area" if "k \<le> MAX_ORDER" for k
    using that by (simp add: small_zone_def less_Suc_eq_le del: replicate_Suc)
  moreover have "length (areas small_zone) = MAX_ORDER + 1" "active_orders small_zone = 0" by (simp_all add: small_zone_def)
  ultimately have "zone_inv 4096 {} small_zone (\<lambda>_. [])"
    by (intro zone_invI) (simp_all add: area_holds_def new_area_def)
  then show ?thesis by (simp add: zone_ok_def free_frames_none) (simp add: small_zone_def)
qed

lemma small_zone_ready: "zone_ready 4096 1 {8..<16} (\<lambda>_. []) (\<lambda>_ _. []) {#(8, 3)#} small_mobility_zone"
  unfolding small_mobility_zone_def
proof (rule tune_pcp_ready)
  have "balanced 4096 {8..<16} small_zone (\<lambda>_. []) {#(8, 3)#}"
    using small_zone_ok small_flags by (simp add: balanced_def free_frames_none held_def block_ok_def MAX_ORDER_def block_frames_def)
      (simp add: small_zone_def deferred_frames_def)
  moreover have "caches_ok 1 (\<lambda>_ _. []) (Some [replicate (PCP_MAX_ORDER + 1) (tune 0 0 new_pcp_list)])"
    by (simp add: caches_ok_def nth_append tune_ok new_pcp_list_holds del: replicate_Suc)
  ultimately show "zone_ready 4096 1 {8..<16} (\<lambda>_. []) (\<lambda>_ _. []) {#(8, 3)#}
      (allocate_pcp [replicate (PCP_MAX_ORDER + 1) (tune 0 0 new_pcp_list)] \<lparr>core = small_zone, caches = None\<rparr>)"
    by (simp add: zone_ready_def allocate_pcp_def cached_def)
qed

text \<open>The same zone after a remote CPU handed the block back.\<close>

definition deferred_zone :: mobility_zone where
  "deferred_zone = small_mobility_zone\<lparr>core := small_zone\<lparr>deferred_frees := [8]\<rparr>\<rparr>"

lemma small_core: "core small_mobility_zone = small_zone"
  by (simp add: small_mobility_zone_def allocate_pcp_def tune_pcp_def)

lemma deferred_zone_ready: "zone_ready 4096 1 {8..<16} (\<lambda>_. []) (\<lambda>_ _. []) {#} deferred_zone"
proof -
  have "balanced 4096 {8..<16} small_zone (\<lambda>_. []) ({#} + {#(8, 3)#})" "deferred_frees small_zone = []"
    using small_zone_ready by (simp_all add: zone_ready_def small_core cached_def, simp add: small_zone_def)
  then have "balanced 4096 {8..<16} (small_zone\<lparr>deferred_frees := [8]\<rparr>) (\<lambda>_. []) {#}" using balanced_enqueue by fastforce
  then show ?thesis using small_zone_ready by (simp add: zone_ready_def deferred_zone_def cached_def)
qed

lemma deferred_zone_free: "all_free (core deferred_zone) (\<lambda>_. []) = {8..<16}"
  using small_flags(2) by (simp add: free_frames_none deferred_frames_def deferred_zone_def deferred_order_def block_frames_def)

lemma ready_new_block:
  assumes "zone_ready M n U L C (A + {#(p, r)#}) f"
  shows "held M (core f) (p, r)" "block_frames p r \<subseteq> U" "\<forall>x\<in>block_frames p r. x \<notin># frames_of A"
proof -
  have bal: "balanced M U (core f) L ((cached n C + A) + {#(p, r)#})" using assms by (simp add: zone_ready_def add.assoc)
  then show "held M (core f) (p, r)" by (simp add: balanced_def)
  have eq: "mset_set U = mset_set (block_frames p r) + frames_of A + (mset_set (all_free (core f) L) + frames_of (cached n C))"
    using bal by (simp add: balanced_def ac_simps)
  have in_block: "x \<in># mset_set (block_frames p r)" if "x \<in> block_frames p r" for x using that card_block(2) [of p r] by simp
  show "block_frames p r \<subseteq> U"
  proof
    fix x assume "x \<in> block_frames p r"
    from in_block [OF this] have "x \<in># mset_set U" unfolding eq by simp
    then show "x \<in> U" by (cases "finite U") auto
  qed
  show "\<forall>x\<in>block_frames p r. x \<notin># frames_of A" using twice_mset [OF eq] in_block by blast
qed

subsection \<open>Properties\<close>

text \<open>C37: However the CPUs interleave their calls to \<open>alloc_pages\<close>, \<open>free_page\<close> and \<open>tune_pcp\<close>, the frames in the
  zone's free lists, in its deferred ring, in the per-CPU caches and in the blocks the callers hold stay
  exactly the zone's frames, each once: no frame is lost, none is handed to two callers, and the zone is
  again in a state in which every further call works.
\<close>

theorem zone_conserves:
  assumes "zone_ready M n U L C A f" "(zone_step M n)\<^sup>*\<^sup>* (f, A) (f', A')"
  shows "(\<exists>L' C'. zone_ready M n U L' C' A' f') \<and> frames_of A' \<subseteq># mset_set U"
  using steps_ready [OF assms(2)] assms(1) ready_frames by fastforce

theorem zone_conserves_witness:
  "\<exists>f'. (zone_step 4096 1)\<^sup>*\<^sup>* (small_mobility_zone, {#(8, 3)#}) (f', {#}) \<and> (\<exists>L' C'. zone_ready 4096 1 {8..<16} L' C' {#} f') \<and>
    frames_of {#} \<subseteq># mset_set {8..<16}"
proof -
  have "zone_ready 4096 1 {8..<16} (\<lambda>_. []) (\<lambda>_ _. []) ({#} + {#(8, 3)#}) small_mobility_zone" using small_zone_ready by simp
  from free_page_ready [OF this, of 0 0 False] obtain f' where "free_page 4096 0 0 False 8 3 small_mobility_zone = Some f'" by auto
  then have "zone_step 4096 1 (small_mobility_zone, {#} + {#(8, 3)#}) (f', {#})" by (intro step_free) simp_all
  then have "(zone_step 4096 1)\<^sup>*\<^sup>* (small_mobility_zone, {#(8, 3)#}) (f', {#})" by simp
  then show ?thesis using zone_conserves [OF small_zone_ready] by blast
qed

text \<open>C38: \<open>alloc_pages\<close> of any order returns from every such state.  A block it returns is aligned to its size,
  lies in the zone's memory and apart from every block a caller holds, and its head is marked Active with its
  order.  It returns null only if neither the free lists nor the deferred ring contain an aligned run of that
  many free frames, however they are split into blocks.
\<close>

theorem zone_alloc:
  assumes "zone_ready M n U L C A f" "cpu < n" "r \<le> MAX_ORDER"
  shows "\<exists>page w f' L' C'. alloc_pages M daemons cpu r f = Some (page, w, f') \<and>
    (case page of
      None \<Rightarrow> no_run r (all_free (core f) L) \<and> zone_ready M n U L' C' A f'
    | Some p \<Rightarrow> 2 ^ r dvd unat p \<and> block_frames p r \<subseteq> U \<and> (\<forall>x\<in>block_frames p r. x \<notin># frames_of A) \<and>
        get_order (frames (core f') p) = r \<and> flags_state (page_flags (frames (core f') p)) = state_code Active \<and>
        zone_ready M n U L' C' (A + {#(p, r)#}) f')"
proof -
  from alloc_pages_ready [OF assms, of daemons] obtain page w f' L' C' where a: "alloc_pages M daemons cpu r f = Some (page, w, f')"
    "zone_ready M n U L' C' (A + (case page of None \<Rightarrow> {#} | Some p \<Rightarrow> {#(p, r)#})) f'" "page = None \<longrightarrow> no_run r (all_free (core f) L)" by blast
  show ?thesis
  proof (cases page)
    case None
    then show ?thesis using a by fastforce
  next
    case (Some p)
    then have ready: "zone_ready M n U L' C' (A + {#(p, r)#}) f'" using a(2) by simp
    note b = ready_new_block [OF ready]
    show ?thesis
      by (rule exI [of _ page], rule exI [of _ w], rule exI [of _ f'], rule exI [of _ L'], rule exI [of _ C'])
        (use a(1) Some ready b in \<open>simp add: held_def block_ok_def\<close>)
  qed
qed

theorem zone_alloc_witness:
  "\<exists>p w f'. alloc_pages 4096 True 0 2 deferred_zone = Some (Some p, w, f') \<and> 2 ^ 2 dvd unat p \<and> block_frames p 2 \<subseteq> {8..<16}"
proof -
  have "(0 :: nat) < 1" "2 \<le> MAX_ORDER" by (simp_all add: MAX_ORDER_def)
  from zone_alloc [OF deferred_zone_ready this, of True] obtain page w f' where a: "alloc_pages 4096 True 0 2 deferred_zone = Some (page, w, f')"
    "case page of None \<Rightarrow> no_run 2 (all_free (core deferred_zone) (\<lambda>_. [])) | Some p \<Rightarrow> 2 ^ 2 dvd unat p \<and> block_frames p 2 \<subseteq> {8..<16}"
    by (auto split: option.splits)
  have "(2 :: nat) ^ 2 dvd 8" "{8..<8 + 2 ^ 2} \<subseteq> {8..<16 :: nat}" by auto
  then have "\<not> no_run 2 {8..<16}" unfolding no_run_def by blast
  then have "page \<noteq> None" using a(2) deferred_zone_free by (cases page) simp_all
  then show ?thesis using a by auto
qed

text \<open>C39: \<open>free_page\<close> of a block its caller holds returns on every path, whether the block goes to the per-CPU
  cache (draining it first when it is full), into the deferred ring, or straight into the buddy lists, and the
  zone's frames still add up.  Once the block is back its frames are free, deferred or cached: if the caller
  is remote, or the order is not cached, the block's frames are among those the next allocation can use.
\<close>

theorem zone_free:
  assumes "zone_ready M n U L C (A + {#(p, k)#}) f" "cpu < n"
  shows "\<exists>f' L' C'. free_page M cpu cpu_node enqueued p k f = Some f' \<and> zone_ready M n U L' C' A f' \<and>
    (cpu_node \<noteq> node_id (core f) \<or> PCP_MAX_ORDER < k \<longrightarrow> all_free (core f') L' = all_free (core f) L \<union> block_frames p k)"
proof -
  from free_page_ready [OF assms, of cpu_node enqueued] obtain f' L' C' where f: "free_page M cpu cpu_node enqueued p k f = Some f'"
    "zone_ready M n U L' C' A f'" "cpu_node \<noteq> node_id (core f) \<or> PCP_MAX_ORDER < k \<longrightarrow> C' = C" by blast
  then show ?thesis using freed_frames [OF assms(1)] by blast
qed

theorem zone_free_witness:
  "\<exists>f' L'. free_page 4096 0 1 True 8 3 small_mobility_zone = Some f' \<and> all_free (core f') L' = {8..<16}"
proof -
  have "zone_ready 4096 1 {8..<16} (\<lambda>_. []) (\<lambda>_ _. []) ({#} + {#(8, 3)#}) small_mobility_zone" "(0 :: nat) < 1" using small_zone_ready by simp_all
  from zone_free [OF this, of 1 True] obtain f' L' where "free_page 4096 0 1 True 8 3 small_mobility_zone = Some f'"
    "1 \<noteq> node_id (core small_mobility_zone) \<longrightarrow> all_free (core f') L' = all_free (core small_mobility_zone) (\<lambda>_. []) \<union> block_frames 8 3" by blast
  moreover have "1 \<noteq> node_id (core small_mobility_zone)" "all_free (core small_mobility_zone) (\<lambda>_. []) = {}"
    unfolding small_core by (simp_all add: small_zone_def free_frames_none deferred_frames_def)
  moreover have "block_frames 8 3 = {8..<16}" by (simp add: block_frames_def)
  ultimately show ?thesis by auto
qed

text \<open>C40: A sibling zone that runs dry takes from this zone a block of at least the order it needs, and it is the
  largest there is: no larger aligned run is free.  The rest of the zone's free frames stay, the count
  follows, and the zone says no only if it has no run of the order asked for.
\<close>

theorem zone_steal:
  assumes "zone_ok M z L" "r \<le> MAX_ORDER"
  shows "\<exists>page z' L'. extract_largest_block_for_steal M r z = Some (page, z') \<and> zone_ok M z' L' \<and> deferred_frees z' = [] \<and>
    (case page of
      Some p \<Rightarrow> \<exists>k. r \<le> k \<and> block_ok M p k \<and> block_frames p k \<subseteq> all_free z L \<and> free_frames L' = all_free z L - block_frames p k \<and>
        (\<forall>j a. k < j \<and> j \<le> MAX_ORDER \<and> 2 ^ j dvd a \<longrightarrow> \<not> {a..<a + 2 ^ j} \<subseteq> all_free z L)
    | None \<Rightarrow> free_frames L' = all_free z L \<and> \<not> (\<exists>a. 2 ^ r dvd a \<and> {a..<a + 2 ^ r} \<subseteq> all_free z L))"
  by (rule steal_ok [OF assms])

theorem zone_steal_witness:
  "\<exists>z'. extract_largest_block_for_steal 4096 1 (core deferred_zone) = Some (Some 8, z')"
proof -
  have "zone_ok 4096 (core deferred_zone) (\<lambda>_. [])" "1 \<le> MAX_ORDER"
    using deferred_zone_ready by (simp_all add: zone_ready_def balanced_def MAX_ORDER_def)
  note st = zone_steal [OF this, unfolded deferred_zone_free]
  then obtain page z' L' where s: "extract_largest_block_for_steal 4096 1 (core deferred_zone) = Some (page, z')"
    and c: "case page of
      Some p \<Rightarrow> \<exists>k. 1 \<le> k \<and> block_ok 4096 p k \<and> block_frames p k \<subseteq> {8..<16} \<and> free_frames L' = {8..<16} - block_frames p k \<and>
        (\<forall>j a. k < j \<and> j \<le> MAX_ORDER \<and> 2 ^ j dvd a \<longrightarrow> \<not> {a..<a + 2 ^ j} \<subseteq> {8..<16 :: nat})
    | None \<Rightarrow> free_frames L' = {8..<16} \<and> \<not> (\<exists>a :: nat. 2 ^ 1 dvd a \<and> {a..<a + 2 ^ 1} \<subseteq> {8..<16})" by blast
  have "(2 :: nat) ^ 1 dvd 8" "{8..<8 + 2 ^ 1} \<subseteq> {8..<16 :: nat}" by auto
  then have run: "\<exists>a :: nat. 2 ^ 1 dvd a \<and> {a..<a + 2 ^ 1} \<subseteq> {8..<16}" by blast
  obtain p where p: "page = Some p"
  proof (cases page)
    case None
    then show ?thesis using c run by (simp only: option.case) blast
  qed
  from c obtain k where k: "block_frames p k \<subseteq> {8..<16}"
      and top: "\<forall>j a. k < j \<and> j \<le> MAX_ORDER \<and> 2 ^ j dvd a \<longrightarrow> \<not> {a..<a + 2 ^ j} \<subseteq> {8..<16 :: nat}"
    unfolding p option.case by (elim exE conjE) rule
  have "\<not> k < 3" using top [rule_format, of 3 8] by (auto simp: MAX_ORDER_def)
  then have "(2 :: nat) ^ 3 \<le> 2 ^ k" by (intro power_increasing) simp_all
  then have "unat p \<in> block_frames p k" "unat p + 7 \<in> block_frames p k" unfolding block_frames_def by auto
  then have "8 \<le> unat p" "unat p + 7 < 16" using k by auto
  then have "unat p = unat (8 :: pfn)" by simp
  then have "p = 8" by (rule unsigned_word_eqI)
  then show ?thesis using s p by simp
qed

text \<open>
  The zone that receives a stolen block keeps the part that was asked for and adds the rest of the block,
  split into buddies under its own mobility, to its free frames, with the count following.
\<close>

theorem zone_adopt:
  assumes "zone_ok M z L" "block_ok M p k" "r \<le> k" "block_frames p k \<inter> all_free z L = {}"
  shows "\<exists>z' L'. adopt_stolen_block p k r z = (p, z') \<and> zone_ok M z' L' \<and> get_order (frames z' p) = r \<and>
    all_free z' L' = all_free z L \<union> (block_frames p k - block_frames p r)"
  by (rule adopt_ok [OF assms])

theorem zone_adopt_witness:
  "\<exists>z' L'. adopt_stolen_block 8 3 1 small_zone = (8, z') \<and> zone_ok 4096 z' L' \<and> get_order (frames z' 8) = 1 \<and> all_free z' L' = {10..<16}"
proof -
  have "block_ok 4096 8 3" "1 \<le> (3 :: nat)" "block_frames 8 3 \<inter> all_free small_zone (\<lambda>_. []) = {}"
    by (auto simp: block_ok_def MAX_ORDER_def free_frames_none deferred_frames_def small_zone_def)
  from zone_adopt [OF small_zone_ok this] obtain z' L' where "adopt_stolen_block 8 3 1 small_zone = (8, z')" "zone_ok 4096 z' L'"
    "get_order (frames z' 8) = 1" "all_free z' L' = all_free small_zone (\<lambda>_. []) \<union> (block_frames 8 3 - block_frames 8 1)" by blast
  moreover have "all_free small_zone (\<lambda>_. []) = {}" by (simp add: free_frames_none deferred_frames_def small_zone_def)
  moreover have "block_frames 8 3 - block_frames 8 1 = {10..<16}" by (auto simp: block_frames_def)
  ultimately show ?thesis by (metis sup_bot_left)
qed

end
