(* ===== verification/Spec2Isabelle.thy ===== *)
theory Spec2Isabelle
  imports Maths LinkedList EevdfProps NumaProps StrOps QSort StdProps BSearchProps RingProps ChaChaProps Blake2bProps RwLock ZoneFrames
begin

text \<open>
  \<^bold>\<open>A verification library for the Erebus kernel.\<close>

  Erebus is a C++ kernel for x86-64.  \<^verbatim>\<open>klib\<close> is its freestanding C library; \<^verbatim>\<open>kernel/include/utils\<close> holds
  containers and locks; \<^verbatim>\<open>kernel/src/sched\<close> the scheduler, whose fair class is an EEVDF queue on an intrusive
  AVL tree, with one domain per NUMA node to find idle CPUs; \<^verbatim>\<open>kernel/src/memory/pmm\<close> the physical memory manager,
  buddy zones behind per-CPU caches; \<^verbatim>\<open>kernel/src/crypto\<close> the cipher and the hash of the random number
  generator.  The queue calls the tree, the domains and the zones call the bit tricks of \<^verbatim>\<open>klib\<close>, remote frees go
  through the lock-free ring, and the writers of the read-write lock queue on a ticket lock; the theories import
  each other the same way.

  \<^bold>\<open>Conventions.\<close>  Machine integers are words of the width of the source and wrap as it does; \<^verbatim>\<open>Prelude\<close> has the
  bit functions of the standard library (\<^verbatim>\<open>countr_zero\<close>, \<^verbatim>\<open>bit_width\<close>, \<^verbatim>\<open>bit_ceil\<close>) with their laws.  Objects that
  the source links by pointers live in an explicit store, a function from addresses (or page frame numbers) to
  records.  \<^const>\<open>None\<close> as the result of an operation is a failed assertion, a null dereference or a loop that does
  not end; that it does not occur is part of the properties.  A loop is a structural recursion or a \<open>function\<close>
  with a measure where it obviously ends, and a \<open>partial_function\<close> otherwise, with a proof that it returns; no
  model uses fuel.  Concurrent code is cut into its atomic accesses, program counters of any number of threads
  are part of the state, and an inductive relation interleaves them, in sequentially consistent memory.

  \<^bold>\<open>Utilities.\<close>  \<^verbatim>\<open>Maths\<close> models \<^verbatim>\<open>utils/maths.hpp\<close> (alignment: \<open>align_tight\<close>).  \<^verbatim>\<open>LinkedList\<close> is the intrusive list of
  \<^verbatim>\<open>utils/linked_list.hpp\<close> on a store of links.  \<^verbatim>\<open>AvlTree\<close> has every operation of \<^verbatim>\<open>utils/avl_tree.hpp\<close>; \<^verbatim>\<open>AvlShape\<close>,
  \<^verbatim>\<open>AvlRefine\<close>, \<^verbatim>\<open>AvlErase\<close> and \<^verbatim>\<open>AvlSpec\<close> refine them to functional trees and to their in-order lists, inside the
  locale \<open>avl_traits\<close> of what the tree wants of an item.  \<^verbatim>\<open>RingDeque\<close> models the bounded deque of
  \<^verbatim>\<open>utils/ring_buffer.hpp\<close> and the contract \<open>bounded_deque\<close> it is an instance of; \<^verbatim>\<open>RingBuffer\<close>, \<^verbatim>\<open>RingSlots\<close> and
  \<^verbatim>\<open>RingProps\<close> its lock-free ring: every item once, in order, and truthful answers when full or empty, for fewer
  than \<open>2 ^ 63\<close> pushes.  \<^verbatim>\<open>TicketLock\<close> and \<^verbatim>\<open>RwLock\<close> model \<^verbatim>\<open>utils/locks\<close>: mutual exclusion, first come first served,
  and progress, for fewer than \<open>2 ^ 32\<close> and \<open>2 ^ 24\<close> threads; a \<^verbatim>\<open>try_lock\<close> whose exchange comes \<open>2 ^ 32\<close> tickets
  after its load is left out.  \<^verbatim>\<open>Errors\<close> has the error codes of \<^verbatim>\<open>core/errors.hpp\<close>.

  \<^bold>\<open>The scheduler.\<close>  \<^verbatim>\<open>Eevdf\<close> follows \<^verbatim>\<open>sched/eevdf.hpp\<close> and \<^verbatim>\<open>sched/eevdf.cpp\<close>: the entity and the queue are records,
  the weighted sum of virtual runtimes has 128 bits.  \<^verbatim>\<open>EevdfSpec\<close> holds the invariant (tree, order, subtree minima,
  running totals) and what each operation does to it, \<^verbatim>\<open>EevdfSteps\<close> the queue as a state machine and the relation
  of weight and rate, \<^verbatim>\<open>EevdfProps\<close> the properties: \<open>pick\<close> is earliest eligible deadline first, every
  reachable state is consistent, where an entity is placed when it joins, how time is charged by weight, and the
  lag kept on leaving.  Virtual times are assumed to stay within 64 bits, as the source does.  \<^verbatim>\<open>BmiWord\<close> models the
  slot allocator of \<^verbatim>\<open>bmi_word.hpp\<close>; \<^verbatim>\<open>NumaDomain\<close>, \<^verbatim>\<open>NumaSpec\<close> and \<^verbatim>\<open>NumaProps\<close> the domains of
  \<^verbatim>\<open>sched/numa_domain.cpp\<close>, whose storage comes from a page allocator that is a parameter: idle bits and counts agree
  after any sequence of operations, and settle after any interleaving of their atomic parts.

  \<^bold>\<open>Physical memory.\<close>  \<^verbatim>\<open>FreeArea\<close> has the bit fields of \<^verbatim>\<open>bitfield.hpp\<close>, the page descriptor and the free list of one
  order (\<^verbatim>\<open>page.hpp\<close>, \<^verbatim>\<open>free_area.hpp\<close>), \<^verbatim>\<open>Buddy\<close> what a zone does under its lock and \<^verbatim>\<open>Pcp\<close> the per-CPU caches and the
  public operations (\<^verbatim>\<open>mobility-zone.hpp\<close>, \<^verbatim>\<open>mobility-zone.cpp\<close>, \<^verbatim>\<open>pcp_cache.hpp\<close>).  \<^verbatim>\<open>BuddyInv\<close> and \<^verbatim>\<open>BuddyProps\<close> show that
  merging and splitting keep the zone coalesced and what they do to the set of free frames; \<^verbatim>\<open>PcpProps\<close>,
  \<^verbatim>\<open>ZoneProps\<close> and \<^verbatim>\<open>ZoneCaches\<close> add the caches and the deferred ring; \<^verbatim>\<open>ZoneFrames\<close> has the properties: the frames of
  a zone are conserved over any sequence of calls of any CPUs, an allocation fails only if no aligned run is
  free, a free always goes through, and a steal takes the largest block.  Frame numbers are below \<open>2 ^ 32\<close>.  A whole
  call is one step, a zone is taken with its own view of the descriptors, the deferred ring is the list of its
  published entries, and boot's injection is shown to fit for blocks whose buddy is absent (\<open>inject_ok\<close>).

  \<^bold>\<open>The C library.\<close>  \<^verbatim>\<open>Swar\<close> is the byte memory with the word-at-a-time helpers, \<^verbatim>\<open>MemFuns\<close> the memory functions,
  \<^verbatim>\<open>StrText\<close>, \<^verbatim>\<open>StrScan\<close> and \<^verbatim>\<open>StrOps\<close> the string functions, \<^verbatim>\<open>QSort\<close> the sort, \<^verbatim>\<open>StdNum\<close>, \<^verbatim>\<open>StdProps\<close> and
  \<^verbatim>\<open>BSearchProps\<close> characters, numbers and the search, each against a description on bytes or lists.  Ranges do not
  wrap around the address space, arrays have at most \<open>2 ^ 63\<close> elements or bytes, and comparison functions are
  parameters.  The functions that return their destination are modelled by their effect on memory.

  \<^bold>\<open>Cryptography.\<close>  \<^verbatim>\<open>ChaCha\<close> and \<^verbatim>\<open>ChaChaProps\<close> cover \<^verbatim>\<open>chacha20.cpp\<close> and the key-erasing generator, \<^verbatim>\<open>Blake2b\<close> and
  \<^verbatim>\<open>Blake2bProps\<close> the incremental hash against a one-pass description after RFC 7693.  That description shares the
  compression function with the model, so the property is about buffering, counters, keys and padding.

  \<^bold>\<open>Not modelled.\<close>  The hardware layer (\<^verbatim>\<open>hal\<close>), drivers, boot code and code patching act on device and CPU state.
  Page tables and address spaces (\<^verbatim>\<open>memory/vmm\<close>) depend on the MMU, the slab heap (\<^verbatim>\<open>memory/heap.cpp\<close>) threads its
  lists through the objects it hands out, and the router above the zones parses what firmware provides.  Threads,
  context switches and the run queue around the fair queue, the queue spinlock, the containers that own heap
  memory (hash map, vector, B+ tree), text formatting and the entropy pool are left out, as are the tests.  Weak
  memory orderings are not modelled: every atomic access takes effect at once.
\<close>

end
